(* ===== verification/Prelude.thy ===== *)
theory Prelude
  imports
    Complex_Main
    "HOL-Library.AList"
    "HOL-Library.Multiset"
    "HOL-Library.List_Lexorder"
    "HOL-Library.Char_ord"
    "HOL-Library.Product_Lexorder"
    "HOL-Library.Word"
begin

text \<open>
  What every theory of the development shares: the Python values the broker's code handles
  (exceptions as values, JSON objects, insertion-ordered dictionaries, the string methods the
  code calls), the fact collections of the development, and the generic lemmas about association
  lists that its proofs rest on.

  A Python \<open>dict\<close> keeps the order in which its keys were first inserted, and the code
  iterates over its dictionaries, so a dictionary is an association list with distinct keys:
  \<open>d.get(k)\<close> is \<open>map_of d k\<close>, \<open>d[k] = v\<close> is \<open>dset k v d\<close> (in place for a key that is
  there, at the end for a new one) and \<open>d.pop(k, None)\<close> is \<open>ddel k d\<close>.
\<close>

section \<open>Fact collections\<close>

named_theorems frame_simps \<open>what an operation leaves unchanged\<close>
named_theorems inv_intros \<open>an operation keeps an invariant\<close>

section \<open>Python values\<close>

text \<open>Exceptions the modelled code raises or lets through. They do not roll the state back, so an
  operation that can raise returns the state it has reached together with the exception.\<close>

datatype py_error =
    ValueError string
  | KeyError string
  | TypeError string
  | RuntimeError string
  | StructError

text \<open>JSON values, as the \<open>json\<close> module reads and writes them. \<open>None\<close> is \<open>JNull\<close>; an object is
  a dictionary.\<close>

datatype json =
    JNull
  | JBool bool
  | JInt int
  | JFloat real
  | JStr string
  | JList "json list"
  | JObj "(string \<times> json) list"

type_synonym time = real
type_synonym byte = "8 word"
type_synonym bytes = "8 word list"

abbreviation dset :: "'k \<Rightarrow> 'v \<Rightarrow> ('k \<times> 'v) list \<Rightarrow> ('k \<times> 'v) list" where
  "dset \<equiv> AList.update"

abbreviation ddel :: "'k \<Rightarrow> ('k \<times> 'v) list \<Rightarrow> ('k \<times> 'v) list" where
  "ddel \<equiv> AList.delete"

abbreviation dkeys :: "('k \<times> 'v) list \<Rightarrow> 'k set" where
  "dkeys d \<equiv> fst ` set d"

definition dict_ok :: "('k \<times> 'v) list \<Rightarrow> bool" where
  "dict_ok d \<longleftrightarrow> distinct (map fst d)"

text \<open>\<open>str.endswith\<close> and \<open>s[:-n]\<close>.\<close>

definition ends_with :: "string \<Rightarrow> string \<Rightarrow> bool" where
  "ends_with s suf \<longleftrightarrow> length suf \<le> length s \<and> drop (length s - length suf) s = suf"

definition drop_end :: "nat \<Rightarrow> string \<Rightarrow> string" where
  "drop_end n s = take (length s - n) s"

section \<open>Dictionaries\<close>

lemma map_of_dset [simp]: "map_of (dset k v d) = (map_of d)(k \<mapsto> v)"
  by (simp add: update_conv')

lemma map_of_ddel [simp]: "map_of (ddel k d) = (map_of d)(k := None)"
  by (simp add: delete_conv')

lemma dict_ok_Nil [simp]: "dict_ok []"
  by (simp add: dict_ok_def)

lemma dict_ok_dset [simp, intro]: "dict_ok d \<Longrightarrow> dict_ok (dset k v d)"
  by (simp add: dict_ok_def distinct_update)

lemma dict_ok_ddel [simp, intro]: "dict_ok d \<Longrightarrow> dict_ok (ddel k d)"
  by (simp add: dict_ok_def distinct_delete)

lemma dkeys_iff: "k \<in> dkeys d \<longleftrightarrow> map_of d k \<noteq> None"
  by (simp add: map_of_eq_None_iff)

lemma dkeys_dom: "dkeys d = dom (map_of d)"
  by (simp add: dom_map_of_conv_image_fst)

lemma map_of_in_set: "map_of d k = Some v \<Longrightarrow> (k, v) \<in> set d"
  by (rule map_of_SomeD)

lemma in_set_map_of: "dict_ok d \<Longrightarrow> (k, v) \<in> set d \<Longrightarrow> map_of d k = Some v"
  by (simp add: dict_ok_def)

lemma length_dset:
  "length (dset k v d) = (if k \<in> dkeys d then length d else Suc (length d))"
  by (induction d) auto

lemma length_ddel_in:
  "dict_ok d \<Longrightarrow> k \<in> dkeys d \<Longrightarrow> Suc (length (ddel k d)) = length d"
proof (induction d)
  case Nil
  then show ?case by simp
next
  case (Cons p d)
  obtain a b where p: "p = (a, b)" by (cases p)
  show ?case
  proof (cases "a = k")
    case True
    with Cons.prems p have "k \<notin> dkeys d" by (auto simp: dict_ok_def)
    with True p show ?thesis by (simp add: delete_idem)
  next
    case False
    with Cons p show ?thesis by (auto simp: dict_ok_def)
  qed
qed

lemma length_ddel_le: "length (ddel k d) \<le> length d"
  by (rule length_delete_le)

lemma map_fst_dset:
  "map fst (dset k v d) = (if k \<in> dkeys d then map fst d else map fst d @ [k])"
  by (induction d) auto

section \<open>Strings\<close>

lemma ends_with_append [simp]: "ends_with (s @ suf) suf"
  by (simp add: ends_with_def)

lemma ends_with_iff: "ends_with s suf \<longleftrightarrow> (\<exists>p. s = p @ suf)"
proof
  assume "ends_with s suf"
  then have "s = take (length s - length suf) s @ suf"
    by (simp add: ends_with_def) (metis append_take_drop_id)
  then show "\<exists>p. s = p @ suf" ..
qed auto

lemma drop_end_append [simp]: "drop_end (length suf) (p @ suf) = p"
  by (simp add: drop_end_def)

end
