(* ===== verification/Message.thy ===== *)
theory Message
  imports Prelude
begin

text \<open>
  The values the core passes around: messages (\<open>core/message.py\<close>), in-flight records
  (\<open>core/inflight.py\<close>), operation results (\<open>core/results.py\<close>), journal entries (the calls
  \<open>journal.append(op, meta, payload)\<close> of \<open>core/queue.py\<close>), and the two pure helpers of the core:
  dead-letter names (\<open>core/dlq.py\<close>) and retry delays (\<open>core/retry.py\<close>).

  Python floats (times, delays) are real numbers: rounding, infinities, NaN and the overflow of
  a float power are not modelled. Python integers are \<open>int\<close>. The \<open>headers\<close> of a message are a JSON
  value, \<open>JNull\<close> for \<open>None\<close>.
\<close>

section \<open>Messages and records\<close>

record message =
  msg_id :: string
  msg_queue :: string
  payload :: bytes
  created_at :: time
  attempts :: int
  max_attempts :: int
  priority :: int
  headers :: json
  available_at :: "time option"
  exchange :: string
  routing_key :: string

text \<open>\<open>Message.create\<close>: \<open>uid\<close> is the value \<open>str(uuid.uuid4())\<close> would have and \<open>wall\<close> the one of
  \<open>time.time()\<close>; each is used only where no id or time is given (an empty id counts as none).\<close>

definition message_create ::
  "string \<Rightarrow> bytes \<Rightarrow> int \<Rightarrow> int \<Rightarrow> json \<Rightarrow> time option \<Rightarrow> string \<Rightarrow> string \<Rightarrow> string option \<Rightarrow>
   time option \<Rightarrow> int \<Rightarrow> string \<Rightarrow> time \<Rightarrow> message" where
  "message_create q pl max_att prio hdrs avail exch rk mid created att uid wall =
     \<lparr>msg_id = (case mid of None \<Rightarrow> uid | Some i \<Rightarrow> if i = [] then uid else i),
      msg_queue = q,
      payload = pl,
      created_at = (case created of None \<Rightarrow> wall | Some t \<Rightarrow> t),
      attempts = att,
      max_attempts = max_att,
      priority = prio,
      headers = hdrs,
      available_at = avail,
      exchange = exch,
      routing_key = rk\<rparr>"

record inflight_record =
  rec_message_id :: string
  rec_queue :: string
  rec_consumer :: string
  delivery_time :: time
  visibility_deadline :: time

datatype ack_result = AckOK | AckNotFound | AckAlreadyAcked

datatype nack_result = NackOK | NackNotFound | NackUnknownDelivery

datatype enqueue_result = EnqOK | EnqQueueFull | EnqNotFound

record journal_entry =
  j_op :: string
  j_meta :: "(string \<times> json) list"
  j_payload :: bytes

text \<open>How optional values appear in a journal entry's metadata.\<close>

definition json_time :: "time option \<Rightarrow> json" where
  "json_time t = (case t of None \<Rightarrow> JNull | Some x \<Rightarrow> JFloat x)"

definition json_int :: "int option \<Rightarrow> json" where
  "json_int n = (case n of None \<Rightarrow> JNull | Some x \<Rightarrow> JInt x)"

section \<open>Dead-letter names\<close>

definition DLQ_SUFFIX :: string where
  "DLQ_SUFFIX = ''.DLQ''"

definition dlq_name :: "string \<Rightarrow> string" where
  "dlq_name q = (if ends_with q DLQ_SUFFIX then q else q @ DLQ_SUFFIX)"

definition is_dlq :: "string \<Rightarrow> bool" where
  "is_dlq q \<longleftrightarrow> ends_with q DLQ_SUFFIX"

definition origin_queue :: "string \<Rightarrow> string" where
  "origin_queue d = (if ends_with d DLQ_SUFFIX then drop_end (length DLQ_SUFFIX) d else d)"

lemma is_dlq_dlq_name [simp]: "is_dlq (dlq_name q)"
  by (simp add: is_dlq_def dlq_name_def)

lemma dlq_name_idem [simp]: "dlq_name (dlq_name q) = dlq_name q"
  by (simp add: dlq_name_def)

lemma dlq_name_neq: "\<not> is_dlq q \<Longrightarrow> dlq_name q \<noteq> q"
  by (metis is_dlq_dlq_name)

lemma dlq_name_is_dlq: "is_dlq q \<Longrightarrow> dlq_name q = q"
  by (simp add: dlq_name_def is_dlq_def)

lemma origin_dlq_name: "origin_queue (dlq_name q) = origin_queue q"
  by (simp add: origin_queue_def dlq_name_def)

lemma origin_not_dlq: "\<not> is_dlq q \<Longrightarrow> origin_queue q = q"
  by (simp add: origin_queue_def is_dlq_def)

lemma dlq_name_origin: "is_dlq d \<Longrightarrow> \<not> is_dlq (origin_queue d) \<Longrightarrow> dlq_name (origin_queue d) = d"
  by (auto simp: is_dlq_def origin_queue_def dlq_name_def ends_with_iff drop_end_def)

text \<open>Dead-letter names pair queues one to one: the dead-letter queue of a queue that is not
  itself a dead-letter queue leads back to that queue and to no other, it is never the queue
  itself, and taking the dead-letter name again changes nothing.\<close>

theorem dlq_names_pair_queues:
  "\<not> is_dlq q \<Longrightarrow>
   origin_queue (dlq_name q) = q \<and> is_dlq (dlq_name q) \<and> dlq_name q \<noteq> q \<and>
   dlq_name (dlq_name q) = dlq_name q \<and>
   (\<forall>q'. \<not> is_dlq q' \<longrightarrow> dlq_name q' = dlq_name q \<longrightarrow> q' = q)"
proof -
  assume q: "\<not> is_dlq q"
  have "q' = q" if "\<not> is_dlq q'" "dlq_name q' = dlq_name q" for q'
  proof -
    have "origin_queue (dlq_name q') = origin_queue (dlq_name q)" using that(2) by (rule arg_cong)
    then show ?thesis using q that(1) by (simp add: origin_dlq_name origin_not_dlq)
  qed
  then show ?thesis using q by (simp add: origin_dlq_name origin_not_dlq dlq_name_neq)
qed

theorem dlq_names_pair_queues_witness:
  "\<not> is_dlq ''gpu'' \<and> origin_queue (dlq_name ''gpu'') = ''gpu'' \<and> dlq_name ''gpu'' = ''gpu.DLQ''"
proof -
  have h: "\<not> is_dlq ''gpu''" by (simp add: is_dlq_def ends_with_def DLQ_SUFFIX_def)
  have "origin_queue (dlq_name ''gpu'') = ''gpu''"
    using dlq_names_pair_queues [OF h] by (rule conjunct1)
  then show ?thesis using h by (simp add: dlq_name_def ends_with_def DLQ_SUFFIX_def)
qed

section \<open>Retry delays\<close>

definition retry_delay :: "int \<Rightarrow> string \<Rightarrow> real \<Rightarrow> time" where
  "retry_delay att mode base =
     (let att = (if att < 1 then 1 else att)
      in if mode = ''fixed'' then base else base * 2 ^ nat (att - 1))"

lemma retry_delay_nonneg: "0 \<le> base \<Longrightarrow> 0 \<le> retry_delay att mode base"
  by (simp add: retry_delay_def Let_def)

text \<open>The retry delay: in fixed mode it is the base delay; otherwise the first retry waits the
  base delay and each further attempt doubles the delay. With a base delay that is not negative
  the delay never is and never shrinks from one attempt to the next.\<close>

theorem retry_delay_doubles:
  assumes "0 \<le> base" "1 \<le> a" "a \<le> b" "mode \<noteq> ''fixed''"
  shows "retry_delay a ''fixed'' base = base \<and> retry_delay 1 mode base = base \<and>
    retry_delay (a + 1) mode base = 2 * retry_delay a mode base \<and>
    0 \<le> retry_delay a mode base \<and> retry_delay a mode base \<le> retry_delay b mode base"
proof -
  have "nat a = Suc (nat (a - 1))" using assms(2) by simp
  then have "retry_delay (a + 1) mode base = 2 * retry_delay a mode base"
    using assms by (simp add: retry_delay_def)
  moreover have "retry_delay a mode base \<le> retry_delay b mode base"
    using assms by (auto simp: retry_delay_def intro!: mult_left_mono)
  ultimately show ?thesis using assms by (simp add: retry_delay_def)
qed

theorem retry_delay_doubles_witness:
  "retry_delay 2 ''exponential'' 1 = 2 * retry_delay 1 ''exponential'' 1 \<and>
   retry_delay 1 ''exponential'' 1 \<le> retry_delay 3 ''exponential'' 1"
  using retry_delay_doubles [of 1 1 3 "''exponential''"] by simp

end
