(* ===== verification/Heapq.thy ===== *)
theory Heapq
  imports Prelude
begin

text \<open>
  The \<open>heapq\<close> module of the Python standard library, on which the ready queues, the visibility
  deadlines and the delayed messages rest, as the algorithms of its documentation: an array in
  which the parent of position \<open>i\<close> is position \<open>(i - 1) div 2\<close>. The interface the broker relies
  on is the locale \<open>min_heap\<close>; \<open>heappush\<close>, \<open>heappop\<close> and \<open>heapify\<close> are proved to provide it.
\<close>

section \<open>The interface\<close>

locale min_heap =
  fixes push :: "'h \<Rightarrow> 'a::linorder \<Rightarrow> 'h"
    and pop :: "'h \<Rightarrow> ('a \<times> 'h) option"
    and peek :: "'h \<Rightarrow> 'a option"
    and elems :: "'h \<Rightarrow> 'a multiset"
    and hinv :: "'h \<Rightarrow> bool"
  assumes push_elems: "elems (push h x) = add_mset x (elems h)"
    and push_inv: "hinv h \<Longrightarrow> hinv (push h x)"
    and pop_None: "pop h = None \<longleftrightarrow> elems h = {#}"
    and pop_elems: "pop h = Some (x, h') \<Longrightarrow> elems h = add_mset x (elems h')"
    and pop_inv: "pop h = Some (x, h') \<Longrightarrow> hinv h \<Longrightarrow> hinv h'"
    and pop_min: "pop h = Some (x, h') \<Longrightarrow> hinv h \<Longrightarrow> y \<in># elems h \<Longrightarrow> x \<le> y"
    and peek_pop: "peek h = map_option fst (pop h)"
begin

lemma pop_size: "pop h = Some (x, h') \<Longrightarrow> size (elems h') < size (elems h)"
  by (drule pop_elems) simp

lemma pop_mem: "pop h = Some (x, h') \<Longrightarrow> x \<in># elems h"
  by (drule pop_elems) simp

lemma pop_rest: "pop h = Some (x, h') \<Longrightarrow> y \<in># elems h \<Longrightarrow> y = x \<or> y \<in># elems h'"
  by (drule pop_elems) auto

lemma pop_sub: "pop h = Some (x, h') \<Longrightarrow> y \<in># elems h' \<Longrightarrow> y \<in># elems h"
  by (drule pop_elems) auto

lemma peek_min: "peek h = Some x \<Longrightarrow> hinv h \<Longrightarrow> y \<in># elems h \<Longrightarrow> x \<le> y"
  using pop_min by (auto simp: peek_pop)

lemma pop_peek: "pop h = Some (x, h') \<Longrightarrow> peek h = Some x"
  by (simp add: peek_pop)

end

section \<open>The algorithms\<close>

abbreviation parent :: "nat \<Rightarrow> nat" where
  "parent i \<equiv> (i - 1) div 2"

text \<open>\<open>_siftdown(heap, startpos, pos)\<close> moves the item at \<open>pos\<close> towards \<open>startpos\<close> past larger
  parents; \<open>_siftup(heap, pos)\<close> moves the smaller child up until \<open>pos\<close> is a leaf, puts the item
  there and sifts it down again. \<open>x\<close> is the code's \<open>newitem\<close>.\<close>

function siftdown_loop :: "'a::linorder list \<Rightarrow> nat \<Rightarrow> nat \<Rightarrow> 'a \<Rightarrow> 'a list" where
  "siftdown_loop h start pos x =
     (if start < pos \<and> x < h ! parent pos
      then siftdown_loop (h[pos := h ! parent pos]) start (parent pos) x
      else h[pos := x])"
  by pat_completeness auto
termination
  by (relation "measure (\<lambda>(h, start, pos, x). pos)") auto

definition siftdown :: "'a::linorder list \<Rightarrow> nat \<Rightarrow> nat \<Rightarrow> 'a list" where
  "siftdown h start pos = siftdown_loop h start pos (h ! pos)"

definition min_child :: "'a::linorder list \<Rightarrow> nat \<Rightarrow> nat" where
  "min_child h pos =
     (if 2 * pos + 2 < length h \<and> \<not> h ! (2 * pos + 1) < h ! (2 * pos + 2)
      then 2 * pos + 2 else 2 * pos + 1)"

function siftup_loop :: "'a::linorder list \<Rightarrow> nat \<Rightarrow> 'a list \<times> nat" where
  "siftup_loop h pos =
     (if 2 * pos + 1 < length h
      then siftup_loop (h[pos := h ! min_child h pos]) (min_child h pos)
      else (h, pos))"
  by pat_completeness auto
termination
  by (relation "measure (\<lambda>(h, pos). length h - pos)") (auto simp: min_child_def)

declare siftdown_loop.simps [simp del] siftup_loop.simps [simp del]

definition siftup :: "'a::linorder list \<Rightarrow> nat \<Rightarrow> 'a list" where
  "siftup h pos =
     (case siftup_loop h pos of (h', leaf) \<Rightarrow> siftdown (h'[leaf := h ! pos]) pos leaf)"

definition heappush :: "'a::linorder list \<Rightarrow> 'a \<Rightarrow> 'a list" where
  "heappush h x = siftdown (h @ [x]) 0 (length h)"

text \<open>\<open>heappop\<close> raises \<open>IndexError\<close> on an empty heap: \<open>None\<close>.\<close>

definition heappop :: "'a::linorder list \<Rightarrow> ('a \<times> 'a list) option" where
  "heappop h =
     (if h = [] then None
      else if butlast h = [] then Some (last h, [])
      else Some (hd h, siftup ((butlast h)[0 := last h]) 0))"

definition heappeek :: "'a list \<Rightarrow> 'a option" where
  "heappeek h = (case h of [] \<Rightarrow> None | x # _ \<Rightarrow> Some x)"

definition heapify :: "'a::linorder list \<Rightarrow> 'a list" where
  "heapify h = fold (\<lambda>i xs. siftup xs i) (rev [0..<length h div 2]) h"


section \<open>Content\<close>

lemma length_siftdown_loop [simp]: "length (siftdown_loop h s p x) = length h"
proof (induction h s p x rule: siftdown_loop.induct)
  case (1 h s p x)
  then show ?case by (subst siftdown_loop.simps) simp
qed

lemma length_siftup_loop: "siftup_loop h p = (h', l) \<Longrightarrow> length h' = length h"
proof (induction h p arbitrary: h' l rule: siftup_loop.induct)
  case (1 h p)
  then show ?case by (subst (asm) (2) siftup_loop.simps) (auto split: if_splits)
qed

lemma siftup_loop_leaf: "siftup_loop h p = (h', l) \<Longrightarrow> p < length h \<Longrightarrow> l < length h"
proof (induction h p arbitrary: h' l rule: siftup_loop.induct)
  case (1 h p)
  show ?case
  proof (cases "2 * p + 1 < length h")
    case True
    with "1.prems" have "siftup_loop (h[p := h ! min_child h p]) (min_child h p) = (h', l)"
      by (subst (asm) siftup_loop.simps) simp
    moreover have "min_child h p < length (h[p := h ! min_child h p])"
      using True by (simp add: min_child_def)
    ultimately show ?thesis using "1.IH" [OF True] by fastforce
  next
    case False
    with "1.prems" show ?thesis by (subst (asm) siftup_loop.simps) auto
  qed
qed

text \<open>Moving the value of one position to another and a new item to the first is a swap.\<close>

lemma mset_move:
  assumes "i < length h" "j < length h" "i \<noteq> j"
  shows "mset (h[i := h ! j, j := x]) = mset (h[i := x])"
proof -
  have "mset ((h[i := x])[j := h[i := x] ! i, i := h[i := x] ! j]) = mset (h[i := x])"
    using assms by (intro mset_swap) simp_all
  moreover have "h[i := x, j := x, i := h ! j] = h[i := x, i := h ! j, j := x]"
    using assms(3) by (rule list_update_swap [of j i, OF not_sym])
  ultimately show ?thesis using assms by simp
qed

lemma parent_less: "0 < p \<Longrightarrow> parent p < p"
  by (cases p) simp_all

lemma mset_siftdown_loop:
  "p < length h \<Longrightarrow> mset (siftdown_loop h s p x) = mset (h[p := x])"
proof (induction h s p x rule: siftdown_loop.induct)
  case (1 h s p x)
  show ?case
  proof (cases "s < p \<and> x < h ! parent p")
    case True
    then have p: "parent p < p" by (intro parent_less) auto
    have "siftdown_loop h s p x = siftdown_loop (h[p := h ! parent p]) s (parent p) x"
      using True by (subst siftdown_loop.simps) simp
    also have "mset \<dots> = mset (h[p := h ! parent p, parent p := x])"
      using "1.IH" [OF True] "1.prems" p by simp
    also have "\<dots> = mset (h[p := x])"
      using "1.prems" p by (intro mset_move) auto
    finally show ?thesis .
  next
    case False
    then show ?thesis by (subst siftdown_loop.simps) auto
  qed
qed

lemma min_child_bounds:
  assumes "2 * p + 1 < length h"
  shows "p < min_child h p" and "min_child h p < length h" and "parent (min_child h p) = p"
  using assms by (auto simp: min_child_def)

lemma mset_siftup_loop:
  "siftup_loop h p = (h', l) \<Longrightarrow> p < length h \<Longrightarrow> mset (h'[l := x]) = mset (h[p := x])"
proof (induction h p arbitrary: h' l rule: siftup_loop.induct)
  case (1 h p)
  show ?case
  proof (cases "2 * p + 1 < length h")
    case True
    let ?c = "min_child h p"
    have c: "p < ?c" "?c < length h" using min_child_bounds [OF True] by simp_all
    from "1.prems" True have "siftup_loop (h[p := h ! ?c]) ?c = (h', l)"
      by (subst (asm) siftup_loop.simps) simp
    then have "mset (h'[l := x]) = mset (h[p := h ! ?c, ?c := x])"
      using "1.IH" [OF True] c by simp
    also have "\<dots> = mset (h[p := x])" using c "1.prems"(2) by (intro mset_move) auto
    finally show ?thesis .
  next
    case False
    with "1.prems" show ?thesis by (subst (asm) siftup_loop.simps) simp
  qed
qed

lemma siftup_props:
  assumes "p < length h"
  shows length_siftup: "length (siftup h p) = length h"
    and mset_siftup: "mset (siftup h p) = mset h"
proof -
  obtain h' l where hl: "siftup_loop h p = (h', l)" by fastforce
  have len: "length h' = length h" using length_siftup_loop [OF hl] .
  have l: "l < length h" using siftup_loop_leaf [OF hl assms] .
  show "length (siftup h p) = length h"
    by (simp add: siftup_def hl siftdown_def len)
  have "mset (siftup h p) = mset (h'[l := h ! p])"
    using l len by (simp add: siftup_def hl siftdown_def mset_siftdown_loop)
  also have "\<dots> = mset (h[p := h ! p])" by (rule mset_siftup_loop [OF hl assms])
  finally show "mset (siftup h p) = mset h" by simp
qed

lemma mset_heappush: "mset (heappush h x) = add_mset x (mset h)"
  by (simp add: heappush_def siftdown_def mset_siftdown_loop)

lemma heappop_cases:
  assumes "heappop h = Some (x, h')"
  obtains (single) "h = [x]" "h' = []"
  | (more) y ys where "h = x # ys @ [y]" "h' = siftup ((x # ys)[0 := y]) 0"
proof (cases "butlast h = []")
  case True
  with assms show ?thesis
    by (intro single) (auto simp: heappop_def butlast_conv_take split: if_splits,
      cases h, auto)
next
  case False
  then obtain z ys where b: "butlast h = z # ys" by (cases "butlast h") auto
  moreover from False have "h = butlast h @ [last h]" by (cases "h = []") simp_all
  ultimately have h: "h = z # ys @ [last h]" by simp
  have "x = z" "h' = siftup ((butlast h)[0 := last h]) 0"
    using assms False h by (auto simp: heappop_def split: if_splits) (metis list.sel(1))
  with h b more show ?thesis by metis
qed

lemma mset_heappop: "heappop h = Some (x, h') \<Longrightarrow> mset h = add_mset x (mset h')"
  by (erule heappop_cases) (auto simp: mset_siftup)

lemma heappop_None [simp]: "heappop h = None \<longleftrightarrow> h = []"
  by (simp add: heappop_def)

lemma heappop_Nil [simp]: "heappop [] = None"
  by simp

lemma length_heappop: "heappop h = Some (x, h') \<Longrightarrow> length h' < length h"
  by (erule heappop_cases) (auto simp: length_siftup)

lemma set_heappush [simp]: "set (heappush h x) = insert x (set h)"
  using arg_cong [OF mset_heappush, of set_mset h x] by simp

lemma set_heappop: "heappop h = Some (x, h') \<Longrightarrow> set h = insert x (set h')"
  using arg_cong [OF mset_heappop, of h x h' set_mset] by simp

lemma length_heappush [simp]: "length (heappush h x) = Suc (length h)"
  by (simp add: heappush_def siftdown_def)


section \<open>Order\<close>

text \<open>\<open>heap_from s\<close>: every edge whose parent is at or after position \<open>s\<close> is in order. The whole
  array is a heap when \<open>s = 0\<close>; \<open>heapify\<close> brings \<open>s\<close> down from the middle to 0.\<close>

definition heap_from :: "nat \<Rightarrow> 'a::linorder list \<Rightarrow> bool" where
  "heap_from s h \<longleftrightarrow> (\<forall>i < length h. 0 < i \<longrightarrow> s \<le> parent i \<longrightarrow> h ! parent i \<le> h ! i)"

abbreviation is_heap :: "'a::linorder list \<Rightarrow> bool" where
  "is_heap \<equiv> heap_from 0"

text \<open>Position \<open>p\<close> lies in the subtree of \<open>s\<close>.\<close>

inductive below :: "nat \<Rightarrow> nat \<Rightarrow> bool" for s where
  here: "below s s"
| child: "below s (parent p) \<Longrightarrow> 0 < p \<Longrightarrow> below s p"

lemma below_ge: "below s p \<Longrightarrow> s \<le> p"
  by (induction rule: below.induct) auto

lemma below_parent: "below s p \<Longrightarrow> s < p \<Longrightarrow> below s (parent p)"
  by (erule below.cases) auto

lemma below_zero: "below 0 p"
proof (induction p rule: less_induct)
  case (less p)
  show ?case
  proof (cases "p = 0")
    case False
    then have "below 0 (parent p)" using less parent_less by blast
    then show ?thesis using below.child [of 0 p] False by simp
  qed (simp add: below.here)
qed

text \<open>The invariant of \<open>siftdown_loop\<close>, for the array with the new item in the hole: every edge
  but the one above the hole is in order, and the children of the hole are in order with its
  parent.\<close>

definition down_inv :: "nat \<Rightarrow> 'a::linorder list \<Rightarrow> nat \<Rightarrow> bool" where
  "down_inv s g p \<longleftrightarrow>
     (\<forall>i < length g. 0 < i \<longrightarrow> s \<le> parent i \<longrightarrow> i \<noteq> p \<longrightarrow> g ! parent i \<le> g ! i) \<and>
     (\<forall>i < length g. 0 < i \<longrightarrow> parent i = p \<longrightarrow> s < p \<longrightarrow> g ! parent p \<le> g ! i)"

lemma down_inv_step:
  assumes inv: "down_inv s (h[p := x]) p" and p: "p < length h" and below: "below s p"
    and less: "s < p" "x < h ! parent p"
  shows "down_inv s (h[p := h ! parent p, parent p := x]) (parent p)"
proof -
  let ?q = "parent p" and ?g = "h[p := x]"
  let ?k = "h[p := h ! ?q, ?q := x]"
  have q: "?q < p" using less parent_less by auto
  have sq: "s \<le> ?q" using below_ge [OF below_parent [OF below less(1)]] .
  have edge: "?g ! parent i \<le> ?g ! i" if "i < length h" "0 < i" "s \<le> parent i" "i \<noteq> p" for i
    using inv that by (simp add: down_inv_def)
  have skip: "h ! ?q \<le> h ! i" if "i < length h" "0 < i" "parent i = p" for i
    using inv that less(1) q p by (auto simp: down_inv_def nth_list_update)
  have kp: "?k ! p = h ! ?q" and kq: "?k ! ?q = x"
    and ko: "\<And>i. i \<noteq> p \<Longrightarrow> i \<noteq> ?q \<Longrightarrow> ?k ! i = h ! i"
    using p q by (auto simp: nth_list_update)
  have go: "\<And>i. i \<noteq> p \<Longrightarrow> ?g ! i = h ! i" by simp
  have one: "?k ! parent i \<le> ?k ! i"
    if i: "i < length h" "0 < i" "s \<le> parent i" "i \<noteq> ?q" for i
  proof (cases "i = p")
    case True
    then show ?thesis using kp kq less(2) by simp
  next
    case False
    consider "parent i = p" | "parent i = ?q" | "parent i \<noteq> p" "parent i \<noteq> ?q" by blast
    then show ?thesis
    proof cases
      case 1
      then show ?thesis using skip i kp ko False by metis
    next
      case 2
      have "h ! ?q \<le> h ! i" using edge [OF i(1-3) False] 2 go q False by (metis less_irrefl)
      then have "x \<le> h ! i" using less(2) by simp
      moreover have "?k ! parent i = x" using 2 kq by simp
      moreover have "?k ! i = h ! i" using ko False i(4) by blast
      ultimately show ?thesis by simp
    next
      case 3
      then show ?thesis using edge [OF i(1-3) False] go ko False i(4) by metis
    qed
  qed
  have two: "?k ! parent ?q \<le> ?k ! i"
    if i: "i < length h" "0 < i" "parent i = ?q" "s < ?q" for i
  proof -
    have pq: "parent ?q < ?q" using i(4) parent_less by auto
    have "s \<le> parent ?q"
      using below_ge [OF below_parent [OF below_parent [OF below less(1)] i(4)]] .
    then have up: "h ! parent ?q \<le> h ! ?q"
      using edge [of ?q] q p i(4) pq go [of ?q] go [of "parent ?q"] by auto
    have kpq: "?k ! parent ?q = h ! parent ?q" using ko pq q by (metis less_irrefl less_trans)
    show ?thesis
    proof (cases "i = p")
      case True
      then show ?thesis using up kp kpq by simp
    next
      case False
      have "i \<noteq> ?q" using i(2,3) parent_less by (metis less_irrefl)
      moreover have "h ! ?q \<le> h ! i"
        using edge [OF i(1,2) _ False] i(3) sq go q False by (metis less_irrefl)
      ultimately show ?thesis using up kpq ko False by (metis order_trans)
    qed
  qed
  show ?thesis unfolding down_inv_def using one two by simp
qed

lemma heap_from_siftdown_loop:
  "down_inv s (h[p := x]) p \<Longrightarrow> p < length h \<Longrightarrow> below s p \<Longrightarrow> heap_from s (siftdown_loop h s p x)"
proof (induction h s p x rule: siftdown_loop.induct)
  case (1 h s p x)
  show ?case
  proof (cases "s < p \<and> x < h ! parent p")
    case True
    then have q: "parent p < p" by (intro parent_less) auto
    have "heap_from s (siftdown_loop (h[p := h ! parent p]) s (parent p) x)"
      using "1.IH" [OF True] down_inv_step [OF "1.prems"] True q "1.prems"(2,3) below_parent
      by auto
    with True show ?thesis by (subst siftdown_loop.simps) simp
  next
    case False
    have "h[p := x] ! parent p \<le> h[p := x] ! p" if "0 < p" "s \<le> parent p"
    proof -
      have "s < p" "parent p < p" using that parent_less [of p] by auto
      with False "1.prems"(2) show ?thesis by (auto simp: not_less)
    qed
    note top = this
    have "heap_from s (h[p := x])"
      unfolding heap_from_def
    proof (intro allI impI)
      fix i assume i: "i < length (h[p := x])" "0 < i" "s \<le> parent i"
      show "h[p := x] ! parent i \<le> h[p := x] ! i"
        using top i "1.prems"(1) unfolding down_inv_def by (cases "i = p") blast+
    qed
    with False show ?thesis by (subst siftdown_loop.simps) auto
  qed
qed


text \<open>The invariant of \<open>siftup_loop\<close>: the edges away from the hole are in order, and the children
  of the hole are in order with its parent.\<close>

definition up_inv :: "nat \<Rightarrow> 'a::linorder list \<Rightarrow> nat \<Rightarrow> bool" where
  "up_inv s h p \<longleftrightarrow>
     (\<forall>i < length h. 0 < i \<longrightarrow> s \<le> parent i \<longrightarrow> i \<noteq> p \<longrightarrow> parent i \<noteq> p \<longrightarrow> h ! parent i \<le> h ! i) \<and>
     (\<forall>i < length h. 0 < i \<longrightarrow> parent i = p \<longrightarrow> s < p \<longrightarrow> h ! parent p \<le> h ! i)"

lemma min_child_least:
  assumes "2 * p + 1 < length h" "i < length h" "0 < i" "parent i = p"
  shows "h ! min_child h p \<le> h ! i"
proof -
  from assms(3,4) have "i = 2 * p + 1 \<or> i = 2 * p + 2" by presburger
  then show ?thesis using assms(2) by (auto simp: min_child_def not_less)
qed

lemma up_inv_step:
  assumes inv: "up_inv s h p" and p: "2 * p + 1 < length h" and s: "s \<le> p"
    and below: "below s p"
  shows "up_inv s (h[p := h ! min_child h p]) (min_child h p)"
proof -
  let ?c = "min_child h p"
  let ?k = "h[p := h ! ?c]"
  note c = min_child_bounds [OF p]
  have kp: "?k ! p = h ! ?c" using c by simp
  have ko: "\<And>i. i \<noteq> p \<Longrightarrow> ?k ! i = h ! i" by simp
  have one: "?k ! parent i \<le> ?k ! i"
    if i: "i < length h" "0 < i" "s \<le> parent i" "i \<noteq> ?c" "parent i \<noteq> ?c" for i
  proof -
    consider "i = p" | "i \<noteq> p" "parent i = p" | "i \<noteq> p" "parent i \<noteq> p" by blast
    then show ?thesis
    proof cases
      case 1
      have "parent p < p" using i(2) 1 parent_less by auto
      then have "s < p" "parent p \<noteq> p" using i(3) 1 by auto
      moreover have "h ! parent p \<le> h ! ?c"
        using inv c \<open>s < p\<close> unfolding up_inv_def by (metis gr_implies_not0 neq0_conv)
      ultimately show ?thesis using kp ko 1 by metis
    next
      case 2
      then show ?thesis using min_child_least [OF p i(1,2)] kp ko by metis
    next
      case 3
      then show ?thesis using inv i ko unfolding up_inv_def by metis
    qed
  qed
  have two: "?k ! parent ?c \<le> ?k ! i" if i: "i < length h" "0 < i" "parent i = ?c" for i
  proof -
    have "?c < i" using i(2,3) parent_less by metis
    then have "i \<noteq> p" "?c \<noteq> p" using c(1) by auto
    moreover have "s \<le> parent i" "parent i \<noteq> p" using i(3) c(1) s by auto
    ultimately have "h ! parent i \<le> h ! i" using inv i(1,2) unfolding up_inv_def by blast
    then have "h ! ?c \<le> h ! i" using i(3) by simp
    then show ?thesis using kp ko c(3) \<open>i \<noteq> p\<close> by metis
  qed
  show ?thesis unfolding up_inv_def using one two by simp
qed

lemma down_inv_siftup_loop:
  assumes "siftup_loop h p = (h', l)" "up_inv s h p" "p < length h" "below s p"
  shows "down_inv s (h'[l := x]) l \<and> below s l"
  using assms
proof (induction h p arbitrary: h' l rule: siftup_loop.induct)
  case (1 h p)
  show ?case
  proof (cases "2 * p + 1 < length h")
    case True
    let ?c = "min_child h p"
    note c = min_child_bounds [OF True]
    have "siftup_loop (h[p := h ! ?c]) ?c = (h', l)"
      using "1.prems"(1) True by (subst (asm) siftup_loop.simps) simp
    moreover have "up_inv s (h[p := h ! ?c]) ?c"
      using up_inv_step "1.prems"(2,4) True below_ge by blast
    moreover have "below s ?c" using "1.prems"(4) c below.child [of s ?c] by simp
    ultimately show ?thesis using "1.IH" [OF True] c by simp
  next
    case False
    then have hl: "h' = h" "l = p"
      using "1.prems"(1) by (subst (asm) siftup_loop.simps, simp)+
    have leaf: "parent i \<noteq> p" if "i < length h" "0 < i" for i
      using that False by presburger
    have "h[p := x] ! parent i \<le> h[p := x] ! i"
      if "i < length h" "0 < i" "s \<le> parent i" "i \<noteq> p" for i
      using that "1.prems"(2) leaf [OF that(1,2)] by (simp add: up_inv_def)
    then have "down_inv s (h[p := x]) p"
      unfolding down_inv_def using leaf by simp
    with hl "1.prems"(4) show ?thesis by simp
  qed
qed

lemma heap_from_siftup:
  assumes "heap_from (Suc s) h" "s < length h"
  shows "heap_from s (siftup h s)"
proof -
  obtain h' l where hl: "siftup_loop h s = (h', l)" by fastforce
  have "up_inv s h s"
    unfolding up_inv_def using assms(1) by (auto simp: heap_from_def)
  then have "down_inv s (h'[l := h ! s]) l" "below s l"
    using down_inv_siftup_loop [OF hl _ assms(2) below.here] by blast+
  moreover have "l < length h'"
    using siftup_loop_leaf [OF hl assms(2)] length_siftup_loop [OF hl] by simp
  ultimately show ?thesis
    by (simp add: siftup_def hl siftdown_def heap_from_siftdown_loop)
qed

lemma heap_from_half: "length h div 2 \<le> s \<Longrightarrow> heap_from s h"
  unfolding heap_from_def
proof (intro allI impI)
  fix i assume "length h div 2 \<le> s" "i < length h" "0 < i" "s \<le> parent i"
  then have False by linarith
  then show "h ! parent i \<le> h ! i" ..
qed

lemma heapify_fold:
  "n \<le> length h \<Longrightarrow> heap_from n h \<Longrightarrow>
   is_heap (fold (\<lambda>i xs. siftup xs i) (rev [0..<n]) h) \<and>
   mset (fold (\<lambda>i xs. siftup xs i) (rev [0..<n]) h) = mset h"
proof (induction n arbitrary: h)
  case 0
  then show ?case by simp
next
  case (Suc n)
  have "heap_from n (siftup h n)" "mset (siftup h n) = mset h" "length (siftup h n) = length h"
    using Suc.prems by (simp_all add: heap_from_siftup mset_siftup length_siftup)
  with Suc.IH [of "siftup h n"] Suc.prems(1) show ?case by simp
qed

lemma is_heap_heapify [simp, intro]: "is_heap (heapify h)"
  and mset_heapify: "mset (heapify h) = mset h"
  using heapify_fold [of "length h div 2" h] heap_from_half [of h "length h div 2"]
  by (simp_all add: heapify_def)

lemma set_heapify [simp]: "set (heapify h) = set h"
  using mset_heapify by (metis set_mset_mset)

lemma is_heap_Nil [simp]: "is_heap []"
  by (simp add: heap_from_def)

lemma is_heap_append: "heap_from s h \<Longrightarrow> down_inv s (h @ [x]) (length h)"
  unfolding heap_from_def down_inv_def
  using parent_less by (auto simp: nth_append less_Suc_eq)

lemma is_heap_heappush [simp, intro]: "is_heap h \<Longrightarrow> is_heap (heappush h x)"
  using heap_from_siftdown_loop [of 0 "h @ [x]" "length h" x] is_heap_append [of 0 h x]
  by (simp add: heappush_def siftdown_def below_zero)

lemma is_heap_heappop:
  assumes "heappop h = Some (x, h')" "is_heap h"
  shows "is_heap h'"
  using assms(1)
proof (cases rule: heappop_cases)
  case single
  then show ?thesis by simp
next
  case (more y ys)
  have same: "(y # ys) ! j = h ! j" if "0 < j" "j < length (y # ys)" for j
    using that more(1) by (cases j) (auto simp: nth_append)
  have "heap_from (Suc 0) (y # ys)"
    unfolding heap_from_def
  proof (intro allI impI)
    fix i assume i: "i < length (y # ys)" "0 < i" "Suc 0 \<le> parent i"
    have "parent i < i" using i(2) by (rule parent_less)
    have "i < length h" using i(1) more(1) by simp
    then have e: "h ! parent i \<le> h ! i" using assms(2) i(2) unfolding heap_from_def by blast
    have "(y # ys) ! i = h ! i" using i by (intro same) simp_all
    moreover have "(y # ys) ! parent i = h ! parent i"
      using i \<open>parent i < i\<close> by (intro same) simp_all
    ultimately show "(y # ys) ! parent i \<le> (y # ys) ! i" using e by (simp only:)
  qed
  then show ?thesis using more(2) by (simp add: heap_from_siftup)
qed

lemma is_heap_least: "is_heap h \<Longrightarrow> i < length h \<Longrightarrow> h ! 0 \<le> h ! i"
proof (induction i rule: less_induct)
  case (less i)
  show ?case
  proof (cases "i = 0")
    case False
    then have "h ! 0 \<le> h ! parent i" "h ! parent i \<le> h ! i"
      using less parent_less [of i] by (auto simp: heap_from_def)
    then show ?thesis by (rule order_trans)
  qed simp
qed

lemma heappop_min:
  assumes "heappop h = Some (x, h')" "is_heap h" "y \<in> set h"
  shows "x \<le> y"
proof -
  have "x = h ! 0" using assms(1) by (cases rule: heappop_cases) auto
  then show ?thesis using assms(2,3) is_heap_least by (metis in_set_conv_nth)
qed

lemma heappeek_heappop: "heappeek h = map_option fst (heappop h)"
proof (cases "heappop h")
  case (Some p)
  then obtain x h' where e: "heappop h = Some (x, h')" by (cases p) simp
  then have "heappeek h = Some x" by (cases rule: heappop_cases) (auto simp: heappeek_def)
  then show ?thesis using e by simp
qed (simp add: heappeek_def)

interpretation hq: min_heap heappush heappop heappeek mset is_heap
proof unfold_locales
  show "heappop h = None \<longleftrightarrow> mset h = {#}" for h :: "'a list" by simp
qed (use mset_heappush mset_heappop is_heap_heappop heappop_min heappeek_heappop in auto)

end
