(* ===== verification/Delayed.thy ===== *)
theory Delayed
  imports Message Heapq
begin

text \<open>
  \<open>core/delayed.py\<close>: the heap of delayed messages, ordered by the time they become available and
  then by sequence number. \<open>pop_due\<close> takes every entry that is due off the heap; its callback
  \<open>still_delayed\<close> decides which of them are reported.
\<close>

type_synonym deadline_entry = "time \<times> int \<times> string \<times> string"
type_synonym delayed_heap = "deadline_entry list"

definition delayed_push :: "time \<Rightarrow> int \<Rightarrow> string \<Rightarrow> string \<Rightarrow> delayed_heap \<Rightarrow> delayed_heap" where
  "delayed_push t s q k h = heappush h (t, s, q, k)"

function pop_due ::
  "time \<Rightarrow> (string \<Rightarrow> bool) \<Rightarrow> delayed_heap \<Rightarrow> (string \<times> string) list \<times> delayed_heap" where
  "pop_due now still h =
     (case heappeek h of
        None \<Rightarrow> ([], h)
      | Some e \<Rightarrow>
          if fst e \<le> now then
            (case heappop h of
               None \<Rightarrow> ([], h)
             | Some ((w, s, q, k), h') \<Rightarrow>
                 (case pop_due now still h' of
                    (due, h'') \<Rightarrow> (if still k then (q, k) # due else due, h'')))
          else ([], h))"
  by pat_completeness auto
termination
  by (relation "measure (\<lambda>(now, still, h). length h)") (auto dest: length_heappop)

declare pop_due.simps [simp del]

definition delayed_len :: "delayed_heap \<Rightarrow> nat" where
  "delayed_len h = length h"

lemma heappeek_pop: "heappeek h = Some x \<Longrightarrow> \<exists>h'. heappop h = Some (x, h')"
  by (auto simp: hq.peek_pop)

text \<open>One unfolding of the loop, by the three ways an iteration can go.\<close>

lemma pop_due_cases:
  obtains (empty) "h = []" "pop_due now still h = ([], h)"
  | (later) x where "heappeek h = Some x" "now < fst x" "pop_due now still h = ([], h)"
  | (due) w s q k h' due h'' where "heappop h = Some ((w, s, q, k), h')" "w \<le> now"
      "pop_due now still h' = (due, h'')"
      "pop_due now still h = (if still k then (q, k) # due else due, h'')"
proof (cases "heappeek h")
  case None
  then have "h = []" by (simp add: heappeek_def split: list.splits)
  then show ?thesis using None by (intro empty) (simp_all add: pop_due.simps)
next
  case (Some x)
  obtain w s q k where x: "x = (w, s, q, k)" by (cases x)
  obtain h' where h': "heappop h = Some (x, h')" using heappeek_pop [OF Some] by blast
  obtain due h'' where r: "pop_due now still h' = (due, h'')" by fastforce
  show ?thesis
  proof (cases "w \<le> now")
    case True
    then show ?thesis
      using Some x h' r by (intro that(3) [of w s q k h' due h'']) (simp_all add: pop_due.simps [of now still h])
  next
    case False
    then show ?thesis
      using Some x by (intro later [OF Some]) (simp_all add: pop_due.simps [of now still h])
  qed
qed

lemma peek_later:
  assumes "heappeek h = Some x" "now < fst x" "is_heap h" "e \<in> set h"
  shows "now < fst e"
proof -
  have "x \<le> e" using hq.peek_min [OF assms(1,3)] assms(4) by simp
  then show ?thesis using assms(2) by (cases x; cases e) (auto simp: less_eq_prod_def)
qed

lemma pop_due_heap: "pop_due now still h = (due, h') \<Longrightarrow> is_heap h \<Longrightarrow> is_heap h'"
proof (induction "length h" arbitrary: h due h' rule: less_induct)
  case less
  show ?case
  proof (cases rule: pop_due_cases [of h now still])
    case (due w s q k h1 due1 h2)
    then show ?thesis
      using less.hyps [OF length_heappop [OF due(1)] due(3)] less.prems is_heap_heappop [OF due(1)]
      by simp
  qed (use less.prems in simp_all)
qed

lemma pop_due_sets:
  "pop_due now (\<lambda>_. True) h = (due, h') \<Longrightarrow> is_heap h \<Longrightarrow>
   set h' = {e \<in> set h. now < fst e} \<and>
   set due = (\<lambda>e. snd (snd e)) ` {e \<in> set h. fst e \<le> now}"
proof (induction "length h" arbitrary: h due h' rule: less_induct)
  case less
  show ?case
  proof (cases rule: pop_due_cases [of h now "\<lambda>_. True"])
    case empty
    then show ?thesis using less.prems by simp
  next
    case (later x)
    then show ?thesis using less.prems peek_later [OF later(1,2)] by fastforce
  next
    case (due w s q k h1 due1 h2)
    have "set h2 = {e \<in> set h1. now < fst e} \<and>
          set due1 = (\<lambda>e. snd (snd e)) ` {e \<in> set h1. fst e \<le> now}"
      using less.hyps [OF length_heappop [OF due(1)] due(3)] is_heap_heappop [OF due(1)] less.prems
      by blast
    moreover have "{e \<in> set h. fst e \<le> now} = insert (w, s, q, k) {e \<in> set h1. fst e \<le> now}"
      "{e \<in> set h. now < fst e} = {e \<in> set h1. now < fst e}"
      using due(2) set_heappop [OF due(1)] by auto
    ultimately show ?thesis using less.prems(1) due(4) by auto
  qed
qed

lemmas pop_due_rest = pop_due_sets [THEN conjunct1]
  and pop_due_due = pop_due_sets [THEN conjunct2]

section \<open>The order of release\<close>

lemma sort_heappop:
  assumes "heappop h = Some (x, h')" "is_heap h"
  shows "sort h = x # sort h'"
proof -
  have "\<forall>y \<in> set h'. x \<le> y" using heappop_min [OF assms] set_heappop [OF assms(1)] by blast
  then have "sorted (x # sort h')" by simp
  moreover have "mset (x # sort h') = mset h" using mset_heappop [OF assms(1)] by simp
  ultimately show ?thesis by (metis properties_for_sort)
qed

text \<open>\<open>pop_due\<close> equals its specification: it reports the due entries whose id the callback still
  wants, in the order of their times and then of their sequence numbers, and keeps exactly the
  entries that are not due, in heap order.\<close>

theorem pop_due_sorted:
  assumes "is_heap h"
  shows "fst (pop_due now still h) =
      map (\<lambda>e. snd (snd e)) (filter (\<lambda>e. fst e \<le> now \<and> still (snd (snd (snd e)))) (sort h)) \<and>
    mset (snd (pop_due now still h)) = filter_mset (\<lambda>e. now < fst e) (mset h) \<and>
    is_heap (snd (pop_due now still h))"
  using assms
proof (induction "length h" arbitrary: h rule: less_induct)
  case less
  show ?case
  proof (cases rule: pop_due_cases [of h now still])
    case empty
    then show ?thesis using less.prems by simp
  next
    case (later x)
    then have l: "\<forall>e \<in> set h. now < fst e" using peek_later less.prems by blast
    then have "filter (\<lambda>e. fst e \<le> now \<and> still (snd (snd (snd e)))) (sort h) = []"
      by (force simp: filter_empty_conv)
    moreover have "filter_mset (\<lambda>e. now < fst e) (mset h) = mset h"
      using l by (simp add: filter_mset_eq_conv)
    ultimately show ?thesis using later(3) less.prems by simp
  next
    case (due w s q k h1 due1 h2)
    have "fst (pop_due now still h1) =
        map (\<lambda>e. snd (snd e)) (filter (\<lambda>e. fst e \<le> now \<and> still (snd (snd (snd e)))) (sort h1)) \<and>
      mset (snd (pop_due now still h1)) = filter_mset (\<lambda>e. now < fst e) (mset h1) \<and>
      is_heap (snd (pop_due now still h1))"
      using less.hyps [OF length_heappop [OF due(1)]] is_heap_heappop [OF due(1) less.prems] by blast
    then show ?thesis
      using due(2,3,4) sort_heappop [OF due(1) less.prems] mset_heappop [OF due(1)] by simp
  qed
qed

theorem pop_due_sorted_witness:
  "fst (pop_due 5 (\<lambda>_. True) (delayed_push 7 3 ''q'' ''c'' (delayed_push 2 2 ''q'' ''b''
     (delayed_push 4 1 ''q'' ''a'' [])))) = [(''q'', ''b''), (''q'', ''a'')]"
proof -
  have "is_heap (delayed_push 7 3 ''q'' ''c'' (delayed_push 2 2 ''q'' ''b'' (delayed_push 4 1 ''q'' ''a'' [])))"
    (is "is_heap ?h") by (simp add: delayed_push_def)
  from pop_due_sorted [OF this, of 5 "\<lambda>_. True"]
  have "fst (pop_due 5 (\<lambda>_. True) ?h) = map (\<lambda>e. snd (snd e)) (filter (\<lambda>e. fst e \<le> 5) (sort ?h))" by simp
  also have "\<dots> = [(''q'', ''b''), (''q'', ''a'')]" by code_simp
  finally show ?thesis .
qed

end
