(* ===== verification/Engine.thy ===== *)
theory Engine
  imports Delayed
begin

text \<open>
  \<open>core/queue.py\<close>: the durable queue engine. Each queue is a record with the fields of
  \<open>DurableQueue\<close>, the engine one with those of \<open>QueueEngine\<close>; an operation takes the engine and
  returns its result with the new engine. A Python object that several structures share (a queue,
  a message) is read and written through the dictionary that holds it: \<open>upd_queue n f\<close> is a change
  of the object \<open>self._queues[n]\<close>.

  The clock is the stream of the values that successive calls of \<open>self.now()\<close> return
  (\<open>clock\<close>, \<open>clock_ix\<close>), so that time may pass between two calls inside one operation. The journal
  is the list of the entries appended to it. \<open>recent_ack_limit\<close> is a natural number (a negative one
  would make \<open>_remember_ack\<close> pop from an empty dictionary).
\<close>

section \<open>State\<close>

record queue_stats =
  st_ready :: nat
  st_inflight :: nat
  st_delayed :: nat
  st_dlq :: nat
  st_consumers :: nat
  published :: nat
  delivered :: nat
  acked :: nat
  nacked :: nat
  retried :: nat
  dead :: nat

definition empty_stats :: queue_stats where
  "empty_stats = \<lparr>st_ready = 0, st_inflight = 0, st_delayed = 0, st_dlq = 0, st_consumers = 0,
     published = 0, delivered = 0, acked = 0, nacked = 0, retried = 0, dead = 0\<rparr>"

record queue_spec =
  spec_name :: string
  durable :: bool
  max_length :: "int option"
  visibility_timeout :: time
  spec_max_attempts :: int
  dead_letter :: bool

type_synonym ready_entry = "int \<times> int \<times> string"

record dqueue =
  spec :: queue_spec
  ready :: "ready_entry list"
  delayed_ids :: "string set"
  inflight :: "(string \<times> inflight_record) list"
  dlq_ids :: "string list"
  messages :: "(string \<times> message) list"
  stats :: queue_stats
  consumer_ids :: "string list"
  rr_index :: nat

definition new_queue :: "queue_spec \<Rightarrow> dqueue" where
  "new_queue sp = \<lparr>spec = sp, ready = [], delayed_ids = {}, inflight = [], dlq_ids = [],
     messages = [], stats = empty_stats, consumer_ids = [], rr_index = 0\<rparr>"

definition ready_count :: "dqueue \<Rightarrow> nat" where
  "ready_count q = length (ready q)"

definition inflight_count :: "dqueue \<Rightarrow> nat" where
  "inflight_count q = length (inflight q)"

definition delayed_count :: "dqueue \<Rightarrow> nat" where
  "delayed_count q = card (delayed_ids q)"

definition dlq_count :: "dqueue \<Rightarrow> nat" where
  "dlq_count q = length (dlq_ids q)"

definition depth :: "dqueue \<Rightarrow> nat" where
  "depth q = ready_count q + inflight_count q + delayed_count q"

record engine =
  default_visibility_timeout :: time
  default_max_attempts :: int
  default_max_length :: "int option"
  retry_backoff :: string
  retry_base_delay :: real
  recent_ack_limit :: nat
  journal :: "journal_entry list"
  clock :: "nat \<Rightarrow> time"
  clock_ix :: nat
  queues :: "(string \<times> dqueue) list"
  by_id :: "(string \<times> string) list"
  recent_acks :: "string list"
  seq :: int
  visibility_heap :: "deadline_entry list"
  delayed :: delayed_heap

definition new_engine ::
  "time \<Rightarrow> int \<Rightarrow> int option \<Rightarrow> string \<Rightarrow> real \<Rightarrow> nat \<Rightarrow> (nat \<Rightarrow> time) \<Rightarrow> engine" where
  "new_engine vt ma ml backoff base_delay limit clk =
     \<lparr>default_visibility_timeout = vt, default_max_attempts = ma, default_max_length = ml,
      retry_backoff = backoff, retry_base_delay = base_delay, recent_ack_limit = limit,
      journal = [], clock = clk, clock_ix = 0, queues = [], by_id = [], recent_acks = [],
      seq = 0, visibility_heap = [], delayed = []\<rparr>"

section \<open>Small steps the operations share\<close>

definition read_clock :: "engine \<Rightarrow> time \<times> engine" where
  "read_clock e = (clock e (clock_ix e), e\<lparr>clock_ix := Suc (clock_ix e)\<rparr>)"

definition next_seq :: "engine \<Rightarrow> int \<times> engine" where
  "next_seq e = (seq e + 1, e\<lparr>seq := seq e + 1\<rparr>)"

definition journal_append ::
  "bool \<Rightarrow> string \<Rightarrow> (string \<times> json) list \<Rightarrow> bytes \<Rightarrow> engine \<Rightarrow> engine" where
  "journal_append persist op meta pl e =
     (if persist then e\<lparr>journal := journal e @ [\<lparr>j_op = op, j_meta = meta, j_payload = pl\<rparr>]\<rparr> else e)"

abbreviation get_queue :: "string \<Rightarrow> engine \<Rightarrow> dqueue option" where
  "get_queue n e \<equiv> map_of (queues e) n"

definition upd_queue :: "string \<Rightarrow> (dqueue \<Rightarrow> dqueue) \<Rightarrow> engine \<Rightarrow> engine" where
  "upd_queue n f e =
     (case get_queue n e of None \<Rightarrow> e | Some q \<Rightarrow> e\<lparr>queues := dset n (f q) (queues e)\<rparr>)"

definition upd_stats :: "string \<Rightarrow> (queue_stats \<Rightarrow> queue_stats) \<Rightarrow> engine \<Rightarrow> engine" where
  "upd_stats n f e = upd_queue n (\<lambda>q. q\<lparr>stats := f (stats q)\<rparr>) e"

definition set_message :: "string \<Rightarrow> message \<Rightarrow> engine \<Rightarrow> engine" where
  "set_message n m e = upd_queue n (\<lambda>q. q\<lparr>messages := dset (msg_id m) m (messages q)\<rparr>) e"

definition del_message :: "string \<Rightarrow> string \<Rightarrow> engine \<Rightarrow> engine" where
  "del_message n k e = upd_queue n (\<lambda>q. q\<lparr>messages := ddel k (messages q)\<rparr>) e"

definition del_inflight :: "string \<Rightarrow> string \<Rightarrow> engine \<Rightarrow> engine" where
  "del_inflight n k e = upd_queue n (\<lambda>q. q\<lparr>inflight := ddel k (inflight q)\<rparr>) e"

definition index_id :: "string \<Rightarrow> string \<Rightarrow> engine \<Rightarrow> engine" where
  "index_id k n e = e\<lparr>by_id := dset k n (by_id e)\<rparr>"

definition unindex_id :: "string \<Rightarrow> engine \<Rightarrow> engine" where
  "unindex_id k e = e\<lparr>by_id := ddel k (by_id e)\<rparr>"

text \<open>\<open>heapq.heappush(queue.ready, (-message.priority, self._next_seq(), message.id))\<close>.\<close>

definition push_ready :: "string \<Rightarrow> message \<Rightarrow> engine \<Rightarrow> engine" where
  "push_ready n m e =
     (case next_seq e of (s, e1) \<Rightarrow>
        upd_queue n (\<lambda>q. q\<lparr>ready := heappush (ready q) (- priority m, s, msg_id m)\<rparr>) e1)"

text \<open>\<open>queue.delayed_ids.add(id)\<close> and \<open>self._delayed.push(when, self._next_seq(), queue, id)\<close>.\<close>

definition push_delayed :: "string \<Rightarrow> time \<Rightarrow> string \<Rightarrow> engine \<Rightarrow> engine" where
  "push_delayed n t k e =
     (case next_seq (upd_queue n (\<lambda>q. q\<lparr>delayed_ids := insert k (delayed_ids q)\<rparr>) e) of
        (s, e1) \<Rightarrow> e1\<lparr>delayed := delayed_push t s n k (delayed e1)\<rparr>)"

section \<open>Queues\<close>

text \<open>The specification a declaration gives a new queue: what the caller leaves out comes from the
  engine, and a dead-letter queue has no dead-letter queue of its own.\<close>

definition declared_spec ::
  "string \<Rightarrow> bool \<Rightarrow> int option \<Rightarrow> time option \<Rightarrow> int option \<Rightarrow> bool \<Rightarrow> engine \<Rightarrow> queue_spec" where
  "declared_spec n dur ml vt ma dl e =
     \<lparr>spec_name = n,
      durable = dur,
      max_length = (case ml of None \<Rightarrow> default_max_length e | Some l \<Rightarrow> Some l),
      visibility_timeout = (case vt of None \<Rightarrow> default_visibility_timeout e | Some t \<Rightarrow> t),
      spec_max_attempts = (case ma of None \<Rightarrow> default_max_attempts e | Some a \<Rightarrow> a),
      dead_letter = (dl \<and> \<not> is_dlq n)\<rparr>"

text \<open>\<open>declare_queue\<close>. The queue is created before its dead-letter queue and journalled after it.
  The inner call never creates a further queue, since its \<open>dead_letter\<close> is false.\<close>

function declare_queue ::
  "string \<Rightarrow> bool \<Rightarrow> int option \<Rightarrow> time option \<Rightarrow> int option \<Rightarrow> bool \<Rightarrow> bool \<Rightarrow> engine \<Rightarrow> engine" where
  "declare_queue n dur ml vt ma dl persist e =
     (case get_queue n e of
        Some q \<Rightarrow> e
      | None \<Rightarrow>
          let sp = declared_spec n dur ml vt ma dl e;
              e1 = e\<lparr>queues := dset n (new_queue sp) (queues e)\<rparr>;
              e2 = (if dead_letter sp
                    then declare_queue (dlq_name n) True None (Some (visibility_timeout sp)) (Some 1)
                           False persist e1
                    else e1)
          in journal_append persist ''QUEUE_DECLARE''
               [(''name'', JStr n), (''durable'', JBool dur),
                (''max_length'', json_int (max_length sp)),
                (''visibility_timeout'', JFloat (visibility_timeout sp)),
                (''max_attempts'', JInt (spec_max_attempts sp)),
                (''dead_letter'', JBool (dead_letter sp))] [] e2)"
  by pat_completeness auto
termination
  by (relation "measure (\<lambda>(n, dur, ml, vt, ma, dl, persist, e). if dl then 1 else 0)")
     (auto simp: declared_spec_def)

declare declare_queue.simps [simp del]

text \<open>\<open>delete_queue\<close>; the recursion removes a queue each time it goes on.\<close>

definition unindex_all :: "(string \<times> message) list \<Rightarrow> engine \<Rightarrow> engine" where
  "unindex_all ms e = fold unindex_id (map fst ms) e"

lemma unindex_all_queues [simp]: "queues (unindex_all ms e) = queues e"
  by (induction ms arbitrary: e) (simp_all add: unindex_all_def unindex_id_def)

lemma journal_append_queues [simp]: "queues (journal_append p op me pl e) = queues e"
  by (simp add: journal_append_def)

lemma ddel_shorter: "map_of d k = Some v \<Longrightarrow> length (ddel k d) < length d"
proof (induction d)
  case (Cons p d)
  then show ?case using length_ddel_le [of k d] by (cases p) (auto split: if_splits)
qed simp

function delete_queue :: "string \<Rightarrow> bool \<Rightarrow> engine \<Rightarrow> bool \<times> engine" where
  "delete_queue n persist e =
     (case get_queue n e of
        None \<Rightarrow> (False, e)
      | Some q \<Rightarrow>
          let e1 = unindex_all (messages q) (e\<lparr>queues := ddel n (queues e)\<rparr>);
              e2 = journal_append persist ''QUEUE_DELETE'' [(''name'', JStr n)] [] e1
          in (True,
              if dead_letter (spec q) then snd (delete_queue (dlq_name n) persist e2) else e2))"
  by pat_completeness auto
termination
  by (relation "measure (\<lambda>(n, persist, e). length (queues e))") (auto intro: ddel_shorter)

declare delete_queue.simps [simp del]

definition list_queues :: "engine \<Rightarrow> string list" where
  "list_queues e = sort (map fst (queues e))"

section \<open>Publishing and delivery\<close>

definition over_limit :: "dqueue \<Rightarrow> bool" where
  "over_limit q = (case max_length (spec q) of None \<Rightarrow> False | Some l \<Rightarrow> l \<le> int (depth q))"

definition publish_meta :: "message \<Rightarrow> (string \<times> json) list" where
  "publish_meta m =
     [(''id'', JStr (msg_id m)), (''queue'', JStr (msg_queue m)),
      (''attempts'', JInt (attempts m)), (''max_attempts'', JInt (max_attempts m)),
      (''priority'', JInt (priority m)), (''created_at'', JFloat (created_at m)),
      (''available_at'', json_time (available_at m)), (''headers'', headers m),
      (''exchange'', JStr (exchange m)), (''routing_key'', JStr (routing_key m))]"

definition enqueue :: "message \<Rightarrow> bool \<Rightarrow> engine \<Rightarrow> enqueue_result \<times> engine" where
  "enqueue msg persist e =
     (let n = msg_queue msg; k = msg_id msg in
      case get_queue n e of
        None \<Rightarrow> (EnqNotFound, e)
      | Some q \<Rightarrow>
          if over_limit q then (EnqQueueFull, e)
          else
            (case read_clock e of (now, e0) \<Rightarrow>
               let later = (case available_at msg of None \<Rightarrow> False | Some t \<Rightarrow> now < t);
                   m = (if later then msg else msg\<lparr>available_at := None\<rparr>);
                   e1 = index_id k n (set_message n m e0);
                   e2 = upd_stats n (\<lambda>st. st\<lparr>published := Suc (published st)\<rparr>) e1;
                   e3 = (if later then push_delayed n (the (available_at msg)) k e2
                         else push_ready n m e2)
               in (EnqOK,
                   journal_append persist ''MESSAGE_PUBLISH'' (publish_meta m) (payload m) e3)))"

text \<open>The loop of \<open>reserve\<close>: entries whose message is gone, in flight or delayed are dropped.\<close>

function reserve_pop :: "dqueue \<Rightarrow> (string \<times> message) option \<times> dqueue" where
  "reserve_pop q =
     (case heappop (ready q) of
        None \<Rightarrow> (None, q)
      | Some ((prio, s, k), h) \<Rightarrow>
          let q' = q\<lparr>ready := h\<rparr> in
          (case map_of (messages q) k of
             None \<Rightarrow> reserve_pop q'
           | Some m \<Rightarrow>
               if k \<in> dkeys (inflight q) \<or> k \<in> delayed_ids q then reserve_pop q'
               else (Some (k, m), q')))"
  by pat_completeness auto
termination
  by (relation "measure (\<lambda>q. length (ready q))") (auto dest: length_heappop)

declare reserve_pop.simps [simp del]

definition reserve :: "string \<Rightarrow> string \<Rightarrow> engine \<Rightarrow> message option \<times> engine" where
  "reserve n c e =
     (case get_queue n e of
        None \<Rightarrow> (None, e)
      | Some q \<Rightarrow>
          (case reserve_pop q of
             (None, q') \<Rightarrow> (None, upd_queue n (\<lambda>_. q') e)
           | (Some (k, m), q') \<Rightarrow>
               (case read_clock e of (now, e0) \<Rightarrow>
                  let deadline = now + visibility_timeout (spec q);
                      rec = \<lparr>rec_message_id = k, rec_queue = n, rec_consumer = c,
                             delivery_time = now, visibility_deadline = deadline\<rparr>;
                      e1 = upd_queue n (\<lambda>_. q'\<lparr>inflight := dset k rec (inflight q')\<rparr>) e0
                  in (case next_seq e1 of (s, e2) \<Rightarrow>
                        (Some m,
                         upd_stats n (\<lambda>st. st\<lparr>delivered := Suc (delivered st)\<rparr>)
                           (e2\<lparr>visibility_heap := heappush (visibility_heap e2) (deadline, s, n, k)\<rparr>))))))"

definition inflight_consumer :: "string \<Rightarrow> engine \<Rightarrow> string option" where
  "inflight_consumer k e =
     (case map_of (by_id e) k of
        None \<Rightarrow> None
      | Some n \<Rightarrow>
          (case get_queue n e of
             None \<Rightarrow> None
           | Some q \<Rightarrow> map_option rec_consumer (map_of (inflight q) k)))"

section \<open>Acknowledgement\<close>

text \<open>\<open>_remember_ack\<close>: an ordered dictionary of which the oldest entries go first.\<close>

definition remember_ack :: "string \<Rightarrow> engine \<Rightarrow> engine" where
  "remember_ack k e =
     (let acks = (if k \<in> set (recent_acks e) then recent_acks e else recent_acks e @ [k])
      in e\<lparr>recent_acks := drop (length acks - recent_ack_limit e) acks\<rparr>)"

definition ack :: "string \<Rightarrow> bool \<Rightarrow> engine \<Rightarrow> ack_result \<times> engine" where
  "ack k persist e =
     (if k \<in> set (recent_acks e) then (AckAlreadyAcked, e)
      else
        (case map_of (by_id e) k of
           None \<Rightarrow> (AckNotFound, e)
         | Some n \<Rightarrow>
             (case get_queue n e of
                None \<Rightarrow> (AckNotFound, e)
              | Some q \<Rightarrow>
                  (case map_of (inflight q) k of
                     None \<Rightarrow> (AckNotFound, e)
                   | Some rec \<Rightarrow>
                       let e1 = del_message n k (del_inflight n k e);
                           e2 = remember_ack k (unindex_id k e1);
                           e3 = upd_stats n (\<lambda>st. st\<lparr>acked := Suc (acked st)\<rparr>) e2
                       in (AckOK,
                           journal_append persist ''MESSAGE_ACK''
                             [(''id'', JStr k), (''queue'', JStr n)] [] e3)))))"

section \<open>Failure: retry or dead letter\<close>

text \<open>\<open>_move_to_dlq\<close>. The message leaves its queue in any case; without a dead-letter queue it goes
  nowhere.\<close>

definition move_to_dlq :: "string \<Rightarrow> message \<Rightarrow> bool \<Rightarrow> engine \<Rightarrow> engine" where
  "move_to_dlq n m persist e =
     (let k = msg_id m;
          dl = (case get_queue n e of None \<Rightarrow> False | Some q \<Rightarrow> dead_letter (spec q));
          e1 = unindex_id k (del_message n k e);
          e2 = upd_stats n (\<lambda>st. st\<lparr>dead := Suc (dead st)\<rparr>) e1;
          e3 = journal_append persist ''MESSAGE_DEAD''
                 [(''id'', JStr k), (''queue'', JStr n), (''attempts'', JInt (attempts m))]
                 (payload m) e2
      in if \<not> dl then e3
         else
           let dest = dlq_name n;
               e4 = declare_queue dest True None None None False False e3;
               m' = m\<lparr>msg_queue := dest, available_at := None\<rparr>;
               e5 = index_id k dest (set_message dest m' e4);
               e6 = push_ready dest m' e5
           in upd_queue dest
                (\<lambda>q. q\<lparr>dlq_ids := dlq_ids q @ [k],
                       stats := (stats q)\<lparr>published := Suc (published (stats q))\<rparr>\<rparr>) e6)"

definition retry_or_dead :: "string \<Rightarrow> message \<Rightarrow> bool \<Rightarrow> engine \<Rightarrow> engine" where
  "retry_or_dead n m persist e =
     (let m1 = m\<lparr>attempts := attempts m + 1\<rparr>;
          e1 = set_message n m1 e
      in if max_attempts m1 \<le> attempts m1 then move_to_dlq n m1 persist e1
         else
           (case read_clock e1 of (now, e2) \<Rightarrow>
              let t = now + retry_delay (attempts m1) (retry_backoff e) (retry_base_delay e);
                  m2 = m1\<lparr>available_at := Some t\<rparr>;
                  e3 = push_delayed n t (msg_id m2) (set_message n m2 e2);
                  e4 = upd_stats n (\<lambda>st. st\<lparr>retried := Suc (retried st)\<rparr>) e3
              in journal_append persist ''MESSAGE_REQUEUE''
                   [(''id'', JStr (msg_id m2)), (''queue'', JStr n),
                    (''available_at'', JFloat t), (''attempts'', JInt (attempts m2))] [] e4))"

definition nack :: "string \<Rightarrow> bool \<Rightarrow> bool \<Rightarrow> engine \<Rightarrow> nack_result \<times> engine" where
  "nack k requeue persist e =
     (case map_of (by_id e) k of
        None \<Rightarrow> (if k \<in> set (recent_acks e) then NackNotFound else NackUnknownDelivery, e)
      | Some n \<Rightarrow>
          (case get_queue n e of
             None \<Rightarrow> (NackNotFound, e)
           | Some q \<Rightarrow>
               (case map_of (inflight q) k of
                  None \<Rightarrow> (NackUnknownDelivery, e)
                | Some rec \<Rightarrow>
                    let e1 = del_inflight n k e in
                    (case map_of (messages q) k of
                       None \<Rightarrow> (NackNotFound, e1)
                     | Some m \<Rightarrow>
                         let e2 = upd_stats n (\<lambda>st. st\<lparr>nacked := Suc (nacked st)\<rparr>) e1;
                             e3 = journal_append persist ''MESSAGE_NACK''
                                    [(''id'', JStr k), (''queue'', JStr n),
                                     (''requeue'', JBool requeue)] [] e2
                         in (NackOK,
                             if requeue then retry_or_dead n m persist e3
                             else move_to_dlq n m persist e3)))))"

text \<open>\<open>recover_consumer\<close>. The inner loop handles the records of one queue that belong to the
  consumer. The outer one iterates over the dictionary of the queues while the body may add a
  dead-letter queue to it: the next step of the iterator then raises \<open>RuntimeError\<close>, also after
  the last queue.\<close>

fun recover_records ::
  "string \<Rightarrow> inflight_record list \<Rightarrow> bool \<Rightarrow> engine \<Rightarrow> nat \<times> engine" where
  "recover_records n [] persist e = (0, e)"
| "recover_records n (rec # recs) persist e =
     (let k = rec_message_id rec;
          e1 = del_inflight n k e
      in case get_queue n e of
           None \<Rightarrow> recover_records n recs persist e1
         | Some q \<Rightarrow>
             (case map_of (messages q) k of
                None \<Rightarrow> recover_records n recs persist e1
              | Some m \<Rightarrow>
                  (case recover_records n recs persist (retry_or_dead n m persist e1) of
                     (c, e2) \<Rightarrow> (Suc c, e2))))"

definition consumer_records :: "string \<Rightarrow> dqueue \<Rightarrow> inflight_record list" where
  "consumer_records c q = filter (\<lambda>rec. rec_consumer rec = c) (map snd (inflight q))"

fun recover_queues ::
  "nat \<Rightarrow> string list \<Rightarrow> string \<Rightarrow> bool \<Rightarrow> nat \<Rightarrow> engine \<Rightarrow> (py_error + nat) \<times> engine" where
  "recover_queues len ns c persist cnt e =
     (if length (queues e) \<noteq> len
      then (Inl (RuntimeError ''dictionary changed size during iteration''), e)
      else
        (case ns of
           [] \<Rightarrow> (Inr cnt, e)
         | n # ns' \<Rightarrow>
             (case get_queue n e of
                None \<Rightarrow> recover_queues len ns' c persist cnt e
              | Some q \<Rightarrow>
                  (case recover_records n (consumer_records c q) persist e of
                     (k, e1) \<Rightarrow> recover_queues len ns' c persist (cnt + k) e1))))"

declare recover_queues.simps [simp del]

definition recover_consumer :: "string \<Rightarrow> bool \<Rightarrow> engine \<Rightarrow> (py_error + nat) \<times> engine" where
  "recover_consumer c persist e =
     recover_queues (length (queues e)) (map fst (queues e)) c persist 0 e"


section \<open>Time: delayed messages and visibility timeouts\<close>

fun release_each :: "(string \<times> string) list \<Rightarrow> engine \<Rightarrow> nat \<times> engine" where
  "release_each [] e = (0, e)"
| "release_each ((n, k) # due) e =
     (case get_queue n e of
        None \<Rightarrow> release_each due e
      | Some q \<Rightarrow>
          if k \<notin> delayed_ids q then release_each due e
          else
            (let e1 = upd_queue n (\<lambda>q. q\<lparr>delayed_ids := delayed_ids q - {k}\<rparr>) e in
             case map_of (messages q) k of
               None \<Rightarrow> release_each due e1
             | Some m \<Rightarrow>
                 if k \<in> dkeys (inflight q) then release_each due e1
                 else
                   (let m' = m\<lparr>available_at := None\<rparr> in
                    case release_each due (push_ready n m' (set_message n m' e1)) of
                      (c, e2) \<Rightarrow> (Suc c, e2))))"

definition release_delayed :: "time \<Rightarrow> engine \<Rightarrow> nat \<times> engine" where
  "release_delayed now e =
     (case pop_due now (\<lambda>_. True) (delayed e) of
        (due, h) \<Rightarrow> release_each due (e\<lparr>delayed := h\<rparr>))"

lemma upd_queue_visibility_heap [simp]: "visibility_heap (upd_queue n f e) = visibility_heap e"
  by (simp add: upd_queue_def split: option.split)

lemma declare_queue_visibility_heap [simp]:
  "visibility_heap (declare_queue n dur ml vt ma dl persist e) = visibility_heap e"
  by (induction n dur ml vt ma dl persist e rule: declare_queue.induct)
     (subst declare_queue.simps, auto simp: journal_append_def Let_def split: option.split)

lemma move_to_dlq_visibility_heap [simp]:
  "visibility_heap (move_to_dlq n m persist e) = visibility_heap e"
  by (simp add: move_to_dlq_def journal_append_def upd_stats_def del_message_def unindex_id_def
      index_id_def set_message_def push_ready_def next_seq_def Let_def)

lemma retry_or_dead_visibility_heap [simp]:
  "visibility_heap (retry_or_dead n m persist e) = visibility_heap e"
  by (simp add: retry_or_dead_def push_delayed_def journal_append_def upd_stats_def
      set_message_def next_seq_def read_clock_def Let_def)

function timeout_inflight :: "time \<Rightarrow> engine \<Rightarrow> nat \<times> engine" where
  "timeout_inflight now e =
     (case heappeek (visibility_heap e) of
        None \<Rightarrow> (0, e)
      | Some entry \<Rightarrow>
          if fst entry \<le> now then
            (case heappop (visibility_heap e) of
               None \<Rightarrow> (0, e)
             | Some ((deadline, s, n, k), h) \<Rightarrow>
                 let e1 = e\<lparr>visibility_heap := h\<rparr> in
                 (case get_queue n e1 of
                    None \<Rightarrow> timeout_inflight now e1
                  | Some q \<Rightarrow>
                      (case map_of (inflight q) k of
                         None \<Rightarrow> timeout_inflight now e1
                       | Some rec \<Rightarrow>
                           if visibility_deadline rec \<noteq> deadline then timeout_inflight now e1
                           else
                             (let e2 = del_inflight n k e1 in
                              case map_of (messages q) k of
                                None \<Rightarrow> timeout_inflight now e2
                              | Some m \<Rightarrow>
                                  (case timeout_inflight now (retry_or_dead n m True e2) of
                                     (c, e3) \<Rightarrow> (Suc c, e3))))))
          else (0, e))"
  by pat_completeness auto
termination
  by (relation "measure (\<lambda>(now, e). length (visibility_heap e))")
     (auto dest: length_heappop simp: del_inflight_def)

declare timeout_inflight.simps [simp del]

definition tick :: "time option \<Rightarrow> engine \<Rightarrow> nat \<times> engine" where
  "tick now e =
     (case (case now of None \<Rightarrow> read_clock e | Some t \<Rightarrow> (t, e)) of
        (ts, e0) \<Rightarrow>
          (case release_delayed ts e0 of
             (a, e1) \<Rightarrow> (case timeout_inflight ts e1 of (b, e2) \<Rightarrow> (a + b, e2))))"

section \<open>Dead-letter queues\<close>

definition drop_ready :: "string \<Rightarrow> string \<Rightarrow> engine \<Rightarrow> engine" where
  "drop_ready n k e =
     upd_queue n (\<lambda>q. if ready q = [] then q
                       else q\<lparr>ready := heapify (filter (\<lambda>(p, s, i). i \<noteq> k) (ready q))\<rparr>) e"

text \<open>What \<open>dlq_requeue\<close> does to the dead-letter queue: the message goes from its dictionary, the
  index, the ready heap and the list of dead letters.\<close>

definition take_dead_letter :: "string \<Rightarrow> string \<Rightarrow> engine \<Rightarrow> engine" where
  "take_dead_letter d k e =
     upd_queue d (\<lambda>q. if k \<in> set (dlq_ids q)
                      then q\<lparr>dlq_ids := filter (\<lambda>i. i \<noteq> k) (dlq_ids q)\<rparr> else q)
       (drop_ready d k (unindex_id k (del_message d k e)))"

definition dlq_requeue :: "string \<Rightarrow> string \<Rightarrow> bool \<Rightarrow> engine \<Rightarrow> bool \<times> engine" where
  "dlq_requeue n k persist e =
     (let origin = origin_queue n;
          d = dlq_name origin
      in case (get_queue d e, get_queue origin e) of
           (Some dq, Some _) \<Rightarrow>
             (case map_of (messages dq) k of
                None \<Rightarrow> (False, e)
              | Some m \<Rightarrow>
                  let e2 = take_dead_letter d k e;
                      m1 = m\<lparr>msg_queue := origin, attempts := 0, available_at := None\<rparr>
                  in (case enqueue m1 False e2 of
                        (EnqOK, e3) \<Rightarrow>
                          (True,
                           journal_append persist ''MESSAGE_REQUEUE''
                             [(''id'', JStr k), (''from'', JStr d), (''to'', JStr origin)] [] e3)
                      | (_, e3) \<Rightarrow>
                          let m2 = m1\<lparr>msg_queue := d\<rparr>;
                              e4 = upd_queue d (\<lambda>q. q\<lparr>messages := dset k m2 (messages q)\<rparr>) e3
                          in (False, push_ready d m2 (index_id k d e4))))
         | _ \<Rightarrow> (False, e))"

section \<open>Introspection\<close>

record dlq_message =
  dm_id :: string
  dm_queue :: string
  dm_attempts :: int
  dm_created_at :: time
  dm_headers :: json

record dlq_report =
  dr_queue :: string
  dr_dlq :: string
  dr_count :: nat
  dr_messages :: "dlq_message list"

definition dlq_info :: "string \<Rightarrow> engine \<Rightarrow> dlq_report option" where
  "dlq_info n e =
     (let target = (if is_dlq n then n else dlq_name n) in
      case get_queue target e of
        None \<Rightarrow> None
      | Some q \<Rightarrow>
          let ids = (if dlq_ids q \<noteq> [] then dlq_ids q else map (\<lambda>(p, s, i). i) (ready q));
              entry = (\<lambda>i. map_option (\<lambda>m. \<lparr>dm_id = msg_id m, dm_queue = origin_queue target,
                               dm_attempts = attempts m, dm_created_at = created_at m,
                               dm_headers = headers m\<rparr>) (map_of (messages q) i))
          in Some \<lparr>dr_queue = origin_queue target, dr_dlq = target,
                   dr_count = ready_count q + inflight_count q + delayed_count q,
                   dr_messages = List.map_filter entry (take 200 ids)\<rparr>)"

record queue_report =
  qr_name :: string
  qr_ready :: nat
  qr_inflight :: nat
  qr_delayed :: nat
  qr_dlq :: nat
  qr_consumers :: nat
  qr_published :: nat
  qr_delivered :: nat
  qr_acked :: nat
  qr_nacked :: nat
  qr_retried :: nat
  qr_dead :: nat
  qr_visibility_timeout :: time
  qr_max_attempts :: int
  qr_max_length :: "int option"

definition queue_info :: "string \<Rightarrow> engine \<Rightarrow> queue_report option" where
  "queue_info n e =
     (case get_queue n e of
        None \<Rightarrow> None
      | Some q \<Rightarrow>
          Some \<lparr>qr_name = n, qr_ready = ready_count q, qr_inflight = inflight_count q,
                qr_delayed = delayed_count q,
                qr_dlq = (if is_dlq n then 0
                          else (case get_queue (dlq_name n) e of
                                  None \<Rightarrow> 0 | Some d \<Rightarrow> ready_count d)),
                qr_consumers = length (consumer_ids q),
                qr_published = published (stats q), qr_delivered = delivered (stats q),
                qr_acked = acked (stats q), qr_nacked = nacked (stats q),
                qr_retried = retried (stats q), qr_dead = dead (stats q),
                qr_visibility_timeout = visibility_timeout (spec q),
                qr_max_attempts = spec_max_attempts (spec q),
                qr_max_length = max_length (spec q)\<rparr>)"

section \<open>Snapshot and restore\<close>

datatype message_state = INFLIGHT | DELAYED | DEAD | READY

record message_snap =
  ms_message :: message
  ms_state :: message_state

record stats_snap =
  ss_published :: nat
  ss_delivered :: nat
  ss_acked :: nat
  ss_nacked :: nat
  ss_retried :: nat
  ss_dead :: nat

record queue_snap =
  qs_spec :: queue_spec
  qs_messages :: "message_snap list"
  qs_stats :: stats_snap

record engine_snap =
  es_queues :: "queue_snap list"
  es_seq :: int

definition get_message_state :: "dqueue \<Rightarrow> string \<Rightarrow> message_state" where
  "get_message_state q k =
     (if k \<in> dkeys (inflight q) then INFLIGHT
      else if k \<in> delayed_ids q then DELAYED
      else if is_dlq (spec_name (spec q)) then DEAD
      else READY)"

definition snapshot_queue :: "dqueue \<Rightarrow> queue_snap" where
  "snapshot_queue q =
     \<lparr>qs_spec = spec q,
      qs_messages = map (\<lambda>(k, m). \<lparr>ms_message = m, ms_state = get_message_state q (msg_id m)\<rparr>)
                      (messages q),
      qs_stats = \<lparr>ss_published = published (stats q), ss_delivered = delivered (stats q),
                  ss_acked = acked (stats q), ss_nacked = nacked (stats q),
                  ss_retried = retried (stats q), ss_dead = dead (stats q)\<rparr>\<rparr>"

definition snapshot_state :: "engine \<Rightarrow> engine_snap" where
  "snapshot_state e = \<lparr>es_queues = map (\<lambda>(n, q). snapshot_queue q) (queues e), es_seq = seq e\<rparr>"

text \<open>\<open>message.available_at or self.now()\<close>: 0 counts as no time.\<close>

definition restore_message :: "string \<Rightarrow> message_snap \<Rightarrow> engine \<Rightarrow> engine" where
  "restore_message n ms e =
     (let m = ms_message ms;
          e1 = index_id (msg_id m) (msg_queue m) (set_message n m e)
      in case ms_state ms of
           DELAYED \<Rightarrow>
             (case (case available_at m of None \<Rightarrow> read_clock e1
                    | Some t \<Rightarrow> if t = 0 then read_clock e1 else (t, e1)) of
                (w, e2) \<Rightarrow>
                  (case next_seq (upd_queue n
                          (\<lambda>q. q\<lparr>delayed_ids := insert (msg_id m) (delayed_ids q)\<rparr>) e2) of
                     (s, e3) \<Rightarrow> e3\<lparr>delayed := delayed_push w s (msg_queue m) (msg_id m) (delayed e3)\<rparr>))
         | _ \<Rightarrow> push_ready n m e1)"

definition restore_queue :: "queue_snap \<Rightarrow> engine \<Rightarrow> engine" where
  "restore_queue qs e =
     (let n = spec_name (qs_spec qs);
          st = qs_stats qs;
          q = (new_queue (qs_spec qs))\<lparr>stats := empty_stats\<lparr>published := ss_published st,
                 delivered := ss_delivered st, acked := ss_acked st, nacked := ss_nacked st,
                 retried := ss_retried st, dead := ss_dead st\<rparr>\<rparr>
      in fold (restore_message n) (qs_messages qs) (e\<lparr>queues := dset n q (queues e)\<rparr>))"

definition restore_state :: "engine_snap \<Rightarrow> engine \<Rightarrow> engine" where
  "restore_state st e =
     fold restore_queue (es_queues st)
       (e\<lparr>queues := [], by_id := [], visibility_heap := [], delayed := [], seq := es_seq st\<rparr>)"

end
