(* ===== verification/EngineInv.thy ===== *)
theory EngineInv
  imports Engine
begin

text \<open>
  The invariant of the queue engine and the lemmas that each small step keeps it. Beside the shape
  of the structures (heaps in heap order, dictionaries with distinct keys, every message and record
  stored under its own id in the queue it names, sequence numbers distinct and not above the
  counter, the acknowledged ids bounded), it says that no stored message is ever stranded:
  \<^item> every message of a queue is ready, delayed or in flight (\<open>tracked\<close>);
  \<^item> every delayed id has an entry on the delayed heap, so a tick releases it (\<open>delayed_ok\<close>);
  \<^item> every in-flight record has an entry with its deadline on the visibility heap, so a tick times
    it out (\<open>visible_ok\<close>);
  \<^item> the index \<open>by_id\<close> names a queue that has the message.

  Inside an operation some pairs of queue and id are exempt for a while; the invariant \<open>einv X Y Z\<close>
  carries them as sets for the three conditions, and a finished operation ends in \<open>einv {} {} {}\<close>,
  abbreviated \<open>engine_inv\<close>.
\<close>

section \<open>The invariant\<close>

abbreviation ready_ids :: "dqueue \<Rightarrow> string set" where
  "ready_ids q \<equiv> (\<lambda>x. snd (snd x)) ` set (ready q)"

definition queue_ok :: "int \<Rightarrow> string \<Rightarrow> dqueue \<Rightarrow> bool" where
  "queue_ok s n q \<longleftrightarrow>
     spec_name (spec q) = n \<and>
     is_heap (ready q) \<and> distinct (map (\<lambda>x. fst (snd x)) (ready q)) \<and>
     (\<forall>x \<in> set (ready q). fst (snd x) \<le> s) \<and>
     dict_ok (messages q) \<and> dict_ok (inflight q) \<and> finite (delayed_ids q) \<and>
     (\<forall>k m. map_of (messages q) k = Some m \<longrightarrow> msg_id m = k \<and> msg_queue m = n) \<and>
     (\<forall>k r. map_of (inflight q) k = Some r \<longrightarrow> rec_message_id r = k \<and> rec_queue r = n)"

definition tracked :: "(string \<times> string) set \<Rightarrow> string \<Rightarrow> dqueue \<Rightarrow> bool" where
  "tracked X n q \<longleftrightarrow>
     (\<forall>k \<in> dkeys (messages q). (n, k) \<in> X \<or> k \<in> ready_ids q \<or> k \<in> delayed_ids q \<or> k \<in> dkeys (inflight q))"

definition delayed_ok :: "delayed_heap \<Rightarrow> (string \<times> string) set \<Rightarrow> string \<Rightarrow> dqueue \<Rightarrow> bool" where
  "delayed_ok h Y n q \<longleftrightarrow> (\<forall>k \<in> delayed_ids q. (n, k) \<in> Y \<or> (\<exists>t s. (t, s, n, k) \<in> set h))"

definition visible_ok :: "deadline_entry list \<Rightarrow> (string \<times> string) set \<Rightarrow> string \<Rightarrow> dqueue \<Rightarrow> bool" where
  "visible_ok h Z n q \<longleftrightarrow>
     (\<forall>k r. map_of (inflight q) k = Some r \<longrightarrow>
        (n, k) \<in> Z \<or> (\<exists>s. (visibility_deadline r, s, n, k) \<in> set h))"

definition index_ok :: "engine \<Rightarrow> bool" where
  "index_ok e \<longleftrightarrow>
     (\<forall>k n. map_of (by_id e) k = Some n \<longrightarrow> (\<exists>q. get_queue n e = Some q \<and> k \<in> dkeys (messages q)))"

definition base_ok :: "engine \<Rightarrow> bool" where
  "base_ok e \<longleftrightarrow>
     dict_ok (queues e) \<and> dict_ok (by_id e) \<and> is_heap (visibility_heap e) \<and> is_heap (delayed e) \<and>
     distinct (recent_acks e) \<and> length (recent_acks e) \<le> recent_ack_limit e \<and> index_ok e"

definition einv ::
  "(string \<times> string) set \<Rightarrow> (string \<times> string) set \<Rightarrow> (string \<times> string) set \<Rightarrow> engine \<Rightarrow> bool" where
  "einv X Y Z e \<longleftrightarrow> base_ok e \<and>
     (\<forall>n q. get_queue n e = Some q \<longrightarrow>
        queue_ok (seq e) n q \<and> tracked X n q \<and> delayed_ok (delayed e) Y n q \<and>
        visible_ok (visibility_heap e) Z n q)"

abbreviation engine_inv :: "engine \<Rightarrow> bool" where
  "engine_inv \<equiv> einv {} {} {}"

lemmas part_defs = tracked_def delayed_ok_def visible_ok_def

section \<open>Structure\<close>

lemma einv_base: "einv X Y Z e \<Longrightarrow> base_ok e"
  by (simp add: einv_def)

lemma einv_queue: "einv X Y Z e \<Longrightarrow> get_queue n e = Some q \<Longrightarrow> queue_ok (seq e) n q"
  by (simp add: einv_def)

lemma einv_parts:
  assumes "einv X Y Z e" "get_queue n e = Some q"
  shows "tracked X n q" "delayed_ok (delayed e) Y n q" "visible_ok (visibility_heap e) Z n q"
  using assms by (simp_all add: einv_def)

lemma einv_mono: "einv X Y Z e \<Longrightarrow> X \<subseteq> X' \<Longrightarrow> Y \<subseteq> Y' \<Longrightarrow> Z \<subseteq> Z' \<Longrightarrow> einv X' Y' Z' e"
  unfolding einv_def part_defs by blast

lemma index_okD:
  "index_ok e \<Longrightarrow> map_of (by_id e) k = Some n \<Longrightarrow>
   \<exists>q. get_queue n e = Some q \<and> k \<in> dkeys (messages q)"
  by (simp add: index_ok_def)

lemma queue_ok_mono: "queue_ok s n q \<Longrightarrow> s \<le> s' \<Longrightarrow> queue_ok s' n q"
  by (auto simp: queue_ok_def)

lemma upd_queue_None: "get_queue n e = None \<Longrightarrow> upd_queue n f e = e"
  by (simp add: upd_queue_def)

lemma upd_queue_Some:
  "get_queue n e = Some q \<Longrightarrow> upd_queue n f e = e\<lparr>queues := dset n (f q) (queues e)\<rparr>"
  by (simp add: upd_queue_def)

lemma get_queue_upd_queue [simp]:
  "get_queue n (upd_queue n' f e) =
     (if n = n' then map_option f (get_queue n e) else get_queue n e)"
  by (simp add: upd_queue_def split: option.split)

lemma upd_queue_frame [simp]:
  "by_id (upd_queue n f e) = by_id e" "recent_acks (upd_queue n f e) = recent_acks e"
  "seq (upd_queue n f e) = seq e" "delayed (upd_queue n f e) = delayed e"
  "journal (upd_queue n f e) = journal e" "clock (upd_queue n f e) = clock e"
  "clock_ix (upd_queue n f e) = clock_ix e" "recent_ack_limit (upd_queue n f e) = recent_ack_limit e"
  "retry_backoff (upd_queue n f e) = retry_backoff e"
  "retry_base_delay (upd_queue n f e) = retry_base_delay e"
  "default_max_length (upd_queue n f e) = default_max_length e"
  "default_max_attempts (upd_queue n f e) = default_max_attempts e"
  "default_visibility_timeout (upd_queue n f e) = default_visibility_timeout e"
  by (simp_all add: upd_queue_def split: option.split)

lemma dict_ok_upd_queue [simp]: "dict_ok (queues e) \<Longrightarrow> dict_ok (queues (upd_queue n f e))"
  by (auto simp: upd_queue_def split: option.split)

text \<open>The rule for a change of one queue: what the new queue owes, given the old one.\<close>

lemma einv_upd_queue:
  assumes inv: "einv X Y Z e"
    and new: "\<And>q. get_queue n e = Some q \<Longrightarrow> queue_ok (seq e) n q \<Longrightarrow> tracked X n q \<Longrightarrow>
        delayed_ok (delayed e) Y n q \<Longrightarrow> visible_ok (visibility_heap e) Z n q \<Longrightarrow>
        queue_ok (seq e) n (f q) \<and> tracked X' n (f q) \<and> delayed_ok (delayed e) Y' n (f q) \<and>
        visible_ok (visibility_heap e) Z' n (f q)"
    and keep: "\<And>q k. get_queue n e = Some q \<Longrightarrow> map_of (by_id e) k = Some n \<Longrightarrow>
        k \<in> dkeys (messages q) \<Longrightarrow> k \<in> dkeys (messages (f q))"
    and others: "\<And>n' k. n' \<noteq> n \<Longrightarrow> (n', k) \<in> X \<Longrightarrow> (n', k) \<in> X'"
      "\<And>n' k. n' \<noteq> n \<Longrightarrow> (n', k) \<in> Y \<Longrightarrow> (n', k) \<in> Y'"
      "\<And>n' k. n' \<noteq> n \<Longrightarrow> (n', k) \<in> Z \<Longrightarrow> (n', k) \<in> Z'"
  shows "einv X' Y' Z' (upd_queue n f e)"
proof -
  have "\<exists>q'. get_queue n' (upd_queue n f e) = Some q' \<and> k \<in> dkeys (messages q')"
    if k: "map_of (by_id e) k = Some n'" for k n'
  proof -
    obtain q where "get_queue n' e = Some q" "k \<in> dkeys (messages q)"
      using index_okD einv_base [OF inv] k unfolding base_ok_def by blast
    then show ?thesis using keep k by (cases "n' = n") auto
  qed
  then have "index_ok (upd_queue n f e)" by (simp add: index_ok_def)
  then have "base_ok (upd_queue n f e)"
    using einv_base [OF inv] by (simp add: base_ok_def)
  moreover have "queue_ok (seq e) n' q' \<and> tracked X' n' q' \<and> delayed_ok (delayed e) Y' n' q' \<and>
      visible_ok (visibility_heap e) Z' n' q'"
    if g: "get_queue n' (upd_queue n f e) = Some q'" for n' q'
  proof (cases "n' = n")
    case True
    then obtain q where q: "get_queue n e = Some q" "q' = f q" using g by auto
    then show ?thesis using new [OF q(1)] inv True by (simp add: einv_def)
  next
    case False
    then have "get_queue n' e = Some q'" using g by simp
    then have "queue_ok (seq e) n' q'" and p: "tracked X n' q'" "delayed_ok (delayed e) Y n' q'"
        "visible_ok (visibility_heap e) Z n' q'"
      using inv by (simp_all add: einv_def)
    have "tracked X' n' q'" using p(1) others(1) [OF False] unfolding tracked_def by blast
    moreover have "delayed_ok (delayed e) Y' n' q'"
      using p(2) others(2) [OF False] unfolding delayed_ok_def by blast
    moreover have "visible_ok (visibility_heap e) Z' n' q'"
      using p(3) others(3) [OF False] unfolding visible_ok_def by blast
    ultimately show ?thesis using \<open>queue_ok (seq e) n' q'\<close> by blast
  qed
  ultimately show ?thesis by (simp add: einv_def)
qed

text \<open>Fields the invariant does not read.\<close>

lemma einv_frame [simp]:
  "einv X Y Z (e\<lparr>clock_ix := i\<rparr>) = einv X Y Z e"
  "einv X Y Z (e\<lparr>journal := j\<rparr>) = einv X Y Z e"
  by (simp_all add: einv_def base_ok_def index_ok_def)

lemma einv_read_clock [inv_intros]: "einv X Y Z e \<Longrightarrow> einv X Y Z (snd (read_clock e))"
  by (simp add: read_clock_def)

lemma einv_journal_append [inv_intros]:
  "einv X Y Z e \<Longrightarrow> einv X Y Z (journal_append p op me pl e)"
  by (simp add: journal_append_def)

lemma einv_next_seq [inv_intros]: "einv X Y Z e \<Longrightarrow> einv X Y Z (snd (next_seq e))"
  unfolding einv_def next_seq_def
  by (auto simp: base_ok_def index_ok_def intro: queue_ok_mono [of "seq e" _ _ "seq e + 1"])

lemma einv_upd_stats [inv_intros]: "einv X Y Z e \<Longrightarrow> einv X Y Z (upd_stats n f e)"
  unfolding upd_stats_def
  by (rule einv_upd_queue, assumption) (auto simp: queue_ok_def part_defs)


section \<open>The small steps\<close>

lemma queue_ok_set_message:
  "queue_ok s n q \<Longrightarrow> msg_queue m = n \<Longrightarrow>
   queue_ok s n (q\<lparr>messages := dset (msg_id m) m (messages q)\<rparr>)"
  by (simp add: queue_ok_def)

lemma dkeys_dset [simp]: "dkeys (dset k v d) = insert k (dkeys d)"
  by (simp add: dkeys_dom)

lemma dkeys_ddel [simp]: "dkeys (ddel k d) = dkeys d - {k}"
  by (simp add: dkeys_dom)

lemma einv_set_message:
  assumes "einv X Y Z e" "msg_queue m = n"
  shows "einv (insert (n, msg_id m) X) Y Z (set_message n m e)"
  unfolding set_message_def
  using assms(1) by (rule einv_upd_queue) (auto simp: queue_ok_set_message assms(2) part_defs)

text \<open>A message that is stored already keeps whatever tracks it.\<close>

lemma einv_reset_message:
  assumes "einv X Y Z e" "msg_queue m = n" "get_queue n e = Some q" "msg_id m \<in> dkeys (messages q)"
  shows "einv X Y Z (set_message n m e)"
  unfolding set_message_def
  using assms(1)
proof (rule einv_upd_queue)
  fix q'
  assume q': "get_queue n e = Some q'" "queue_ok (seq e) n q'" "tracked X n q'"
    "delayed_ok (delayed e) Y n q'" "visible_ok (visibility_heap e) Z n q'"
  have "insert (msg_id m) (dkeys (messages q')) = dkeys (messages q')"
    using assms(3,4) q'(1) by auto
  then show "queue_ok (seq e) n (q'\<lparr>messages := dset (msg_id m) m (messages q')\<rparr>) \<and>
    tracked X n (q'\<lparr>messages := dset (msg_id m) m (messages q')\<rparr>) \<and>
    delayed_ok (delayed e) Y n (q'\<lparr>messages := dset (msg_id m) m (messages q')\<rparr>) \<and>
    visible_ok (visibility_heap e) Z n (q'\<lparr>messages := dset (msg_id m) m (messages q')\<rparr>)"
    using q' assms(2) by (simp add: queue_ok_set_message part_defs)
qed auto

lemma einv_del_inflight [inv_intros]:
  assumes "einv X Y Z e"
  shows "einv (insert (n, k) X) Y (Z - {(n, k)}) (del_inflight n k e)"
  unfolding del_inflight_def
  using assms by (rule einv_upd_queue) (auto simp: queue_ok_def part_defs)

lemma einv_discard_delayed:
  assumes "einv X Y Z e"
  shows "einv (insert (n, k) X) (Y - {(n, k)}) Z
    (upd_queue n (\<lambda>q. q\<lparr>delayed_ids := delayed_ids q - {k}\<rparr>) e)"
  using assms by (rule einv_upd_queue) (auto simp: queue_ok_def part_defs)

lemma base_ok_index_id:
  assumes "base_ok e" "get_queue n e = Some q" "k \<in> dkeys (messages q)"
  shows "base_ok (index_id k n e)"
  using assms by (auto simp: base_ok_def index_ok_def index_id_def)

lemma einv_index_id:
  assumes "einv X Y Z e" "get_queue n e = Some q" "k \<in> dkeys (messages q)"
  shows "einv X Y Z (index_id k n e)"
  using base_ok_index_id [OF einv_base [OF assms(1)] assms(2,3)] assms(1)
  unfolding einv_def by (simp add: index_id_def)

text \<open>A message leaves its queue and the index together.\<close>

lemma einv_drop_message:
  assumes "einv X Y Z e"
  shows "einv (X - {(n, k)}) Y Z (unindex_id k (del_message n k e))"
proof -
  have b: "base_ok (unindex_id k e)" and q: "queues (unindex_id k e) = queues e"
    using einv_base [OF assms] by (auto simp: base_ok_def index_ok_def unindex_id_def)
  have u: "einv X Y Z (unindex_id k e)"
    using assms b unfolding einv_def by (simp add: unindex_id_def)
  have swap: "unindex_id k (del_message n k e) = del_message n k (unindex_id k e)"
    by (simp add: unindex_id_def del_message_def upd_queue_def split: option.split)
  have k: "map_of (by_id (unindex_id k e)) k = None" by (simp add: unindex_id_def)
  have "einv (X - {(n, k)}) Y Z (del_message n k (unindex_id k e))"
    unfolding del_message_def
    using u by (rule einv_upd_queue) (use k in \<open>auto simp: queue_ok_def part_defs\<close>)
  then show ?thesis by (simp only: swap)
qed

lemma queue_ok_push_ready:
  assumes "queue_ok s n q"
  shows "queue_ok (s + 1) n (q\<lparr>ready := heappush (ready q) (p, s + 1, k)\<rparr>)"
proof -
  have "distinct (map (\<lambda>x. fst (snd x)) (heappush (ready q) (p, s + 1, k)))"
  proof -
    have "mset (map (\<lambda>x. fst (snd x)) (heappush (ready q) (p, s + 1, k))) =
          mset ((s + 1) # map (\<lambda>x. fst (snd x)) (ready q))"
      by (simp add: mset_heappush)
    moreover have "distinct ((s + 1) # map (\<lambda>x. fst (snd x)) (ready q))"
      using assms by (auto simp: queue_ok_def)
    ultimately show ?thesis by (metis mset_eq_imp_distinct_iff)
  qed
  then show ?thesis using assms by (auto simp: queue_ok_def)
qed

lemma einv_push_ready [inv_intros]:
  assumes "einv X Y Z e"
  shows "einv (X - {(n, msg_id m)}) Y Z (push_ready n m e)"
proof -
  let ?e = "e\<lparr>seq := seq e + 1\<rparr>"
  have e: "einv X Y Z ?e" using einv_next_seq [OF assms] by (simp add: next_seq_def)
  have "einv (X - {(n, msg_id m)}) Y Z
      (upd_queue n (\<lambda>q. q\<lparr>ready := heappush (ready q) (- priority m, seq e + 1, msg_id m)\<rparr>) ?e)"
    using e
  proof (rule einv_upd_queue)
    fix q assume "get_queue n ?e = Some q" "tracked X n q"
      "delayed_ok (delayed ?e) Y n q" "visible_ok (visibility_heap ?e) Z n q"
    moreover from this(1) have "queue_ok (seq e) n q" using assms by (simp add: einv_def)
    ultimately show "queue_ok (seq ?e) n
        (q\<lparr>ready := heappush (ready q) (- priority m, seq e + 1, msg_id m)\<rparr>) \<and>
      tracked (X - {(n, msg_id m)}) n
        (q\<lparr>ready := heappush (ready q) (- priority m, seq e + 1, msg_id m)\<rparr>) \<and>
      delayed_ok (delayed ?e) Y n
        (q\<lparr>ready := heappush (ready q) (- priority m, seq e + 1, msg_id m)\<rparr>) \<and>
      visible_ok (visibility_heap ?e) Z n
        (q\<lparr>ready := heappush (ready q) (- priority m, seq e + 1, msg_id m)\<rparr>)"
      by (auto simp: queue_ok_push_ready part_defs)
  qed auto
  then show ?thesis by (simp add: push_ready_def next_seq_def)
qed

lemma einv_delayed_heap:
  assumes "einv X Y Z e" "is_heap h" "set (delayed e) \<subseteq> set h"
  shows "einv X Y Z (e\<lparr>delayed := h\<rparr>)"
  using assms unfolding einv_def base_ok_def index_ok_def part_defs by simp blast

lemma einv_visibility_heap:
  assumes "einv X Y Z e" "is_heap h" "set (visibility_heap e) \<subseteq> set h"
  shows "einv X Y Z (e\<lparr>visibility_heap := h\<rparr>)"
  using assms unfolding einv_def base_ok_def index_ok_def part_defs by simp blast

lemma einv_delayed_entry:
  assumes "einv X Y Z e" "(t, s, n, k) \<in> set (delayed e)"
  shows "einv X (Y - {(n, k)}) Z e"
proof -
  have "delayed_ok (delayed e) Y n' q \<Longrightarrow> delayed_ok (delayed e) (Y - {(n, k)}) n' q" for n' q
    using assms(2) by (auto simp: delayed_ok_def)
  then show ?thesis using assms(1) by (simp add: einv_def)
qed

lemma einv_visible_entry:
  assumes "einv X Y Z e"
    and "\<And>q r. get_queue n e = Some q \<Longrightarrow> map_of (inflight q) k = Some r \<Longrightarrow>
      \<exists>s. (visibility_deadline r, s, n, k) \<in> set (visibility_heap e)"
  shows "einv X Y (Z - {(n, k)}) e"
proof -
  have "visible_ok (visibility_heap e) (Z - {(n, k)}) n' q"
    if "get_queue n' e = Some q" "visible_ok (visibility_heap e) Z n' q" for n' q
    using that assms(2) unfolding visible_ok_def by auto
  then show ?thesis using assms(1) by (simp add: einv_def)
qed

lemma einv_push_delayed [inv_intros]:
  assumes "einv X Y Z e"
  shows "einv (X - {(n, k)}) (Y - {(n, k)}) Z (push_delayed n t k e)"
proof -
  let ?e1 = "upd_queue n (\<lambda>q. q\<lparr>delayed_ids := insert k (delayed_ids q)\<rparr>) e"
  let ?e2 = "snd (next_seq ?e1)"
  let ?e3 = "?e2\<lparr>delayed := delayed_push t (seq e + 1) n k (delayed ?e2)\<rparr>"
  have "einv (X - {(n, k)}) (insert (n, k) Y) Z ?e1"
    using assms by (rule einv_upd_queue) (auto simp: queue_ok_def part_defs)
  then have e2: "einv (X - {(n, k)}) (insert (n, k) Y) Z ?e2" by (rule einv_next_seq)
  have "is_heap (delayed_push t (seq e + 1) n k (delayed ?e2))"
    using einv_base [OF e2] by (simp add: delayed_push_def base_ok_def)
  then have e3: "einv (X - {(n, k)}) (insert (n, k) Y) Z ?e3"
    using e2 by (intro einv_delayed_heap) (auto simp: delayed_push_def)
  have "(t, seq e + 1, n, k) \<in> set (delayed ?e3)" by (simp add: delayed_push_def)
  with e3 have "einv (X - {(n, k)}) (insert (n, k) Y - {(n, k)}) Z ?e3"
    by (rule einv_delayed_entry)
  then have "einv (X - {(n, k)}) (Y - {(n, k)}) Z ?e3" by simp
  then show ?thesis by (simp add: push_delayed_def next_seq_def)
qed


section \<open>Declaring and deleting queues\<close>

lemma einv_add_queue:
  assumes inv: "einv X Y Z e" and new: "get_queue n e = None" and sp: "spec_name sp = n"
    and st: "stats q = st" "spec q = sp" "ready q = []" "delayed_ids q = {}" "inflight q = []"
      "messages q = []"
  shows "einv X Y Z (e\<lparr>queues := dset n q (queues e)\<rparr>)"
proof -
  have "base_ok (e\<lparr>queues := dset n q (queues e)\<rparr>)"
    using einv_base [OF inv] new by (fastforce simp: base_ok_def index_ok_def)
  moreover have "queue_ok (seq e) n q" "tracked X n q" "delayed_ok (delayed e) Y n q"
    "visible_ok (visibility_heap e) Z n q"
    using sp st by (simp_all add: queue_ok_def part_defs)
  ultimately show ?thesis using inv by (simp add: einv_def)
qed

lemma einv_declare_queue [inv_intros]:
  "einv X Y Z e \<Longrightarrow> einv X Y Z (declare_queue n dur ml vt ma dl persist e)"
proof (induction n dur ml vt ma dl persist e rule: declare_queue.induct)
  case (1 n dur ml vt ma dl persist e)
  show ?case
  proof (cases "get_queue n e")
    case None
    let ?sp = "declared_spec n dur ml vt ma dl e"
    have add: "einv X Y Z (e\<lparr>queues := dset n (new_queue ?sp) (queues e)\<rparr>)"
      using einv_add_queue [OF "1.prems" None, of ?sp]
      by (simp add: new_queue_def declared_spec_def)
    show ?thesis
      using None add "1.IH" [OF None refl refl]
      by (subst declare_queue.simps) (simp add: Let_def einv_journal_append)
  qed (use "1.prems" in \<open>subst declare_queue.simps, simp\<close>)
qed

lemma declare_queue_keeps:
  "get_queue n' e = Some q \<Longrightarrow> get_queue n' (declare_queue n dur ml vt ma dl persist e) = Some q"
proof (induction n dur ml vt ma dl persist e rule: declare_queue.induct)
  case (1 n dur ml vt ma dl persist e)
  show ?case
  proof (cases "get_queue n e")
    case None
    with "1.prems" have "n' \<noteq> n" by auto
    then show ?thesis
      using None "1.IH" [OF None refl refl] "1.prems"
      by (subst declare_queue.simps) (simp add: Let_def)
  qed (use "1.prems" in \<open>subst declare_queue.simps, simp\<close>)
qed

lemma declare_queue_exists:
  "\<exists>q. get_queue n (declare_queue n dur ml vt ma dl persist e) = Some q"
proof (cases "get_queue n e")
  case None
  have "get_queue n (declare_queue n' dur' ml' vt' ma' dl' persist
      (e\<lparr>queues := dset n q (queues e)\<rparr>)) = Some q" for n' dur' ml' vt' ma' dl' q
    by (rule declare_queue_keeps) simp
  then show ?thesis using None by (subst declare_queue.simps) (simp add: Let_def)
qed (subst declare_queue.simps, simp)

lemma declare_queue_other:
  "n' \<noteq> n \<Longrightarrow> (dl \<and> \<not> is_dlq n \<Longrightarrow> n' \<noteq> dlq_name n) \<Longrightarrow>
   get_queue n' (declare_queue n dur ml vt ma dl persist e) = get_queue n' e"
proof (induction n dur ml vt ma dl persist e rule: declare_queue.induct)
  case (1 n dur ml vt ma dl persist e)
  show ?case
  proof (cases "get_queue n e")
    case None
    then show ?thesis
      using "1.IH" [OF None refl refl] "1.prems"
      by (subst declare_queue.simps) (auto simp: Let_def declared_spec_def)
  qed (subst declare_queue.simps, simp)
qed

lemma declare_queue_by_id [simp]: "by_id (declare_queue n dur ml vt ma dl persist e) = by_id e"
  by (induction n dur ml vt ma dl persist e rule: declare_queue.induct)
     (subst declare_queue.simps, auto simp: journal_append_def Let_def split: option.split)

lemma unindex_all_frame [simp]:
  "seq (unindex_all ms e) = seq e" "visibility_heap (unindex_all ms e) = visibility_heap e"
  "delayed (unindex_all ms e) = delayed e" "recent_acks (unindex_all ms e) = recent_acks e"
  "recent_ack_limit (unindex_all ms e) = recent_ack_limit e"
  by (induction ms arbitrary: e) (simp_all add: unindex_all_def unindex_id_def)

lemma unindex_all_by_id:
  "map_of (by_id (unindex_all ms e)) k = (if k \<in> dkeys ms then None else map_of (by_id e) k)"
proof (induction ms arbitrary: e)
  case (Cons x ms)
  have "unindex_all (x # ms) e = unindex_all ms (unindex_id (fst x) e)"
    by (simp add: unindex_all_def)
  then show ?case using Cons.IH [of "unindex_id (fst x) e"] by (simp add: unindex_id_def)
qed (simp add: unindex_all_def)

lemma dict_ok_unindex_all: "dict_ok (by_id e) \<Longrightarrow> dict_ok (by_id (unindex_all ms e))"
  by (induction ms arbitrary: e) (simp_all add: unindex_all_def unindex_id_def)

lemma einv_remove_queue:
  assumes inv: "einv X Y Z e" and q: "get_queue n e = Some q"
  shows "einv X Y Z (unindex_all (messages q) (e\<lparr>queues := ddel n (queues e)\<rparr>))"
proof -
  let ?e = "unindex_all (messages q) (e\<lparr>queues := ddel n (queues e)\<rparr>)"
  have "\<exists>q'. get_queue n' ?e = Some q' \<and> k \<in> dkeys (messages q')"
    if k: "map_of (by_id ?e) k = Some n'" for k n'
  proof -
    have b: "k \<notin> dkeys (messages q)" "map_of (by_id e) k = Some n'"
      using k by (auto simp: unindex_all_by_id split: if_splits)
    then obtain q' where "get_queue n' e = Some q'" "k \<in> dkeys (messages q')"
      using index_okD einv_base [OF inv] unfolding base_ok_def by blast
    then show ?thesis using b(1) q by (cases "n' = n") auto
  qed
  then have "base_ok ?e"
    using einv_base [OF inv] by (simp add: base_ok_def index_ok_def dict_ok_unindex_all)
  then show ?thesis using inv by (auto simp: einv_def split: if_splits)
qed

lemma einv_delete_queue [inv_intros]:
  "einv X Y Z e \<Longrightarrow> einv X Y Z (snd (delete_queue n persist e))"
proof (induction n persist e rule: delete_queue.induct)
  case (1 n persist e)
  show ?case
  proof (cases "get_queue n e")
    case (Some q)
    then show ?thesis
      using "1.IH" [OF Some refl refl] einv_remove_queue [OF "1.prems" Some]
      by (subst delete_queue.simps) (simp add: Let_def einv_journal_append)
  qed (use "1.prems" in \<open>subst delete_queue.simps, simp\<close>)
qed

end
