(* ===== verification/EngineOps.thy ===== *)
theory EngineOps
  imports EngineInv
begin

text \<open>
  The operations of the queue engine on one message (publication, delivery, acknowledgement,
  failure) keep the invariant \<open>engine_inv\<close> of \<open>EngineInv\<close>, and what the delivery loop of
  \<open>reserve\<close> takes off the ready heap.
\<close>

section \<open>Failure handling\<close>

lemma get_queue_set_message [simp]:
  "get_queue n' (set_message n m e) =
     (if n' = n then map_option (\<lambda>q. q\<lparr>messages := dset (msg_id m) m (messages q)\<rparr>) (get_queue n e)
      else get_queue n' e)"
  by (simp add: set_message_def)

lemma get_queue_del_inflight [simp]:
  "get_queue n' (del_inflight n k e) =
     (if n' = n then map_option (\<lambda>q. q\<lparr>inflight := ddel k (inflight q)\<rparr>) (get_queue n e)
      else get_queue n' e)"
  by (simp add: del_inflight_def)

lemma get_queue_upd_stats [simp]:
  "get_queue n' (upd_stats n f e) =
     (if n' = n then map_option (\<lambda>q. q\<lparr>stats := f (stats q)\<rparr>) (get_queue n e) else get_queue n' e)"
  by (simp add: upd_stats_def)

lemma get_queue_journal_append [simp]:
  "get_queue n (journal_append p op me pl e) = get_queue n e"
  by (simp add: journal_append_def)

lemma get_queue_read_clock: "read_clock e = (t, e') \<Longrightarrow> queues e' = queues e"
  by (auto simp: read_clock_def)

lemma einv_move_to_dlq [inv_intros]:
  assumes "einv X Y Z e"
  shows "einv (X - {(n, msg_id m)}) Y Z (move_to_dlq n m persist e)"
proof -
  let ?k = "msg_id m" and ?d = "dlq_name n"
  let ?m = "m\<lparr>msg_queue := ?d, available_at := None\<rparr>"
  let ?e3 = "journal_append persist ''MESSAGE_DEAD''
      [(''id'', JStr ?k), (''queue'', JStr n), (''attempts'', JInt (attempts m))] (payload m)
      (upd_stats n (\<lambda>st. st\<lparr>dead := Suc (dead st)\<rparr>) (unindex_id ?k (del_message n ?k e)))"
  let ?e4 = "declare_queue ?d True None None None False False ?e3"
  have e3: "einv (X - {(n, ?k)}) Y Z ?e3"
    using assms by (intro einv_journal_append einv_upd_stats einv_drop_message)
  obtain q where q: "get_queue ?d ?e4 = Some q" using declare_queue_exists by blast
  have "einv (insert (?d, msg_id ?m) (X - {(n, ?k)})) Y Z (set_message ?d ?m ?e4)"
    using e3 by (intro einv_set_message einv_declare_queue) simp_all
  then have "einv (insert (?d, msg_id ?m) (X - {(n, ?k)}) - {(?d, msg_id ?m)}) Y Z
      (push_ready ?d ?m (index_id ?k ?d (set_message ?d ?m ?e4)))"
    using q by (intro einv_push_ready einv_index_id) auto
  then have "einv (insert (?d, msg_id ?m) (X - {(n, ?k)}) - {(?d, msg_id ?m)}) Y Z
      (upd_queue ?d (\<lambda>q. q\<lparr>dlq_ids := dlq_ids q @ [?k],
          stats := (stats q)\<lparr>published := Suc (published (stats q))\<rparr>\<rparr>)
        (push_ready ?d ?m (index_id ?k ?d (set_message ?d ?m ?e4))))"
    by (rule einv_upd_queue) (auto simp: queue_ok_def part_defs)
  then have "einv (X - {(n, ?k)}) Y Z
      (upd_queue ?d (\<lambda>q. q\<lparr>dlq_ids := dlq_ids q @ [?k],
          stats := (stats q)\<lparr>published := Suc (published (stats q))\<rparr>\<rparr>)
        (push_ready ?d ?m (index_id ?k ?d (set_message ?d ?m ?e4))))"
    by (rule einv_mono) auto
  then show ?thesis using e3 by (simp add: move_to_dlq_def Let_def)
qed

lemma einv_retry_or_dead [inv_intros]:
  assumes inv: "einv X Y Z e"
    and q: "get_queue n e = Some q" "msg_id m \<in> dkeys (messages q)" "msg_queue m = n"
  shows "einv (X - {(n, msg_id m)}) Y Z (retry_or_dead n m persist e)"
proof -
  let ?m1 = "m\<lparr>attempts := attempts m + 1\<rparr>"
  have e1: "einv X Y Z (set_message n ?m1 e)"
    using inv q by (intro einv_reset_message) simp_all
  show ?thesis
  proof (cases "max_attempts m \<le> attempts m + 1")
    case True
    then show ?thesis using einv_move_to_dlq [OF e1, of n ?m1 persist]
      by (simp add: retry_or_dead_def Let_def)
  next
    case False
    obtain now e2 where rc: "read_clock (set_message n ?m1 e) = (now, e2)" by fastforce
    have e2: "einv X Y Z e2" using einv_read_clock [OF e1] rc by simp
    have q2: "get_queue n e2 = Some (q\<lparr>messages := dset (msg_id m) ?m1 (messages q)\<rparr>)"
      using get_queue_read_clock [OF rc] q(1) by simp
    have "einv X Y Z (set_message n (?m1\<lparr>available_at := Some t\<rparr>) e2)" for t
      using q(3) by (intro einv_reset_message [OF e2 _ q2]) simp_all
    then have "einv (X - {(n, msg_id m)}) (Y - {(n, msg_id m)}) Z
        (push_delayed n t (msg_id m) (set_message n (?m1\<lparr>available_at := Some t\<rparr>) e2))" for t
      by (rule einv_push_delayed)
    then have "einv (X - {(n, msg_id m)}) Y Z
        (push_delayed n t (msg_id m) (set_message n (?m1\<lparr>available_at := Some t\<rparr>) e2))" for t
      by (rule einv_mono) auto
    then show ?thesis using False rc
      by (simp add: retry_or_dead_def Let_def einv_journal_append einv_upd_stats)
  qed
qed

section \<open>Publishing, delivery, acknowledgement\<close>

lemma einv_enqueue [inv_intros]:
  assumes "engine_inv e"
  shows "engine_inv (snd (enqueue msg persist e))"
proof (cases "get_queue (msg_queue msg) e")
  case (Some q)
  let ?n = "msg_queue msg" and ?k = "msg_id msg"
  obtain now e0 where rc: "read_clock e = (now, e0)" by fastforce
  have e0: "engine_inv e0" using einv_read_clock [OF assms] rc by simp
  have q0: "get_queue ?n e0 = Some q" using Some get_queue_read_clock [OF rc] by simp
  have stored: "einv {(?n, ?k)} {} {} (upd_stats ?n f (index_id ?k ?n (set_message ?n m e0)))"
    if "msg_id m = ?k" "msg_queue m = ?n" for m f
    using einv_set_message [OF e0 that(2)] that q0
    by (intro einv_upd_stats einv_index_id) auto
  have "engine_inv (push_ready ?n m (upd_stats ?n f (index_id ?k ?n (set_message ?n m e0))))"
    if "msg_id m = ?k" "msg_queue m = ?n" for m f
    using einv_push_ready [OF stored [OF that], of ?n m] that by simp
  moreover have "engine_inv (push_delayed ?n t ?k
      (upd_stats ?n f (index_id ?k ?n (set_message ?n m e0))))"
    if "msg_id m = ?k" "msg_queue m = ?n" for m f t
    using einv_push_delayed [OF stored [OF that], of ?n ?k t] by simp
  ultimately show ?thesis
    using Some rc assms by (simp add: enqueue_def Let_def einv_journal_append split: option.split)
qed (use assms in \<open>simp add: enqueue_def Let_def\<close>)

definition live :: "dqueue \<Rightarrow> string \<Rightarrow> bool" where
  "live q k \<longleftrightarrow> k \<in> dkeys (messages q) \<and> k \<notin> dkeys (inflight q) \<and> k \<notin> delayed_ids q"

lemma live_ready [simp]: "live (q\<lparr>ready := h\<rparr>) k = live q k"
  by (simp add: live_def)

text \<open>The three ways one iteration of the loop in \<open>reserve\<close> can go.\<close>

lemma reserve_pop_cases:
  obtains (empty) "ready q = []" "reserve_pop q = (None, q)"
  | (dead_entry) p s k h where "heappop (ready q) = Some ((p, s, k), h)" "\<not> live q k"
      "reserve_pop q = reserve_pop (q\<lparr>ready := h\<rparr>)"
  | (found) p s k h m where "heappop (ready q) = Some ((p, s, k), h)" "live q k"
      "map_of (messages q) k = Some m" "reserve_pop q = (Some (k, m), q\<lparr>ready := h\<rparr>)"
proof (cases "heappop (ready q)")
  case None
  then show ?thesis by (intro empty) (simp_all add: reserve_pop.simps)
next
  case (Some x)
  then obtain p s k h where x: "heappop (ready q) = Some ((p, s, k), h)" by (metis prod.exhaust)
  show ?thesis
  proof (cases "live q k")
    case True
    then obtain m where "map_of (messages q) k = Some m" by (auto simp: live_def dkeys_iff)
    with True x show ?thesis
      by (intro found [OF x]) (simp_all add: reserve_pop.simps [of q] live_def)
  next
    case False
    with x show ?thesis
      by (intro dead_entry [OF x])
         (auto simp: reserve_pop.simps [of q] live_def dkeys_iff Let_def split: option.split)
  qed
qed

text \<open>What the loop does: it takes entries off the heap; those that are gone from it are not live,
  except the one it returns, which is the least live entry; it finds nothing only when no entry
  is live.\<close>

definition popped :: "dqueue \<Rightarrow> (string \<times> message) option \<Rightarrow> ready_entry list \<Rightarrow> bool" where
  "popped q r h \<longleftrightarrow>
     (case r of
        None \<Rightarrow> h = [] \<and> (\<forall>x \<in> set (ready q). \<not> live q (snd (snd x)))
      | Some (k, m) \<Rightarrow> live q k \<and> map_of (messages q) k = Some m \<and>
          (\<exists>p s. (p, s, k) \<in> set (ready q) \<and>
             (\<forall>x \<in> set (ready q). live q (snd (snd x)) \<longrightarrow> (p, s, k) \<le> x) \<and>
             (\<forall>x \<in> set (ready q). x \<in> set h \<or> x = (p, s, k) \<or> \<not> live q (snd (snd x)))))"

lemma popped_skip:
  assumes "popped (q\<lparr>ready := h\<rparr>) r h'" "\<not> live q k" "set (ready q) = insert (p, s, k) (set h)"
  shows "popped q r h'"
  using assms by (auto simp: popped_def split: option.splits)

lemma reserve_pop_spec:
  "reserve_pop q = (r, q') \<Longrightarrow> is_heap (ready q) \<Longrightarrow>
   \<exists>h. q' = q\<lparr>ready := h\<rparr> \<and> is_heap h \<and> mset h \<subseteq># mset (ready q) \<and> popped q r h"
proof (induction "length (ready q)" arbitrary: q rule: less_induct)
  case less
  show ?case
  proof (cases rule: reserve_pop_cases [of q])
    case empty
    then show ?thesis using less.prems by (intro exI [of _ "[]"]) (simp add: popped_def)
  next
    case (dead_entry p s k h)
    have len: "length (ready (q\<lparr>ready := h\<rparr>)) < length (ready q)"
      using length_heappop [OF dead_entry(1)] by simp
    obtain h' where h': "q' = q\<lparr>ready := h'\<rparr>" "is_heap h'" "mset h' \<subseteq># mset h"
      and r: "popped (q\<lparr>ready := h\<rparr>) r h'"
      using less.hyps [OF len] less.prems dead_entry(3) is_heap_heappop [OF dead_entry(1)] by auto
    have "mset h' \<subseteq># mset (ready q)"
      using h'(3) mset_heappop [OF dead_entry(1)] by (simp add: subset_mset.order_trans)
    then show ?thesis
      using h' popped_skip [OF r dead_entry(2) set_heappop [OF dead_entry(1)]] by blast
  next
    case (found p s k h m)
    have "(p, s, k) \<in> set (ready q)" "\<forall>x \<in> set (ready q). (p, s, k) \<le> x"
      "\<forall>x \<in> set (ready q). x \<in> set h \<or> x = (p, s, k)"
      using set_heappop [OF found(1)] heappop_min [OF found(1) less.prems(2)] by blast+
    then have "popped q (Some (k, m)) h"
      using found(2,3) unfolding popped_def option.case prod.case by blast
    moreover have "q' = q\<lparr>ready := h\<rparr>" "r = Some (k, m)" using found(4) less.prems(1) by simp_all
    moreover have "mset h \<subseteq># mset (ready q)" using mset_heappop [OF found(1)] by simp
    ultimately show ?thesis using is_heap_heappop [OF found(1) less.prems(2)] by blast
  qed
qed


lemma distinct_submset:
  assumes "mset ys \<subseteq># mset xs" "distinct (map f xs)"
  shows "distinct (map f ys)"
proof -
  obtain zs where "mset xs = mset ys + mset zs"
    using assms(1) by (metis ex_mset mset_subset_eq_exists_conv)
  then have "mset (map f xs) = mset (map f (ys @ zs))" by simp
  then show ?thesis using assms(2) by (metis distinct_append map_append mset_eq_imp_distinct_iff)
qed

lemma queue_ok_fewer_ready:
  assumes "queue_ok s n q" "is_heap h" "mset h \<subseteq># mset (ready q)"
  shows "queue_ok s n (q\<lparr>ready := h\<rparr>)"
proof -
  have "set h \<subseteq> set (ready q)" using assms(3) by (metis set_mset_mono set_mset_mset)
  then show ?thesis
    using assms(1,2) distinct_submset [OF assms(3)] by (auto simp: queue_ok_def)
qed

text \<open>Entries that are not live may leave the heap, and so may the entry of a message that goes in
  flight.\<close>

lemma tracked_take_ready:
  assumes t: "tracked X n q" and m: "messages q' = messages q" "delayed_ids q' = delayed_ids q"
    and i: "dkeys (inflight q') = dkeys (inflight q) \<union> K"
    and r: "\<And>x. x \<in> set (ready q) \<Longrightarrow> x \<in> set (ready q') \<or> snd (snd x) \<in> K \<or> \<not> live q (snd (snd x))"
  shows "tracked X n q'"
  unfolding tracked_def
proof
  fix k assume k: "k \<in> dkeys (messages q')"
  then have "(n, k) \<in> X \<or> k \<in> ready_ids q \<or> k \<in> delayed_ids q \<or> k \<in> dkeys (inflight q)"
    using t m(1) unfolding tracked_def by metis
  moreover have "k \<in> ready_ids q' \<or> k \<in> delayed_ids q' \<or> k \<in> dkeys (inflight q')" if kr: "k \<in> ready_ids q"
  proof -
    obtain x where x: "x \<in> set (ready q)" "k = snd (snd x)" using kr by blast
    show ?thesis using r [OF x(1)]
    proof (elim disjE)
      assume "x \<in> set (ready q')" then show ?thesis using x(2) by blast
    next
      assume "snd (snd x) \<in> K" then show ?thesis using i x(2) by blast
    next
      assume "\<not> live q (snd (snd x))"
      then show ?thesis using k m i x(2) unfolding live_def by (metis UnI1)
    qed
  qed
  ultimately show "(n, k) \<in> X \<or> k \<in> ready_ids q' \<or> k \<in> delayed_ids q' \<or> k \<in> dkeys (inflight q')"
    using m(2) i by (metis UnI1)
qed

lemma tracked_fewer_ready:
  assumes "tracked X n q" "\<And>x. x \<in> set (ready q) \<Longrightarrow> x \<in> set h \<or> \<not> live q (snd (snd x))"
  shows "tracked X n (q\<lparr>ready := h\<rparr>)"
  using assms(2) by (intro tracked_take_ready [OF assms(1), of _ "{}"]) auto

lemma einv_reserve [inv_intros]:
  assumes inv: "engine_inv e"
  shows "engine_inv (snd (reserve n c e))"
proof (cases "get_queue n e")
  case None
  then show ?thesis using inv by (simp add: reserve_def)
next
  case (Some q)
  obtain r q' where pop: "reserve_pop q = (r, q')" by fastforce
  have qok: "queue_ok (seq e) n q" using einv_queue [OF inv Some] .
  then obtain h where h: "q' = q\<lparr>ready := h\<rparr>" "is_heap h" "mset h \<subseteq># mset (ready q)" "popped q r h"
    using reserve_pop_spec [OF pop] by (auto simp: queue_ok_def)
  note ok' = queue_ok_fewer_ready [OF qok h(2,3)]
  show ?thesis
  proof (cases r)
    case None
    have "engine_inv (upd_queue n (\<lambda>_. q') e)"
      using inv
    proof (rule einv_upd_queue)
      fix q1 assume "get_queue n e = Some q1" "tracked {} n q1"
        "delayed_ok (delayed e) {} n q1" "visible_ok (visibility_heap e) {} n q1"
      then show "queue_ok (seq e) n q' \<and> tracked {} n q' \<and> delayed_ok (delayed e) {} n q' \<and>
          visible_ok (visibility_heap e) {} n q'"
        using Some ok' h(1,4) None tracked_fewer_ready [of "{}" n q h]
        by (auto simp: delayed_ok_def visible_ok_def popped_def)
    qed (use Some h in auto)
    then show ?thesis using Some pop None by (simp add: reserve_def)
  next
    case [simp]: (Some km)
    obtain k m where km: "km = (k, m)" by fastforce
    obtain now e0 where rc: "read_clock e = (now, e0)" by fastforce
    have e0: "engine_inv e0" "get_queue n e0 = Some q" "seq e0 = seq e" "delayed e0 = delayed e"
      "visibility_heap e0 = visibility_heap e"
      using einv_read_clock [OF inv] rc \<open>get_queue n e = Some q\<close> by (auto simp: read_clock_def)
    let ?dl = "now + visibility_timeout (spec q)"
    let ?rec = "\<lparr>rec_message_id = k, rec_queue = n, rec_consumer = c, delivery_time = now,
        visibility_deadline = ?dl\<rparr>"
    let ?q1 = "q'\<lparr>inflight := dset k ?rec (inflight q')\<rparr>"
    let ?e1 = "upd_queue n (\<lambda>_. ?q1) e0"
    let ?e2 = "snd (next_seq ?e1)"
    let ?e3 = "?e2\<lparr>visibility_heap := heappush (visibility_heap ?e2) (?dl, seq e + 1, n, k)\<rparr>"
    have lv: "live q k" and rest: "\<And>x. x \<in> set (ready q) \<Longrightarrow>
        x \<in> set h \<or> snd (snd x) = k \<or> \<not> live q (snd (snd x))"
      using h(4) km by (auto simp: popped_def)
    have "einv {} {} {(n, k)} ?e1"
      using e0(1)
    proof (rule einv_upd_queue)
      fix q2 assume q2: "get_queue n e0 = Some q2" "tracked {} n q2"
        "delayed_ok (delayed e0) {} n q2" "visible_ok (visibility_heap e0) {} n q2"
      then have "tracked {} n ?q1"
        using e0(2) h(1) rest by (intro tracked_take_ready [OF q2(2), of _ "{k}"]) auto
      moreover have "queue_ok (seq e0) n ?q1"
        using ok' h(1) e0(3) by (auto simp: queue_ok_def)
      ultimately show "queue_ok (seq e0) n ?q1 \<and> tracked {} n ?q1 \<and>
          delayed_ok (delayed e0) {} n ?q1 \<and> visible_ok (visibility_heap e0) {(n, k)} n ?q1"
        using q2 e0(2) h(1) by (auto simp: delayed_ok_def visible_ok_def)
    qed (use e0(2) h(1) in auto)
    then have e2: "einv {} {} {(n, k)} ?e2" by (rule einv_next_seq)
    then have e3: "einv {} {} {(n, k)} ?e3"
      using einv_base [OF e2] by (intro einv_visibility_heap) (auto simp: base_ok_def)
    have "einv {} {} ({(n, k)} - {(n, k)}) ?e3"
      using e3
    proof (rule einv_visible_entry)
      fix q2 r2 assume "get_queue n ?e3 = Some q2" "map_of (inflight q2) k = Some r2"
      then have "r2 = ?rec" using e0(2) by (auto simp: next_seq_def)
      then show "\<exists>s. (visibility_deadline r2, s, n, k) \<in> set (visibility_heap ?e3)" by auto
    qed
    then have "engine_inv ?e3" by simp
    then have "engine_inv (upd_stats n (\<lambda>st. st\<lparr>delivered := Suc (delivered st)\<rparr>) ?e3)"
      by (rule einv_upd_stats)
    then show ?thesis
      using \<open>get_queue n e = Some q\<close> pop km rc e0(3)
      by (simp add: reserve_def Let_def next_seq_def)
  qed
qed

lemma einv_remember_ack [inv_intros]:
  assumes "einv X Y Z e"
  shows "einv X Y Z (remember_ack k e)"
proof -
  have "base_ok (remember_ack k e)"
    using einv_base [OF assms] by (auto simp: base_ok_def index_ok_def remember_ack_def Let_def)
  then show ?thesis using assms by (auto simp: einv_def remember_ack_def Let_def)
qed

lemma einv_ack [inv_intros]:
  assumes "engine_inv e"
  shows "engine_inv (snd (ack k persist e))"
proof -
  have move: "unindex_id k (del_message n k e') = del_message n k (unindex_id k e')" for n e'
    by (simp add: unindex_id_def del_message_def upd_queue_def split: option.split)
  have "einv {(n, k)} {} {} (del_inflight n k e)" for n
    using einv_del_inflight [OF assms, of n k] by simp
  then have "einv ({(n, k)} - {(n, k)}) {} {} (unindex_id k (del_message n k (del_inflight n k e)))"
    for n by (rule einv_drop_message)
  then have "engine_inv (unindex_id k (del_message n k (del_inflight n k e)))" for n by simp
  then show ?thesis
    using assms
    by (simp add: ack_def Let_def einv_journal_append einv_upd_stats einv_remember_ack
        split: option.split)
qed

lemma einv_nack [inv_intros]:
  assumes "engine_inv e"
  shows "engine_inv (snd (nack k requeue persist e))"
proof (cases "map_of (by_id e) k")
  case (Some n)
  then obtain q where q: "get_queue n e = Some q" "k \<in> dkeys (messages q)"
    using index_okD einv_base [OF assms] unfolding base_ok_def by blast
  then obtain m where m: "map_of (messages q) k = Some m" by (auto simp: dkeys_iff)
  have ids: "msg_id m = k" "msg_queue m = n"
    using einv_queue [OF assms q(1)] m by (auto simp: queue_ok_def)
  show ?thesis
  proof (cases "map_of (inflight q) k")
    case None
    then show ?thesis using assms Some q by (simp add: nack_def)
  next
    case (Some rec)
    let ?e3 = "journal_append persist ''MESSAGE_NACK''
        [(''id'', JStr k), (''queue'', JStr n), (''requeue'', JBool requeue)] []
        (upd_stats n (\<lambda>st. st\<lparr>nacked := Suc (nacked st)\<rparr>) (del_inflight n k e))"
    have e3: "einv {(n, k)} {} {} ?e3"
      using einv_del_inflight [OF assms, of n k]
      by (intro einv_journal_append einv_upd_stats) simp
    obtain q3 where "get_queue n ?e3 = Some q3" "msg_id m \<in> dkeys (messages q3)"
      using q ids by simp
    from einv_retry_or_dead [OF e3 this ids(2), of persist] einv_move_to_dlq [OF e3, of n m persist]
    have "engine_inv (retry_or_dead n m persist ?e3)" "engine_inv (move_to_dlq n m persist ?e3)"
      using ids by simp_all
    then show ?thesis using \<open>map_of (by_id e) k = Some n\<close> q Some m
      by (cases requeue) (simp_all add: nack_def Let_def)
  qed
qed (use assms in \<open>simp add: nack_def\<close>)

end
