(* ===== verification/EngineSweeps.thy ===== *)
theory EngineSweeps
  imports EngineOps
begin

text \<open>
  The operations that work through many messages at once (the recovery of a disconnected consumer,
  the tick, the requeue of dead letters) keep the invariant of the engine.
\<close>

section \<open>Ending an exemption\<close>

lemma einv_untrack:
  assumes "einv X Y Z e"
    and "\<And>q. get_queue n e = Some q \<Longrightarrow> k \<in> dkeys (messages q) \<Longrightarrow>
      k \<in> ready_ids q \<or> k \<in> delayed_ids q \<or> k \<in> dkeys (inflight q)"
  shows "einv (X - {(n, k)}) Y Z e"
proof -
  have "tracked (X - {(n, k)}) n' q" if q: "get_queue n' e = Some q" "tracked X n' q" for n' q
    unfolding tracked_def
  proof
    fix k' assume k': "k' \<in> dkeys (messages q)"
    show "(n', k') \<in> X - {(n, k)} \<or> k' \<in> ready_ids q \<or> k' \<in> delayed_ids q \<or> k' \<in> dkeys (inflight q)"
    proof (cases "(n', k') = (n, k)")
      case True
      then show ?thesis using assms(2) q(1) k' by simp
    next
      case False
      then show ?thesis using q(2) k' unfolding tracked_def by blast
    qed
  qed
  then show ?thesis using assms(1) by (simp add: einv_def)
qed

lemma einv_undelay:
  assumes "einv X Y Z e" "\<And>q. get_queue n e = Some q \<Longrightarrow> k \<notin> delayed_ids q"
  shows "einv X (Y - {(n, k)}) Z e"
proof -
  have "delayed_ok (delayed e) (Y - {(n, k)}) n' q"
    if q: "get_queue n' e = Some q" "delayed_ok (delayed e) Y n' q" for n' q
    using q assms(2) unfolding delayed_ok_def by (cases "n' = n") auto
  then show ?thesis using assms(1) by (simp add: einv_def)
qed

section \<open>Disconnect\<close>

text \<open>The failure of one delivery: its record goes, its message is retried or dies.\<close>

lemma einv_fail_delivery:
  assumes inv: "einv {} {} (Z \<union> {(n, k)}) e" "(n, k) \<notin> Z"
  shows "get_queue n (del_inflight n k e) = None \<Longrightarrow> einv {} {} Z (del_inflight n k e)"
    and "get_queue n (del_inflight n k e) = Some q \<Longrightarrow> map_of (messages q) k = None \<Longrightarrow>
      einv {} {} Z (del_inflight n k e)"
    and "get_queue n (del_inflight n k e) = Some q \<Longrightarrow> map_of (messages q) k = Some m \<Longrightarrow>
      einv {} {} Z (retry_or_dead n m persist (del_inflight n k e))"
proof -
  let ?e = "del_inflight n k e"
  have "einv (insert (n, k) {}) {} (Z \<union> {(n, k)} - {(n, k)}) ?e"
    using inv(1) by (rule einv_del_inflight)
  moreover have "Z \<union> {(n, k)} - {(n, k)} = Z" using inv(2) by blast
  ultimately have e1: "einv {(n, k)} {} Z ?e" by simp
  have untrack: "einv {} {} Z ?e" if "\<And>q. get_queue n ?e = Some q \<Longrightarrow> k \<notin> dkeys (messages q)"
    using einv_untrack [OF e1, of n k] that by auto
  show "get_queue n ?e = None \<Longrightarrow> einv {} {} Z ?e" by (rule untrack) simp
  show "get_queue n ?e = Some q \<Longrightarrow> map_of (messages q) k = None \<Longrightarrow> einv {} {} Z ?e"
    by (rule untrack) (auto simp: dkeys_iff)
  assume q: "get_queue n ?e = Some q" and m: "map_of (messages q) k = Some m"
  have "msg_id m = k" "msg_queue m = n"
    using einv_queue [OF e1 q] m by (auto simp: queue_ok_def)
  then show "einv {} {} Z (retry_or_dead n m persist ?e)"
    using einv_retry_or_dead [OF e1 q, of m persist] m by (auto simp: dkeys_iff)
qed

lemma einv_recover_records:
  "engine_inv e \<Longrightarrow> engine_inv (snd (recover_records n recs persist e))"
proof (induction recs arbitrary: e)
  case (Cons rec recs)
  let ?k = "rec_message_id rec"
  have "einv {} {} ({} \<union> {(n, ?k)}) e" by (rule einv_mono [OF Cons.prems]) auto
  note fail = einv_fail_delivery [OF this]
  show ?case
  proof (cases "get_queue n e")
    case None
    then show ?thesis using Cons.IH [OF fail(1)] by simp
  next
    case (Some q)
    then have q: "get_queue n (del_inflight n ?k e) = Some (q\<lparr>inflight := ddel ?k (inflight q)\<rparr>)"
      by simp
    show ?thesis
    proof (cases "map_of (messages q) ?k")
      case None
      then show ?thesis using Some Cons.IH [OF fail(2) [OF _ q]] by simp
    next
      case m: (Some m)
      then show ?thesis using Some Cons.IH [OF fail(3) [OF _ q, of m persist]]
        by (simp add: case_prod_beta Let_def)
    qed
  qed
qed simp

lemma einv_recover_queues:
  "engine_inv e \<Longrightarrow> engine_inv (snd (recover_queues len ns c persist cnt e))"
proof (induction ns arbitrary: cnt e)
  case Nil
  then show ?case by (simp add: recover_queues.simps)
next
  case (Cons n ns)
  have "engine_inv (snd (recover_queues len ns c persist (cnt + k) e1))"
    if r: "recover_records n recs persist e = (k, e1)" for recs k e1
    using Cons.IH einv_recover_records [OF Cons.prems, of n recs persist] r by simp
  then show ?case
    using Cons by (simp add: recover_queues.simps [of len "n # ns"] split: option.split prod.split)
qed

lemma einv_recover_consumer [inv_intros]:
  "engine_inv e \<Longrightarrow> engine_inv (snd (recover_consumer c persist e))"
  by (simp add: recover_consumer_def einv_recover_queues)

section \<open>Time\<close>

lemma einv_release_each:
  "einv {} Y {} e \<Longrightarrow> Y \<subseteq> set due \<Longrightarrow> engine_inv (snd (release_each due e))"
proof (induction due arbitrary: e Y)
  case (Cons d due)
  obtain n k where d: "d = (n, k)" by fastforce
  have step: "engine_inv (snd (release_each due e'))" if "einv {} (Y - {(n, k)}) {} e'" for e'
    using Cons.IH [OF that] Cons.prems(2) d by auto
  show ?case
  proof (cases "get_queue n e")
    case None
    have "einv {} (Y - {(n, k)}) {} e" by (rule einv_undelay [OF Cons.prems(1)]) (simp add: None)
    then show ?thesis using step None d by simp
  next
    case q: (Some q)
    show ?thesis
    proof (cases "k \<in> delayed_ids q")
      case False
      have "einv {} (Y - {(n, k)}) {} e"
        by (rule einv_undelay [OF Cons.prems(1)]) (use q False in simp)
      then show ?thesis using step q False d by simp
    next
      case True
      let ?q1 = "q\<lparr>delayed_ids := delayed_ids q - {k}\<rparr>"
      let ?e1 = "upd_queue n (\<lambda>q. q\<lparr>delayed_ids := delayed_ids q - {k}\<rparr>) e"
      have q1: "get_queue n ?e1 = Some ?q1" using q by simp
      have e1: "einv {(n, k)} (Y - {(n, k)}) {} ?e1"
        using einv_discard_delayed [OF Cons.prems(1)] by simp
      have untrack: "einv {} (Y - {(n, k)}) {} ?e1"
        if in_flight: "k \<in> dkeys (messages q) \<Longrightarrow> k \<in> dkeys (inflight q)"
      proof -
        have "einv ({(n, k)} - {(n, k)}) (Y - {(n, k)}) {} ?e1"
        proof (rule einv_untrack [OF e1])
          fix q' assume "get_queue n ?e1 = Some q'" "k \<in> dkeys (messages q')"
          then have "q' = ?q1" "k \<in> dkeys (messages q)" using q by auto
          then show "k \<in> ready_ids q' \<or> k \<in> delayed_ids q' \<or> k \<in> dkeys (inflight q')"
            using in_flight by simp
        qed
        then show ?thesis by simp
      qed
      show ?thesis
      proof (cases "map_of (messages q) k")
        case None
        then have "einv {} (Y - {(n, k)}) {} ?e1" by (intro untrack) (auto simp: dkeys_iff)
        then show ?thesis using step q True None d by simp
      next
        case m: (Some m)
        show ?thesis
        proof (cases "k \<in> dkeys (inflight q)")
          case infl: True
          have "einv {} (Y - {(n, k)}) {} ?e1" using infl by (intro untrack)
          then show ?thesis using step q True m infl d by simp
        next
          case False
          let ?m = "m\<lparr>available_at := None\<rparr>"
          have ids: "msg_id m = k" "msg_queue m = n"
            using einv_queue [OF e1 q1] m by (auto simp: queue_ok_def)
          have "einv {(n, k)} (Y - {(n, k)}) {} (set_message n ?m ?e1)"
            using ids m by (intro einv_reset_message [OF e1 _ q1]) (auto simp: dkeys_iff)
          then have "einv ({(n, k)} - {(n, msg_id ?m)}) (Y - {(n, k)}) {}
              (push_ready n ?m (set_message n ?m ?e1))" by (rule einv_push_ready)
          then have "einv {} (Y - {(n, k)}) {} (push_ready n ?m (set_message n ?m ?e1))"
            using ids by simp
          then show ?thesis using step q True m False d by (simp add: case_prod_beta Let_def)
        qed
      qed
    qed
  qed
qed simp

lemma einv_release_delayed [inv_intros]:
  assumes "engine_inv e"
  shows "engine_inv (snd (release_delayed now e))"
proof -
  obtain due h where p: "pop_due now (\<lambda>_. True) (delayed e) = (due, h)" by fastforce
  have hp: "is_heap (delayed e)" using einv_base [OF assms] by (simp add: base_ok_def)
  have b: "base_ok (e\<lparr>delayed := h\<rparr>)"
    using einv_base [OF assms] pop_due_heap [OF p hp] by (simp add: base_ok_def index_ok_def)
  have "delayed_ok h (set due) n q" if "delayed_ok (delayed e) {} n q" for n q
    unfolding delayed_ok_def
  proof
    fix k assume "k \<in> delayed_ids q"
    then obtain t s where "(t, s, n, k) \<in> set (delayed e)"
      using \<open>delayed_ok (delayed e) {} n q\<close> unfolding delayed_ok_def by blast
    then show "(n, k) \<in> set due \<or> (\<exists>t s. (t, s, n, k) \<in> set h)"
      unfolding pop_due_rest [OF p hp] pop_due_due [OF p hp] by (cases "t \<le> now") force+
  qed
  then have "einv {} (set due) {} (e\<lparr>delayed := h\<rparr>)"
    using assms b by (simp add: einv_def)
  then show ?thesis using einv_release_each p by (simp add: release_delayed_def)
qed

text \<open>Taking the first deadline off the heap exempts the delivery whose deadline it is.\<close>

lemma einv_pop_deadline:
  assumes inv: "engine_inv e" and pop: "heappop (visibility_heap e) = Some ((t, s, n, k), h)"
  shows "einv {} {} {(n, k)} (e\<lparr>visibility_heap := h\<rparr>)"
    and "(\<And>q r. get_queue n e = Some q \<Longrightarrow> map_of (inflight q) k = Some r \<Longrightarrow>
           visibility_deadline r \<noteq> t) \<Longrightarrow> engine_inv (e\<lparr>visibility_heap := h\<rparr>)"
proof -
  let ?e = "e\<lparr>visibility_heap := h\<rparr>"
  have b: "base_ok ?e"
    using einv_base [OF inv] is_heap_heappop [OF pop] by (simp add: base_ok_def index_ok_def)
  have "visible_ok h {(n, k)} n' q" if v: "visible_ok (visibility_heap e) {} n' q" for n' q
    using v unfolding visible_ok_def set_heappop [OF pop] by auto
  then show e1: "einv {} {} {(n, k)} ?e" using inv b by (simp add: einv_def)
  assume other: "\<And>q r. get_queue n e = Some q \<Longrightarrow> map_of (inflight q) k = Some r \<Longrightarrow>
    visibility_deadline r \<noteq> t"
  have "einv {} {} ({(n, k)} - {(n, k)}) ?e"
  proof (rule einv_visible_entry [OF e1])
    fix q r assume q: "get_queue n ?e = Some q" "map_of (inflight q) k = Some r"
    then have "get_queue n e = Some q" by simp
    from einv_parts(3) [OF inv this] q(2) obtain s'
      where "(visibility_deadline r, s', n, k) \<in> set (visibility_heap e)"
      unfolding visible_ok_def by blast
    then show "\<exists>s. (visibility_deadline r, s, n, k) \<in> set (visibility_heap ?e)"
      using set_heappop [OF pop] other [OF \<open>get_queue n e = Some q\<close> q(2)] by auto
  qed
  then show "engine_inv ?e" by simp
qed

text \<open>One iteration of the loop of \<open>timeout_inflight\<close>: a deadline that does not belong to the
  delivery any more is dropped, and a delivery that is due fails.\<close>

lemma timeout_cases:
  obtains (idle) "timeout_inflight now e = (0, e)"
      "\<And>x. x \<in> set (visibility_heap e) \<Longrightarrow> is_heap (visibility_heap e) \<Longrightarrow> now < fst x"
  | (stale) t s n k h where "heappop (visibility_heap e) = Some ((t, s, n, k), h)" "t \<le> now"
      "\<And>q r. get_queue n e = Some q \<Longrightarrow> map_of (inflight q) k = Some r \<Longrightarrow> visibility_deadline r \<noteq> t"
      "timeout_inflight now e = timeout_inflight now (e\<lparr>visibility_heap := h\<rparr>)"
  | (orphan) t s n k h q r where "heappop (visibility_heap e) = Some ((t, s, n, k), h)" "t \<le> now"
      "get_queue n e = Some q" "map_of (inflight q) k = Some r" "visibility_deadline r = t"
      "map_of (messages q) k = None"
      "timeout_inflight now e = timeout_inflight now (del_inflight n k (e\<lparr>visibility_heap := h\<rparr>))"
  | (fails) t s n k h q r m where "heappop (visibility_heap e) = Some ((t, s, n, k), h)" "t \<le> now"
      "get_queue n e = Some q" "map_of (inflight q) k = Some r" "visibility_deadline r = t"
      "map_of (messages q) k = Some m"
      "timeout_inflight now e =
         (case timeout_inflight now
                 (retry_or_dead n m True (del_inflight n k (e\<lparr>visibility_heap := h\<rparr>))) of
            (c, e3) \<Rightarrow> (Suc c, e3))"
proof (cases "heappeek (visibility_heap e)")
  case None
  then have "visibility_heap e = []" by (simp add: heappeek_def split: list.splits)
  then show ?thesis using None by (intro idle) (simp_all add: timeout_inflight.simps)
next
  case (Some x)
  obtain t s n k where x: "x = (t, s, n, k)" by (cases x)
  obtain h where h: "heappop (visibility_heap e) = Some ((t, s, n, k), h)"
    using heappeek_pop [OF Some] x by blast
  note unf = timeout_inflight.simps [of now e]
  show ?thesis
  proof (cases "t \<le> now")
    case False
    then show ?thesis
      using Some x peek_later [OF Some] by (intro idle) (simp_all add: unf)
  next
    case le: True
    show ?thesis
    proof (cases "\<exists>q r. get_queue n e = Some q \<and> map_of (inflight q) k = Some r \<and> visibility_deadline r = t")
      case False
      then have "timeout_inflight now e = timeout_inflight now (e\<lparr>visibility_heap := h\<rparr>)"
        using Some x h le by (auto simp: unf Let_def split: option.split)
      then show ?thesis using False by (intro stale [OF h le]) auto
    next
      case True
      then obtain q r where q: "get_queue n e = Some q" "map_of (inflight q) k = Some r"
        "visibility_deadline r = t" by blast
      show ?thesis
      proof (cases "map_of (messages q) k")
        case None
        then show ?thesis
          using Some x h le q by (intro orphan [OF h le q]) (simp_all add: unf Let_def)
      next
        case m: (Some m)
        show ?thesis
          using Some x h le q m by (intro fails [OF h le q m]) (simp add: unf Let_def)
      qed
    qed
  qed
qed

lemma einv_timeout_inflight [inv_intros]:
  "engine_inv e \<Longrightarrow> engine_inv (snd (timeout_inflight now e))"
proof (induction "length (visibility_heap e)" arbitrary: e rule: less_induct)
  case less
  have IH: "engine_inv (snd (timeout_inflight now e'))"
    if "heappop (visibility_heap e) = Some (x, h)" "visibility_heap e' = h" "engine_inv e'" for e' x h
    using less.hyps [of e'] length_heappop that by blast
  show ?case
  proof (cases rule: timeout_cases [of now e])
    case idle
    then show ?thesis using less.prems by simp
  next
    case (stale t s n k h)
    then show ?thesis
      using IH [OF stale(1) _ einv_pop_deadline(2) [OF less.prems stale(1)]] by auto
  next
    case (orphan t s n k h q r)
    let ?e = "e\<lparr>visibility_heap := h\<rparr>"
    have e1: "einv {} {} ({} \<union> {(n, k)}) ?e"
      using einv_pop_deadline(1) [OF less.prems orphan(1)] by simp
    have q1: "get_queue n (del_inflight n k ?e) = Some (q\<lparr>inflight := ddel k (inflight q)\<rparr>)"
      using orphan(3) by simp
    have "engine_inv (del_inflight n k ?e)"
      by (rule einv_fail_delivery(2) [OF e1 _ q1]) (use orphan(6) in simp_all)
    then show ?thesis using IH [OF orphan(1), of "del_inflight n k ?e"] orphan(7)
      by (simp add: del_inflight_def)
  next
    case (fails t s n k h q r m)
    let ?e = "e\<lparr>visibility_heap := h\<rparr>"
    have e1: "einv {} {} ({} \<union> {(n, k)}) ?e"
      using einv_pop_deadline(1) [OF less.prems fails(1)] by simp
    have q1: "get_queue n (del_inflight n k ?e) = Some (q\<lparr>inflight := ddel k (inflight q)\<rparr>)"
      using fails(3) by simp
    have "engine_inv (retry_or_dead n m True (del_inflight n k ?e))"
      by (rule einv_fail_delivery(3) [OF e1 _ q1]) (use fails(6) in simp_all)
    then have "engine_inv (snd (timeout_inflight now (retry_or_dead n m True (del_inflight n k ?e))))"
      by (intro IH [OF fails(1)]) (simp_all add: del_inflight_def)
    then show ?thesis using fails(7) by (simp add: case_prod_beta)
  qed
qed

lemma einv_tick [inv_intros]:
  assumes "engine_inv e" shows "engine_inv (snd (tick now e))"
proof -
  have "engine_inv (snd (case now of None \<Rightarrow> read_clock e | Some t \<Rightarrow> (t, e)))"
    using assms by (auto intro: einv_read_clock split: option.split)
  then show ?thesis
    by (simp add: tick_def case_prod_beta einv_release_delayed einv_timeout_inflight)
qed

section \<open>Dead letters back to their queue\<close>

lemma einv_drop_ready:
  assumes inv: "einv X Y Z e" and gone: "\<And>q. get_queue n e = Some q \<Longrightarrow> k \<notin> dkeys (messages q)"
  shows "einv X Y Z (drop_ready n k e)"
  unfolding drop_ready_def
  using inv
proof (rule einv_upd_queue)
  let ?f = "\<lambda>q. if ready q = [] then q
                else q\<lparr>ready := heapify (filter (\<lambda>(p, s, i). i \<noteq> k) (ready q))\<rparr>"
  fix q assume q: "get_queue n e = Some q" "queue_ok (seq e) n q" "tracked X n q"
    "delayed_ok (delayed e) Y n q" "visible_ok (visibility_heap e) Z n q"
  let ?h = "heapify (filter (\<lambda>(p, s, i). i \<noteq> k) (ready q))"
  have "mset ?h \<subseteq># mset (ready q)" by (simp add: mset_heapify)
  then have "queue_ok (seq e) n (q\<lparr>ready := ?h\<rparr>)"
    using q(2) by (intro queue_ok_fewer_ready) auto
  moreover have "tracked X n (q\<lparr>ready := ?h\<rparr>)"
  proof (rule tracked_fewer_ready [OF q(3)])
    fix x assume "x \<in> set (ready q)"
    moreover have "\<not> live q k" using gone [OF q(1)] by (simp only: live_def simp_thms)
    ultimately show "x \<in> set ?h \<or> \<not> live q (snd (snd x))"
      by (cases "snd (snd x) = k") (auto simp only: set_heapify set_filter prod.case_eq_if mem_Collect_eq)
  qed
  ultimately show "queue_ok (seq e) n (?f q) \<and> tracked X n (?f q) \<and>
      delayed_ok (delayed e) Y n (?f q) \<and> visible_ok (visibility_heap e) Z n (?f q)"
    using q by (simp add: delayed_ok_def visible_ok_def)
qed simp_all

lemma msg_id_of: "einv X Y Z e \<Longrightarrow> get_queue n e = Some q \<Longrightarrow> map_of (messages q) k = Some m \<Longrightarrow>
  msg_id m = k \<and> msg_queue m = n"
  using einv_queue [of X Y Z e n q] by (auto simp: queue_ok_def)

lemma enqueue_result:
  "fst (enqueue m persist e) =
     (case get_queue (msg_queue m) e of
        None \<Rightarrow> EnqNotFound
      | Some q \<Rightarrow> if over_limit q then EnqQueueFull else EnqOK)"
  unfolding enqueue_def Let_def
  by (cases "get_queue (msg_queue m) e"; simp) (simp add: read_clock_def)

lemma enqueue_failed:
  assumes "fst (enqueue m persist e) \<noteq> EnqOK"
  shows "snd (enqueue m persist e) = e"
proof (cases "get_queue (msg_queue m) e")
  case None
  then show ?thesis by (simp add: enqueue_def Let_def)
next
  case (Some q)
  then have "over_limit q" using assms by (simp add: enqueue_result split: if_splits)
  then show ?thesis using Some by (simp add: enqueue_def Let_def)
qed

text \<open>Putting a message back into a queue: what \<open>dlq_requeue\<close> does when its publication fails.\<close>

lemma einv_put_back:
  assumes "engine_inv e" "get_queue n e = Some q" "msg_queue m = n"
  shows "engine_inv (push_ready n m (index_id (msg_id m) n (set_message n m e)))"
proof -
  have "einv {(n, msg_id m)} {} {} (index_id (msg_id m) n (set_message n m e))"
    using einv_set_message [OF assms(1,3)] assms(2) by (intro einv_index_id) auto
  from einv_push_ready [OF this, of n m] show ?thesis by simp
qed

lemma get_queue_drop_ready:
  "get_queue n e = Some q \<Longrightarrow> get_queue n (drop_ready n k e) = Some (if ready q = [] then q
     else q\<lparr>ready := heapify (filter (\<lambda>(p, s, i). i \<noteq> k) (ready q))\<rparr>)"
  by (simp add: drop_ready_def)

lemma take_dead_letter_queue:
  assumes "get_queue d e = Some q"
  shows "\<exists>q'. get_queue d (take_dead_letter d k e) = Some q' \<and> messages q' = ddel k (messages q)"
  using assms by (auto simp: take_dead_letter_def drop_ready_def unindex_id_def del_message_def)

lemma einv_take_dead_letter:
  assumes "engine_inv e"
  shows "engine_inv (take_dead_letter d k e)"
proof -
  have drop: "einv ({} - {(d, k)}) {} {} (unindex_id k (del_message d k e))"
    using assms by (rule einv_drop_message)
  have "engine_inv (drop_ready d k (unindex_id k (del_message d k e)))"
  proof (rule einv_drop_ready)
    fix q assume "get_queue d (unindex_id k (del_message d k e)) = Some q"
    then obtain q0 where "q = q0\<lparr>messages := ddel k (messages q0)\<rparr>"
      by (auto simp: unindex_id_def del_message_def)
    then show "k \<notin> dkeys (messages q)" by simp
  qed (use drop in simp)
  then show ?thesis unfolding take_dead_letter_def
    by (rule einv_upd_queue) (auto simp: queue_ok_def part_defs)
qed

lemma einv_dlq_requeue [inv_intros]:
  assumes inv: "engine_inv e"
  shows "engine_inv (snd (dlq_requeue n k persist e))"
proof -
  let ?o = "origin_queue n" and ?d = "dlq_name (origin_queue n)"
  have "engine_inv (snd (dlq_requeue n k persist e))"
    if dq: "get_queue ?d e = Some dq" and oq: "get_queue ?o e = Some oq"
      and m: "map_of (messages dq) k = Some m" for dq oq m
  proof -
    let ?e2 = "take_dead_letter ?d k e"
    let ?m1 = "m\<lparr>msg_queue := ?o, attempts := 0, available_at := None\<rparr>"
    let ?m2 = "?m1\<lparr>msg_queue := ?d\<rparr>"
    obtain res e3 where enq: "enqueue ?m1 False ?e2 = (res, e3)" by fastforce
    have e3: "engine_inv e3"
      using einv_enqueue [OF einv_take_dead_letter [OF inv], of ?m1 False ?d k] enq by simp
    have id: "msg_id ?m2 = k" using msg_id_of [OF inv dq m] by simp
    have "engine_inv (push_ready ?d ?m2 (index_id k ?d (set_message ?d ?m2 e3)))" if failed: "res \<noteq> EnqOK"
    proof -
      obtain q' where "get_queue ?d e3 = Some q'"
        using enqueue_failed [of ?m1 False ?e2] enq failed take_dead_letter_queue [OF dq, of k] by auto
      from einv_put_back [OF e3 this, of ?m2] show ?thesis using id by simp
    qed
    then show ?thesis
      using dq oq m enq e3 id
      by (cases res) (simp_all add: dlq_requeue_def Let_def einv_journal_append set_message_def)
  qed
  then show ?thesis
    using inv by (auto simp: dlq_requeue_def Let_def split: option.split)
qed

end
