(* ===== verification/Snapshot.thy ===== *)
theory Snapshot
  imports EngineSweeps
begin

text \<open>
  \<open>snapshot_state\<close> and \<open>restore_state\<close> of the queue engine: a restore gives every queue back its
  specification, its counters and its messages in their order; what was in flight or ready is
  ready again, what was delayed is delayed.
\<close>

section \<open>Restoring one message\<close>

lemma dset_new: "k \<notin> dkeys d \<Longrightarrow> dset k v d = d @ [(k, v)]"
  by (induction d) auto

definition snap_ids :: "message_snap list \<Rightarrow> string list" where
  "snap_ids ms = map (\<lambda>x. msg_id (ms_message x)) ms"

text \<open>What a queue looks like once its messages have been restored, when their ids are new in it.\<close>

definition restored :: "message_snap list \<Rightarrow> dqueue \<Rightarrow> dqueue \<Rightarrow> bool" where
  "restored ms q q' \<longleftrightarrow>
     spec q' = spec q \<and> inflight q' = inflight q \<and> stats q' = stats q \<and> dlq_ids q' = dlq_ids q \<and>
     messages q' = messages q @ map (\<lambda>x. (msg_id (ms_message x), ms_message x)) ms \<and>
     delayed_ids q' = delayed_ids q \<union> set (snap_ids (filter (\<lambda>x. ms_state x = DELAYED) ms)) \<and>
     ready_ids q' = ready_ids q \<union> set (snap_ids (filter (\<lambda>x. ms_state x \<noteq> DELAYED) ms))"

lemma restored_Nil [simp]: "restored [] q q"
  by (simp add: restored_def snap_ids_def)

lemma restored_trans: "restored ms q q1 \<Longrightarrow> restored ms' q1 q2 \<Longrightarrow> restored (ms @ ms') q q2"
  by (auto simp: restored_def snap_ids_def)

lemma restore_message_alt:
  assumes "msg_queue (ms_message ms) = n"
  obtains (ready) "ms_state ms \<noteq> DELAYED"
      "restore_message n ms e = push_ready n (ms_message ms)
         (index_id (msg_id (ms_message ms)) n (set_message n (ms_message ms) e))"
  | (later) w e2 where "ms_state ms = DELAYED"
      "e2 = index_id (msg_id (ms_message ms)) n (set_message n (ms_message ms) e) \<or>
       e2 = snd (read_clock (index_id (msg_id (ms_message ms)) n (set_message n (ms_message ms) e)))"
      "restore_message n ms e = push_delayed n w (msg_id (ms_message ms)) e2"
proof (cases "ms_state ms = DELAYED")
  case False
  then show ?thesis using assms
    by (intro ready) (cases "ms_state ms"; simp add: restore_message_def Let_def)+
next
  case True
  let ?e = "index_id (msg_id (ms_message ms)) n (set_message n (ms_message ms) e)"
  let ?c = "case available_at (ms_message ms) of None \<Rightarrow> read_clock ?e
            | Some t \<Rightarrow> if t = 0 then read_clock ?e else (t, ?e)"
  have r: "restore_message n ms e = push_delayed n (fst ?c) (msg_id (ms_message ms)) (snd ?c)"
    by (simp only: restore_message_def push_delayed_def Let_def True message_state.case assms
        case_prod_beta)
  have "snd ?c = ?e \<or> snd ?c = snd (read_clock ?e)" by (simp split: option.split)
  from later [OF True this r] show ?thesis .
qed

lemma snd_read_clock [simp]:
  "queues (snd (read_clock e)) = queues e" "by_id (snd (read_clock e)) = by_id e"
  "seq (snd (read_clock e)) = seq e"
  by (simp_all add: read_clock_def)

lemma restore_message_queue:
  assumes "get_queue n e = Some q" "msg_queue (ms_message ms) = n"
    "msg_id (ms_message ms) \<notin> dkeys (messages q)"
  shows "\<exists>q'. get_queue n (restore_message n ms e) = Some q' \<and> restored [ms] q q'"
  using assms(2)
proof (cases rule: restore_message_alt [of ms n e])
  case ready
  then show ?thesis using assms
    by (auto simp: push_ready_def next_seq_def index_id_def restored_def snap_ids_def dset_new)
next
  case (later w e2)
  then have "get_queue n e2 = Some (q\<lparr>messages := messages q @ [(msg_id (ms_message ms), ms_message ms)]\<rparr>)"
    using assms by (auto simp: index_id_def dset_new)
  then show ?thesis using later
    by (auto simp: push_delayed_def next_seq_def restored_def snap_ids_def)
qed

lemma restore_message_frame:
  assumes "msg_queue (ms_message ms) = n"
  shows "n' \<noteq> n \<Longrightarrow> get_queue n' (restore_message n ms e) = get_queue n' e"
    and "map fst (queues (restore_message n ms e)) = map fst (queues e)"
    and "by_id (restore_message n ms e) = dset (msg_id (ms_message ms)) n (by_id e)"
    and "seq (restore_message n ms e) = seq e + 1"
proof -
  have keys: "map fst (queues (upd_queue n f e')) = map fst (queues e')" for f e'
    by (auto simp: upd_queue_def map_fst_dset dkeys_iff split: option.split)
  show "n' \<noteq> n \<Longrightarrow> get_queue n' (restore_message n ms e) = get_queue n' e"
    using assms by (cases rule: restore_message_alt [of ms n e])
       (auto simp: push_ready_def push_delayed_def next_seq_def index_id_def)
  show "map fst (queues (restore_message n ms e)) = map fst (queues e)"
    using assms by (cases rule: restore_message_alt [of ms n e])
       (auto simp: push_ready_def push_delayed_def next_seq_def index_id_def set_message_def keys)
  show "by_id (restore_message n ms e) = dset (msg_id (ms_message ms)) n (by_id e)"
    using assms by (cases rule: restore_message_alt [of ms n e])
       (auto simp: push_ready_def push_delayed_def next_seq_def index_id_def set_message_def)
  show "seq (restore_message n ms e) = seq e + 1"
    using assms by (cases rule: restore_message_alt [of ms n e])
       (auto simp: push_ready_def push_delayed_def next_seq_def index_id_def set_message_def)
qed

lemma einv_restore_message:
  assumes "engine_inv e" "get_queue n e = Some q" "msg_queue (ms_message ms) = n"
  shows "engine_inv (restore_message n ms e)"
proof -
  let ?k = "msg_id (ms_message ms)"
  have e1: "einv {(n, ?k)} {} {} (index_id ?k n (set_message n (ms_message ms) e))"
    using einv_set_message [OF assms(1,3)] assms(2) by (intro einv_index_id) auto
  show ?thesis
    using assms(3)
  proof (cases rule: restore_message_alt [of ms n e])
    case ready
    then show ?thesis using einv_push_ready [OF e1, of n "ms_message ms"] by simp
  next
    case (later w e2)
    then have "einv {(n, ?k)} {} {} e2" using e1 einv_read_clock [OF e1] by auto
    from einv_push_delayed [OF this, of n ?k w] show ?thesis using later(3) by simp
  qed
qed

section \<open>Restoring a queue\<close>

lemma restore_messages:
  assumes "engine_inv e" "get_queue n e = Some q" "\<forall>x \<in> set ms. msg_queue (ms_message x) = n"
    "distinct (snap_ids ms)" "set (snap_ids ms) \<inter> dkeys (messages q) = {}"
  shows "engine_inv (fold (restore_message n) ms e) \<and>
    (\<exists>q'. get_queue n (fold (restore_message n) ms e) = Some q' \<and> restored ms q q')"
  using assms
proof (induction ms arbitrary: e q)
  case (Cons x ms)
  have x: "msg_queue (ms_message x) = n" "msg_id (ms_message x) \<notin> dkeys (messages q)"
    using Cons.prems(3,5) by (auto simp: snap_ids_def)
  obtain q1 where q1: "get_queue n (restore_message n x e) = Some q1" "restored [x] q q1"
    using restore_message_queue [OF Cons.prems(2) x] by blast
  have e1: "engine_inv (restore_message n x e)"
    using Cons.prems(1,2) x(1) by (rule einv_restore_message)
  have "dkeys (messages q1) = insert (msg_id (ms_message x)) (dkeys (messages q))"
    using q1(2) by (auto simp: restored_def)
  then have "set (snap_ids ms) \<inter> dkeys (messages q1) = {}"
    using Cons.prems(4,5) by (auto simp: snap_ids_def)
  with Cons.IH [OF e1 q1(1)] Cons.prems(3,4)
  have ih: "engine_inv (fold (restore_message n) ms (restore_message n x e))"
    "\<exists>q'. get_queue n (fold (restore_message n) ms (restore_message n x e)) = Some q' \<and>
       restored ms q1 q'"
    by (simp_all add: snap_ids_def)
  then show ?case using restored_trans [OF q1(2)] by fastforce
qed simp

lemma restore_messages_frame:
  assumes "\<forall>x \<in> set ms. msg_queue (ms_message x) = n"
  shows "n' \<noteq> n \<Longrightarrow> get_queue n' (fold (restore_message n) ms e) = get_queue n' e"
    and "map fst (queues (fold (restore_message n) ms e)) = map fst (queues e)"
    and "seq (fold (restore_message n) ms e) = seq e + int (length ms)"
  using assms by (induction ms arbitrary: e) (simp_all add: restore_message_frame)

definition queue_snap_ok :: "queue_snap \<Rightarrow> bool" where
  "queue_snap_ok qs \<longleftrightarrow>
     (\<forall>x \<in> set (qs_messages qs). msg_queue (ms_message x) = spec_name (qs_spec qs)) \<and>
     distinct (snap_ids (qs_messages qs))"

definition counters :: "queue_stats \<Rightarrow> stats_snap" where
  "counters st = \<lparr>ss_published = published st, ss_delivered = delivered st, ss_acked = acked st,
     ss_nacked = nacked st, ss_retried = retried st, ss_dead = dead st\<rparr>"

text \<open>The queue a snapshot of a queue describes.\<close>

definition describes :: "queue_snap \<Rightarrow> dqueue \<Rightarrow> bool" where
  "describes qs q \<longleftrightarrow>
     spec q = qs_spec qs \<and> counters (stats q) = qs_stats qs \<and> inflight q = [] \<and> dlq_ids q = [] \<and>
     messages q = map (\<lambda>x. (msg_id (ms_message x), ms_message x)) (qs_messages qs) \<and>
     delayed_ids q = set (snap_ids (filter (\<lambda>x. ms_state x = DELAYED) (qs_messages qs))) \<and>
     ready_ids q = set (snap_ids (filter (\<lambda>x. ms_state x \<noteq> DELAYED) (qs_messages qs)))"

lemma restore_queue_describes:
  assumes inv: "engine_inv e" and new: "get_queue (spec_name (qs_spec qs)) e = None"
    and ok: "queue_snap_ok qs"
  shows "engine_inv (restore_queue qs e)"
    and "\<exists>q. get_queue (spec_name (qs_spec qs)) (restore_queue qs e) = Some q \<and> describes qs q"
    and "n \<noteq> spec_name (qs_spec qs) \<Longrightarrow> get_queue n (restore_queue qs e) = get_queue n e"
    and "map fst (queues (restore_queue qs e)) = map fst (queues e) @ [spec_name (qs_spec qs)]"
    and "seq (restore_queue qs e) = seq e + int (length (qs_messages qs))"
proof -
  let ?n = "spec_name (qs_spec qs)" and ?st = "qs_stats qs"
  let ?q = "(new_queue (qs_spec qs))\<lparr>stats := empty_stats\<lparr>published := ss_published ?st,
    delivered := ss_delivered ?st, acked := ss_acked ?st, nacked := ss_nacked ?st,
    retried := ss_retried ?st, dead := ss_dead ?st\<rparr>\<rparr>"
  let ?e = "e\<lparr>queues := dset ?n ?q (queues e)\<rparr>"
  have rq: "restore_queue qs e = fold (restore_message ?n) (qs_messages qs) ?e"
    by (simp add: restore_queue_def Let_def)
  have ms: "\<forall>x \<in> set (qs_messages qs). msg_queue (ms_message x) = ?n" and
    ids: "distinct (snap_ids (qs_messages qs))"
    using ok by (simp_all add: queue_snap_ok_def)
  have e: "engine_inv ?e"
    by (rule einv_add_queue [OF inv new, of "qs_spec qs"]) (simp_all add: new_queue_def)
  have q: "get_queue ?n ?e = Some ?q" by simp
  have "set (snap_ids (qs_messages qs)) \<inter> dkeys (messages ?q) = {}" by (simp add: new_queue_def)
  from restore_messages [OF e q ms ids this]
  obtain q' where r: "engine_inv (restore_queue qs e)"
    "get_queue ?n (restore_queue qs e) = Some q'" "restored (qs_messages qs) ?q q'"
    unfolding rq by blast
  show "engine_inv (restore_queue qs e)" by (rule r(1))
  have "describes qs q'" using r(3)
    by (simp add: describes_def restored_def new_queue_def counters_def)
  then show "\<exists>q. get_queue ?n (restore_queue qs e) = Some q \<and> describes qs q" using r(2) by blast
  show "n \<noteq> ?n \<Longrightarrow> get_queue n (restore_queue qs e) = get_queue n e"
    unfolding rq using restore_messages_frame(1) [OF ms] by simp
  show "map fst (queues (restore_queue qs e)) = map fst (queues e) @ [?n]"
    unfolding rq restore_messages_frame(2) [OF ms]
    using new by (simp add: map_fst_dset map_of_eq_None_iff)
  show "seq (restore_queue qs e) = seq e + int (length (qs_messages qs))"
    unfolding rq restore_messages_frame(3) [OF ms] by simp
qed

section \<open>Restoring the engine\<close>

definition snap_names :: "queue_snap list \<Rightarrow> string list" where
  "snap_names qss = map (\<lambda>qs. spec_name (qs_spec qs)) qss"

definition snap_ok :: "engine_snap \<Rightarrow> bool" where
  "snap_ok st \<longleftrightarrow> distinct (snap_names (es_queues st)) \<and> (\<forall>qs \<in> set (es_queues st). queue_snap_ok qs)"

lemma restore_queues:
  assumes "engine_inv e" "distinct (snap_names qss)" "\<forall>qs \<in> set qss. queue_snap_ok qs"
    "set (snap_names qss) \<inter> dkeys (queues e) = {}"
  shows "engine_inv (fold restore_queue qss e) \<and>
    map fst (queues (fold restore_queue qss e)) = map fst (queues e) @ snap_names qss \<and>
    seq e \<le> seq (fold restore_queue qss e) \<and>
    (\<forall>n. n \<notin> set (snap_names qss) \<longrightarrow> get_queue n (fold restore_queue qss e) = get_queue n e) \<and>
    (\<forall>qs \<in> set qss. \<exists>q. get_queue (spec_name (qs_spec qs)) (fold restore_queue qss e) = Some q \<and>
       describes qs q)"
  using assms
proof (induction qss arbitrary: e)
  case (Cons qs qss)
  let ?n = "spec_name (qs_spec qs)" and ?e1 = "restore_queue qs e"
  have n: "?n \<notin> dkeys (queues e)" using Cons.prems(4) by (simp add: snap_names_def)
  then have new: "get_queue ?n e = None" by (simp add: map_of_eq_None_iff)
  have ok: "queue_snap_ok qs" using Cons.prems(3) by simp
  note one = restore_queue_describes [OF Cons.prems(1) new ok]
  have "dkeys (queues ?e1) = insert ?n (dkeys (queues e))"
    using arg_cong [OF one(4), of set] by simp
  moreover have "?n \<notin> set (snap_names qss)" "set (snap_names qss) \<inter> dkeys (queues e) = {}"
    using Cons.prems(2,4) by (simp_all add: snap_names_def)
  ultimately have "set (snap_names qss) \<inter> dkeys (queues ?e1) = {}" by simp
  then have ih: "engine_inv (fold restore_queue qss ?e1)"
      "map fst (queues (fold restore_queue qss ?e1)) = map fst (queues ?e1) @ snap_names qss"
      "seq ?e1 \<le> seq (fold restore_queue qss ?e1)"
      "\<And>n. n \<notin> set (snap_names qss) \<Longrightarrow> get_queue n (fold restore_queue qss ?e1) = get_queue n ?e1"
      "\<And>qs. qs \<in> set qss \<Longrightarrow> \<exists>q. get_queue (spec_name (qs_spec qs)) (fold restore_queue qss ?e1) = Some q
         \<and> describes qs q"
    using Cons.IH [OF one(1)] Cons.prems(2,3) by (simp_all add: snap_names_def)
  have "get_queue ?n (fold restore_queue qss ?e1) = get_queue ?n ?e1"
    by (rule ih(4)) (rule \<open>?n \<notin> set (snap_names qss)\<close>)
  then have here: "\<exists>q. get_queue ?n (fold restore_queue qss ?e1) = Some q \<and> describes qs q"
    using one(2) by simp
  have others: "get_queue n (fold restore_queue qss ?e1) = get_queue n e"
    if n: "n \<notin> set (snap_names (qs # qss))" for n
    using n ih(4) [of n] one(3) [of n] by (simp add: snap_names_def)
  show ?case
    using ih(1,2,3,5) here others one(4,5) by (auto simp: snap_names_def)
qed (simp add: snap_names_def)

lemma restore_state_describes:
  assumes "engine_inv f" "snap_ok st"
  shows "engine_inv (restore_state st f)"
    and "map fst (queues (restore_state st f)) = snap_names (es_queues st)"
    and "es_seq st \<le> seq (restore_state st f)"
    and "\<forall>qs \<in> set (es_queues st). \<exists>q. get_queue (spec_name (qs_spec qs)) (restore_state st f) = Some q \<and>
           describes qs q"
proof -
  let ?e = "f\<lparr>queues := [], by_id := [], visibility_heap := [], delayed := [], seq := es_seq st\<rparr>"
  have "engine_inv ?e"
    using einv_base [OF assms(1)] by (simp add: einv_def base_ok_def index_ok_def)
  moreover have "distinct (snap_names (es_queues st))" "\<forall>qs \<in> set (es_queues st). queue_snap_ok qs"
    using assms(2) by (simp_all add: snap_ok_def)
  moreover have "set (snap_names (es_queues st)) \<inter> dkeys (queues ?e) = {}" by simp
  ultimately have r: "engine_inv (fold restore_queue (es_queues st) ?e) \<and>
    map fst (queues (fold restore_queue (es_queues st) ?e)) = map fst (queues ?e) @ snap_names (es_queues st) \<and>
    seq ?e \<le> seq (fold restore_queue (es_queues st) ?e) \<and>
    (\<forall>n. n \<notin> set (snap_names (es_queues st)) \<longrightarrow>
       get_queue n (fold restore_queue (es_queues st) ?e) = get_queue n ?e) \<and>
    (\<forall>qs \<in> set (es_queues st). \<exists>q. get_queue (spec_name (qs_spec qs))
       (fold restore_queue (es_queues st) ?e) = Some q \<and> describes qs q)"
    by (rule restore_queues)
  show "engine_inv (restore_state st f)"
    and "map fst (queues (restore_state st f)) = snap_names (es_queues st)"
    and "es_seq st \<le> seq (restore_state st f)"
    and "\<forall>qs \<in> set (es_queues st). \<exists>q. get_queue (spec_name (qs_spec qs)) (restore_state st f) = Some q \<and>
           describes qs q"
    using r by (simp_all add: restore_state_def)
qed

section \<open>The snapshot of an engine\<close>

lemma snapshot_queue_messages:
  assumes "queue_ok s n q"
  shows "map (\<lambda>x. (msg_id (ms_message x), ms_message x)) (qs_messages (snapshot_queue q)) = messages q"
    and "snap_ids (qs_messages (snapshot_queue q)) = map fst (messages q)"
    and "\<forall>x \<in> set (qs_messages (snapshot_queue q)). msg_queue (ms_message x) = n"
proof -
  have m: "msg_id m = k \<and> msg_queue m = n" if "(k, m) \<in> set (messages q)" for k m
    using assms in_set_map_of [OF _ that] by (auto simp: queue_ok_def)
  show "map (\<lambda>x. (msg_id (ms_message x), ms_message x)) (qs_messages (snapshot_queue q)) = messages q"
    using m by (auto simp: snapshot_queue_def intro!: map_idI)
  show "snap_ids (qs_messages (snapshot_queue q)) = map fst (messages q)"
    using m by (auto simp: snapshot_queue_def snap_ids_def)
  show "\<forall>x \<in> set (qs_messages (snapshot_queue q)). msg_queue (ms_message x) = n"
    using m by (auto simp: snapshot_queue_def)
qed

text \<open>Which messages a snapshot calls delayed.\<close>

definition resting :: "dqueue \<Rightarrow> string set" where
  "resting q = {k \<in> dkeys (messages q). k \<in> delayed_ids q \<and> k \<notin> dkeys (inflight q)}"

lemma snapshot_queue_states:
  assumes "queue_ok s n q"
  shows "set (snap_ids (filter (\<lambda>x. ms_state x = DELAYED) (qs_messages (snapshot_queue q)))) = resting q"
    and "set (snap_ids (filter (\<lambda>x. ms_state x \<noteq> DELAYED) (qs_messages (snapshot_queue q)))) =
           dkeys (messages q) - resting q"
proof -
  have m: "msg_id m = k" if "(k, m) \<in> set (messages q)" for k m
    using assms in_set_map_of [OF _ that] by (auto simp: queue_ok_def)
  have st: "get_message_state q k = DELAYED \<longleftrightarrow> k \<in> delayed_ids q \<and> k \<notin> dkeys (inflight q)" for k
    by (simp add: get_message_state_def)
  show "set (snap_ids (filter (\<lambda>x. ms_state x = DELAYED) (qs_messages (snapshot_queue q)))) = resting q"
    using m by (force simp: snap_ids_def snapshot_queue_def resting_def st)
  show "set (snap_ids (filter (\<lambda>x. ms_state x \<noteq> DELAYED) (qs_messages (snapshot_queue q)))) =
           dkeys (messages q) - resting q"
    using m by (force simp: snap_ids_def snapshot_queue_def resting_def st)
qed

lemma snap_ok_snapshot:
  assumes "engine_inv e"
  shows "snap_ok (snapshot_state e)" and "snap_names (es_queues (snapshot_state e)) = map fst (queues e)"
proof -
  have q: "queue_ok (seq e) n q" if "(n, q) \<in> set (queues e)" for n q
    using einv_queue [OF assms] in_set_map_of [OF _ that] einv_base [OF assms]
    by (simp add: base_ok_def)
  have n: "spec_name (spec q) = n" if "(n, q) \<in> set (queues e)" for n q
    using q [OF that] by (simp add: queue_ok_def)
  show names: "snap_names (es_queues (snapshot_state e)) = map fst (queues e)"
    using n by (auto simp: snap_names_def snapshot_state_def snapshot_queue_def)
  have "queue_snap_ok (snapshot_queue q)" if m: "(n, q) \<in> set (queues e)" for n q
    using snapshot_queue_messages [OF q [OF m]] q [OF m] n [OF m]
    by (simp add: queue_snap_ok_def queue_ok_def dict_ok_def snapshot_queue_def)
  then show "snap_ok (snapshot_state e)"
    unfolding snap_ok_def names using einv_base [OF assms]
    by (auto simp: base_ok_def dict_ok_def snapshot_state_def)
qed

end
