(* ===== verification/Machine.thy ===== *)
theory Machine
  imports Prelude
begin

text \<open>
  State machines: \<open>reach init step s\<close> says that \<open>s\<close> can be reached from an initial state by steps
  of \<open>step\<close>. The locale \<open>step_invariant\<close> is the contract between a component and its invariant;
  each component interprets it on its own step relation.
\<close>

inductive reach :: "('s \<Rightarrow> bool) \<Rightarrow> ('s \<Rightarrow> 's \<Rightarrow> bool) \<Rightarrow> 's \<Rightarrow> bool"
  for init :: "'s \<Rightarrow> bool" and step :: "'s \<Rightarrow> 's \<Rightarrow> bool" where
  start: "init s \<Longrightarrow> reach init step s"
| after: "reach init step s \<Longrightarrow> step s s' \<Longrightarrow> reach init step s'"

lemma reach_mono:
  "reach init step s \<Longrightarrow> (\<And>s. init s \<Longrightarrow> init' s) \<Longrightarrow> (\<And>s s'. step s s' \<Longrightarrow> step' s s') \<Longrightarrow>
   reach init' step' s"
  by (induction rule: reach.induct) (auto intro: reach.intros)

locale step_invariant =
  fixes init :: "'s \<Rightarrow> bool" and step :: "'s \<Rightarrow> 's \<Rightarrow> bool" and safe :: "'s \<Rightarrow> bool"
  assumes init_safe: "init s \<Longrightarrow> safe s"
    and step_safe: "step s s' \<Longrightarrow> safe s \<Longrightarrow> safe s'"
begin

lemma reach_safe: "reach init step s \<Longrightarrow> safe s"
  by (induction rule: reach.induct) (auto intro: init_safe step_safe)

lemma run_safe: "step\<^sup>*\<^sup>* s s' \<Longrightarrow> safe s \<Longrightarrow> safe s'"
  by (induction rule: rtranclp_induct) (auto intro: step_safe)

end

end
