(* ===== verification/EngineReach.thy ===== *)
theory EngineReach
  imports Snapshot Machine
begin

text \<open>
  The queue engine as a state machine: \<open>engine_step\<close> has one rule per public operation of
  \<open>QueueEngine\<close>, with any arguments, and one for the two fields of a queue that \<open>core/consumers.py\<close>
  writes. Every state a fresh engine can reach satisfies \<open>engine_inv\<close>.
\<close>

inductive engine_step :: "engine \<Rightarrow> engine \<Rightarrow> bool" where
  declare_step: "engine_step e (declare_queue n dur ml vt ma dl persist e)"
| delete_step: "engine_step e (snd (delete_queue n persist e))"
| enqueue_step: "engine_step e (snd (enqueue m persist e))"
| reserve_step: "engine_step e (snd (reserve n c e))"
| ack_step: "engine_step e (snd (ack k persist e))"
| nack_step: "engine_step e (snd (nack k requeue persist e))"
| recover_step: "engine_step e (snd (recover_consumer c persist e))"
| tick_step: "engine_step e (snd (tick now e))"
| dlq_requeue_step: "engine_step e (snd (dlq_requeue n k persist e))"
| restore_step: "snap_ok st \<Longrightarrow> engine_step e (restore_state st e)"
| attach_step: "engine_step e (upd_queue n (\<lambda>q. q\<lparr>consumer_ids := cs, rr_index := i\<rparr>) e)"

inductive_cases engine_stepE: "engine_step e e'"

inductive fresh_engine :: "engine \<Rightarrow> bool" where
  "fresh_engine (new_engine vt ma ml backoff base_delay limit clk)"

lemma einv_new_engine: "engine_inv (new_engine vt ma ml backoff base_delay limit clk)"
  by (simp add: einv_def base_ok_def index_ok_def new_engine_def)

lemma einv_attach: "einv X Y Z e \<Longrightarrow> einv X Y Z (upd_queue n (\<lambda>q. q\<lparr>consumer_ids := cs, rr_index := i\<rparr>) e)"
  by (rule einv_upd_queue, assumption) (auto simp: queue_ok_def part_defs)

lemma engine_step_inv: "engine_step e e' \<Longrightarrow> engine_inv e \<Longrightarrow> engine_inv e'"
  by (induction rule: engine_step.induct)
     (rule inv_intros restore_state_describes(1) einv_attach; assumption)+

interpretation engine: step_invariant fresh_engine engine_step engine_inv
proof unfold_locales
  show "fresh_engine e \<Longrightarrow> engine_inv e" for e
    by (auto elim!: fresh_engine.cases intro: einv_new_engine)
  show "engine_step e e' \<Longrightarrow> engine_inv e \<Longrightarrow> engine_inv e'" for e e'
    by (rule engine_step_inv)
qed

abbreviation reachable_engine :: "engine \<Rightarrow> bool" where
  "reachable_engine \<equiv> reach fresh_engine engine_step"

end
