(* ===== verification/Delivery.thy ===== *)
theory Delivery
  imports EngineReach
begin

text \<open>
  What \<open>reserve\<close> and \<open>ack\<close> do: delivery in priority order, of every message that can be delivered
  and of none twice at once; acknowledgement, final. The properties rest on the invariant of
  \<open>EngineInv\<close>; their witnesses run the operations on small engines.
\<close>

section \<open>Example engines\<close>

definition demo_message :: "string \<Rightarrow> int \<Rightarrow> message" where
  "demo_message k prio = \<lparr>msg_id = k, msg_queue = ''jobs'', payload = [1], created_at = 0, attempts = 0,
     max_attempts = 2, priority = prio, headers = JNull, available_at = None, exchange = [],
     routing_key = []\<rparr>"

definition demo_empty :: engine where
  "demo_empty = new_engine 30 2 None ''exponential'' 1 10 real"

definition demo_declared :: engine where
  "demo_declared = declare_queue ''jobs'' True None None None True True demo_empty"

definition demo_ready :: engine where
  "demo_ready = snd (enqueue (demo_message ''b'' 5) True (snd (enqueue (demo_message ''a'' 0) True demo_declared)))"

definition demo_inflight :: engine where
  "demo_inflight = snd (reserve ''jobs'' ''c1'' demo_ready)"

lemma demo_reachable:
  "reachable_engine demo_empty" "reachable_engine demo_declared" "reachable_engine demo_ready"
  "reachable_engine demo_inflight"
proof -
  show "reachable_engine demo_empty" unfolding demo_empty_def
    by (intro reach.start fresh_engine.intros)
  then show "reachable_engine demo_declared" unfolding demo_declared_def
    by (rule reach.after) (rule declare_step)
  then have "reachable_engine (snd (enqueue (demo_message ''a'' 0) True demo_declared))"
    by (rule reach.after) (rule enqueue_step)
  then show "reachable_engine demo_ready" unfolding demo_ready_def
    by (rule reach.after) (rule enqueue_step)
  then show "reachable_engine demo_inflight" unfolding demo_inflight_def
    by (rule reach.after) (rule reserve_step)
qed

lemmas demo_inv [simp] = demo_reachable [THEN engine.reach_safe]




section \<open>Delivery\<close>

text \<open>The effect of \<open>reserve\<close>, in the two ways it can go.\<close>

lemma reserve_someE:
  assumes inv: "engine_inv e" and q: "get_queue n e = Some q" and r: "reserve n c e = (Some m, e')"
  obtains h where "popped q (Some (msg_id m, m)) h"
    "get_queue n e' = Some (q\<lparr>ready := h,
       inflight := dset (msg_id m) \<lparr>rec_message_id = msg_id m, rec_queue = n, rec_consumer = c,
         delivery_time = clock e (clock_ix e),
         visibility_deadline = clock e (clock_ix e) + visibility_timeout (spec q)\<rparr> (inflight q),
       stats := (stats q)\<lparr>delivered := Suc (delivered (stats q))\<rparr>\<rparr>)"
    "\<And>n'. n' \<noteq> n \<Longrightarrow> get_queue n' e' = get_queue n' e"
    "by_id e' = by_id e" "recent_acks e' = recent_acks e" "journal e' = journal e"
proof -
  obtain k q' where pop: "reserve_pop q = (Some (k, m), q')"
    using q r by (auto simp: reserve_def Let_def split: prod.splits option.splits)
  have "is_heap (ready q)" using einv_queue [OF inv q] by (simp add: queue_ok_def)
  from reserve_pop_spec [OF pop this] obtain h
    where h: "q' = q\<lparr>ready := h\<rparr>" "popped q (Some (k, m)) h" by blast
  have k: "msg_id m = k" using msg_id_of [OF inv q, of k m] h(2) by (simp add: popped_def)
  let ?now = "clock e (clock_ix e)"
  let ?rec = "\<lparr>rec_message_id = k, rec_queue = n, rec_consumer = c, delivery_time = ?now,
    visibility_deadline = ?now + visibility_timeout (spec q)\<rparr>"
  let ?e1 = "upd_queue n (\<lambda>_. q'\<lparr>inflight := dset k ?rec (inflight q')\<rparr>) (e\<lparr>clock_ix := Suc (clock_ix e)\<rparr>)"
  have e': "e' = upd_stats n (\<lambda>st. st\<lparr>delivered := Suc (delivered st)\<rparr>)
      (?e1\<lparr>seq := seq e + 1, visibility_heap :=
         heappush (visibility_heap e) (?now + visibility_timeout (spec q), seq e + 1, n, k)\<rparr>)"
    using r q pop by (simp add: reserve_def Let_def next_seq_def read_clock_def)
  show ?thesis
    by (rule that [of h]) (use h k q e' in \<open>simp_all add: upd_stats_def\<close>)
qed

lemma reserve_none:
  assumes inv: "engine_inv e" and q: "get_queue n e = Some q" and r: "reserve n c e = (None, e')"
  shows "\<forall>x \<in> set (ready q). \<not> live q (snd (snd x))" "e' = upd_queue n (\<lambda>q. q\<lparr>ready := []\<rparr>) e"
proof -
  obtain q' where pop: "reserve_pop q = (None, q')" and e': "e' = upd_queue n (\<lambda>_. q') e"
    using q r by (auto simp: reserve_def Let_def split: prod.splits option.splits)
  have "is_heap (ready q)" using einv_queue [OF inv q] by (simp add: queue_ok_def)
  from reserve_pop_spec [OF pop this] obtain h where "q' = q\<lparr>ready := h\<rparr>" "popped q None h" by blast
  then show "\<forall>x \<in> set (ready q). \<not> live q (snd (snd x))" "e' = upd_queue n (\<lambda>q. q\<lparr>ready := []\<rparr>) e"
    using e' q by (simp_all add: popped_def upd_queue_Some)
qed

text \<open>C3. A delivery takes the first live message: the message \<open>reserve\<close> returns is stored in the
  queue, neither delayed nor in flight, and no other such message has an entry before its own in
  the order of priority (highest first) and then of publication. It is in flight afterwards,
  held by the consumer until the visibility deadline, and nothing happens to the other queues.\<close>

theorem reserve_takes_first:
  assumes "engine_inv e" "get_queue n e = Some q" "reserve n c e = (Some m, e')"
  shows "live q (msg_id m) \<and> map_of (messages q) (msg_id m) = Some m \<and>
    (\<exists>q'. get_queue n e' = Some q' \<and> messages q' = messages q \<and>
       map_of (inflight q') (msg_id m) = Some \<lparr>rec_message_id = msg_id m, rec_queue = n,
         rec_consumer = c, delivery_time = clock e (clock_ix e),
         visibility_deadline = clock e (clock_ix e) + visibility_timeout (spec q)\<rparr>) \<and>
    (\<exists>p s. (p, s, msg_id m) \<in> set (ready q) \<and>
       (\<forall>p' s' k. (p', s', k) \<in> set (ready q) \<and> live q k \<longrightarrow> p < p' \<or> p = p' \<and> s \<le> s')) \<and>
    (\<forall>n'. n' \<noteq> n \<longrightarrow> get_queue n' e' = get_queue n' e)"
proof (rule reserve_someE [OF assms])
  fix h
  assume p: "popped q (Some (msg_id m, m)) h" and q': "get_queue n e' = Some (q\<lparr>ready := h,
       inflight := dset (msg_id m) \<lparr>rec_message_id = msg_id m, rec_queue = n, rec_consumer = c,
         delivery_time = clock e (clock_ix e),
         visibility_deadline = clock e (clock_ix e) + visibility_timeout (spec q)\<rparr> (inflight q),
       stats := (stats q)\<lparr>delivered := Suc (delivered (stats q))\<rparr>\<rparr>)"
    "\<And>n'. n' \<noteq> n \<Longrightarrow> get_queue n' e' = get_queue n' e"
  from p obtain pr s where ps: "(pr, s, msg_id m) \<in> set (ready q)"
    "\<forall>x \<in> set (ready q). live q (snd (snd x)) \<longrightarrow> (pr, s, msg_id m) \<le> x"
    by (auto simp: popped_def)
  then have "\<forall>p' s' k. (p', s', k) \<in> set (ready q) \<and> live q k \<longrightarrow> pr < p' \<or> pr = p' \<and> s \<le> s'"
    by (fastforce simp: less_eq_prod_def)
  then show ?thesis using p q' ps(1) by (auto simp: popped_def)
qed


abbreviation demo_jobs :: "engine \<Rightarrow> dqueue" where
  "demo_jobs e \<equiv> the (get_queue ''jobs'' e)"

lemma demo_queue:
  "get_queue ''jobs'' demo_ready = Some (demo_jobs demo_ready)"
  "get_queue ''jobs'' demo_inflight = Some (demo_jobs demo_inflight)"
proof -
  have "get_queue ''jobs'' demo_ready \<noteq> None" by code_simp
  then show "get_queue ''jobs'' demo_ready = Some (demo_jobs demo_ready)" by simp
  have "get_queue ''jobs'' demo_inflight \<noteq> None" by code_simp
  then show "get_queue ''jobs'' demo_inflight = Some (demo_jobs demo_inflight)" by simp
qed

lemma demo_reserve: "reserve ''jobs'' ''c1'' demo_ready = (Some (demo_message ''b'' 5), demo_inflight)"
proof -
  have "fst (reserve ''jobs'' ''c1'' demo_ready) = Some (demo_message ''b'' 5)" by code_simp
  then show ?thesis by (simp add: demo_inflight_def prod_eq_iff)
qed

theorem reserve_takes_first_witness:
  "live (demo_jobs demo_ready) ''b'' \<and>
   map_of (inflight (demo_jobs demo_inflight)) ''b'' = Some \<lparr>rec_message_id = ''b'', rec_queue = ''jobs'',
     rec_consumer = ''c1'', delivery_time = 2, visibility_deadline = 32\<rparr>"
proof
  show "live (demo_jobs demo_ready) ''b''"
    using reserve_takes_first [OF demo_inv(3) demo_queue(1) demo_reserve]
    by (simp add: demo_message_def)
  show "map_of (inflight (demo_jobs demo_inflight)) ''b'' = Some \<lparr>rec_message_id = ''b'',
     rec_queue = ''jobs'', rec_consumer = ''c1'', delivery_time = 2, visibility_deadline = 32\<rparr>"
    by code_simp
qed

lemma reserve_live:
  assumes "engine_inv e" "get_queue n e = Some q" "reserve n c e = (Some m, e')"
  shows "live q (msg_id m)"
  by (rule reserve_someE [OF assms]) (simp add: popped_def)

text \<open>C2. A delivery finds nothing only when there is nothing to deliver: in a reachable engine,
  \<open>reserve\<close> on a queue returns no message exactly when every message stored there is delayed or
  already in flight. No stored message is out of reach of its consumers.\<close>

theorem reserve_finds_iff_live:
  assumes "reachable_engine e" "get_queue n e = Some q"
  shows "fst (reserve n c e) = None \<longleftrightarrow> (\<forall>k \<in> dkeys (messages q). \<not> live q k)"
proof -
  have inv: "engine_inv e" using assms(1) by (rule engine.reach_safe)
  obtain m e' where r: "reserve n c e = (m, e')" by fastforce
  show ?thesis
  proof (cases m)
    case None
    have "\<not> live q k" if k: "k \<in> dkeys (messages q)" for k
    proof
      assume "live q k"
      then have "k \<in> ready_ids q"
        using einv_parts(1) [OF inv assms(2)] k unfolding tracked_def live_def by blast
      then show False using reserve_none(1) [OF inv assms(2)] r None \<open>live q k\<close> by auto
    qed
    then show ?thesis using r None by simp
  next
    case (Some x)
    have "live q (msg_id x)" using reserve_live [OF inv assms(2)] r Some by simp
    moreover from this have "msg_id x \<in> dkeys (messages q)" by (simp only: live_def)
    ultimately have "\<not> (\<forall>k \<in> dkeys (messages q). \<not> live q k)" by blast
    then show ?thesis using r Some by simp
  qed
qed

theorem reserve_finds_iff_live_witness:
  "fst (reserve ''jobs'' ''c'' demo_ready) \<noteq> None \<and> live (demo_jobs demo_ready) ''a''"
proof
  show l: "live (demo_jobs demo_ready) ''a''" by code_simp
  then have "''a'' \<in> dkeys (messages (demo_jobs demo_ready))" by (simp only: live_def)
  then show "fst (reserve ''jobs'' ''c'' demo_ready) \<noteq> None"
    using reserve_finds_iff_live [OF demo_reachable(3) demo_queue(1), of "''c''"] l by blast
qed

text \<open>No message is delivered twice at once: while a delivery of a message is outstanding, no
  \<open>reserve\<close> returns it, and none touches its in-flight record.\<close>

theorem reserve_skips_inflight:
  assumes "engine_inv e" "get_queue n e = Some q" "map_of (inflight q) k = Some r"
  shows "(\<forall>m. fst (reserve n c e) = Some m \<longrightarrow> msg_id m \<noteq> k) \<and>
    (\<exists>q'. get_queue n (snd (reserve n c e)) = Some q' \<and> map_of (inflight q') k = Some r)"
proof -
  obtain m e' where res: "reserve n c e = (m, e')" by fastforce
  show ?thesis
  proof (cases m)
    case None
    then have "e' = upd_queue n (\<lambda>q. q\<lparr>ready := []\<rparr>) e"
      using reserve_none(2) [OF assms(1,2)] res by blast
    then show ?thesis using res None assms(2,3) by simp
  next
    case (Some x)
    then have "reserve n c e = (Some x, e')" using res by simp
    then have "live q (msg_id x)" by (rule reserve_live [OF assms(1,2)])
    then have ne: "msg_id x \<noteq> k" using assms(3) by (auto simp: live_def dkeys_iff)
    show ?thesis
      by (rule reserve_someE [OF assms(1,2) \<open>reserve n c e = (Some x, e')\<close>])
         (use ne assms(3) res Some in auto)
  qed
qed

theorem reserve_skips_inflight_witness:
  "map_option msg_id (fst (reserve ''jobs'' ''c2'' demo_inflight)) \<noteq> Some ''b''"
proof -
  have "map_of (inflight (demo_jobs demo_inflight)) ''b'' \<noteq> None" by code_simp
  then obtain r where "map_of (inflight (demo_jobs demo_inflight)) ''b'' = Some r" by blast
  from reserve_skips_inflight [OF demo_inv(4) demo_queue(2) this] show ?thesis by blast
qed

section \<open>Acknowledgement\<close>

lemma ack_okD:
  assumes "ack k persist e = (AckOK, e')"
  obtains n q r where "k \<notin> set (recent_acks e)" "map_of (by_id e) k = Some n"
    "get_queue n e = Some q" "map_of (inflight q) k = Some r"
    "get_queue n e' = Some (q\<lparr>messages := ddel k (messages q), inflight := ddel k (inflight q),
       stats := (stats q)\<lparr>acked := Suc (acked (stats q))\<rparr>\<rparr>)"
    "\<And>n'. n' \<noteq> n \<Longrightarrow> get_queue n' e' = get_queue n' e"
    "by_id e' = ddel k (by_id e)"
    "recent_acks e' = drop (Suc (length (recent_acks e)) - recent_ack_limit e) (recent_acks e @ [k])"
    "recent_ack_limit e' = recent_ack_limit e"
proof -
  have notin: "k \<notin> set (recent_acks e)" using assms by (auto simp: ack_def split: if_splits)
  obtain n q r where q: "map_of (by_id e) k = Some n" "get_queue n e = Some q"
    "map_of (inflight q) k = Some r"
    using assms notin by (auto simp: ack_def split: option.splits)
  show ?thesis
    by (rule that [OF notin q])
       (use assms notin q in \<open>auto simp: ack_def Let_def remember_ack_def journal_append_def
          upd_stats_def unindex_id_def del_message_def del_inflight_def\<close>)
qed

text \<open>The three answers of an acknowledgement: \<open>ALREADY_ACKED\<close> exactly for an id among the
  recently acknowledged ones, \<open>OK\<close> exactly for any other id that is in flight, and every answer
  other than \<open>OK\<close> leaves the engine as it was.\<close>

theorem ack_answers:
  "(fst (ack k persist e) = AckAlreadyAcked \<longleftrightarrow> k \<in> set (recent_acks e)) \<and>
   (fst (ack k persist e) = AckOK \<longleftrightarrow> k \<notin> set (recent_acks e) \<and> inflight_consumer k e \<noteq> None) \<and>
   (fst (ack k persist e) = AckOK \<or> snd (ack k persist e) = e)"
  by (auto simp: ack_def inflight_consumer_def Let_def split: option.split)

text \<open>C4. An acknowledgement is final: after \<open>OK\<close> the message is gone from its queue, from the
  in-flight records and from the index, nothing else of the queues changed, and a second
  acknowledgement of the same id answers \<open>ALREADY_ACKED\<close> and changes nothing. The ids remembered
  for this stay within \<open>recent_ack_limit\<close>.\<close>

theorem ack_is_final:
  assumes "engine_inv e" "ack k persist e = (AckOK, e')" "0 < recent_ack_limit e"
  shows "ack k persist' e' = (AckAlreadyAcked, e') \<and> map_of (by_id e') k = None \<and>
    length (recent_acks e') \<le> recent_ack_limit e \<and>
    (\<exists>n q q'. map_of (by_id e) k = Some n \<and> get_queue n e = Some q \<and> get_queue n e' = Some q' \<and>
       messages q' = ddel k (messages q) \<and> inflight q' = ddel k (inflight q) \<and>
       ready q' = ready q \<and> delayed_ids q' = delayed_ids q \<and>
       k \<in> dkeys (messages q) \<and> k \<notin> dkeys (messages q') \<and>
       (\<forall>n'. n' \<noteq> n \<longrightarrow> get_queue n' e' = get_queue n' e))"
proof (rule ack_okD [OF assms(2)])
  fix n q r
  assume q: "map_of (by_id e) k = Some n" "get_queue n e = Some q"
    and q': "get_queue n e' = Some (q\<lparr>messages := ddel k (messages q), inflight := ddel k (inflight q),
       stats := (stats q)\<lparr>acked := Suc (acked (stats q))\<rparr>\<rparr>)"
    and others: "\<And>n'. n' \<noteq> n \<Longrightarrow> get_queue n' e' = get_queue n' e"
    and idx: "by_id e' = ddel k (by_id e)"
    and acks: "recent_acks e' = drop (Suc (length (recent_acks e)) - recent_ack_limit e) (recent_acks e @ [k])"
    and limit: "recent_ack_limit e' = recent_ack_limit e"
  have "k \<in> set (recent_acks e')" using assms(3) unfolding acks by (simp add: drop_append)
  then have "ack k persist' e' = (AckAlreadyAcked, e')" by (simp add: ack_def)
  moreover have "k \<in> dkeys (messages q)"
    using index_okD [of e k n] einv_base [OF assms(1)] q unfolding base_ok_def by auto
  moreover have "length (recent_acks e') \<le> recent_ack_limit e" unfolding acks by simp
  moreover have "k \<notin> dkeys (ddel k (messages q))" by simp
  moreover have "map_of (by_id e') k = None" using idx by simp
  ultimately show ?thesis using q q' others
    by (intro conjI exI [of _ n] exI [of _ q] exI [of _ "q\<lparr>messages := ddel k (messages q),
      inflight := ddel k (inflight q), stats := (stats q)\<lparr>acked := Suc (acked (stats q))\<rparr>\<rparr>"]) simp_all
qed

theorem ack_is_final_witness:
  "fst (ack ''b'' True (snd (ack ''b'' True demo_inflight))) = AckAlreadyAcked"
proof -
  have "fst (ack ''b'' True demo_inflight) = AckOK" by code_simp
  then have a: "ack ''b'' True demo_inflight = (AckOK, snd (ack ''b'' True demo_inflight))"
    by (simp add: prod_eq_iff)
  have "0 < recent_ack_limit demo_inflight" by code_simp
  from ack_is_final [OF demo_inv(4) a this, of True] show ?thesis by simp
qed

section \<open>Publication\<close>

lemma by_id_journal_append [simp]: "by_id (journal_append p op me pl e) = by_id e"
  by (simp add: journal_append_def)

text \<open>A publication that is not delayed.\<close>

lemma enqueue_now:
  assumes "get_queue (msg_queue m) e = Some q" "\<not> over_limit q"
    "\<And>t. available_at m = Some t \<Longrightarrow> t \<le> clock e (clock_ix e)"
  shows "fst (enqueue m persist e) = EnqOK"
    and "get_queue (msg_queue m) (snd (enqueue m persist e)) =
      Some (q\<lparr>messages := dset (msg_id m) (m\<lparr>available_at := None\<rparr>) (messages q),
              ready := heappush (ready q) (- priority m, seq e + 1, msg_id m),
              stats := (stats q)\<lparr>published := Suc (published (stats q))\<rparr>\<rparr>)"
    and "by_id (snd (enqueue m persist e)) = dset (msg_id m) (msg_queue m) (by_id e)"
    and "n' \<noteq> msg_queue m \<Longrightarrow> get_queue n' (snd (enqueue m persist e)) = get_queue n' e"
proof -
  have now: "\<not> (case available_at m of None \<Rightarrow> False | Some t \<Rightarrow> clock e (clock_ix e) < t)"
    using assms(3) by (cases "available_at m") force+
  show "fst (enqueue m persist e) = EnqOK" using assms by (simp add: enqueue_result)
  show "get_queue (msg_queue m) (snd (enqueue m persist e)) =
      Some (q\<lparr>messages := dset (msg_id m) (m\<lparr>available_at := None\<rparr>) (messages q),
              ready := heappush (ready q) (- priority m, seq e + 1, msg_id m),
              stats := (stats q)\<lparr>published := Suc (published (stats q))\<rparr>\<rparr>)"
    and "by_id (snd (enqueue m persist e)) = dset (msg_id m) (msg_queue m) (by_id e)"
    and "n' \<noteq> msg_queue m \<Longrightarrow> get_queue n' (snd (enqueue m persist e)) = get_queue n' e"
    using assms(1,2) now
    by (simp_all add: enqueue_def Let_def read_clock_def push_ready_def next_seq_def
        index_id_def upd_stats_def set_message_def)
qed

end
