(* ===== verification/Failure.thy ===== *)
theory Failure
  imports Delivery
begin

text \<open>
  What happens to a message whose delivery fails (\<open>nack\<close>, visibility timeout, disconnect): it is
  retried after a delay while it has attempts left, and moves to the dead-letter queue of its
  queue otherwise; and the way back from there (\<open>dlq_requeue\<close>).
\<close>

section \<open>Failure\<close>

text \<open>A failed message that has attempts left.\<close>

lemma retry_effect:
  assumes q: "get_queue n e = Some q" and left: "attempts m + 1 < max_attempts m"
  defines "t \<equiv> clock e (clock_ix e) + retry_delay (attempts m + 1) (retry_backoff e) (retry_base_delay e)"
  defines "m' \<equiv> m\<lparr>attempts := attempts m + 1, available_at := Some t\<rparr>"
  shows "\<exists>q'. get_queue n (retry_or_dead n m persist e) = Some q' \<and>
      map_of (messages q') = (map_of (messages q))(msg_id m \<mapsto> m') \<and>
      delayed_ids q' = insert (msg_id m) (delayed_ids q) \<and> inflight q' = inflight q \<and>
      ready q' = ready q \<and> spec q' = spec q"
    and "(t, seq e + 1, n, msg_id m) \<in> set (delayed (retry_or_dead n m persist e))"
    and "by_id (retry_or_dead n m persist e) = by_id e"
    and "n' \<noteq> n \<Longrightarrow> get_queue n' (retry_or_dead n m persist e) = get_queue n' e"
  using q left
  by (auto simp: retry_or_dead_def push_delayed_def next_seq_def read_clock_def Let_def upd_stats_def
      set_message_def journal_append_def delayed_push_def t_def m'_def)

text \<open>A failed message that has none, and a rejected one.\<close>

lemma move_to_dlq_gone:
  assumes q: "get_queue n e = Some q" and dl: "\<not> dead_letter (spec q)"
  shows "get_queue n (move_to_dlq n m persist e) = Some (q\<lparr>messages := ddel (msg_id m) (messages q),
      stats := (stats q)\<lparr>dead := Suc (dead (stats q))\<rparr>\<rparr>)"
    and "by_id (move_to_dlq n m persist e) = ddel (msg_id m) (by_id e)"
    and "n' \<noteq> n \<Longrightarrow> get_queue n' (move_to_dlq n m persist e) = get_queue n' e"
  using q dl
  by (auto simp: move_to_dlq_def Let_def upd_stats_def journal_append_def unindex_id_def del_message_def)

text \<open>A queue is a plain one when its name does not end in \<open>.DLQ\<close>; then its dead-letter queue is
  another queue.\<close>

lemma move_to_dlq_effect:
  fixes m :: message and persist :: bool
  assumes q: "get_queue n e = Some q" and dl: "dead_letter (spec q)" and plain: "\<not> is_dlq n"
  defines "e' \<equiv> move_to_dlq n m persist e"
  defines "m' \<equiv> m\<lparr>msg_queue := dlq_name n, available_at := None\<rparr>"
  shows "get_queue n e' = Some (q\<lparr>messages := ddel (msg_id m) (messages q),
      stats := (stats q)\<lparr>dead := Suc (dead (stats q))\<rparr>\<rparr>)"
    and "\<exists>d. get_queue (dlq_name n) e' = Some d \<and> map_of (messages d) (msg_id m) = Some m' \<and>
      (\<exists>s. (- priority m, s, msg_id m) \<in> set (ready d)) \<and> msg_id m \<in> set (dlq_ids d)"
    and "map_of (by_id e') = (map_of (by_id e))(msg_id m \<mapsto> dlq_name n)"
    and "n' \<noteq> n \<Longrightarrow> n' \<noteq> dlq_name n \<Longrightarrow> get_queue n' e' = get_queue n' e"
proof -
  let ?k = "msg_id m" and ?d = "dlq_name n"
  let ?q = "q\<lparr>messages := ddel ?k (messages q), stats := (stats q)\<lparr>dead := Suc (dead (stats q))\<rparr>\<rparr>"
  have ne: "?d \<noteq> n" using plain by (rule dlq_name_neq)
  let ?e3 = "journal_append persist ''MESSAGE_DEAD''
      [(''id'', JStr ?k), (''queue'', JStr n), (''attempts'', JInt (attempts m))] (payload m)
      (upd_stats n (\<lambda>st. st\<lparr>dead := Suc (dead st)\<rparr>) (unindex_id ?k (del_message n ?k e)))"
  let ?e4 = "declare_queue ?d True None None None False False ?e3"
  have q3: "get_queue n ?e3 = Some ?q"
    using q by (simp add: upd_stats_def unindex_id_def del_message_def)
  obtain d where d: "get_queue ?d ?e4 = Some d" using declare_queue_exists by blast
  have e': "e' = upd_queue ?d (\<lambda>q. q\<lparr>dlq_ids := dlq_ids q @ [?k],
          stats := (stats q)\<lparr>published := Suc (published (stats q))\<rparr>\<rparr>)
        (push_ready ?d m' (index_id ?k ?d (set_message ?d m' ?e4)))"
    using q dl by (simp add: e'_def m'_def move_to_dlq_def Let_def)
  have "get_queue n ?e4 = Some ?q" using q3 by (rule declare_queue_keeps)
  then show "get_queue n e' = Some ?q"
    using ne by (simp add: e' push_ready_def next_seq_def index_id_def)
  show "\<exists>d. get_queue ?d e' = Some d \<and> map_of (messages d) ?k = Some m' \<and>
      (\<exists>s. (- priority m, s, ?k) \<in> set (ready d)) \<and> ?k \<in> set (dlq_ids d)"
    using d by (auto simp: e' push_ready_def next_seq_def index_id_def m'_def)
  show "map_of (by_id e') = (map_of (by_id e))(?k \<mapsto> ?d)"
    by (simp add: e' push_ready_def next_seq_def index_id_def m'_def set_message_def
        journal_append_def upd_stats_def unindex_id_def del_message_def)
  assume n': "n' \<noteq> n" "n' \<noteq> ?d"
  have "get_queue n' ?e4 = get_queue n' ?e3" using n'(2) by (rule declare_queue_other) simp
  then show "get_queue n' e' = get_queue n' e"
    using n' by (simp add: e' push_ready_def next_seq_def index_id_def m'_def
        upd_stats_def unindex_id_def del_message_def)
qed

text \<open>The state in which \<open>nack\<close> hands a message over to the failure handling.\<close>

definition nacked_engine :: "string \<Rightarrow> string \<Rightarrow> bool \<Rightarrow> bool \<Rightarrow> engine \<Rightarrow> engine" where
  "nacked_engine n k requeue persist e =
     journal_append persist ''MESSAGE_NACK''
       [(''id'', JStr k), (''queue'', JStr n), (''requeue'', JBool requeue)] []
       (upd_stats n (\<lambda>st. st\<lparr>nacked := Suc (nacked st)\<rparr>) (del_inflight n k e))"

lemma nack_stages:
  assumes "map_of (by_id e) k = Some n" "get_queue n e = Some q" "map_of (inflight q) k = Some r"
    "map_of (messages q) k = Some m"
  shows "nack k requeue persist e =
      (NackOK, if requeue then retry_or_dead n m persist (nacked_engine n k requeue persist e)
               else move_to_dlq n m persist (nacked_engine n k requeue persist e))"
    and "get_queue n (nacked_engine n k requeue persist e) =
      Some (q\<lparr>inflight := ddel k (inflight q), stats := (stats q)\<lparr>nacked := Suc (nacked (stats q))\<rparr>\<rparr>)"
    and "by_id (nacked_engine n k requeue persist e) = by_id e"
    and "clock (nacked_engine n k requeue persist e) = clock e"
    and "clock_ix (nacked_engine n k requeue persist e) = clock_ix e"
    and "retry_backoff (nacked_engine n k requeue persist e) = retry_backoff e"
    and "retry_base_delay (nacked_engine n k requeue persist e) = retry_base_delay e"
  using assms
  by (simp_all add: nack_def nacked_engine_def Let_def journal_append_def upd_stats_def del_inflight_def)

lemma exhausted_dies:
  "max_attempts m \<le> attempts m + 1 \<Longrightarrow>
   retry_or_dead n m persist e =
     move_to_dlq n (m\<lparr>attempts := attempts m + 1\<rparr>) persist (set_message n (m\<lparr>attempts := attempts m + 1\<rparr>) e)"
  by (simp add: retry_or_dead_def Let_def)

text \<open>The deliveries that are outstanding: what \<open>nack\<close> may be called for.\<close>

definition outstanding :: "engine \<Rightarrow> string \<Rightarrow> string \<Rightarrow> message \<Rightarrow> bool" where
  "outstanding e n k m \<longleftrightarrow>
     map_of (by_id e) k = Some n \<and>
     (case get_queue n e of
        None \<Rightarrow> False
      | Some q \<Rightarrow> k \<in> dkeys (inflight q) \<and> map_of (messages q) k = Some m)"

lemma outstandingE:
  assumes "outstanding e n k m"
  obtains q r where "map_of (by_id e) k = Some n" "get_queue n e = Some q"
    "map_of (inflight q) k = Some r" "map_of (messages q) k = Some m"
  using assms by (auto simp: outstanding_def dkeys_iff simp del: image_iff split: option.splits)

text \<open>The answers of a negative acknowledgement: in a reachable engine it answers \<open>OK\<close> exactly
  for an id that is in flight, and any other answer leaves the engine as it was.\<close>

theorem nack_answers:
  assumes "reachable_engine e"
  shows "(fst (nack k requeue persist e) = NackOK \<longleftrightarrow> inflight_consumer k e \<noteq> None) \<and>
    (fst (nack k requeue persist e) = NackOK \<or> snd (nack k requeue persist e) = e)"
proof (cases "map_of (by_id e) k")
  case None
  then show ?thesis by (simp add: nack_def inflight_consumer_def)
next
  case (Some n)
  have "engine_inv e" using assms by (rule engine.reach_safe)
  then obtain q m where q: "get_queue n e = Some q" "map_of (messages q) k = Some m"
    using index_okD [OF _ Some] einv_base unfolding base_ok_def dkeys_iff by blast
  show ?thesis
  proof (cases "map_of (inflight q) k")
    case None
    then show ?thesis using Some q by (simp add: nack_def inflight_consumer_def)
  next
    case r: (Some r)
    then show ?thesis using nack_stages(1) [OF Some q(1) r q(2)] Some q by (simp add: inflight_consumer_def)
  qed
qed

theorem nack_answers_witness: "fst (nack ''b'' True True demo_inflight) = NackOK"
proof -
  have "inflight_consumer ''b'' demo_inflight \<noteq> None" by code_simp
  then show ?thesis using nack_answers [OF demo_reachable(4), of "''b''" True True] by blast
qed

text \<open>C9. A negative acknowledgement with \<open>requeue\<close> retries the message while it has attempts left:
  it stays stored in its queue with one more attempt, its record is gone, and it is delayed until
  the retry delay of that attempt has passed, so that it cannot be delivered before; the entry on
  the delayed heap that will release it is there.\<close>

theorem nack_retries:
  assumes "outstanding e n k m" "engine_inv e" "attempts m + 1 < max_attempts m"
  shows "let t = clock e (clock_ix e) + retry_delay (attempts m + 1) (retry_backoff e) (retry_base_delay e);
             e' = snd (nack k True persist e) in
    fst (nack k True persist e) = NackOK \<and>
    (\<exists>q'. get_queue n e' = Some q' \<and> \<not> live q' k \<and> k \<in> delayed_ids q' \<and> k \<notin> dkeys (inflight q') \<and>
       map_of (messages q') k = Some (m\<lparr>attempts := attempts m + 1, available_at := Some t\<rparr>)) \<and>
    (\<exists>s. (t, s, n, k) \<in> set (delayed e')) \<and> map_of (by_id e') k = Some n"
proof (rule outstandingE [OF assms(1)])
  fix q r
  assume q: "map_of (by_id e) k = Some n" "get_queue n e = Some q"
    "map_of (inflight q) k = Some r" "map_of (messages q) k = Some m"
  note st = nack_stages [OF q, of True persist]
  have "msg_id m = k" using msg_id_of [OF assms(2) q(2,4)] by blast
  then show ?thesis
    using retry_effect [OF st(2) assms(3), where persist = persist] st(1,3-) q(1)
    by (auto simp: Let_def live_def)
qed

lemma demo_outstanding: "outstanding demo_inflight ''jobs'' ''b'' (demo_message ''b'' 5)"
  by code_simp

theorem nack_retries_witness:
  "\<exists>q'. get_queue ''jobs'' (snd (nack ''b'' True True demo_inflight)) = Some q' \<and> ''b'' \<in> delayed_ids q' \<and>
     map_of (messages q') ''b'' = Some ((demo_message ''b'' 5)\<lparr>attempts := 1,
       available_at := Some (clock demo_inflight (clock_ix demo_inflight) +
         retry_delay 1 (retry_backoff demo_inflight) (retry_base_delay demo_inflight))\<rparr>)"
  using nack_retries [OF demo_outstanding demo_inv(4), of True]
  by (auto simp: Let_def demo_message_def)

text \<open>C8. A message that is rejected for good (\<open>requeue\<close> off) or has used its last attempt moves to
  the dead-letter queue: it leaves its queue, it is stored and ready in the dead-letter queue with
  its payload, headers and attempts, it is listed among the dead letters, and the index follows.\<close>

theorem nack_dead_letters:
  assumes "outstanding e n k m" "engine_inv e" "\<not> requeue \<or> max_attempts m \<le> attempts m + 1"
    "get_queue n e = Some q" "dead_letter (spec q)" "\<not> is_dlq n"
  shows "let e' = snd (nack k requeue persist e);
             m' = m\<lparr>attempts := attempts m + (if requeue then 1 else 0), msg_queue := dlq_name n,
                    available_at := None\<rparr> in
    fst (nack k requeue persist e) = NackOK \<and>
    (\<exists>q'. get_queue n e' = Some q' \<and> k \<notin> dkeys (messages q') \<and> k \<notin> dkeys (inflight q')) \<and>
    (\<exists>d. get_queue (dlq_name n) e' = Some d \<and> map_of (messages d) k = Some m' \<and>
       (\<exists>s. (- priority m, s, k) \<in> set (ready d)) \<and> k \<in> set (dlq_ids d)) \<and>
    map_of (by_id e') k = Some (dlq_name n)"
proof (rule outstandingE [OF assms(1)])
  fix q0 r
  assume q: "map_of (by_id e) k = Some n" "get_queue n e = Some q0"
    "map_of (inflight q0) k = Some r" "map_of (messages q0) k = Some m"
  note st = nack_stages [OF q, of requeue persist]
  have k: "msg_id m = k" and dl: "dead_letter (spec q0)"
    using msg_id_of [OF assms(2) q(2,4)] q(2) assms(4,5) by auto
  let ?e = "nacked_engine n k requeue persist e"
  define m1 where "m1 = m\<lparr>attempts := attempts m + (if requeue then 1 else 0)\<rparr>"
  define e1 where "e1 = (if requeue then set_message n m1 ?e else ?e)"
  have e': "snd (nack k requeue persist e) = move_to_dlq n m1 persist e1"
    using st(1) assms(3) exhausted_dies by (auto simp: m1_def e1_def)
  obtain q1 where q1: "get_queue n e1 = Some q1" "dead_letter (spec q1)"
    "inflight q1 = ddel k (inflight q0)" "priority m1 = priority m" "msg_id m1 = k"
    using st(2) dl k by (cases requeue) (auto simp: e1_def m1_def)
  note eff = move_to_dlq_effect [OF q1(1,2) assms(6), where m = m1 and persist = persist]
  show ?thesis
    using eff(1-3) st(1) unfolding Let_def e' q1(4,5) by (simp add: q1(3)) (auto simp: m1_def)
qed

theorem nack_dead_letters_witness:
  "map_of (by_id (snd (nack ''b'' False True demo_inflight))) ''b'' = Some ''jobs.DLQ''"
proof -
  have dl: "dead_letter (spec (demo_jobs demo_inflight))" by code_simp
  have name: "\<not> is_dlq ''jobs''" "dlq_name ''jobs'' = ''jobs.DLQ''" by code_simp+
  show ?thesis
    using nack_dead_letters [OF demo_outstanding demo_inv(4) _ demo_queue(2) dl name(1), of False True]
      name(2) by (simp add: Let_def)
qed

section \<open>Back from the dead-letter queue\<close>

lemma take_dead_letter_effect:
  assumes "get_queue d e = Some q"
  obtains q' where "get_queue d (take_dead_letter d k e) = Some q'" "messages q' = ddel k (messages q)"
    "inflight q' = inflight q" "delayed_ids q' = delayed_ids q" "spec q' = spec q"
    "set (ready q') = {x \<in> set (ready q). snd (snd x) \<noteq> k}" "set (dlq_ids q') = set (dlq_ids q) - {k}"
    "\<And>n. n \<noteq> d \<Longrightarrow> get_queue n (take_dead_letter d k e) = get_queue n e"
    "by_id (take_dead_letter d k e) = ddel k (by_id e)"
proof -
  let ?r = "if ready q = [] then [] else heapify (filter (\<lambda>(p, s, i). i \<noteq> k) (ready q))"
  let ?d = "if k \<in> set (dlq_ids q) then filter (\<lambda>i. i \<noteq> k) (dlq_ids q) else dlq_ids q"
  let ?q = "q\<lparr>messages := ddel k (messages q), ready := ?r, dlq_ids := ?d\<rparr>"
  have g: "get_queue d (take_dead_letter d k e) = Some ?q"
    using assms by (auto simp: take_dead_letter_def drop_ready_def unindex_id_def del_message_def)
  have r: "set ?r = {x \<in> set (ready q). snd (snd x) \<noteq> k}" by auto
  have ids: "set ?d = set (dlq_ids q) - {k}" by auto
  show ?thesis
    by (rule that [OF g])
       (use r ids in \<open>simp_all add: take_dead_letter_def drop_ready_def unindex_id_def del_message_def\<close>)
qed

text \<open>C11. The requeue of a dead letter: called with the name of the queue or of its dead-letter
  queue, it takes the message out of the dead-letter queue, its ready heap and its list of dead
  letters, and publishes it to its queue with no attempts counted, ready at once. When that queue
  is full it answers false and the message stays stored and ready in the dead-letter queue, but its
  attempts are gone and it is missing from the list of dead letters.\<close>

theorem dlq_requeue_moves:
  assumes "engine_inv e" "origin_queue x = n" "\<not> is_dlq n" "get_queue n e = Some q"
    "get_queue (dlq_name n) e = Some d" "map_of (messages d) k = Some m"
  shows "let e' = snd (dlq_requeue x k persist e);
             m' = m\<lparr>msg_queue := n, attempts := 0, available_at := None\<rparr> in
    fst (dlq_requeue x k persist e) = (\<not> over_limit q) \<and>
    (\<exists>q' d'. get_queue n e' = Some q' \<and> get_queue (dlq_name n) e' = Some d' \<and> k \<notin> set (dlq_ids d') \<and>
      (if over_limit q
       then q' = q \<and> map_of (messages d') k = Some (m'\<lparr>msg_queue := dlq_name n\<rparr>) \<and>
         k \<in> ready_ids d' \<and> map_of (by_id e') k = Some (dlq_name n)
       else map_of (messages q') k = Some m' \<and> (\<exists>s. (- priority m, s, k) \<in> set (ready q')) \<and>
         map_of (by_id e') k = Some n \<and> k \<notin> dkeys (messages d') \<and> k \<notin> ready_ids d'))"
proof -
  let ?d = "dlq_name n"
  let ?m1 = "m\<lparr>msg_queue := n, attempts := 0, available_at := None\<rparr>"
  have ne: "?d \<noteq> n" "n \<noteq> ?d" using dlq_name_neq [OF assms(3)] by auto
  have k: "msg_id m = k" using msg_id_of [OF assms(1,5,6)] by blast
  obtain d1 where d1: "get_queue ?d (take_dead_letter ?d k e) = Some d1"
    "messages d1 = ddel k (messages d)" "set (ready d1) = {x \<in> set (ready d). snd (snd x) \<noteq> k}"
    "set (dlq_ids d1) = set (dlq_ids d) - {k}"
    and other: "get_queue n (take_dead_letter ?d k e) = Some q"
    and idx: "by_id (take_dead_letter ?d k e) = ddel k (by_id e)"
    using assms(4) ne by (metis take_dead_letter_effect [OF assms(5), of k])
  let ?e2 = "take_dead_letter ?d k e"
  obtain res e3 where enq: "enqueue ?m1 False ?e2 = (res, e3)" by fastforce
  show ?thesis
  proof (cases "over_limit q")
    case True
    then have "res = EnqQueueFull" "e3 = ?e2"
      using enqueue_result [of ?m1 False ?e2] enqueue_failed [of ?m1 False ?e2] enq other by simp_all
    then show ?thesis
      using assms(2,4,5,6) enq d1 other idx ne True k
      by (auto simp: dlq_requeue_def Let_def push_ready_def next_seq_def index_id_def)
  next
    case False
    have get: "get_queue (msg_queue ?m1) ?e2 = Some q" using other by simp
    note now = enqueue_now [OF get False, where persist = False, simplified]
    have "res = EnqOK" "e3 = snd (enqueue ?m1 False ?e2)" using now(1) enq by simp_all
    moreover have "k \<notin> dkeys (messages d1)" "k \<notin> ready_ids d1"
      unfolding d1(2,3) by auto
    ultimately show ?thesis
      using assms(2,4,5,6) now(2,3,4) enq d1(1,4) ne False k
      by (auto simp: dlq_requeue_def Let_def simp del: image_iff)
  qed
qed

definition demo_dead :: engine where
  "demo_dead = snd (nack ''b'' False True demo_inflight)"

lemma demo_dead_inv: "engine_inv demo_dead"
  unfolding demo_dead_def by (rule einv_nack) (rule demo_inv)

theorem dlq_requeue_moves_witness:
  "fst (dlq_requeue ''jobs.DLQ'' ''b'' True demo_dead) \<and>
   map_of (by_id (snd (dlq_requeue ''jobs.DLQ'' ''b'' True demo_dead))) ''b'' = Some ''jobs''"
proof -
  have names: "origin_queue ''jobs.DLQ'' = ''jobs''" "\<not> is_dlq ''jobs''" "dlq_name ''jobs'' = ''jobs.DLQ''"
    by code_simp+
  have some: "get_queue ''jobs'' demo_dead \<noteq> None \<and> \<not> over_limit (demo_jobs demo_dead) \<and>
      (case get_queue ''jobs.DLQ'' demo_dead of None \<Rightarrow> False | Some d \<Rightarrow> map_of (messages d) ''b'' \<noteq> None)"
    by code_simp
  then obtain q d m where q: "get_queue ''jobs'' demo_dead = Some q" "\<not> over_limit q"
    and d: "get_queue (dlq_name ''jobs'') demo_dead = Some d" "map_of (messages d) ''b'' = Some m"
    unfolding names(3) by (auto split: option.splits)
  show ?thesis
    using dlq_requeue_moves [OF demo_dead_inv names(1,2) q(1) d, of True] q(2)
    by (simp add: Let_def) blast
qed

text \<open>C15. A dead-letter queue has no dead-letter queue of its own: a message in flight there that
  is rejected, or retried on its last attempt, is destroyed. It is in no queue any more and the
  index forgets it.\<close>

theorem failed_dead_letter_is_destroyed:
  assumes "outstanding e n k m" "engine_inv e" "\<not> requeue \<or> max_attempts m \<le> attempts m + 1"
    "get_queue n e = Some q" "\<not> dead_letter (spec q)"
  shows "let e' = snd (nack k requeue persist e) in
    fst (nack k requeue persist e) = NackOK \<and>
    (\<exists>q'. get_queue n e' = Some q' \<and> k \<notin> dkeys (messages q')) \<and>
    map_of (by_id e') k = None \<and> (\<forall>n'. n' \<noteq> n \<longrightarrow> get_queue n' e' = get_queue n' e)"
proof (rule outstandingE [OF assms(1)])
  fix q0 r
  assume q: "map_of (by_id e) k = Some n" "get_queue n e = Some q0"
    "map_of (inflight q0) k = Some r" "map_of (messages q0) k = Some m"
  note st = nack_stages [OF q, of requeue persist]
  have k: "msg_id m = k" and dl: "\<not> dead_letter (spec q0)"
    using msg_id_of [OF assms(2) q(2,4)] q(2) assms(4,5) by auto
  let ?e = "nacked_engine n k requeue persist e"
  define m1 where "m1 = m\<lparr>attempts := attempts m + (if requeue then 1 else 0)\<rparr>"
  define e1 where "e1 = (if requeue then set_message n m1 ?e else ?e)"
  have e': "snd (nack k requeue persist e) = move_to_dlq n m1 persist e1"
    using st(1) assms(3) exhausted_dies by (auto simp: m1_def e1_def)
  obtain q1 where q1: "get_queue n e1 = Some q1" "\<not> dead_letter (spec q1)" "msg_id m1 = k"
    using st(2) dl k by (cases requeue) (auto simp: e1_def m1_def)
  have other: "get_queue n' e1 = get_queue n' e" if "n' \<noteq> n" for n'
    using that by (simp add: e1_def nacked_engine_def)
  note eff = move_to_dlq_gone [OF q1(1,2), where m = m1 and persist = persist]
  show ?thesis
    using eff st(1) other unfolding Let_def e' q1(3) by simp
qed

theorem failed_dead_letter_is_destroyed_witness:
  "\<exists>q'. get_queue ''jobs.DLQ'' (snd (nack ''b'' False True (snd (reserve ''jobs.DLQ'' ''c1'' demo_dead)))) = Some q'
     \<and> ''b'' \<notin> dkeys (messages q')"
proof -
  let ?e = "snd (reserve ''jobs.DLQ'' ''c1'' demo_dead)"
  have o: "map_of (by_id ?e) ''b'' = Some ''jobs.DLQ'' \<and>
      (case get_queue ''jobs.DLQ'' ?e of None \<Rightarrow> False
       | Some d \<Rightarrow> ''b'' \<in> dkeys (inflight d) \<and> \<not> dead_letter (spec d) \<and>
           (case map_of (messages d) ''b'' of None \<Rightarrow> False | Some m \<Rightarrow> attempts m = 0))"
    by code_simp
  then obtain d m where d: "get_queue ''jobs.DLQ'' ?e = Some d" "\<not> dead_letter (spec d)"
      "map_of (messages d) ''b'' = Some m" "''b'' \<in> dkeys (inflight d)"
    by (auto simp del: image_iff split: option.splits)
  have "outstanding ?e ''jobs.DLQ'' ''b'' m" using o d by (simp add: outstanding_def)
  moreover have "engine_inv ?e" by (intro einv_reserve demo_dead_inv)
  ultimately show ?thesis
    using failed_dead_letter_is_destroyed [of ?e "''jobs.DLQ''" "''b''" m False d True] d(1,2)
    by (simp add: Let_def)
qed

end
