(* ===== verification/Timing.thy ===== *)
theory Timing
  imports Failure
begin

text \<open>
  The operations that sweep over the engine: the disconnect of a consumer gives its deliveries up,
  the tick releases the delayed messages that are due and fails the deliveries whose visibility
  deadline has passed.
\<close>

section \<open>What failure handling leaves alone\<close>

text \<open>The specification of a queue and its in-flight records.\<close>

definition holds :: "engine \<Rightarrow> string \<Rightarrow> (queue_spec \<times> (string \<times> inflight_record) list) option" where
  "holds e n = map_option (\<lambda>q. (spec q, inflight q)) (get_queue n e)"

definition queue_names :: "engine \<Rightarrow> string list" where
  "queue_names e = map fst (queues e)"

text \<open>Every queue that wants a dead-letter queue has one: what the public operations see to,
  unless someone deletes a dead-letter queue alone.\<close>

definition dlqs_declared :: "engine \<Rightarrow> bool" where
  "dlqs_declared e \<longleftrightarrow>
     (\<forall>n s i. holds e n = Some (s, i) \<and> dead_letter s \<longrightarrow> dlq_name n \<in> set (queue_names e))"

lemma queue_names_upd_queue [simp]: "queue_names (upd_queue n f e) = queue_names e"
  by (auto simp: queue_names_def upd_queue_def map_fst_dset dkeys_iff split: option.split)

lemma holds_upd_queue [simp]:
  "(\<And>q. spec (f q) = spec q \<and> inflight (f q) = inflight q) \<Longrightarrow> holds (upd_queue n f e) = holds e"
  by (auto simp: holds_def fun_eq_iff option.map_comp comp_def)

lemma holds_names [simp]:
  "holds (e\<lparr>seq := s\<rparr>) = holds e" "holds (e\<lparr>delayed := d\<rparr>) = holds e"
  "holds (e\<lparr>by_id := b\<rparr>) = holds e" "holds (e\<lparr>clock_ix := i\<rparr>) = holds e"
  "holds (e\<lparr>visibility_heap := v\<rparr>) = holds e"
  "queue_names (e\<lparr>seq := s\<rparr>) = queue_names e" "queue_names (e\<lparr>delayed := d\<rparr>) = queue_names e"
  "queue_names (e\<lparr>by_id := b\<rparr>) = queue_names e" "queue_names (e\<lparr>clock_ix := i\<rparr>) = queue_names e"
  "queue_names (e\<lparr>visibility_heap := v\<rparr>) = queue_names e"
  by (simp_all add: holds_def queue_names_def fun_eq_iff)

lemma holds_journal_append [simp]:
  "holds (journal_append p op me pl e) = holds e"
  "queue_names (journal_append p op me pl e) = queue_names e"
  by (simp_all add: holds_def queue_names_def fun_eq_iff)

lemma holds_small_steps [simp]:
  "holds (upd_stats n g e) = holds e" "queue_names (upd_stats n g e) = queue_names e"
  "holds (set_message n m e) = holds e" "queue_names (set_message n m e) = queue_names e"
  "holds (del_message n k e) = holds e" "queue_names (del_message n k e) = queue_names e"
  "holds (index_id k n e) = holds e" "queue_names (index_id k n e) = queue_names e"
  "holds (unindex_id k e) = holds e" "queue_names (unindex_id k e) = queue_names e"
  "holds (push_ready n m e) = holds e" "queue_names (push_ready n m e) = queue_names e"
  "holds (push_delayed n t k e) = holds e" "queue_names (push_delayed n t k e) = queue_names e"
  by (simp_all add: upd_stats_def set_message_def del_message_def index_id_def unindex_id_def
      push_ready_def push_delayed_def next_seq_def)

lemma declare_queue_there:
  "n \<in> set (queue_names e) \<Longrightarrow> declare_queue n dur ml vt ma dl persist e = e"
  by (subst declare_queue.simps) (auto simp: queue_names_def map_of_eq_None_iff split: option.split)

lemma move_to_dlq_frame:
  assumes "dlqs_declared e"
  shows "holds (move_to_dlq n m persist e) = holds e"
    and "queue_names (move_to_dlq n m persist e) = queue_names e"
proof -
  let ?e3 = "journal_append persist ''MESSAGE_DEAD''
      [(''id'', JStr (msg_id m)), (''queue'', JStr n), (''attempts'', JInt (attempts m))] (payload m)
      (upd_stats n (\<lambda>st. st\<lparr>dead := Suc (dead st)\<rparr>) (unindex_id (msg_id m) (del_message n (msg_id m) e)))"
  have e3: "holds ?e3 = holds e" "queue_names ?e3 = queue_names e"
    by simp_all
  have there: "declare_queue (dlq_name n) dur ml vt ma dl p ?e3 = ?e3"
    if q: "get_queue n e = Some q" "dead_letter (spec q)" for q dur ml vt ma dl p
  proof (rule declare_queue_there)
    have "holds e n = Some (spec q, inflight q)" using q(1) by (simp add: holds_def)
    then show "dlq_name n \<in> set (queue_names ?e3)"
      using assms q(2) e3(2) unfolding dlqs_declared_def by metis
  qed
  show "holds (move_to_dlq n m persist e) = holds e"
    by (auto simp: move_to_dlq_def Let_def there split: option.split)
  show "queue_names (move_to_dlq n m persist e) = queue_names e"
    by (auto simp: move_to_dlq_def Let_def there split: option.split)
qed

lemma retry_or_dead_frame:
  assumes "dlqs_declared e"
  shows "holds (retry_or_dead n m persist e) = holds e"
    and "queue_names (retry_or_dead n m persist e) = queue_names e"
proof -
  have "dlqs_declared (set_message n m' e)" for m'
    using assms by (simp add: dlqs_declared_def)
  note dead = move_to_dlq_frame [OF this]
  show "holds (retry_or_dead n m persist e) = holds e"
    by (simp add: retry_or_dead_def Let_def dead read_clock_def)
  show "queue_names (retry_or_dead n m persist e) = queue_names e"
    by (simp add: retry_or_dead_def Let_def dead read_clock_def)
qed

lemma holds_del_inflight:
  "holds (del_inflight n k e) n' =
     (if n' = n then map_option (\<lambda>x. (fst x, ddel k (snd x))) (holds e n) else holds e n')"
  "queue_names (del_inflight n k e) = queue_names e"
  by (auto simp: holds_def del_inflight_def option.map_comp comp_def)

section \<open>Disconnect\<close>

lemma recover_records_frame:
  assumes "dlqs_declared e"
  shows "holds (snd (recover_records n recs persist e)) n' =
      (if n' = n then map_option (\<lambda>x. (fst x, fold ddel (map rec_message_id recs) (snd x))) (holds e n)
       else holds e n')"
    and "queue_names (snd (recover_records n recs persist e)) = queue_names e"
    and "dlqs_declared (snd (recover_records n recs persist e))"
proof -
  have "(\<forall>n'. holds (snd (recover_records n recs persist e)) n' =
      (if n' = n then map_option (\<lambda>x. (fst x, fold ddel (map rec_message_id recs) (snd x))) (holds e n)
       else holds e n')) \<and>
    queue_names (snd (recover_records n recs persist e)) = queue_names e \<and>
    dlqs_declared (snd (recover_records n recs persist e))"
    using assms
  proof (induction recs arbitrary: e)
    case Nil
    then show ?case by (simp add: option.map_ident)
  next
    case (Cons rec recs)
    let ?k = "rec_message_id rec"
    let ?e1 = "del_inflight n ?k e"
    have d1: "dlqs_declared ?e1"
      using Cons.prems by (auto simp: dlqs_declared_def holds_del_inflight split: if_splits)
    have step: "dlqs_declared e2 \<Longrightarrow> holds e2 = holds ?e1 \<Longrightarrow> queue_names e2 = queue_names ?e1 \<Longrightarrow>
      (\<forall>n'. holds (snd (recover_records n recs persist e2)) n' =
        (if n' = n then map_option (\<lambda>x. (fst x, fold ddel (map rec_message_id (rec # recs)) (snd x))) (holds e n)
         else holds e n')) \<and>
      queue_names (snd (recover_records n recs persist e2)) = queue_names e \<and>
      dlqs_declared (snd (recover_records n recs persist e2))" for e2
      using Cons.IH [of e2]
      by (simp add: holds_del_inflight option.map_comp comp_def)
    have r: "dlqs_declared (retry_or_dead n m persist ?e1)" for m
      using d1 retry_or_dead_frame [OF d1] by (simp add: dlqs_declared_def)
    show ?case
      using step [OF d1 refl refl] step [OF r retry_or_dead_frame [OF d1]]
      by (simp add: Let_def case_prod_beta split: option.split)
  qed
  then show "holds (snd (recover_records n recs persist e)) n' =
      (if n' = n then map_option (\<lambda>x. (fst x, fold ddel (map rec_message_id recs) (snd x))) (holds e n)
       else holds e n')"
    and "queue_names (snd (recover_records n recs persist e)) = queue_names e"
    and "dlqs_declared (snd (recover_records n recs persist e))" by blast+
qed

definition ids_of :: "string \<Rightarrow> (string \<times> inflight_record) list \<Rightarrow> string list" where
  "ids_of c i = map rec_message_id (filter (\<lambda>rec. rec_consumer rec = c) (map snd i))"

lemma map_of_fold_ddel: "map_of (fold ddel ks d) k = (if k \<in> set ks then None else map_of d k)"
  by (induction ks arbitrary: d) auto

lemma ids_of_iff:
  assumes "dict_ok i" "\<And>k r. map_of i k = Some r \<Longrightarrow> rec_message_id r = k"
  shows "k \<in> set (ids_of c i) \<longleftrightarrow> (\<exists>r. map_of i k = Some r \<and> rec_consumer r = c)"
proof
  assume "k \<in> set (ids_of c i)"
  then obtain k' r where r: "(k', r) \<in> set i" "rec_consumer r = c" "k = rec_message_id r"
    by (auto simp: ids_of_def)
  then have "map_of i k' = Some r" using assms(1) by (intro in_set_map_of)
  then show "\<exists>r. map_of i k = Some r \<and> rec_consumer r = c" using assms(2) r by auto
next
  assume "\<exists>r. map_of i k = Some r \<and> rec_consumer r = c"
  then obtain r where "map_of i k = Some r" "rec_consumer r = c" by blast
  then show "k \<in> set (ids_of c i)"
    using assms(2) map_of_SomeD by (force simp: ids_of_def)
qed

lemma recover_queues_frame:
  assumes "dlqs_declared e" "distinct ns" "length (queues e) = len"
  shows "(\<exists>cnt'. fst (recover_queues len ns c persist cnt e) = Inr cnt') \<and>
    queue_names (snd (recover_queues len ns c persist cnt e)) = queue_names e \<and>
    (\<forall>n. holds (snd (recover_queues len ns c persist cnt e)) n =
       (if n \<in> set ns then map_option (\<lambda>x. (fst x, fold ddel (ids_of c (snd x)) (snd x))) (holds e n)
        else holds e n))"
  using assms
proof (induction ns arbitrary: cnt e)
  case Nil
  then show ?case by (simp add: recover_queues.simps)
next
  case (Cons n ns)
  show ?case
  proof (cases "get_queue n e")
    case None
    then have "holds e n = None" by (simp add: holds_def)
    then show ?thesis
      using Cons.IH [of e cnt] Cons.prems None by (simp add: recover_queues.simps [of len "n # ns"])
  next
    case (Some q)
    obtain k e1 where r: "recover_records n (consumer_records c q) persist e = (k, e1)" by fastforce
    note fr = recover_records_frame [OF Cons.prems(1), of n "consumer_records c q" persist, unfolded r snd_conv]
    have "length (queues e1) = len"
      using arg_cong [OF fr(2), of length] Cons.prems(3) by (simp add: queue_names_def)
    then have ih: "(\<exists>cnt'. fst (recover_queues len ns c persist (cnt + k) e1) = Inr cnt') \<and>
      queue_names (snd (recover_queues len ns c persist (cnt + k) e1)) = queue_names e1 \<and>
      (\<forall>n. holds (snd (recover_queues len ns c persist (cnt + k) e1)) n =
       (if n \<in> set ns then map_option (\<lambda>x. (fst x, fold ddel (ids_of c (snd x)) (snd x))) (holds e1 n)
        else holds e1 n))"
      using Cons.IH [OF fr(3)] Cons.prems(2) by simp
    have "map rec_message_id (consumer_records c q) = ids_of c (inflight q)"
      by (simp add: consumer_records_def ids_of_def)
    then have n: "holds e1 n = map_option (\<lambda>x. (fst x, fold ddel (ids_of c (snd x)) (snd x))) (holds e n)"
      using fr(1) [of n] Some by (simp add: holds_def)
    have others: "holds e1 n' = holds e n'" if "n' \<noteq> n" for n' using fr(1) [of n'] that by simp
    have unf: "recover_queues len (n # ns) c persist cnt e = recover_queues len ns c persist (cnt + k) e1"
      using Some r Cons.prems(3) by (simp add: recover_queues.simps [of len "n # ns"])
    have rest: "holds e1 n' = holds e n'" if "n' \<in> set ns" for n'
      using others [of n'] that Cons.prems(2) by auto
    have nin: "n \<notin> set ns" using Cons.prems(2) by simp
    have "holds (snd (recover_queues len (n # ns) c persist cnt e)) n' =
       (if n' \<in> set (n # ns) then map_option (\<lambda>x. (fst x, fold ddel (ids_of c (snd x)) (snd x))) (holds e n')
        else holds e n')" for n'
      unfolding unf using ih n others [of n'] rest [of n'] nin by (cases "n' = n"; cases "n' \<in> set ns") simp_all
    then show ?thesis unfolding unf using ih fr(2) by simp
  qed
qed

lemma recover_consumer_effect:
  assumes "engine_inv e" "dlqs_declared e"
  shows "let e' = snd (recover_consumer c persist e) in
    (\<exists>cnt. fst (recover_consumer c persist e) = Inr cnt) \<and> engine_inv e' \<and>
    queue_names e' = queue_names e \<and>
    (\<forall>n q'. get_queue n e' = Some q' \<longrightarrow>
       (\<exists>q. get_queue n e = Some q \<and>
          (\<forall>k. map_of (inflight q') k =
             (case map_of (inflight q) k of
                None \<Rightarrow> None
              | Some r \<Rightarrow> if rec_consumer r = c then None else Some r))))"
proof -
  let ?e' = "snd (recover_consumer c persist e)"
  have "distinct (map fst (queues e))"
    using einv_base [OF assms(1)] by (simp add: base_ok_def dict_ok_def)
  note r = recover_queues_frame [OF assms(2) this refl, of c persist 0, folded recover_consumer_def]
  have "\<exists>q. get_queue n e = Some q \<and> (\<forall>k. map_of (inflight q') k =
      (case map_of (inflight q) k of None \<Rightarrow> None | Some r \<Rightarrow> if rec_consumer r = c then None else Some r))"
    if q': "get_queue n ?e' = Some q'" for n q'
  proof -
    have h: "holds ?e' n = map_option (\<lambda>x. (fst x, fold ddel (ids_of c (snd x)) (snd x))) (holds e n)"
    proof (cases "n \<in> set (map fst (queues e))")
      case True
      then show ?thesis using r by presburger
    next
      case False
      then have "get_queue n e = None" by (simp add: map_of_eq_None_iff)
      then have "holds e n = None" by (simp add: holds_def)
      moreover have "holds ?e' n = holds e n" using r False by presburger
      ultimately show ?thesis by simp
    qed
    then obtain q where q: "get_queue n e = Some q" "inflight q' = fold ddel (ids_of c (inflight q)) (inflight q)"
      using q' by (cases "get_queue n e") (simp_all add: holds_def)
    have ok: "dict_ok (inflight q)" "\<And>k r. map_of (inflight q) k = Some r \<Longrightarrow> rec_message_id r = k"
      using einv_queue [OF assms(1) q(1)] by (auto simp: queue_ok_def)
    show ?thesis
      using q ids_of_iff [OF ok] by (auto simp: map_of_fold_ddel split: option.split)
  qed
  moreover have "\<exists>cnt. fst (recover_consumer c persist e) = Inr cnt" "queue_names ?e' = queue_names e"
    using r by blast+
  ultimately show ?thesis
    unfolding Let_def using einv_recover_consumer [OF assms(1)] by blast
qed

text \<open>A disconnect gives up every delivery of the consumer and no other: when the dead-letter
  queues are declared, \<open>recover_consumer\<close> returns a count, afterwards no in-flight record of any
  queue belongs to the consumer, and the records of the other consumers are as they were.\<close>

theorem disconnect_frees_deliveries:
  assumes "engine_inv e" "dlqs_declared e"
  shows "let e' = snd (recover_consumer c persist e) in
    (\<exists>cnt. fst (recover_consumer c persist e) = Inr cnt) \<and> engine_inv e' \<and>
    queue_names e' = queue_names e \<and>
    (\<forall>n q'. get_queue n e' = Some q' \<longrightarrow>
       (\<exists>q. get_queue n e = Some q \<and>
          (\<forall>k. map_of (inflight q') k =
             (case map_of (inflight q) k of
                None \<Rightarrow> None
              | Some r \<Rightarrow> if rec_consumer r = c then None else Some r))))"
  using assms by (rule recover_consumer_effect)

lemma dlqs_declaredI:
  assumes "list_all (\<lambda>(n, q). \<not> dead_letter (spec q) \<or> dlq_name n \<in> set (queue_names e)) (queues e)"
  shows "dlqs_declared e"
  unfolding dlqs_declared_def holds_def
proof (intro allI impI, elim conjE)
  fix n s i assume "map_option (\<lambda>q. (spec q, inflight q)) (get_queue n e) = Some (s, i)"
    and dl: "dead_letter s"
  then obtain q where q: "get_queue n e = Some q" "s = spec q" by blast
  have "\<not> dead_letter (spec q) \<or> dlq_name n \<in> set (queue_names e)"
    using map_of_SomeD [OF q(1)] assms unfolding list_all_iff by blast
  then show "dlq_name n \<in> set (queue_names e)" using dl q(2) by simp
qed

theorem disconnect_frees_deliveries_witness:
  "\<exists>cnt. fst (recover_consumer ''c1'' True demo_inflight) = Inr cnt"
proof -
  have "dlqs_declared demo_inflight" by (rule dlqs_declaredI) code_simp
  from disconnect_frees_deliveries [OF demo_inv(4) this, of "''c1''" True]
  show ?thesis by (simp add: Let_def)
qed

section \<open>What becomes of the deliveries of a consumer\<close>

text \<open>A message as a queue has it: the message itself, whether it is delayed, and its in-flight record.\<close>

definition message_state :: "engine \<Rightarrow> string \<Rightarrow> string \<Rightarrow> (message option \<times> bool \<times> inflight_record option) option" where
  "message_state e n k = map_option (\<lambda>q. (map_of (messages q) k, k \<in> delayed_ids q, map_of (inflight q) k)) (get_queue n e)"

lemma message_state_upd_queue:
  "message_state (upd_queue n f e) n' k =
     (if n' = n then map_option (\<lambda>q. (map_of (messages (f q)) k, k \<in> delayed_ids (f q), map_of (inflight (f q)) k)) (get_queue n e)
      else message_state e n' k)"
  by (auto simp: message_state_def option.map_comp comp_def)

lemma message_state_fields [simp]:
  "message_state (e\<lparr>seq := s\<rparr>) = message_state e" "message_state (e\<lparr>delayed := d\<rparr>) = message_state e"
  "message_state (e\<lparr>by_id := x\<rparr>) = message_state e" "message_state (e\<lparr>clock_ix := i\<rparr>) = message_state e"
  "message_state (e\<lparr>visibility_heap := v\<rparr>) = message_state e" "message_state (journal_append p op me pl e) = message_state e"
  by (simp_all add: message_state_def fun_eq_iff)

lemma message_state_other:
  "message_state (upd_stats n g e) n' k = message_state e n' k"
  "k \<noteq> msg_id m \<Longrightarrow> message_state (set_message n m e) n' k = message_state e n' k"
  "k \<noteq> j \<Longrightarrow> message_state (del_message n j e) n' k = message_state e n' k"
  "k \<noteq> j \<Longrightarrow> message_state (del_inflight n j e) n' k = message_state e n' k"
  "message_state (index_id j n e) n' k = message_state e n' k"
  "message_state (unindex_id j e) n' k = message_state e n' k"
  "message_state (push_ready n m e) n' k = message_state e n' k"
  "k \<noteq> j \<Longrightarrow> message_state (push_delayed n t j e) n' k = message_state e n' k"
  "(\<And>q. messages (f q) = messages q \<and> delayed_ids (f q) = delayed_ids q \<and> inflight (f q) = inflight q) \<Longrightarrow>
   message_state (upd_queue n f e) n' k = message_state e n' k"
  by (auto simp: message_state_upd_queue upd_stats_def set_message_def del_message_def del_inflight_def index_id_def
      unindex_id_def push_ready_def push_delayed_def next_seq_def message_state_def option.map_comp comp_def)

lemma dlq_there:
  "dlqs_declared e \<Longrightarrow> get_queue n e = Some q \<Longrightarrow> dead_letter (spec q) \<Longrightarrow> queue_names e' = queue_names e \<Longrightarrow>
   declare_queue (dlq_name n) dur ml vt ma dl p e' = e'"
  by (rule declare_queue_there) (auto simp: dlqs_declared_def holds_def)

lemma move_to_dlq_state:
  assumes "dlqs_declared e" "k \<noteq> msg_id m"
  shows "message_state (move_to_dlq n m persist e) n' k = message_state e n' k"
  using assms by (auto simp: move_to_dlq_def Let_def message_state_other dlq_there split: option.split)

lemma dlqs_declared_same: "holds e' = holds e \<Longrightarrow> queue_names e' = queue_names e \<Longrightarrow> dlqs_declared e' = dlqs_declared e"
  by (simp add: dlqs_declared_def)

lemma retry_or_dead_state:
  assumes "dlqs_declared e" "k \<noteq> msg_id m"
  shows "message_state (retry_or_dead n m persist e) n' k = message_state e n' k"
proof -
  have "dlqs_declared (set_message n m' e)" for m' using assms(1) by (simp cong: dlqs_declared_same add: dlqs_declared_def)
  then show ?thesis
    using assms(2) by (simp add: retry_or_dead_def Let_def read_clock_def message_state_other move_to_dlq_state)
qed

text \<open>The failure of a delivery: the message is delayed with one more attempt, or dead-lettered, or gone. The
  clock is read once for each retry; \<open>dl\<close> is whether the queue has a dead-letter queue.\<close>

definition failed_to :: "engine \<Rightarrow> bool \<Rightarrow> string \<Rightarrow> string \<Rightarrow> message \<Rightarrow> engine \<Rightarrow> bool" where
  "failed_to e dl n k m e' \<longleftrightarrow>
     (if attempts m + 1 < max_attempts m
      then \<exists>i \<ge> clock_ix e. message_state e' n k =
        Some (Some (m\<lparr>attempts := attempts m + 1, available_at :=
          Some (clock e i + retry_delay (attempts m + 1) (retry_backoff e) (retry_base_delay e))\<rparr>), True, None)
      else (\<exists>d. message_state e' n k = Some (None, d, None)) \<and>
        (dl \<longrightarrow> (\<exists>d r. message_state e' (dlq_name n) k =
           Some (Some (m\<lparr>attempts := attempts m + 1, msg_queue := dlq_name n, available_at := None\<rparr>), d, r))))"

text \<open>What stays the same of the engine's settings while deliveries fail.\<close>

definition same_settings :: "engine \<Rightarrow> engine \<Rightarrow> bool" where
  "same_settings e e' \<longleftrightarrow> clock e' = clock e \<and> clock_ix e \<le> clock_ix e' \<and> retry_backoff e' = retry_backoff e \<and>
     retry_base_delay e' = retry_base_delay e"

lemma failed_to_later: "failed_to e' dl n k m e'' \<Longrightarrow> same_settings e e' \<Longrightarrow> failed_to e dl n k m e''"
  unfolding failed_to_def same_settings_def by (auto split: if_splits intro: order_trans)

lemma same_settings_trans: "same_settings a b \<Longrightarrow> same_settings b c \<Longrightarrow> same_settings a c"
  by (auto simp: same_settings_def)

lemma settings_upd_queue: "same_settings a (upd_queue n f e) = same_settings a e"
  by (simp add: same_settings_def upd_queue_def split: option.split)

lemma settings_small_steps [simp]:
  "same_settings a (set_message n m e) = same_settings a e" "same_settings a (del_message n k e) = same_settings a e"
  "same_settings a (del_inflight n k e) = same_settings a e" "same_settings a (index_id k n e) = same_settings a e"
  "same_settings a (unindex_id k e) = same_settings a e" "same_settings a (upd_stats n f e) = same_settings a e"
  "same_settings a (push_ready n m e) = same_settings a e" "same_settings a (push_delayed n t k e) = same_settings a e"
  "same_settings a (journal_append p op me pl e) = same_settings a e" "same_settings a (upd_queue n g e) = same_settings a e"
  unfolding set_message_def del_message_def del_inflight_def upd_stats_def push_ready_def push_delayed_def
    index_id_def unindex_id_def next_seq_def journal_append_def Let_def prod.case settings_upd_queue
  by (simp_all add: same_settings_def upd_queue_def split: option.split)

lemma same_settings_refl [simp]: "same_settings e e"
  by (simp add: same_settings_def)

lemma retry_or_dead_settings:
  assumes "dlqs_declared e"
  shows "same_settings e (retry_or_dead n m persist e)"
proof -
  have dead: "same_settings a (move_to_dlq n m persist e)" if "dlqs_declared e" "same_settings a e" for m a and e :: engine
    using that(2) by (auto simp: move_to_dlq_def Let_def dlq_there [OF that(1)] split: option.split)
  have "dlqs_declared (set_message n m' e)" for m' using assms by (simp add: dlqs_declared_def)
  moreover have "same_settings e (x\<lparr>clock_ix := Suc (clock_ix x)\<rparr>)" if "same_settings e x" for x
    using that by (auto simp: same_settings_def)
  ultimately show ?thesis by (simp add: retry_or_dead_def Let_def read_clock_def dead)
qed

lemma retry_or_dead_fails:
  assumes q: "get_queue n e = Some q" and "msg_id m = k" and r: "map_of (inflight q) k = None" and "dead_letter (spec q) \<Longrightarrow> \<not> is_dlq n"
  shows "failed_to e (dead_letter (spec q)) n k m (retry_or_dead n m persist e)"
proof (cases "attempts m + 1 < max_attempts m")
  case True
  obtain q' where "get_queue n (retry_or_dead n m persist e) = Some q'" "k \<in> delayed_ids q'" "inflight q' = inflight q"
    "map_of (messages q') k = Some (m\<lparr>attempts := attempts m + 1, available_at :=
       Some (clock e (clock_ix e) + retry_delay (attempts m + 1) (retry_backoff e) (retry_base_delay e))\<rparr>)"
    using retry_effect(1) [OF q True, of persist] assms(2) by auto
  then show ?thesis using True r by (auto simp: failed_to_def message_state_def)
next
  case False
  let ?m = "m\<lparr>attempts := attempts m + 1\<rparr>"
  let ?e = "set_message n ?m e"
  have q1: "get_queue n ?e = Some (q\<lparr>messages := dset k ?m (messages q)\<rparr>)" using q assms(2) by simp
  have e': "retry_or_dead n m persist e = move_to_dlq n ?m persist ?e" using False by (intro exhausted_dies) simp
  show ?thesis
  proof (cases "dead_letter (spec q)")
    case dl: True
    then have "dead_letter (spec (q\<lparr>messages := dset k ?m (messages q)\<rparr>))" "\<not> is_dlq n" using assms(4) by simp_all
    note eff = move_to_dlq_effect [OF q1 this, where m = ?m and persist = persist]
    show ?thesis using eff(1,2) dl False assms(2) r unfolding e' failed_to_def message_state_def by auto
  next
    case dl: False
    then have "\<not> dead_letter (spec (q\<lparr>messages := dset k ?m (messages q)\<rparr>))" by simp
    from move_to_dlq_gone(1) [OF q1 this, where m = ?m and persist = persist]
    show ?thesis using dl False assms(2) r unfolding e' failed_to_def message_state_def by simp
  qed
qed

definition ids_keyed :: "engine \<Rightarrow> string \<Rightarrow> string set \<Rightarrow> bool" where
  "ids_keyed e n ks \<longleftrightarrow> (\<forall>k \<in> ks. \<forall>m d r. message_state e n k = Some (Some m, d, r) \<longrightarrow> msg_id m = k)"

text \<open>One record.\<close>

definition recover_record :: "string \<Rightarrow> bool \<Rightarrow> inflight_record \<Rightarrow> engine \<Rightarrow> engine" where
  "recover_record n persist rec e =
     (case get_queue n e of
        None \<Rightarrow> del_inflight n (rec_message_id rec) e
      | Some q \<Rightarrow>
          (case map_of (messages q) (rec_message_id rec) of
             None \<Rightarrow> del_inflight n (rec_message_id rec) e
           | Some m \<Rightarrow> retry_or_dead n m persist (del_inflight n (rec_message_id rec) e)))"

lemma recover_records_fold: "snd (recover_records n recs persist e) = fold (recover_record n persist) recs e"
  by (induction recs arbitrary: e) (simp_all add: recover_record_def Let_def case_prod_beta split: option.split)

lemma dlqs_declared_del_inflight: "dlqs_declared e \<Longrightarrow> dlqs_declared (del_inflight n k e)"
  by (auto simp: dlqs_declared_def holds_del_inflight split: if_splits)

lemma recover_record_step:
  assumes d: "dlqs_declared e" and k: "ids_keyed e n {rec_message_id rec}"
  shows "dlqs_declared (recover_record n persist rec e)"
    and "same_settings e (recover_record n persist rec e)"
    and "k \<noteq> rec_message_id rec \<Longrightarrow> message_state (recover_record n persist rec e) n' k = message_state e n' k"
    and "holds (recover_record n persist rec e) n = map_option (\<lambda>x. (fst x, ddel (rec_message_id rec) (snd x))) (holds e n)"
    and "get_queue n e = Some q \<Longrightarrow> map_of (messages q) (rec_message_id rec) = Some m \<Longrightarrow> (dead_letter (spec q) \<Longrightarrow> \<not> is_dlq n) \<Longrightarrow>
      failed_to e (dead_letter (spec q)) n (rec_message_id rec) m (recover_record n persist rec e)"
proof -
  let ?k = "rec_message_id rec" and ?e1 = "del_inflight n (rec_message_id rec) e"
  have d1: "dlqs_declared ?e1" using d by (rule dlqs_declared_del_inflight)
  have id: "msg_id m = ?k" if "get_queue n e = Some q" "map_of (messages q) ?k = Some m" for q m
    using k that by (auto simp: ids_keyed_def message_state_def)
  have "dlqs_declared (retry_or_dead n m persist ?e1)" for m
    using d1 retry_or_dead_frame [OF d1] by (simp add: dlqs_declared_def)
  then show "dlqs_declared (recover_record n persist rec e)" using d1 by (simp add: recover_record_def split: option.split)
  have "same_settings e (retry_or_dead n m persist ?e1)" for m
    using retry_or_dead_settings [OF d1] by (rule same_settings_trans [rotated]) simp
  then show "same_settings e (recover_record n persist rec e)" by (simp add: recover_record_def split: option.split)
  show "message_state (recover_record n persist rec e) n' k = message_state e n' k" if "k \<noteq> ?k"
    using that id retry_or_dead_state [OF d1] by (auto simp: recover_record_def message_state_other split: option.split)
  show "holds (recover_record n persist rec e) n = map_option (\<lambda>x. (fst x, ddel ?k (snd x))) (holds e n)"
    using retry_or_dead_frame(1) [OF d1] holds_del_inflight(1) [of n ?k e n] by (simp add: recover_record_def split: option.split)
  assume q: "get_queue n e = Some q" "map_of (messages q) ?k = Some m" "dead_letter (spec q) \<Longrightarrow> \<not> is_dlq n"
  let ?q = "q\<lparr>inflight := ddel ?k (inflight q)\<rparr>"
  have q1: "get_queue n ?e1 = Some ?q" using q(1) by (simp add: del_inflight_def)
  have "failed_to ?e1 (dead_letter (spec ?q)) n ?k m (retry_or_dead n m persist ?e1)"
    by (rule retry_or_dead_fails [OF q1 id [OF q(1,2)]]) (use q(3) in simp_all)
  then have "failed_to e (dead_letter (spec q)) n ?k m (retry_or_dead n m persist ?e1)"
    by (simp add: failed_to_later [where e = e and e' = ?e1])
  then show "failed_to e (dead_letter (spec q)) n ?k m (recover_record n persist rec e)"
    using q(1,2) by (simp add: recover_record_def)
qed

text \<open>A failure that is done is not changed by what happens to other ids.\<close>

lemma failed_to_frame:
  "failed_to e dl n k m e' \<Longrightarrow> (\<And>n'. message_state e'' n' k = message_state e' n' k) \<Longrightarrow> failed_to e dl n k m e''"
  unfolding failed_to_def by metis

lemma recover_records_states:
  assumes "dlqs_declared e" "distinct (map rec_message_id recs)" "ids_keyed e n (rec_message_id ` set recs)"
    and "\<forall>q. get_queue n e = Some q \<and> dead_letter (spec q) \<longrightarrow> \<not> is_dlq n"
  shows "same_settings e (fold (recover_record n persist) recs e) \<and> dlqs_declared (fold (recover_record n persist) recs e) \<and>
    (\<forall>k n'. k \<notin> rec_message_id ` set recs \<longrightarrow> message_state (fold (recover_record n persist) recs e) n' k = message_state e n' k) \<and>
    (\<forall>k q m. k \<in> rec_message_id ` set recs \<longrightarrow> get_queue n e = Some q \<longrightarrow> map_of (messages q) k = Some m \<longrightarrow>
       failed_to e (dead_letter (spec q)) n k m (fold (recover_record n persist) recs e))"
  using assms
proof (induction recs arbitrary: e)
  case (Cons rec recs)
  let ?k = "rec_message_id rec" and ?e1 = "recover_record n persist rec e"
  have "ids_keyed e n {?k}" using Cons.prems(3) by (simp add: ids_keyed_def)
  note step = recover_record_step [OF Cons.prems(1) this]
  have other: "message_state ?e1 n' k = message_state e n' k" if "k \<in> rec_message_id ` set recs" for k n'
  proof (rule step(3))
    show "k \<noteq> ?k" using that Cons.prems(2) by (metis distinct.simps(2) list.simps(9) set_map)
  qed
  have keyed: "ids_keyed ?e1 n (rec_message_id ` set recs)" using Cons.prems(3) other by (simp add: ids_keyed_def)
  have spec: "\<exists>q. get_queue n e = Some q \<and> spec q' = spec q" if "get_queue n ?e1 = Some q'" for q'
  proof -
    have "holds ?e1 n = Some (spec q', inflight q')" using that by (simp add: holds_def)
    then obtain x where "holds e n = Some x" "spec q' = fst x" using step(4) [of persist] by auto
    then show ?thesis by (auto simp: holds_def)
  qed
  have plain: "\<forall>q'. get_queue n ?e1 = Some q' \<and> dead_letter (spec q') \<longrightarrow> \<not> is_dlq n"
    using spec Cons.prems(4) by metis
  have dist: "distinct (map rec_message_id recs)" "?k \<notin> rec_message_id ` set recs" using Cons.prems(2) by auto
  note ih = Cons.IH [OF step(1) dist(1) keyed plain]
  let ?e' = "fold (recover_record n persist) recs ?e1"
  have same: "same_settings e ?e'" by (rule same_settings_trans [OF step(2)]) (rule ih [THEN conjunct1])
  have rest: "message_state ?e' n' k = message_state e n' k" if "k \<notin> rec_message_id ` set (rec # recs)" for k n'
  proof -
    have "message_state ?e' n' k = message_state ?e1 n' k" using ih that by simp
    then show ?thesis using step(3) [of k] that by simp
  qed
  have failed: "failed_to e (dead_letter (spec q)) n k m ?e'"
    if k: "k \<in> rec_message_id ` set (rec # recs)" and q: "get_queue n e = Some q" "map_of (messages q) k = Some m" for k q m
  proof (cases "k = ?k")
    case True
    have "failed_to e (dead_letter (spec q)) n k m ?e1"
      unfolding True by (rule step(5)) (use q Cons.prems(4) True in simp_all)
    then show ?thesis by (rule failed_to_frame) (use ih dist(2) True in simp)
  next
    case False
    then have kr: "k \<in> rec_message_id ` set recs" using k by auto
    have "message_state ?e1 n k = message_state e n k" by (rule other [OF kr])
    then obtain q1 where q1: "get_queue n ?e1 = Some q1" "map_of (messages q1) k = Some m"
      using q by (auto simp: message_state_def)
    have "spec q1 = spec q" using spec [OF q1(1)] q(1) by auto
    then have "failed_to ?e1 (dead_letter (spec q)) n k m ?e'" using ih kr q1 by metis
    then show ?thesis using step(2) by (rule failed_to_later)
  qed
  show ?case using same rest failed ih by simp
qed simp

definition held_by :: "engine \<Rightarrow> string \<Rightarrow> string \<Rightarrow> string \<Rightarrow> bool" where
  "held_by e c n k \<longleftrightarrow> (\<exists>s i r. holds e n = Some (s, i) \<and> map_of i k = Some r \<and> rec_consumer r = c)"

lemma held_by_ids:
  assumes "engine_inv e" "get_queue n e = Some q"
  shows "k \<in> rec_message_id ` set (consumer_records c q) \<longleftrightarrow> held_by e c n k"
proof -
  have "dict_ok (inflight q)" "\<And>k r. map_of (inflight q) k = Some r \<Longrightarrow> rec_message_id r = k"
    using einv_queue [OF assms] by (auto simp: queue_ok_def)
  note iff = ids_of_iff [OF this, of k c]
  have "rec_message_id ` set (consumer_records c q) = set (ids_of c (inflight q))"
    by (simp add: consumer_records_def ids_of_def)
  then show ?thesis using iff assms(2) by (simp add: held_by_def holds_def)
qed

lemma distinct_records:
  assumes "engine_inv e" "get_queue n e = Some q"
  shows "distinct (map rec_message_id (consumer_records c q))"
proof -
  have d: "dict_ok (inflight q)" and id: "\<And>k r. map_of (inflight q) k = Some r \<Longrightarrow> rec_message_id r = k"
    using einv_queue [OF assms] by (auto simp: queue_ok_def)
  have eq: "map rec_message_id (map snd (inflight q)) = map fst (inflight q)"
    using in_set_map_of [OF d] id by auto
  have "distinct (map rec_message_id (map snd (inflight q)))" unfolding eq using d by (simp add: dict_ok_def)
  then show ?thesis unfolding consumer_records_def by (rule distinct_map_filter)
qed

lemma recover_queues_states:
  assumes "engine_inv e" "dlqs_declared e" "distinct ns" "length (queues e) = len"
    and "\<forall>n q. get_queue n e = Some q \<and> dead_letter (spec q) \<longrightarrow> \<not> is_dlq n"
  shows "same_settings e (snd (recover_queues len ns c persist cnt e)) \<and>
    (\<forall>k n'. (\<forall>n \<in> set ns. \<not> held_by e c n k) \<longrightarrow>
       message_state (snd (recover_queues len ns c persist cnt e)) n' k = message_state e n' k) \<and>
    (\<forall>n k q m. n \<in> set ns \<longrightarrow> held_by e c n k \<longrightarrow> (\<forall>n' \<in> set ns. held_by e c n' k \<longrightarrow> n' = n) \<longrightarrow>
       get_queue n e = Some q \<longrightarrow> map_of (messages q) k = Some m \<longrightarrow>
       failed_to e (dead_letter (spec q)) n k m (snd (recover_queues len ns c persist cnt e)))"
  using assms
proof (induction ns arbitrary: cnt e)
  case Nil
  then show ?case by (simp add: recover_queues.simps)
next
  case (Cons n ns)
  show ?case
  proof (cases "get_queue n e")
    case None
    then have skip: "\<not> held_by e c n k" for k by (simp add: held_by_def holds_def)
    have ns: "distinct ns" using Cons.prems(3) by simp
    have unf: "recover_queues len (n # ns) c persist cnt e = recover_queues len ns c persist cnt e"
      using None Cons.prems(4) by (simp add: recover_queues.simps [of len "n # ns"])
    show ?thesis unfolding unf
      using Cons.IH [OF Cons.prems(1,2) ns Cons.prems(4,5), where cnt = cnt] skip None
      by (metis list.set_intros(2) option.distinct(1) set_ConsD)
  next
    case (Some q)
    let ?recs = "consumer_records c q"
    obtain cnt1 e1 where r: "recover_records n ?recs persist e = (cnt1, e1)" by fastforce
    then have e1: "e1 = fold (recover_record n persist) ?recs e" using recover_records_fold [of n ?recs persist e] by simp
    have frame: "holds e1 n' = (if n' = n then map_option (\<lambda>x. (fst x, fold ddel (map rec_message_id ?recs) (snd x))) (holds e n) else holds e n')"
      "queue_names e1 = queue_names e" "dlqs_declared e1" for n'
      using recover_records_frame [OF Cons.prems(2), of n ?recs persist] by (simp_all add: r)
    have inv1: "engine_inv e1" using einv_recover_records [OF Cons.prems(1), of n ?recs persist] by (simp add: r)
    have len1: "length (queues e1) = len"
      using arg_cong [OF frame(2), of length] Cons.prems(4) by (simp add: queue_names_def)
    have plain1: "\<forall>n' q'. get_queue n' e1 = Some q' \<and> dead_letter (spec q') \<longrightarrow> \<not> is_dlq n'"
    proof (intro allI impI, elim conjE)
      fix n' q' assume q': "get_queue n' e1 = Some q'" "dead_letter (spec q')"
      then obtain q0 where "get_queue n' e = Some q0" "spec q0 = spec q'"
        using frame(1) [of n'] by (cases "get_queue n' e") (auto simp: holds_def split: if_splits)
      then show "\<not> is_dlq n'" using Cons.prems(5) q'(2) by simp
    qed
    have plain: "\<forall>q'. get_queue n e = Some q' \<and> dead_letter (spec q') \<longrightarrow> \<not> is_dlq n" using Cons.prems(5) by blast
    have keyed: "ids_keyed e n (rec_message_id ` set ?recs)"
      using msg_id_of [OF Cons.prems(1)] by (auto simp: ids_keyed_def message_state_def)
    have st: "same_settings e e1"
      "\<And>k n'. \<not> held_by e c n k \<Longrightarrow> message_state e1 n' k = message_state e n' k"
      "\<And>k m. held_by e c n k \<Longrightarrow> map_of (messages q) k = Some m \<Longrightarrow> failed_to e (dead_letter (spec q)) n k m e1"
      using recover_records_states [OF Cons.prems(2) distinct_records [OF Cons.prems(1) Some] keyed plain, of persist]
      unfolding held_by_ids [OF Cons.prems(1) Some] e1 [symmetric] using Some by blast+
    have held: "held_by e1 c n' k = held_by e c n' k" if "n' \<in> set ns" for n' k
      using frame(1) [of n'] that Cons.prems(3) by (auto simp: held_by_def)
    note ih = Cons.IH [OF inv1 frame(3) _ len1 plain1, where cnt = "cnt + cnt1"]
    let ?e' = "snd (recover_queues len ns c persist (cnt + cnt1) e1)"
    have ns: "distinct ns" "n \<notin> set ns" using Cons.prems(3) by simp_all
    have unf: "recover_queues len (n # ns) c persist cnt e = recover_queues len ns c persist (cnt + cnt1) e1"
      using Some r Cons.prems(4) by (simp add: recover_queues.simps [of len "n # ns"])
    have same: "same_settings e ?e'" by (rule same_settings_trans [OF st(1)]) (rule ih [OF ns(1), THEN conjunct1])
    have rest: "message_state ?e' n' k = message_state e n' k" if "\<forall>n'' \<in> set (n # ns). \<not> held_by e c n'' k" for n' k
    proof -
      have "\<forall>n'' \<in> set ns. \<not> held_by e1 c n'' k" using that held by simp
      then have "message_state ?e' n' k = message_state e1 n' k" using ih [OF ns(1), THEN conjunct2, THEN conjunct1] by blast
      then show ?thesis using st(2) [of k n'] that by simp
    qed
    have failed: "failed_to e (dead_letter (spec q0)) n0 k m ?e'"
      if k: "n0 \<in> set (n # ns)" "held_by e c n0 k" "\<forall>n' \<in> set (n # ns). held_by e c n' k \<longrightarrow> n' = n0"
        and q0: "get_queue n0 e = Some q0" "map_of (messages q0) k = Some m" for n0 k q0 m
    proof (cases "n0 = n")
      case True
      have "q0 = q" using q0(1) Some unfolding True by simp
      then have "failed_to e (dead_letter (spec q0)) n0 k m e1" using st(3) [of k m] k(2) q0(2) unfolding True by blast
      moreover have "\<forall>n' \<in> set ns. \<not> held_by e1 c n' k" using k(3) held True ns(2) by auto
      then have "message_state ?e' n' k = message_state e1 n' k" for n' using ih [OF ns(1), THEN conjunct2, THEN conjunct1] by blast
      ultimately show ?thesis by (rule failed_to_frame)
    next
      case False
      then have n0: "n0 \<in> set ns" using k(1) by simp
      have nh: "\<not> held_by e c n k" using bspec [OF k(3), of n] False by simp
      have "message_state e1 n0 k = message_state e n0 k" using nh by (rule st(2))
      then obtain q1 where q1: "get_queue n0 e1 = Some q1" "map_of (messages q1) k = Some m"
        using q0 by (auto simp: message_state_def)
      have "spec q1 = spec q0" using frame(1) [of n0] q1(1) q0(1) False by (simp add: holds_def)
      moreover have "failed_to e1 (dead_letter (spec q1)) n0 k m ?e'"
      proof (rule ih [OF ns(1), THEN conjunct2, THEN conjunct2, rule_format])
        show "n0 \<in> set ns" "held_by e1 c n0 k" "get_queue n0 e1 = Some q1" "map_of (messages q1) k = Some m"
          using n0 held [OF n0, of k] k(2) q1 by simp_all
        show "n' = n0" if "n' \<in> set ns" "held_by e1 c n' k" for n' using that held [OF that(1), of k] k(3) by simp
      qed
      ultimately show ?thesis using st(1) failed_to_later by metis
    qed
    show ?thesis unfolding unf using same rest failed by blast
  qed
qed

text \<open>C16. When a consumer disconnects, each of its deliveries fails once and nothing else changes: with the
  dead-letter queues declared and none of them with a dead-letter queue of its own (\<open>declare_queue\<close> makes none),
  and each message in flight for the consumer in one queue only,
  \<open>recover_consumer\<close> returns a count; a message it held that has attempts left stays in its queue with one
  more attempt, delayed for the retry delay of that attempt; one that has none leaves its queue, for the
  dead-letter queue if there is one; no record of the consumer is left; and whatever the consumer did not hold is
  stored, delayed and in flight as before.\<close>

theorem disconnect_fails_deliveries:
  assumes "engine_inv e" "dlqs_declared e" "\<forall>n q. get_queue n e = Some q \<and> dead_letter (spec q) \<longrightarrow> \<not> is_dlq n"
    and "\<forall>n n' k. held_by e c n k \<and> held_by e c n' k \<longrightarrow> n = n'" "e' = snd (recover_consumer c persist e)"
  shows "(\<exists>cnt. fst (recover_consumer c persist e) = Inr cnt) \<and> (\<forall>n k. \<not> held_by e' c n k) \<and>
    (\<forall>n k q m. held_by e c n k \<and> get_queue n e = Some q \<and> map_of (messages q) k = Some m \<longrightarrow>
       failed_to e (dead_letter (spec q)) n k m e') \<and>
    (\<forall>k. (\<forall>n. \<not> held_by e c n k) \<longrightarrow> (\<forall>n. message_state e' n k = message_state e n k))"
proof -
  have "distinct (map fst (queues e))"
    using einv_base [OF assms(1)] by (simp add: base_ok_def dict_ok_def)
  note st = recover_queues_states [OF assms(1,2) this refl assms(3), where c = c and persist = persist and cnt = 0, folded recover_consumer_def, folded assms(5)]
  note effect = recover_consumer_effect [OF assms(1,2), of c persist, unfolded Let_def, folded assms(5)]
  have names: "n \<in> set (map fst (queues e))" if "get_queue n e = Some q" for n q
    using map_of_SomeD [OF that] by force
  have gone: "\<not> held_by e' c n k" for n k
  proof
    assume "held_by e' c n k"
    then obtain q' r where q': "get_queue n e' = Some q'" "map_of (inflight q') k = Some r" "rec_consumer r = c"
      by (auto simp: held_by_def holds_def)
    obtain q :: dqueue where q: "\<forall>k. map_of (inflight q') k =
        (case map_of (inflight q) k of None \<Rightarrow> None | Some r \<Rightarrow> if rec_consumer r = c then None else Some r)"
      using effect [THEN conjunct2, THEN conjunct2, THEN conjunct2, rule_format, OF q'(1)] by blast
    then show False using q'(2,3) by (simp split: option.splits if_splits)
  qed
  have failed: "failed_to e (dead_letter (spec q)) n k m e'"
    if "held_by e c n k" "get_queue n e = Some q" "map_of (messages q) k = Some m" for n k q m
    using st names [OF that(2)] that assms(4) by blast
  show ?thesis using effect gone failed st by blast
qed

theorem disconnect_fails_deliveries_witness:
  "failed_to demo_inflight True ''jobs'' ''b'' (demo_message ''b'' 5) (snd (recover_consumer ''c1'' True demo_inflight))"
proof -
  have d: "dlqs_declared demo_inflight" by (rule dlqs_declaredI) code_simp
  have "list_all (\<lambda>(n, q). dead_letter (spec q) \<longrightarrow> \<not> is_dlq n) (queues demo_inflight)" by code_simp
  then have plain: "\<forall>n q. get_queue n demo_inflight = Some q \<and> dead_letter (spec q) \<longrightarrow> \<not> is_dlq n"
    unfolding list_all_iff by (auto dest: map_of_SomeD)
  have l: "list_all (\<lambda>(n, q). n = ''jobs'' \<or> inflight q = []) (queues demo_inflight)" by code_simp
  have jobs: "n = ''jobs''" if held: "held_by demo_inflight ''c1'' n k" for n k
  proof -
    obtain q r where q: "get_queue n demo_inflight = Some q" "map_of (inflight q) k = Some r"
      using held by (auto simp: held_by_def holds_def)
    then show ?thesis using l map_of_SomeD [OF q(1)] unfolding list_all_iff by auto
  qed
  have one: "\<forall>n n' k. held_by demo_inflight ''c1'' n k \<and> held_by demo_inflight ''c1'' n' k \<longrightarrow> n = n'"
    using jobs by metis
  have "dead_letter (spec (demo_jobs demo_inflight)) \<and> map_of (messages (demo_jobs demo_inflight)) ''b'' = Some (demo_message ''b'' 5) \<and>
      map_option rec_consumer (map_of (inflight (demo_jobs demo_inflight)) ''b'') = Some ''c1''" by code_simp
  then have q: "dead_letter (spec (demo_jobs demo_inflight))" "map_of (messages (demo_jobs demo_inflight)) ''b'' = Some (demo_message ''b'' 5)"
    "held_by demo_inflight ''c1'' ''jobs'' ''b''"
    using demo_queue(2) by (auto simp: held_by_def holds_def)
  show ?thesis
    using disconnect_fails_deliveries [OF demo_inv(4) d plain one refl, of True, THEN conjunct2, THEN conjunct2, THEN conjunct1,
        rule_format, of "''jobs''" "''b''" "demo_jobs demo_inflight" "demo_message ''b'' 5"] q demo_queue(2) by simp
qed

text \<open>A sweep that has to declare the dead-letter queue of a message raises: here the dead-letter queue has been
  deleted and the message is on its last attempt.\<close>

lemma missing_dlq_raises:
  "fst (recover_consumer ''c1'' True (snd (delete_queue ''jobs.DLQ'' True (snd (reserve ''jobs'' ''c1''
     (snd (enqueue ((demo_message ''b'' 0)\<lparr>max_attempts := 1\<rparr>) True demo_declared))))))) =
   Inl (RuntimeError ''dictionary changed size during iteration'')"
  by code_simp

section \<open>Delayed messages\<close>

definition keyed :: "engine \<Rightarrow> bool" where
  "keyed e \<longleftrightarrow> (\<forall>n q k m. get_queue n e = Some q \<longrightarrow> map_of (messages q) k = Some m \<longrightarrow> msg_id m = k)"

lemma keyed_engine_inv: "engine_inv e \<Longrightarrow> keyed e"
  unfolding keyed_def using msg_id_of by blast

text \<open>What a release does to a queue: the ids that are due stop being delayed, nothing is lost and
  those that can be delivered are ready.\<close>

definition released :: "string set \<Rightarrow> dqueue \<Rightarrow> dqueue \<Rightarrow> bool" where
  "released D q q' \<longleftrightarrow>
     delayed_ids q' = delayed_ids q - D \<and> inflight q' = inflight q \<and>
     dkeys (messages q') = dkeys (messages q) \<and> ready_ids q \<subseteq> ready_ids q' \<and>
     (\<forall>k \<in> D \<inter> delayed_ids q. k \<in> dkeys (messages q) \<longrightarrow> k \<notin> dkeys (inflight q) \<longrightarrow> k \<in> ready_ids q')"

lemma released_refl: "D \<inter> delayed_ids q = {} \<Longrightarrow> released D q q"
  by (auto simp: released_def)

lemma releasedD:
  assumes "released D q q'" "k \<in> D" "k \<in> delayed_ids q" "k \<in> dkeys (messages q)" "k \<notin> dkeys (inflight q)"
  shows "k \<in> ready_ids q'"
proof -
  have "\<forall>k \<in> D \<inter> delayed_ids q. k \<in> dkeys (messages q) \<longrightarrow> k \<notin> dkeys (inflight q) \<longrightarrow> k \<in> ready_ids q'"
    using assms(1) unfolding released_def by (elim conjE)
  from bspec [OF this, of k] show ?thesis using assms(2-) by (simp only: Int_iff simp_thms)
qed

lemma released_trans:
  assumes "released D q q1" "released D' q1 q2"
  shows "released (D \<union> D') q q2"
proof -
  have "delayed_ids q2 = delayed_ids q - (D \<union> D')" "inflight q2 = inflight q"
    "dkeys (messages q2) = dkeys (messages q)"
    using assms by (simp_all add: released_def) blast
  moreover have "ready_ids q \<subseteq> ready_ids q2"
    using assms unfolding released_def by (meson subset_trans)
  moreover have "k \<in> ready_ids q2"
    if k: "k \<in> (D \<union> D') \<inter> delayed_ids q" "k \<in> dkeys (messages q)" "k \<notin> dkeys (inflight q)" for k
  proof -
    have q1: "k \<in> dkeys (messages q1)" "k \<notin> dkeys (inflight q1)" "ready_ids q1 \<subseteq> ready_ids q2"
      using k assms by (simp_all add: released_def)
    show "k \<in> ready_ids q2"
    proof (cases "k \<in> D")
      case True
      then have "k \<in> ready_ids q1" using k by (intro releasedD [OF assms(1)]) simp_all
      then show ?thesis using q1(3) by blast
    next
      case False
      then have "k \<in> D'" "k \<in> delayed_ids q1" using k assms(1) by (simp_all add: released_def)
      then show ?thesis using q1 by (intro releasedD [OF assms(2)])
    qed
  qed
  ultimately show ?thesis unfolding released_def by blast
qed

lemma release_each_step:
  assumes "keyed e"
  obtains e1 c where "release_each ((n, k) # due) e = (c + fst (release_each due e1), snd (release_each due e1))"
    "keyed e1" "\<And>n'. n' \<noteq> n \<Longrightarrow> get_queue n' e1 = get_queue n' e"
    "get_queue n e = None \<Longrightarrow> get_queue n e1 = None"
    "\<And>q. get_queue n e = Some q \<Longrightarrow> \<exists>q'. get_queue n e1 = Some q' \<and> released {k} q q'"
proof (cases "get_queue n e")
  case None
  then show ?thesis using assms that [of 0 e] by simp
next
  case (Some q)
  show ?thesis
  proof (cases "k \<in> delayed_ids q")
    case False
    then show ?thesis using Some assms that [of 0 e] released_refl [of "{k}" q] by simp
  next
    case True
    let ?q1 = "q\<lparr>delayed_ids := delayed_ids q - {k}\<rparr>"
    let ?e1 = "upd_queue n (\<lambda>q. q\<lparr>delayed_ids := delayed_ids q - {k}\<rparr>) e"
    have q1: "get_queue n ?e1 = Some ?q1" using Some by simp
    have k1: "keyed ?e1" using assms by (auto simp: keyed_def split: if_splits)
    show ?thesis
    proof (cases "map_of (messages q) k = None \<or> k \<in> dkeys (inflight q)")
      case skip: True
      have "k \<notin> dkeys (messages q) \<or> k \<in> dkeys (inflight q)"
        using skip unfolding map_of_eq_None_iff .
      then have "released {k} q ?q1" by (auto simp: released_def simp del: image_iff)
      moreover have "release_each ((n, k) # due) e = release_each due ?e1"
        using skip Some True by (cases "map_of (messages q) k") (simp_all add: Let_def)
      ultimately show ?thesis using that [of 0 ?e1] q1 k1 Some by simp
    next
      case False
      then obtain m where m: "map_of (messages q) k = Some m" "k \<notin> dkeys (inflight q)" by (cases "map_of (messages q) k") simp_all
      let ?m = "m\<lparr>available_at := None\<rparr>"
      let ?e2 = "push_ready n ?m (set_message n ?m ?e1)"
      have id: "msg_id m = k" using assms Some m(1) unfolding keyed_def by blast
      have "release_each ((n, k) # due) e = (1 + fst (release_each due ?e2), snd (release_each due ?e2))"
        using m Some True by (simp add: Let_def case_prod_beta)
      moreover have "keyed ?e2"
        using k1 id by (auto simp: keyed_def push_ready_def next_seq_def split: if_splits)
      moreover have "k \<in> dkeys (messages q)" using m(1) by (auto simp: dkeys_iff)
      then have "\<exists>q'. get_queue n ?e2 = Some q' \<and> released {k} q q'"
        using Some id m(2) by (auto simp: push_ready_def next_seq_def released_def insert_absorb simp del: image_iff)
      ultimately show ?thesis using that [of 1 ?e2] Some by (simp add: push_ready_def next_seq_def)
    qed
  qed
qed

lemma release_each_queues:
  assumes "keyed e" "get_queue n e = Some q"
  shows "\<exists>q'. get_queue n (snd (release_each due e)) = Some q' \<and> released {k. (n, k) \<in> set due} q q'"
  using assms
proof (induction due arbitrary: e q)
  case Nil
  then show ?case by (simp add: released_refl)
next
  case (Cons d due)
  obtain n' k where d: "d = (n', k)" by fastforce
  obtain e1 c where e1: "release_each (d # due) e = (c + fst (release_each due e1), snd (release_each due e1))"
    "keyed e1" "\<And>n''. n'' \<noteq> n' \<Longrightarrow> get_queue n'' e1 = get_queue n'' e"
    "\<And>q. get_queue n' e = Some q \<Longrightarrow> \<exists>q'. get_queue n' e1 = Some q' \<and> released {k} q q'"
    unfolding d using release_each_step [OF Cons.prems(1), of n' k due] by metis
  have "\<exists>q1. get_queue n e1 = Some q1 \<and> released (if n' = n then {k} else {}) q q1"
    using e1(3) [of n] e1(4) Cons.prems(2) released_refl [of "{}" q] by (cases "n' = n") auto
  then obtain q1 where q1: "get_queue n e1 = Some q1" "released (if n' = n then {k} else {}) q q1" by blast
  obtain q2 where q2: "get_queue n (snd (release_each due e1)) = Some q2" "released {k. (n, k) \<in> set due} q1 q2"
    using Cons.IH [OF e1(2) q1(1)] by blast
  have "{k. (n, k) \<in> set (d # due)} = (if n' = n then {k} else {}) \<union> {k. (n, k) \<in> set due}"
    using d by auto
  then show ?case using e1(1) q2 released_trans [OF q1(2) q2(2)] by simp
qed

text \<open>The tick releases exactly the delayed messages that are due: \<open>release_delayed\<close> at time
  \<open>t\<close> ends the delay of those ids of a queue that have an entry on the delayed heap with a time up
  to \<open>t\<close> and of no others; each of them that is stored and not in flight is ready and can be
  delivered afterwards; no message is lost and no in-flight record changes.\<close>

theorem release_exactly_due:
  assumes "reachable_engine e" "get_queue n e = Some q"
  shows "\<exists>q'. get_queue n (snd (release_delayed t e)) = Some q' \<and>
    delayed_ids q' = {k \<in> delayed_ids q. \<forall>w s. (w, s, n, k) \<in> set (delayed e) \<longrightarrow> t < w} \<and>
    (\<forall>k w s. k \<in> delayed_ids q \<and> (w, s, n, k) \<in> set (delayed e) \<and> w \<le> t \<and>
       k \<in> dkeys (messages q) \<and> k \<notin> dkeys (inflight q) \<longrightarrow> k \<in> ready_ids q' \<and> live q' k) \<and>
    dkeys (messages q') = dkeys (messages q) \<and> inflight q' = inflight q"
proof -
  have inv: "engine_inv e" using assms(1) by (rule engine.reach_safe)
  obtain due h where p: "pop_due t (\<lambda>_. True) (delayed e) = (due, h)" by fastforce
  have hp: "is_heap (delayed e)" using einv_base [OF inv] by (simp add: base_ok_def)
  let ?D = "{k. (n, k) \<in> set due}"
  have D: "?D = {k. \<exists>w s. (w, s, n, k) \<in> set (delayed e) \<and> w \<le> t}"
    unfolding pop_due_due [OF p hp] by force
  have "keyed (e\<lparr>delayed := h\<rparr>)" using keyed_engine_inv [OF inv] by (simp add: keyed_def)
  from release_each_queues [OF this, of n q due] assms(2) p
  obtain q' where q': "get_queue n (snd (release_delayed t e)) = Some q'" "released ?D q q'"
    by (auto simp: release_delayed_def)
  have "delayed_ids q' = delayed_ids q - ?D" using q'(2) unfolding released_def by (elim conjE)
  also have "\<dots> = {k \<in> delayed_ids q. \<forall>w s. (w, s, n, k) \<in> set (delayed e) \<longrightarrow> t < w}"
    unfolding D using not_le by blast
  finally have "delayed_ids q' = {k \<in> delayed_ids q. \<forall>w s. (w, s, n, k) \<in> set (delayed e) \<longrightarrow> t < w}" .
  moreover have "k \<in> ready_ids q' \<and> live q' k"
    if k: "k \<in> delayed_ids q \<and> (w, s, n, k) \<in> set (delayed e) \<and> w \<le> t \<and>
       k \<in> dkeys (messages q) \<and> k \<notin> dkeys (inflight q)" for k w s
  proof -
    have kD: "k \<in> ?D" using k unfolding D by blast
    then have "k \<in> ready_ids q'" using k by (intro releasedD [OF q'(2)]) simp_all
    moreover have "live q' k"
      using k kD q'(2) by (simp only: released_def live_def) blast
    ultimately show ?thesis ..
  qed
  moreover have "dkeys (messages q') = dkeys (messages q)" "inflight q' = inflight q"
    using q'(2) by (simp_all add: released_def)
  ultimately show ?thesis using q'(1) by blast
qed

definition demo_delayed :: engine where
  "demo_delayed = snd (enqueue ((demo_message ''d'' 0)\<lparr>available_at := Some 100\<rparr>) True demo_declared)"

theorem release_exactly_due_witness:
  "\<exists>q'. get_queue ''jobs'' (snd (release_delayed 100 demo_delayed)) = Some q' \<and> live q' ''d''"
proof -
  have "reachable_engine demo_delayed" unfolding demo_delayed_def
    using demo_reachable(2) by (rule reach.after) (rule enqueue_step)
  have facts: "(100, 1, ''jobs'', ''d'') \<in> set (delayed demo_delayed) \<and>
      (case get_queue ''jobs'' demo_delayed of None \<Rightarrow> False
       | Some q \<Rightarrow> ''d'' \<in> delayed_ids q \<and> ''d'' \<in> dkeys (messages q) \<and> ''d'' \<notin> dkeys (inflight q))"
    by code_simp
  then obtain q where q: "get_queue ''jobs'' demo_delayed = Some q" "''d'' \<in> delayed_ids q"
    "''d'' \<in> dkeys (messages q)" "''d'' \<notin> dkeys (inflight q)"
    by (auto simp del: image_iff split: option.splits)
  show ?thesis
    using release_exactly_due [OF \<open>reachable_engine demo_delayed\<close> q(1), of 100]
  proof (elim exE conjE)
    fix q' assume q': "get_queue ''jobs'' (snd (release_delayed 100 demo_delayed)) = Some q'"
      and r: "\<forall>k w s. k \<in> delayed_ids q \<and> (w, s, ''jobs'', k) \<in> set (delayed demo_delayed) \<and> w \<le> 100 \<and>
       k \<in> dkeys (messages q) \<and> k \<notin> dkeys (inflight q) \<longrightarrow> k \<in> ready_ids q' \<and> live q' k"
    have "''d'' \<in> ready_ids q' \<and> live q' ''d''"
      by (rule r [rule_format, of _ 100 1]) (use q(2-) conjunct1 [OF facts] in simp)
    then show ?thesis using q' by blast
  qed
qed

section \<open>Visibility timeouts\<close>

lemma move_to_dlq_holds: "holds e n' \<noteq> None \<Longrightarrow> holds (move_to_dlq n m persist e) n' = holds e n'"
proof -
  assume h: "holds e n' \<noteq> None"
  have "holds (declare_queue d dur ml vt ma dl p e') n' = holds e' n'" if "holds e' = holds e"
    for d dur ml vt ma dl p e'
  proof -
    have "holds e' n' \<noteq> None" using h that by simp
    then obtain q where "get_queue n' e' = Some q" by (auto simp: holds_def)
    from declare_queue_keeps [OF this, of d dur ml vt ma dl p] this show ?thesis by (simp add: holds_def)
  qed
  then show ?thesis by (simp add: move_to_dlq_def Let_def)
qed

lemma retry_or_dead_holds:
  assumes "holds e n' \<noteq> None"
  shows "holds (retry_or_dead n m persist e) n' = holds e n'"
proof -
  have "holds (move_to_dlq n m' persist (set_message n m' e)) n' = holds e n'" for m'
    using move_to_dlq_holds [of "set_message n m' e" n'] assms by simp
  then show ?thesis by (simp add: retry_or_dead_def Let_def read_clock_def)
qed

text \<open>The records a timeout sweep up to \<open>t\<close> may take away are those with a deadline up to \<open>t\<close>.\<close>

definition times_out ::
  "time \<Rightarrow> (string \<times> inflight_record) list \<Rightarrow> (string \<times> inflight_record) list \<Rightarrow> bool" where
  "times_out t i i' \<longleftrightarrow>
     (\<forall>k r. map_of i' k = Some r \<longrightarrow> map_of i k = Some r) \<and>
     (\<forall>k r. map_of i k = Some r \<longrightarrow> t < visibility_deadline r \<longrightarrow> map_of i' k = Some r)"

lemma times_outD:
  "times_out t i i' \<Longrightarrow> map_of i' k = Some r \<Longrightarrow> map_of i k = Some r"
  "times_out t i i' \<Longrightarrow> map_of i k = Some r \<Longrightarrow> t < visibility_deadline r \<Longrightarrow> map_of i' k = Some r"
  unfolding times_out_def by blast+

lemma times_out_refl [simp]: "times_out t i i"
  by (simp add: times_out_def)

lemma times_out_trans: "times_out t i i' \<Longrightarrow> times_out t i' i'' \<Longrightarrow> times_out t i i''"
  unfolding times_out_def by blast

lemma times_out_ddel:
  "map_of i k = Some r \<Longrightarrow> visibility_deadline r \<le> t \<Longrightarrow> times_out t i (ddel k i)"
  by (auto simp: times_out_def)

lemma times_out_del_inflight:
  assumes "get_queue n e = Some q" "map_of (inflight q) k = Some r" "visibility_deadline r \<le> t"
    "holds e n' = Some (s, i)"
  shows "\<exists>i'. holds (del_inflight n k e) n' = Some (s, i') \<and> times_out t i i'"
proof (cases "n' = n")
  case True
  then have "i = inflight q" using assms(1,4) by (simp add: holds_def)
  then show ?thesis using True assms(4) times_out_ddel [OF assms(2,3)] by (simp add: holds_del_inflight)
next
  case False
  then show ?thesis using assms(4) by (simp add: holds_del_inflight)
qed

lemma timeout_holds:
  "holds e n = Some (s, i) \<Longrightarrow>
   \<exists>i'. holds (snd (timeout_inflight t e)) n = Some (s, i') \<and> times_out t i i'"
proof (induction "length (visibility_heap e)" arbitrary: e i rule: less_induct)
  case less
  have IH: "\<exists>i''. holds (snd (timeout_inflight t e')) n = Some (s, i'') \<and> times_out t i i''"
    if "heappop (visibility_heap e) = Some (x, h)" "visibility_heap e' = h"
      "holds e' n = Some (s, i')" "times_out t i i'" for e' x h i'
    using less.hyps [of e' i'] length_heappop [of "visibility_heap e" x h] that times_out_trans by blast
  show ?case
  proof (cases rule: timeout_cases [of t e])
    case idle
    then show ?thesis using less.prems by simp
  next
    case (stale u s' n' k h)
    then show ?thesis using IH [OF stale(1), of "e\<lparr>visibility_heap := h\<rparr>" i] less.prems by simp
  next
    case (orphan u s' n' k h q r)
    let ?e1 = "e\<lparr>visibility_heap := h\<rparr>"
    obtain i1 where i1: "holds (del_inflight n' k ?e1) n = Some (s, i1)" "times_out t i i1"
      using times_out_del_inflight [where n = n' and e = ?e1 and q = q and k = k and r = r and t = t and n' = n and s = s and i = i] orphan less.prems by auto
    then show ?thesis
      using IH [OF orphan(1) _ i1] orphan(7) by (simp add: del_inflight_def)
  next
    case (fails u s' n' k h q r m)
    let ?e1 = "e\<lparr>visibility_heap := h\<rparr>"
    obtain i1 where i1: "holds (del_inflight n' k ?e1) n = Some (s, i1)" "times_out t i i1"
      using times_out_del_inflight [where n = n' and e = ?e1 and q = q and k = k and r = r and t = t and n' = n and s = s and i = i] fails less.prems by auto
    let ?e2 = "retry_or_dead n' m True (del_inflight n' k ?e1)"
    have "holds ?e2 n = Some (s, i1)"
      using retry_or_dead_holds [where e = "del_inflight n' k ?e1" and n' = n and n = n' and m = m and persist = True] i1(1) by simp
    moreover have "visibility_heap ?e2 = h" by (simp add: del_inflight_def)
    ultimately show ?thesis using IH [OF fails(1) _ _ i1(2)] fails(7) by (simp add: case_prod_beta)
  qed
qed

lemma timeout_heap:
  "is_heap (visibility_heap e) \<Longrightarrow>
   \<forall>x \<in> set (visibility_heap (snd (timeout_inflight t e))). t < fst x"
proof (induction "length (visibility_heap e)" arbitrary: e rule: less_induct)
  case less
  have IH: "\<forall>x \<in> set (visibility_heap (snd (timeout_inflight t e'))). t < fst x"
    if "heappop (visibility_heap e) = Some (x, h)" "visibility_heap e' = h" for e' x h
    using less.hyps [of e'] length_heappop [of "visibility_heap e" x h]
      is_heap_heappop [of "visibility_heap e" x h] less.prems that by simp
  show ?case
  proof (cases rule: timeout_cases [of t e])
    case idle
    then show ?thesis using less.prems by simp
  next
    case (stale u s' n' k h)
    then show ?thesis using IH [OF stale(1), of "e\<lparr>visibility_heap := h\<rparr>"] by simp
  next
    case (orphan u s' n' k h q r)
    then show ?thesis using IH [OF orphan(1), of "del_inflight n' k (e\<lparr>visibility_heap := h\<rparr>)"]
      by (simp add: del_inflight_def)
  next
    case (fails u s' n' k h q r m)
    then show ?thesis
      using IH [OF fails(1), of "retry_or_dead n' m True (del_inflight n' k (e\<lparr>visibility_heap := h\<rparr>))"]
      by (simp add: del_inflight_def case_prod_beta)
  qed
qed

text \<open>C10. A visibility timeout takes exactly the deliveries whose deadline has passed: after
  \<open>timeout_inflight\<close> at time \<open>t\<close> in a reachable engine every queue that was there holds precisely
  those in-flight records whose deadline is after \<open>t\<close>. Every other one has been given up, so its
  message was retried or moved to the dead-letter queue, and the engine is in order again.\<close>

theorem timeout_exactly_due:
  assumes "reachable_engine e" "get_queue n e = Some q"
  shows "engine_inv (snd (timeout_inflight t e)) \<and>
    (\<exists>q'. get_queue n (snd (timeout_inflight t e)) = Some q' \<and>
      (\<forall>k. map_of (inflight q') k =
         (case map_of (inflight q) k of
            None \<Rightarrow> None
          | Some r \<Rightarrow> if t < visibility_deadline r then Some r else None)))"
proof -
  let ?e' = "snd (timeout_inflight t e)"
  have inv: "engine_inv e" using assms(1) by (rule engine.reach_safe)
  then have inv': "engine_inv ?e'" by (rule einv_timeout_inflight)
  obtain i' where i': "holds ?e' n = Some (spec q, i')" "times_out t (inflight q) i'"
    using timeout_holds [of e n "spec q" "inflight q" t] assms(2) by (auto simp: holds_def)
  then obtain q' where q': "get_queue n ?e' = Some q'" "inflight q' = i'" by (auto simp: holds_def)
  have "is_heap (visibility_heap e)" using einv_base [OF inv] by (simp add: base_ok_def)
  note later = timeout_heap [OF this, of t]
  have due: "t < visibility_deadline r" if rec: "map_of (inflight q') k = Some r" for k r
  proof -
    obtain s where "(visibility_deadline r, s, n, k) \<in> set (visibility_heap ?e')"
      using einv_parts(3) [OF inv' q'(1)] rec unfolding visible_ok_def by blast
    then show ?thesis using later by force
  qed
  have "map_of (inflight q') k = (case map_of (inflight q) k of None \<Rightarrow> None
          | Some r \<Rightarrow> if t < visibility_deadline r then Some r else None)" for k
  proof (cases "map_of (inflight q') k")
    case None
    have "\<not> t < visibility_deadline r" if "map_of (inflight q) k = Some r" for r
    proof
      assume "t < visibility_deadline r"
      with times_outD(2) [OF i'(2) that] show False using None q'(2) by simp
    qed
    then show ?thesis using None by (cases "map_of (inflight q) k") simp_all
  next
    case (Some r)
    then have "map_of (inflight q) k = Some r" using times_outD(1) [OF i'(2)] q'(2) by simp
    then show ?thesis using Some due [OF Some] by simp
  qed
  then show ?thesis using inv' q'(1) by blast
qed

theorem timeout_exactly_due_witness:
  "\<exists>q'. get_queue ''jobs'' (snd (timeout_inflight 32 demo_inflight)) = Some q' \<and>
     map_of (inflight q') ''b'' = None"
proof -
  have d: "map_option visibility_deadline (map_of (inflight (demo_jobs demo_inflight)) ''b'') = Some 32"
    by code_simp
  then obtain r where "map_of (inflight (demo_jobs demo_inflight)) ''b'' = Some r" "visibility_deadline r = 32"
    by blast
  then show ?thesis
    using timeout_exactly_due [OF demo_reachable(4) demo_queue(2), of 32] by force
qed

end
