(* ===== verification/Consumers.thy ===== *)
theory Consumers
  imports Timing
begin

text \<open>
  \<open>core/qos.py\<close> and \<open>core/consumers.py\<close>: prefetch accounting and the registry of connected
  consumers with its fair delivery. The manager works on the queue engine it shares with the rest
  of the broker, so an operation takes and returns both.

  \<open>_by_connection\<close> holds Python sets; the order in which \<open>disconnect_connection\<close> iterates over one is
  the parameter \<open>order\<close> of its model. The manager has a clock of its own.
\<close>

section \<open>Quality of service\<close>

record qos =
  prefetch_count :: int
  unacked_count :: int

definition can_deliver :: "qos \<Rightarrow> bool" where
  "can_deliver q = (if prefetch_count q \<le> 0 then True else unacked_count q < prefetch_count q)"

definition qos_on_deliver :: "qos \<Rightarrow> bool \<times> qos" where
  "qos_on_deliver q =
     (if \<not> can_deliver q then (False, q) else (True, q\<lparr>unacked_count := unacked_count q + 1\<rparr>))"

definition qos_on_ack :: "qos \<Rightarrow> qos" where
  "qos_on_ack q = (if 0 < unacked_count q then q\<lparr>unacked_count := unacked_count q - 1\<rparr> else q)"

definition set_prefetch :: "int \<Rightarrow> qos \<Rightarrow> qos" where
  "set_prefetch c q = q\<lparr>prefetch_count := max 0 c\<rparr>"

section \<open>Consumers and their manager\<close>

record consumer =
  con_id :: string
  con_connection :: string
  con_queues :: "string list"
  con_qos :: qos
  connected_at :: time
  last_activity :: time
  con_tag :: string
  cancelled :: bool

record manager =
  consumers :: "(string \<times> consumer) list"
  by_connection :: "(string \<times> string set) list"
  cm_clock :: "nat \<Rightarrow> time"
  cm_ix :: nat

definition new_manager :: "(nat \<Rightarrow> time) \<Rightarrow> manager" where
  "new_manager clk = \<lparr>consumers = [], by_connection = [], cm_clock = clk, cm_ix = 0\<rparr>"

definition cm_now :: "manager \<Rightarrow> time \<times> manager" where
  "cm_now cm = (cm_clock cm (cm_ix cm), cm\<lparr>cm_ix := Suc (cm_ix cm)\<rparr>)"

definition upd_consumer :: "string \<Rightarrow> (consumer \<Rightarrow> consumer) \<Rightarrow> manager \<Rightarrow> manager" where
  "upd_consumer c f cm =
     (case map_of (consumers cm) c of
        None \<Rightarrow> cm | Some con \<Rightarrow> cm\<lparr>consumers := dset c (f con) (consumers cm)\<rparr>)"

definition attach_consumer :: "string \<Rightarrow> string \<Rightarrow> engine \<Rightarrow> engine" where
  "attach_consumer c n e =
     upd_queue n (\<lambda>q. if c \<in> set (consumer_ids q) then q else q\<lparr>consumer_ids := consumer_ids q @ [c]\<rparr>)
       (declare_queue n True None None None True True e)"

definition register ::
  "string \<Rightarrow> string \<Rightarrow> string list \<Rightarrow> int \<Rightarrow> string \<Rightarrow> manager \<times> engine \<Rightarrow> consumer \<times> manager \<times> engine" where
  "register c conn qs prefetch tag s =
     (case s of (cm, e) \<Rightarrow> case cm_now cm of (now, cm1) \<Rightarrow>
        let con = \<lparr>con_id = c, con_connection = conn, con_queues = qs,
                   con_qos = \<lparr>prefetch_count = prefetch, unacked_count = 0\<rparr>,
                   connected_at = now, last_activity = now, con_tag = tag, cancelled = False\<rparr>;
            ids = (case map_of (by_connection cm1) conn of None \<Rightarrow> {} | Some S \<Rightarrow> S);
            cm2 = cm1\<lparr>consumers := dset c con (consumers cm1),
                      by_connection := dset conn (insert c ids) (by_connection cm1)\<rparr>
        in (con, cm2, fold (attach_consumer c) qs e))"

definition qos_command :: "string \<Rightarrow> int \<Rightarrow> manager \<Rightarrow> bool \<times> manager" where
  "qos_command c prefetch cm =
     (case map_of (consumers cm) c of
        None \<Rightarrow> (False, cm)
      | Some con \<Rightarrow>
          (case cm_now cm of (now, cm1) \<Rightarrow>
             (True, upd_consumer c (\<lambda>con. con\<lparr>con_qos := set_prefetch prefetch (con_qos con),
                                              last_activity := now\<rparr>) cm1)))"

definition detach_consumer :: "string \<Rightarrow> string \<Rightarrow> engine \<Rightarrow> engine" where
  "detach_consumer c n e = upd_queue n (\<lambda>q. q\<lparr>consumer_ids := remove1 c (consumer_ids q)\<rparr>) e"

definition drop_connection_id :: "string \<Rightarrow> string \<Rightarrow> manager \<Rightarrow> manager" where
  "drop_connection_id conn c cm =
     (case map_of (by_connection cm) conn of
        None \<Rightarrow> cm
      | Some S \<Rightarrow>
          if S - {c} = {} then cm\<lparr>by_connection := ddel conn (by_connection cm)\<rparr>
          else cm\<lparr>by_connection := dset conn (S - {c}) (by_connection cm)\<rparr>)"

definition cancel_consumer ::
  "string \<Rightarrow> bool \<Rightarrow> manager \<times> engine \<Rightarrow> (py_error + bool) \<times> manager \<times> engine" where
  "cancel_consumer c recover s =
     (case s of (cm, e) \<Rightarrow>
        case map_of (consumers cm) c of
          None \<Rightarrow> (Inr False, cm, e)
        | Some con \<Rightarrow>
            let cm1 = cm\<lparr>consumers := ddel c (consumers cm)\<rparr>;
                cm2 = drop_connection_id (con_connection con) c cm1;
                e1 = fold (detach_consumer c) (con_queues con) e
            in if \<not> recover then (Inr True, cm2, e1)
               else
                 (case recover_consumer c True e1 of
                    (Inl err, e2) \<Rightarrow> (Inl err, cm2, e2)
                  | (Inr n, e2) \<Rightarrow> (Inr True, cm2, e2)))"

fun cancel_each :: "string list \<Rightarrow> nat \<Rightarrow> manager \<times> engine \<Rightarrow> (py_error + nat) \<times> manager \<times> engine" where
  "cancel_each [] n s = (Inr n, s)"
| "cancel_each (c # cs) n s =
     (case cancel_consumer c True s of
        (Inl err, s') \<Rightarrow> (Inl err, s')
      | (Inr b, s') \<Rightarrow> cancel_each cs (if b then Suc n else n) s')"

definition disconnect_connection ::
  "(string set \<Rightarrow> string list) \<Rightarrow> string \<Rightarrow> manager \<times> engine \<Rightarrow> (py_error + nat) \<times> manager \<times> engine" where
  "disconnect_connection order conn s =
     cancel_each (case map_of (by_connection (fst s)) conn of None \<Rightarrow> [] | Some S \<Rightarrow> order S) 0 s"

definition get_consumer :: "string \<Rightarrow> manager \<Rightarrow> consumer option" where
  "get_consumer c cm = map_of (consumers cm) c"

definition list_consumers :: "manager \<Rightarrow> consumer list" where
  "list_consumers cm = map snd (consumers cm)"

definition consumer_on_ack :: "string \<Rightarrow> manager \<Rightarrow> manager" where
  "consumer_on_ack c cm =
     (case map_of (consumers cm) c of
        None \<Rightarrow> cm
      | Some con \<Rightarrow>
          (case cm_now cm of (now, cm1) \<Rightarrow>
             upd_consumer c (\<lambda>con. con\<lparr>con_qos := qos_on_ack (con_qos con), last_activity := now\<rparr>) cm1))"

section \<open>Fair delivery\<close>

definition may_receive :: "manager \<Rightarrow> string \<Rightarrow> bool" where
  "may_receive cm c =
     (case map_of (consumers cm) c of
        None \<Rightarrow> False | Some con \<Rightarrow> \<not> cancelled con \<and> can_deliver (con_qos con))"

definition deliver_to ::
  "string \<Rightarrow> string \<Rightarrow> manager \<times> engine \<Rightarrow> (consumer \<times> message) option \<times> manager \<times> engine" where
  "deliver_to qn c s =
     (case s of (cm, e) \<Rightarrow>
        case reserve qn c e of
          (None, e1) \<Rightarrow> (None, cm, e1)
        | (Some m, e1) \<Rightarrow>
            (case cm_now cm of (now, cm1) \<Rightarrow>
               let cm2 = upd_consumer c (\<lambda>con. con\<lparr>con_qos := snd (qos_on_deliver (con_qos con)),
                                                   last_activity := now\<rparr>) cm1
               in (Some (the (map_of (consumers cm2) c), m), cm2, e1)))"

definition turn :: "string \<Rightarrow> nat \<Rightarrow> engine \<Rightarrow> engine" where
  "turn qn i e = upd_queue qn (\<lambda>q. q\<lparr>rr_index := rr_index q + i\<rparr>) e"

text \<open>The loop of \<open>try_reserve\<close>: \<open>i\<close> iterations are left; \<open>cids\<close> is the list of consumers, which the
  loop does not change.\<close>

fun try_loop ::
  "nat \<Rightarrow> string list \<Rightarrow> string \<Rightarrow> manager \<times> engine \<Rightarrow> (consumer \<times> message) option \<times> manager \<times> engine" where
  "try_loop 0 cids qn s = (None, s)"
| "try_loop (Suc i) cids qn (cm, e) =
     (case get_queue qn e of
        None \<Rightarrow> (None, cm, e)
      | Some q \<Rightarrow>
          let c = cids ! (rr_index q mod length cids);
              e1 = turn qn 1 e
          in if \<not> may_receive cm c then try_loop i cids qn (cm, e1)
             else deliver_to qn c (cm, e1))"

definition try_reserve ::
  "string \<Rightarrow> manager \<times> engine \<Rightarrow> (consumer \<times> message) option \<times> manager \<times> engine" where
  "try_reserve qn s =
     (case get_queue qn (snd s) of
        None \<Rightarrow> (None, s)
      | Some q \<Rightarrow>
          if consumer_ids q = [] then (None, s)
          else try_loop (length (consumer_ids q)) (consumer_ids q) qn s)"

text \<open>A delivery takes at least one entry off the ready heap of its queue, so the loop of
  \<open>drain_queue\<close> ends.\<close>

definition ready_left :: "string \<Rightarrow> engine \<Rightarrow> nat" where
  "ready_left qn e = (case get_queue qn e of None \<Rightarrow> 0 | Some q \<Rightarrow> length (ready q))"

lemma reserve_pop_shrinks: "reserve_pop q = (Some x, q') \<Longrightarrow> length (ready q') < length (ready q)"
proof (induction "length (ready q)" arbitrary: q rule: less_induct)
  case less
  show ?case
  proof (cases rule: reserve_pop_cases [of q])
    case empty
    then show ?thesis using less.prems by simp
  next
    case (dead_entry p s k h)
    have "length (ready (q\<lparr>ready := h\<rparr>)) < length (ready q)" using length_heappop [OF dead_entry(1)] by simp
    then show ?thesis using less.hyps [of "q\<lparr>ready := h\<rparr>"] less.prems dead_entry(3) by simp
  next
    case (found p s k h m)
    then show ?thesis using less.prems length_heappop [OF found(1)] by auto
  qed
qed

lemma reserve_shrinks:
  assumes "reserve qn c e = (Some m, e')"
  shows "ready_left qn e' < ready_left qn e"
proof -
  obtain q where q: "get_queue qn e = Some q" using assms by (auto simp: reserve_def split: option.splits)
  obtain km q' where pop: "reserve_pop q = (Some km, q')"
    using assms q by (auto simp: reserve_def Let_def split: prod.splits option.splits)
  have "\<exists>q2. get_queue qn e' = Some q2 \<and> ready q2 = ready q'"
    using assms q pop
    by (auto simp: reserve_def Let_def read_clock_def next_seq_def upd_stats_def split: prod.splits)
  then show ?thesis using q reserve_pop_shrinks [OF pop] by (auto simp: ready_left_def)
qed

lemma ready_left_turn [simp]: "ready_left qn (turn qn i e) = ready_left qn e"
  by (simp add: ready_left_def turn_def split: option.split)

lemma try_loop_shrinks:
  "try_loop i cids qn s = (Some x, s') \<Longrightarrow> ready_left qn (snd s') < ready_left qn (snd s)"
proof (induction i arbitrary: s)
  case (Suc i)
  obtain cm e where s: "s = (cm, e)" by fastforce
  show ?case
    using Suc.prems Suc.IH [of "(cm, turn qn 1 e)"] reserve_shrinks [where qn = qn and e = "turn qn 1 e"] s
    by (auto simp: Let_def deliver_to_def split: option.splits if_splits prod.splits)
qed simp

lemma try_reserve_shrinks:
  "try_reserve qn s = (Some x, s') \<Longrightarrow> ready_left qn (snd s') < ready_left qn (snd s)"
  by (auto simp: try_reserve_def split: option.splits if_splits dest: try_loop_shrinks)

function drain_queue :: "string \<Rightarrow> manager \<times> engine \<Rightarrow> (consumer \<times> message) list \<times> manager \<times> engine" where
  "drain_queue qn s =
     (case try_reserve qn s of
        (None, s') \<Rightarrow> ([], s')
      | (Some x, s') \<Rightarrow> (case drain_queue qn s' of (xs, s'') \<Rightarrow> (x # xs, s'')))"
  by pat_completeness auto
termination
  by (relation "measure (\<lambda>(qn, s). ready_left qn (snd s))") (auto dest: try_reserve_shrinks [OF sym])

declare drain_queue.simps [simp del]

section \<open>Loops that take until nothing is left\<close>

text \<open>The contract between a loop and the operation it repeats: \<open>take_one\<close> gives an item or says that
  there is none, each item costs some of \<open>weight\<close>, and \<open>run_all\<close> repeats it.\<close>

locale take_loop =
  fixes take_one :: "'s \<Rightarrow> 'a option \<times> 's" and run_all :: "'s \<Rightarrow> 'a list \<times> 's" and weight :: "'s \<Rightarrow> nat"
  assumes run_all_unfold: "run_all s = (case take_one s of (None, s') \<Rightarrow> ([], s')
      | (Some x, s') \<Rightarrow> (case run_all s' of (xs, s'') \<Rightarrow> (x # xs, s'')))"
    and shrinks: "take_one s = (Some x, s') \<Longrightarrow> weight s' < weight s"
begin

lemma run_all_done: "take_one s = (None, s') \<Longrightarrow> run_all s = ([], s')"
  using run_all_unfold [of s] by simp

lemma run_all_step:
  "take_one s = (Some x, s') \<Longrightarrow> run_all s = (x # fst (run_all s'), snd (run_all s'))"
  using run_all_unfold [of s] by (simp add: case_prod_beta)

lemma run_all_induct [case_names nothing item]:
  assumes "\<And>s s'. take_one s = (None, s') \<Longrightarrow> P s"
    and "\<And>s x s'. take_one s = (Some x, s') \<Longrightarrow> P s' \<Longrightarrow> P s"
  shows "P s"
proof (induction "weight s" arbitrary: s rule: less_induct)
  case less
  obtain r s' where r: "take_one s = (r, s')" by fastforce
  show ?case
  proof (cases r)
    case None
    then show ?thesis using assms(1) r by simp
  next
    case (Some x)
    then show ?thesis using assms(2) less shrinks r by simp
  qed
qed

lemma run_all_exhausts: "\<exists>s'. take_one s' = (None, snd (run_all s))"
  by (induction s rule: run_all_induct) (auto simp: run_all_done run_all_step)

lemma run_all_length: "length (fst (run_all s)) \<le> weight s"
proof (induction s rule: run_all_induct)
  case (nothing s s')
  then show ?case by (simp add: run_all_done)
next
  case (item s x s')
  then show ?case using shrinks [OF item(1)] by (simp add: run_all_step)
qed

lemma run_all_invariant:
  assumes "\<And>s r s'. I s \<Longrightarrow> take_one s = (r, s') \<Longrightarrow> I s'" "I s"
  shows "I (snd (run_all s))"
  using assms(2)
proof (induction s rule: run_all_induct)
  case (nothing s s')
  then show ?case using assms(1) by (simp add: run_all_done)
next
  case (item s x s')
  then show ?case using assms(1) by (simp add: run_all_step)
qed

end

interpretation drain: take_loop "try_reserve qn" "drain_queue qn" "\<lambda>s. ready_left qn (snd s)"
  by unfold_locales (rule drain_queue.simps, rule try_reserve_shrinks)

section \<open>Round robin\<close>

lemma dset_same: "map_of d k = Some v \<Longrightarrow> dset k v d = d"
  by (induction d) auto

lemma dset_dset [simp]: "dset k v (dset k w d) = dset k v d"
  by (induction d) auto

lemma turn_0 [simp]: "turn qn 0 e = e"
  by (simp add: turn_def upd_queue_def dset_same split: option.split)

lemma turn_turn [simp]: "turn qn i (turn qn j e) = turn qn (j + i) e"
  by (simp add: turn_def upd_queue_def add.assoc split: option.split)

lemma find_upt_Suc: "find P [0..<Suc i] = (if P 0 then Some 0 else map_option Suc (find (\<lambda>j. P (Suc j)) [0..<i]))"
proof -
  have "find P (map Suc xs) = map_option Suc (find (\<lambda>j. P (Suc j)) xs)" for xs
    by (induction xs) auto
  then show ?thesis by (simp add: upt_conv_Cons map_Suc_upt [symmetric] del: upt_Suc)
qed

lemma try_loop_spec:
  assumes "get_queue qn e = Some q"
  shows "try_loop i cids qn (cm, e) =
    (case find (\<lambda>j. may_receive cm (cids ! ((rr_index q + j) mod length cids))) [0..<i] of
       None \<Rightarrow> (None, cm, turn qn i e)
     | Some j \<Rightarrow> deliver_to qn (cids ! ((rr_index q + j) mod length cids)) (cm, turn qn (Suc j) e))"
  using assms
proof (induction i arbitrary: e q)
  case (Suc i)
  let ?e1 = "turn qn 1 e"
  have q1: "get_queue qn ?e1 = Some (q\<lparr>rr_index := rr_index q + 1\<rparr>)"
    using Suc.prems by (simp add: turn_def)
  show ?case
    using Suc.prems Suc.IH [OF q1] by (simp add: find_upt_Suc Let_def del: upt_Suc split: option.split)
qed simp

text \<open>Delivery is fair: \<open>try_reserve\<close> equals its round-robin specification. It looks at the
  consumers of the queue in ring order from where the previous call stopped, hands the queue's
  first live message to the first one that is connected, not cancelled and below its prefetch
  limit, and moves the ring on past that consumer; when none of them can receive, it gives nothing
  and the ring has gone round once.\<close>

theorem try_reserve_round_robin:
  assumes "get_queue qn e = Some q" "cids = consumer_ids q" "cids \<noteq> []"
  shows "try_reserve qn (cm, e) =
    (case find (\<lambda>j. may_receive cm (cids ! ((rr_index q + j) mod length cids))) [0..<length cids] of
       None \<Rightarrow> (None, cm, turn qn (length cids) e)
     | Some j \<Rightarrow> deliver_to qn (cids ! ((rr_index q + j) mod length cids)) (cm, turn qn (Suc j) e))"
  using assms(1,3) unfolding assms(2) by (simp add: try_reserve_def try_loop_spec)

definition demo_manager :: manager where
  "demo_manager = new_manager real"

definition demo_consuming :: "manager \<times> engine" where
  "demo_consuming = snd (register ''c1'' ''k1'' [''jobs''] 1 '''' (demo_manager, demo_ready))"

lemma demo_consuming_queue:
  "get_queue ''jobs'' (snd demo_consuming) = Some (demo_jobs (snd demo_consuming))"
  "consumer_ids (demo_jobs (snd demo_consuming)) = [''c1'']"
proof -
  have "get_queue ''jobs'' (snd demo_consuming) \<noteq> None" by code_simp
  then show "get_queue ''jobs'' (snd demo_consuming) = Some (demo_jobs (snd demo_consuming))" by simp
  show "consumer_ids (demo_jobs (snd demo_consuming)) = [''c1'']" by code_simp
qed

theorem try_reserve_round_robin_witness:
  "try_reserve ''jobs'' demo_consuming = deliver_to ''jobs'' ''c1'' (fst demo_consuming, turn ''jobs'' 1 (snd demo_consuming))"
proof -
  have "may_receive (fst demo_consuming) ''c1''" by code_simp
  then show ?thesis
    using try_reserve_round_robin [OF demo_consuming_queue(1) refl, of "fst demo_consuming"]
      demo_consuming_queue(2) by simp
qed

section \<open>Prefetch\<close>

definition manager_ok :: "manager \<Rightarrow> bool" where
  "manager_ok cm \<longleftrightarrow>
     dict_ok (consumers cm) \<and> dict_ok (by_connection cm) \<and>
     (\<forall>conn S. map_of (by_connection cm) conn = Some S \<longrightarrow> finite S) \<and>
     (\<forall>c con. map_of (consumers cm) c = Some con \<longrightarrow>
        con_id con = c \<and> (\<exists>S. map_of (by_connection cm) (con_connection con) = Some S \<and> c \<in> S))"

lemma consumers_upd_consumer:
  "map_of (consumers (upd_consumer c f cm)) c' =
     (if c' = c then map_option f (map_of (consumers cm) c) else map_of (consumers cm) c')"
  "by_connection (upd_consumer c f cm) = by_connection cm"
  "dict_ok (consumers cm) \<Longrightarrow> dict_ok (consumers (upd_consumer c f cm))"
  by (auto simp: upd_consumer_def split: option.split)

lemma cm_now_frame [simp]:
  "consumers (snd (cm_now cm)) = consumers cm" "by_connection (snd (cm_now cm)) = by_connection cm"
  by (simp_all add: cm_now_def)

lemma manager_ok_cm_now [simp]: "manager_ok (snd (cm_now cm)) = manager_ok cm"
  by (simp add: manager_ok_def)

lemma manager_ok_upd_consumer:
  assumes "manager_ok cm" "\<And>con. con_id (f con) = con_id con \<and> con_connection (f con) = con_connection con"
  shows "manager_ok (upd_consumer c f cm)"
  unfolding manager_ok_def
proof (intro conjI allI impI)
  show "dict_ok (consumers (upd_consumer c f cm))" "dict_ok (by_connection (upd_consumer c f cm))"
    using assms(1) by (simp_all add: manager_ok_def consumers_upd_consumer)
  show "finite S" if "map_of (by_connection (upd_consumer c f cm)) conn = Some S" for conn S
    using assms(1) that unfolding manager_ok_def consumers_upd_consumer by blast
  fix c' con assume con: "map_of (consumers (upd_consumer c f cm)) c' = Some con"
  then obtain con0 where "map_of (consumers cm) c' = Some con0" "con_id con = con_id con0"
    "con_connection con = con_connection con0"
    using assms(2) by (auto simp: consumers_upd_consumer split: if_splits)
  then show "con_id con = c'" "\<exists>S. map_of (by_connection (upd_consumer c f cm)) (con_connection con) = Some S \<and> c' \<in> S"
    using assms(1) unfolding manager_ok_def consumers_upd_consumer by simp_all
qed

lemma deliver_to_someE:
  assumes "deliver_to qn c (cm, e) = (Some (con, m), cm', e')" "may_receive cm c"
  obtains con0 where "map_of (consumers cm) c = Some con0" "can_deliver (con_qos con0)" "\<not> cancelled con0"
    "reserve qn c e = (Some m, e')" "map_of (consumers cm') c = Some con"
    "con = con0\<lparr>con_qos := (con_qos con0)\<lparr>unacked_count := unacked_count (con_qos con0) + 1\<rparr>,
                last_activity := fst (cm_now cm)\<rparr>"
    "\<And>c'. c' \<noteq> c \<Longrightarrow> map_of (consumers cm') c' = map_of (consumers cm) c'"
proof -
  obtain con0 where c: "map_of (consumers cm) c = Some con0" "can_deliver (con_qos con0)" "\<not> cancelled con0"
    using assms(2) by (auto simp: may_receive_def split: option.splits)
  have "fst (reserve qn c e) = Some m"
    using assms(1) by (auto simp: deliver_to_def Let_def case_prod_beta split: option.splits)
  then obtain e1 where r: "reserve qn c e = (Some m, e1)" by (cases "reserve qn c e") simp
  show ?thesis
    by (rule that [OF c])
       (use assms(1) c r in \<open>auto simp: deliver_to_def Let_def case_prod_beta consumers_upd_consumer qos_on_deliver_def\<close>)
qed

lemma try_reserve_someE:
  assumes "try_reserve qn (cm, e) = (Some (con, m), cm', e')"
  obtains q c j where "get_queue qn e = Some q" "c \<in> set (consumer_ids q)" "may_receive cm c"
    "deliver_to qn c (cm, turn qn (Suc j) e) = (Some (con, m), cm', e')"
proof -
  obtain q where q: "get_queue qn e = Some q" "consumer_ids q \<noteq> []"
    using assms by (auto simp: try_reserve_def split: option.splits if_splits)
  let ?n = "length (consumer_ids q)"
  have spec: "try_reserve qn (cm, e) = try_loop ?n (consumer_ids q) qn (cm, e)"
    using q by (simp add: try_reserve_def)
  obtain j where j: "find (\<lambda>j. may_receive cm (consumer_ids q ! ((rr_index q + j) mod ?n))) [0..<?n] = Some j"
    "deliver_to qn (consumer_ids q ! ((rr_index q + j) mod ?n)) (cm, turn qn (Suc j) e) = (Some (con, m), cm', e')"
    using assms unfolding spec try_loop_spec [OF q(1)] by (auto split: option.splits)
  have "may_receive cm (consumer_ids q ! ((rr_index q + j) mod ?n))"
    using j(1) by (auto simp: find_Some_iff)
  moreover have "consumer_ids q ! ((rr_index q + j) mod ?n) \<in> set (consumer_ids q)"
    using q(2) by (intro nth_mem) simp
  ultimately show ?thesis using that q(1) j(2) by blast
qed

text \<open>C18. Prefetch is respected: a delivery goes to a consumer of the queue that is registered, not
  cancelled and below its limit; it counts as one more unacknowledged delivery of that consumer,
  which stays within a positive limit, no other consumer's count changes, and the message is in
  flight under the consumer's id.\<close>

theorem try_reserve_respects_prefetch:
  assumes "engine_inv e" "try_reserve qn (cm, e) = (Some (con, m), cm', e')" "manager_ok cm"
  shows "\<exists>q con0. get_queue qn e = Some q \<and> con_id con \<in> set (consumer_ids q) \<and>
    map_of (consumers cm) (con_id con) = Some con0 \<and> \<not> cancelled con0 \<and> can_deliver (con_qos con0) \<and>
    map_of (consumers cm') (con_id con) = Some con \<and>
    prefetch_count (con_qos con) = prefetch_count (con_qos con0) \<and>
    unacked_count (con_qos con) = unacked_count (con_qos con0) + 1 \<and>
    (0 < prefetch_count (con_qos con) \<longrightarrow> unacked_count (con_qos con) \<le> prefetch_count (con_qos con)) \<and>
    (\<forall>c. c \<noteq> con_id con \<longrightarrow> map_of (consumers cm') c = map_of (consumers cm) c) \<and>
    (\<exists>q' r. get_queue qn e' = Some q' \<and> map_of (inflight q') (msg_id m) = Some r \<and> rec_consumer r = con_id con)"
proof (rule try_reserve_someE [OF assms(2)])
  fix q c j
  assume q: "get_queue qn e = Some q" "c \<in> set (consumer_ids q)" "may_receive cm c"
    and d: "deliver_to qn c (cm, turn qn (Suc j) e) = (Some (con, m), cm', e')"
  show ?thesis
  proof (rule deliver_to_someE [OF d q(3)])
    fix con0
    assume c: "map_of (consumers cm) c = Some con0" "can_deliver (con_qos con0)" "\<not> cancelled con0"
      and r: "reserve qn c (turn qn (Suc j) e) = (Some m, e')"
      and c': "map_of (consumers cm') c = Some con"
        "con = con0\<lparr>con_qos := (con_qos con0)\<lparr>unacked_count := unacked_count (con_qos con0) + 1\<rparr>,
                last_activity := fst (cm_now cm)\<rparr>"
        "\<And>c'. c' \<noteq> c \<Longrightarrow> map_of (consumers cm') c' = map_of (consumers cm) c'"
    have id: "con_id con = c" using assms(3) c(1) c'(2) by (simp add: manager_ok_def)
    have inv: "engine_inv (turn qn (Suc j) e)"
      unfolding turn_def by (rule einv_upd_queue [OF assms(1)]) (auto simp: queue_ok_def part_defs)
    have "get_queue qn (turn qn (Suc j) e) = Some (q\<lparr>rr_index := rr_index q + Suc j\<rparr>)"
      using q(1) by (simp add: turn_def)
    then obtain q' where "get_queue qn e' = Some q'" "\<exists>r. map_of (inflight q') (msg_id m) = Some r \<and> rec_consumer r = c"
      by (rule reserve_someE [OF inv _ r]) auto
    moreover have "0 < prefetch_count (con_qos con0) \<Longrightarrow>
        unacked_count (con_qos con0) + 1 \<le> prefetch_count (con_qos con0)"
      using c(2) by (auto simp: can_deliver_def split: if_splits)
    ultimately show ?thesis using q c c' id by auto
  qed
qed

lemma einv_attach_consumer: "engine_inv e \<Longrightarrow> engine_inv (attach_consumer c n e)"
  unfolding attach_consumer_def
  by (rule einv_upd_queue [OF einv_declare_queue]) (auto simp: queue_ok_def part_defs)

lemma einv_attach_all: "engine_inv e \<Longrightarrow> engine_inv (fold (attach_consumer c) qs e)"
  by (induction qs arbitrary: e) (simp_all add: einv_attach_consumer)

lemma einv_register [inv_intros]:
  "engine_inv e \<Longrightarrow> engine_inv (snd (snd (register c conn qs prefetch tag (cm, e))))"
  by (simp add: register_def case_prod_beta Let_def einv_attach_all)

lemma demo_consuming_inv: "engine_inv (snd demo_consuming)"
  unfolding demo_consuming_def by (rule einv_register) (rule demo_inv)

lemma demo_consuming_manager: "manager_ok (fst demo_consuming)"
  by (auto simp: demo_consuming_def demo_manager_def new_manager_def register_def cm_now_def Let_def manager_ok_def dict_ok_def)

theorem try_reserve_respects_prefetch_witness:
  "\<exists>con m cm' e'. try_reserve ''jobs'' demo_consuming = (Some (con, m), cm', e') \<and>
     unacked_count (con_qos con) = 1 \<and> prefetch_count (con_qos con) = 1"
proof -
  have "fst (try_reserve ''jobs'' demo_consuming) \<noteq> None" by code_simp
  then obtain con m cm' e' where t: "try_reserve ''jobs'' demo_consuming = (Some (con, m), cm', e')"
    by (cases "try_reserve ''jobs'' demo_consuming") auto
  then have t': "try_reserve ''jobs'' (fst demo_consuming, snd demo_consuming) = (Some (con, m), cm', e')"
    by simp
  have "consumers (fst demo_consuming) = [(''c1'', \<lparr>con_id = ''c1'', con_connection = ''k1'',
      con_queues = [''jobs''], con_qos = \<lparr>prefetch_count = 1, unacked_count = 0\<rparr>, connected_at = 0,
      last_activity = 0, con_tag = '''', cancelled = False\<rparr>)]"
    by (simp add: demo_consuming_def demo_manager_def new_manager_def register_def cm_now_def Let_def)
  then show ?thesis
    using try_reserve_respects_prefetch [OF demo_consuming_inv t' demo_consuming_manager] t
    by (auto split: if_splits)
qed

section \<open>Draining a queue\<close>

lemma einv_turn: "engine_inv e \<Longrightarrow> engine_inv (turn qn i e)"
  unfolding turn_def by (rule einv_upd_queue, assumption) (auto simp: queue_ok_def part_defs)

lemma einv_deliver_to: "engine_inv e \<Longrightarrow> engine_inv (snd (snd (deliver_to qn c (cm, e))))"
  using einv_reserve [of e qn c]
  by (auto simp: deliver_to_def Let_def case_prod_beta split: option.split)

lemma einv_try_reserve [inv_intros]:
  assumes "engine_inv e"
  shows "engine_inv (snd (snd (try_reserve qn (cm, e))))"
proof (cases "get_queue qn e")
  case (Some q)
  then show ?thesis
    using assms by (simp add: try_reserve_def try_loop_spec einv_turn einv_deliver_to split: option.split)
qed (use assms in \<open>simp add: try_reserve_def\<close>)

lemma ring_covers:
  fixes i n r :: nat
  assumes "i < n" shows "\<exists>j < n. (r + j) mod n = i"
proof -
  have n: "0 < (n::nat)" using assms by simp
  let ?j = "(i + (n - r mod n)) mod n"
  have "(r + ?j) mod n = (r + (i + (n - r mod n))) mod n" by (simp add: mod_add_right_eq)
  also have "\<dots> = (r mod n + (i + (n - r mod n))) mod n" by (simp add: mod_add_left_eq)
  also have "r mod n + (i + (n - r mod n)) = i + n" using n mod_less_divisor [of n r] by linarith
  finally have "(r + ?j) mod n = i" using assms by simp
  then show ?thesis using n by (intro exI [of _ ?j]) simp
qed

text \<open>Nothing can be delivered: no consumer of the queue may receive, or no message is live.\<close>

definition nothing_to_do :: "string \<Rightarrow> manager \<times> engine \<Rightarrow> bool" where
  "nothing_to_do qn s \<longleftrightarrow>
     (case get_queue qn (snd s) of
        None \<Rightarrow> True
      | Some q \<Rightarrow> (\<forall>c \<in> set (consumer_ids q). \<not> may_receive (fst s) c) \<or>
                  (\<forall>k \<in> dkeys (messages q). \<not> live q k))"

lemma try_reserve_nothing:
  assumes inv: "engine_inv e" and t: "try_reserve qn (cm, e) = (None, s')"
  shows "nothing_to_do qn s'"
proof (cases "get_queue qn e")
  case None
  then show ?thesis using t by (auto simp: try_reserve_def nothing_to_do_def)
next
  case (Some q)
  let ?n = "length (consumer_ids q)"
  let ?c = "\<lambda>j. consumer_ids q ! ((rr_index q + j) mod ?n)"
  show ?thesis
  proof (cases "find (\<lambda>j. may_receive cm (?c j)) [0..<?n]")
    case none: None
    have "\<not> may_receive cm c" if c: "c \<in> set (consumer_ids q)" for c
    proof -
      obtain i where i: "i < ?n" "c = consumer_ids q ! i" using c by (metis in_set_conv_nth)
      then obtain j where "j < ?n" "(rr_index q + j) mod ?n = i" using ring_covers by blast
      then show ?thesis using none i by (auto simp: find_None_iff)
    qed
    moreover have "s' = (cm, turn qn ?n e) \<or> s' = (cm, e)"
      using t Some none by (auto simp: try_reserve_def try_loop_spec split: if_splits)
    ultimately show ?thesis using Some by (auto simp: nothing_to_do_def turn_def)
  next
    case (Some j)
    have q: "get_queue qn e = Some q" by fact
    have ne: "consumer_ids q \<noteq> []" using Some by auto
    let ?e1 = "turn qn (Suc j) e"
    have d: "deliver_to qn (?c j) (cm, ?e1) = (None, s')"
      using t q ne Some by (simp add: try_reserve_def try_loop_spec)
    obtain e2 where r: "reserve qn (?c j) ?e1 = (None, e2)" "s' = (cm, e2)"
      using d by (auto simp: deliver_to_def Let_def case_prod_beta split: option.splits)
         (metis prod.collapse)
    have q1: "get_queue qn ?e1 = Some (q\<lparr>rr_index := rr_index q + Suc j\<rparr>)" using q by (simp add: turn_def)
    have inv1: "engine_inv ?e1" using inv by (rule einv_turn)
    note none = reserve_none [OF inv1 q1 r(1)]
    have "\<not> live q k" if k: "k \<in> dkeys (messages q)" for k
    proof
      assume l: "live q k"
      have "tracked {} qn q" using einv_parts(1) [OF inv q] .
      then have "k \<in> ready_ids q" using k l unfolding tracked_def live_def by blast
      then obtain x where "x \<in> set (ready q)" "k = snd (snd x)" by blast
      then have "\<not> live (q\<lparr>rr_index := rr_index q + Suc j\<rparr>) k" using none(1) by simp
      then show False using l by (simp add: live_def)
    qed
    then have "\<forall>k \<in> dkeys (messages q). \<not> live q k" by blast
    then show ?thesis using none(2) r(2) q1 by (simp add: nothing_to_do_def live_def)
  qed
qed

text \<open>What draining a queue from the state \<open>s\<close> gives.\<close>

definition drained :: "string \<Rightarrow> manager \<times> engine \<Rightarrow> (consumer \<times> message) list \<Rightarrow> manager \<times> engine \<Rightarrow> bool" where
  "drained qn s xs s' \<longleftrightarrow>
     engine_inv (snd s') \<and> nothing_to_do qn s' \<and> distinct (map (\<lambda>x. msg_id (snd x)) xs) \<and>
     (case get_queue qn (snd s) of None \<Rightarrow> xs = []
      | Some q \<Rightarrow> set (map (\<lambda>x. msg_id (snd x)) xs) \<inter> dkeys (inflight q) = {})"

lemma drained_nothing:
  assumes "engine_inv (snd s)" "try_reserve qn s = (None, s')"
  shows "drained qn s [] s'"
  using einv_try_reserve [OF assms(1), of qn "fst s"] try_reserve_nothing [OF assms(1), of qn "fst s"] assms(2)
  by (simp add: drained_def split: option.split)

lemma drained_item:
  assumes inv: "engine_inv (snd s)" and t: "try_reserve qn s = (Some x, s')"
    and rest: "drained qn s' xs s''"
  shows "drained qn s (x # xs) s''"
proof -
  obtain con m where x: "x = (con, m)" by fastforce
  have "try_reserve qn (fst s, snd s) = (Some (con, m), fst s', snd s')" using t x by simp
  then obtain q c j where q: "get_queue qn (snd s) = Some q"
    and d: "deliver_to qn c (fst s, turn qn (Suc j) (snd s)) = (Some (con, m), fst s', snd s')"
    and c: "may_receive (fst s) c"
    by (rule try_reserve_someE)
  let ?e1 = "turn qn (Suc j) (snd s)" and ?q1 = "q\<lparr>rr_index := rr_index q + Suc j\<rparr>"
  have r: "reserve qn c ?e1 = (Some m, snd s')" by (rule deliver_to_someE [OF d c])
  have q1: "get_queue qn ?e1 = Some ?q1" using q by (simp add: turn_def)
  have inv1: "engine_inv ?e1" using inv by (rule einv_turn)
  have "live ?q1 (msg_id m)" using reserve_live [OF inv1 q1 r] .
  then have new: "msg_id m \<notin> dkeys (inflight q)" by (simp add: live_def)
  obtain q' where q': "get_queue qn (snd s') = Some q'" "dkeys (inflight q') = insert (msg_id m) (dkeys (inflight q))"
    by (rule reserve_someE [OF inv1 q1 r]) simp
  have "set (map (\<lambda>x. msg_id (snd x)) xs) \<inter> dkeys (inflight q') = {}"
    using rest q'(1) by (simp add: drained_def)
  then have "msg_id m \<notin> set (map (\<lambda>x. msg_id (snd x)) xs)"
    "set (map (\<lambda>x. msg_id (snd x)) xs) \<inter> dkeys (inflight q) = {}"
    using q'(2) by blast+
  then show ?thesis using rest x q new by (simp add: drained_def)
qed

text \<open>\<open>drain_queue\<close> ends, delivers each message at most once, at most one for each entry of the
  ready heap, none that was in flight before, and stops only when nothing can be delivered: no
  consumer of the queue may receive, or no stored message is live.\<close>

theorem drain_queue_exhausts:
  assumes "engine_inv e"
  shows "let (xs, s') = drain_queue qn (cm, e) in
    engine_inv (snd s') \<and> nothing_to_do qn s' \<and> length xs \<le> ready_left qn e \<and>
    distinct (map (\<lambda>x. msg_id (snd x)) xs) \<and>
    (case get_queue qn e of None \<Rightarrow> xs = []
     | Some q \<Rightarrow> set (map (\<lambda>x. msg_id (snd x)) xs) \<inter> dkeys (inflight q) = {})"
proof -
  have "engine_inv (snd s) \<longrightarrow> drained qn s (fst (drain_queue qn s)) (snd (drain_queue qn s))" for s
  proof (rule drain.run_all_induct [where qn = qn and s = s])
    fix s s' assume "try_reserve qn s = (None, s')"
    then show "engine_inv (snd s) \<longrightarrow> drained qn s (fst (drain_queue qn s)) (snd (drain_queue qn s))"
      using drain.run_all_done drained_nothing by simp
  next
    fix s x s'
    assume t: "try_reserve qn s = (Some x, s')"
      and ih: "engine_inv (snd s') \<longrightarrow> drained qn s' (fst (drain_queue qn s')) (snd (drain_queue qn s'))"
    show "engine_inv (snd s) \<longrightarrow> drained qn s (fst (drain_queue qn s)) (snd (drain_queue qn s))"
    proof
      assume inv: "engine_inv (snd s)"
      then have "engine_inv (snd s')" using einv_try_reserve [OF inv, of qn "fst s"] t by simp
      then show "drained qn s (fst (drain_queue qn s)) (snd (drain_queue qn s))"
        using drained_item [OF inv t] ih drain.run_all_step [OF t] by simp
    qed
  qed
  from this [of "(cm, e)"] assms drain.run_all_length [of qn "(cm, e)"]
  show ?thesis by (simp add: case_prod_beta drained_def)
qed

theorem drain_queue_exhausts_witness:
  "nothing_to_do ''jobs'' (snd (drain_queue ''jobs'' demo_consuming))"
  using drain_queue_exhausts [OF demo_consuming_inv, of "''jobs''" "fst demo_consuming"]
  by (simp add: case_prod_beta)

section \<open>Disconnect\<close>

definition records_of :: "string \<Rightarrow> engine \<Rightarrow> bool" where
  "records_of c e \<longleftrightarrow>
     (\<exists>n q k r. get_queue n e = Some q \<and> map_of (inflight q) k = Some r \<and> rec_consumer r = c)"

lemma detach_frame [simp]:
  "holds (detach_consumer c n e) = holds e" "queue_names (detach_consumer c n e) = queue_names e"
  by (simp_all add: detach_consumer_def)

lemma detach_all_frame:
  "holds (fold (detach_consumer c) qs e) = holds e" "queue_names (fold (detach_consumer c) qs e) = queue_names e"
  by (induction qs arbitrary: e) simp_all

lemma einv_detach_all: "engine_inv e \<Longrightarrow> engine_inv (fold (detach_consumer c) qs e)"
proof (induction qs arbitrary: e)
  case (Cons n qs)
  have "engine_inv (detach_consumer c n e)"
    unfolding detach_consumer_def using Cons.prems
    by (rule einv_upd_queue) (auto simp: queue_ok_def part_defs)
  then show ?case using Cons.IH by simp
qed simp

lemma dlqs_declared_cong:
  assumes "dlqs_declared e" "queue_names e' = queue_names e" "\<And>n. map_option fst (holds e' n) = map_option fst (holds e n)"
  shows "dlqs_declared e'"
  unfolding dlqs_declared_def
proof (intro allI impI, elim conjE)
  fix n s i assume "holds e' n = Some (s, i)" "dead_letter s"
  then obtain i' where "holds e n = Some (s, i')" using assms(3) [of n] by (cases "holds e n") auto
  then show "dlq_name n \<in> set (queue_names e')"
    using assms(1,2) \<open>dead_letter s\<close> unfolding dlqs_declared_def by metis
qed

lemma records_of_holds:
  "records_of c e \<longleftrightarrow> (\<exists>n s i k r. holds e n = Some (s, i) \<and> map_of i k = Some r \<and> rec_consumer r = c)"
proof
  assume "records_of c e"
  then obtain n q k r where q: "get_queue n e = Some q" "map_of (inflight q) k = Some r" "rec_consumer r = c"
    unfolding records_of_def by blast
  then have "holds e n = Some (spec q, inflight q)" by (simp add: holds_def)
  then show "\<exists>n s i k r. holds e n = Some (s, i) \<and> map_of i k = Some r \<and> rec_consumer r = c"
    using q by blast
next
  assume "\<exists>n s i k r. holds e n = Some (s, i) \<and> map_of i k = Some r \<and> rec_consumer r = c"
  then show "records_of c e" unfolding records_of_def holds_def by auto
qed

definition broker_ok :: "manager \<times> engine \<Rightarrow> bool" where
  "broker_ok s \<longleftrightarrow> manager_ok (fst s) \<and> engine_inv (snd s) \<and> dlqs_declared (snd s)"

lemma manager_ok_con:
  assumes "manager_ok cm" "map_of (consumers cm) c = Some con"
  shows "con_id con = c \<and> (\<exists>S. map_of (by_connection cm) (con_connection con) = Some S \<and> c \<in> S \<and> finite S)"
  using assms unfolding manager_ok_def by blast

lemma manager_ok_drop:
  assumes "manager_ok cm" "map_of (consumers cm) c = Some con"
  shows "manager_ok (drop_connection_id (con_connection con) c (cm\<lparr>consumers := ddel c (consumers cm)\<rparr>))"
proof -
  obtain S where S: "map_of (by_connection cm) (con_connection con) = Some S" "c \<in> S" "finite S"
    using manager_ok_con [OF assms] by blast
  have other: "con_id con' = c'" "\<exists>S'. map_of (by_connection cm) (con_connection con') = Some S' \<and> c' \<in> S'"
    if "map_of (consumers cm) c' = Some con'" for c' con'
    using manager_ok_con [OF assms(1) that] by blast+
  have keep: "\<exists>S'. map_of (by_connection cm) (con_connection con') = Some S' \<and> c' \<in> S' \<and>
      (con_connection con' = con_connection con \<longrightarrow> S' = S \<and> c' \<in> S - {c})"
    if "map_of (consumers cm) c' = Some con'" "c' \<noteq> c" for c' con'
    using other(2) [OF that(1)] that(2) S(1) by auto
  let ?cm = "drop_connection_id (con_connection con) c (cm\<lparr>consumers := ddel c (consumers cm)\<rparr>)"
  have b: "map_of (by_connection ?cm) k = (if k = con_connection con
      then (if S - {c} = {} then None else Some (S - {c})) else map_of (by_connection cm) k)" for k
    using S(1) by (simp add: drop_connection_id_def)
  have cons: "consumers ?cm = ddel c (consumers cm)" "dict_ok (by_connection ?cm)"
    using assms(1) by (simp_all add: drop_connection_id_def manager_ok_def split: option.split)
  show ?thesis
    unfolding manager_ok_def
  proof (intro conjI allI impI)
    show "dict_ok (consumers ?cm)" using assms(1) cons by (simp add: manager_ok_def)
    show "dict_ok (by_connection ?cm)" by (rule cons(2))
    show "finite S'" if "map_of (by_connection ?cm) k = Some S'" for k S'
      using that S(3) assms(1) unfolding b manager_ok_def by (metis finite_Diff option.distinct(1) option.inject)
  next
    fix c' con' assume "map_of (consumers ?cm) c' = Some con'"
    then have c': "map_of (consumers cm) c' = Some con'" "c' \<noteq> c"
      using cons(1) by (simp_all split: if_splits)
    show "con_id con' = c'" using other(1) [OF c'(1)] .
    obtain S' where S': "map_of (by_connection cm) (con_connection con') = Some S'" "c' \<in> S'"
      "con_connection con' = con_connection con \<longrightarrow> S' = S \<and> c' \<in> S - {c}"
      using keep [OF c'] by blast
    show "\<exists>S. map_of (by_connection ?cm) (con_connection con') = Some S \<and> c' \<in> S"
    proof (cases "con_connection con' = con_connection con")
      case True
      then have "c' \<in> S - {c}" using S'(3) by simp
      then show ?thesis unfolding b using True by auto
    next
      case False
      then show ?thesis unfolding b using S'(1,2) by simp
    qed
  qed
qed

lemma cancel_consumer_effect:
  assumes ok: "broker_ok s" and c: "map_of (consumers (fst s)) c = Some con"
  shows "\<exists>cm' e'. cancel_consumer c True s = (Inr True, cm', e') \<and> broker_ok (cm', e') \<and>
    consumers cm' = ddel c (consumers (fst s)) \<and> \<not> records_of c e' \<and>
    (\<forall>c'. records_of c' e' \<longrightarrow> records_of c' (snd s))"
proof -
  obtain cm e where s: "s = (cm, e)" by fastforce
  let ?e1 = "fold (detach_consumer c) (con_queues con) e"
  let ?cm = "drop_connection_id (con_connection con) c (cm\<lparr>consumers := ddel c (consumers cm)\<rparr>)"
  have inv1: "engine_inv ?e1" using ok s by (simp add: broker_ok_def einv_detach_all)
  have dl1: "dlqs_declared ?e1"
    using ok s by (auto simp: broker_ok_def detach_all_frame intro: dlqs_declared_cong)
  obtain n e2 where r: "recover_consumer c True ?e1 = (Inr n, e2)"
    using recover_consumer_effect [OF inv1 dl1, of c True]
    by (cases "recover_consumer c True ?e1") (auto simp: Let_def)
  have eff: "engine_inv e2" "queue_names e2 = queue_names ?e1"
    "\<And>n q'. get_queue n e2 = Some q' \<Longrightarrow> \<exists>q. get_queue n ?e1 = Some q \<and>
       (\<forall>k. map_of (inflight q') k = (case map_of (inflight q) k of None \<Rightarrow> None
          | Some r \<Rightarrow> if rec_consumer r = c then None else Some r))"
    using recover_consumer_effect [OF inv1 dl1, of c True] r by (simp_all add: Let_def)
  have rec: "rec_consumer r \<noteq> c \<and> (\<exists>q. get_queue n ?e1 = Some q \<and> map_of (inflight q) k = Some r)"
    if rq: "get_queue n e2 = Some q'" "map_of (inflight q') k = Some r" for n q' k r
  proof -
    obtain q where q: "get_queue n ?e1 = Some q" "map_of (inflight q') k =
        (case map_of (inflight q) k of None \<Rightarrow> None | Some r \<Rightarrow> if rec_consumer r = c then None else Some r)"
      using eff(3) [OF rq(1)] by blast
    then show ?thesis using rq(2) by (cases "map_of (inflight q) k") (auto split: if_splits)
  qed
  have none: "\<not> records_of c e2" unfolding records_of_def using rec by blast
  have sub: "records_of c' e2 \<longrightarrow> records_of c' ?e1" for c' unfolding records_of_def using rec by blast
  have "records_of c' ?e1 = records_of c' e" for c'
    by (simp add: records_of_holds detach_all_frame)
  moreover have "dlqs_declared e2"
    using recover_queues_frame [OF dl1, of "map fst (queues ?e1)" "length (queues ?e1)" c True 0] r
      einv_base [OF inv1] by (auto simp: recover_consumer_def base_ok_def dict_ok_def option.map_comp comp_def
        intro!: dlqs_declared_cong [OF dl1])
  moreover have "manager_ok ?cm" using ok s c by (simp add: broker_ok_def manager_ok_drop)
  ultimately show ?thesis
    using s c r eff(1) none sub
    by (simp add: cancel_consumer_def Let_def broker_ok_def drop_connection_id_def split: option.split)
qed

lemma cancel_each_effect:
  assumes "broker_ok s"
  shows "\<exists>n' cm' e'. cancel_each cs n s = (Inr n', cm', e') \<and> broker_ok (cm', e') \<and>
    (\<forall>c. map_of (consumers cm') c = (if c \<in> set cs then None else map_of (consumers (fst s)) c)) \<and>
    (\<forall>c \<in> set cs. map_of (consumers (fst s)) c \<noteq> None \<longrightarrow> \<not> records_of c e') \<and>
    (\<forall>c. records_of c e' \<longrightarrow> records_of c (snd s))"
  using assms
proof (induction cs arbitrary: n s)
  case Nil
  then show ?case by (cases s) simp
next
  case (Cons c cs)
  show ?case
  proof (cases "map_of (consumers (fst s)) c")
    case None
    then have "cancel_consumer c True s = (Inr False, s)"
      by (cases s) (simp add: cancel_consumer_def)
    then show ?thesis using Cons.IH [OF Cons.prems, of n] None by auto
  next
    case (Some con)
    obtain cm1 e1 where one: "cancel_consumer c True s = (Inr True, cm1, e1)" "broker_ok (cm1, e1)"
      "consumers cm1 = ddel c (consumers (fst s))" "\<not> records_of c e1"
      "\<And>c'. records_of c' e1 \<Longrightarrow> records_of c' (snd s)"
      using cancel_consumer_effect [OF Cons.prems Some] by blast
    obtain n' cm' e' where rest: "cancel_each cs (Suc n) (cm1, e1) = (Inr n', cm', e')" "broker_ok (cm', e')"
      "\<And>c. map_of (consumers cm') c = (if c \<in> set cs then None else map_of (consumers cm1) c)"
      "\<And>c. c \<in> set cs \<Longrightarrow> map_of (consumers cm1) c \<noteq> None \<Longrightarrow> \<not> records_of c e'"
      "\<And>c. records_of c e' \<Longrightarrow> records_of c e1"
      using Cons.IH [OF one(2), of "Suc n"] by auto
    have "cancel_each (c # cs) n s = (Inr n', cm', e')" using one(1) rest(1) by simp
    moreover have "\<not> records_of c' e'" if "c' \<in> set (c # cs)" "map_of (consumers (fst s)) c' \<noteq> None" for c'
      using that one(3,4) rest(4,5) by (cases "c' = c") auto
    moreover have "map_of (consumers cm') c' = (if c' \<in> set (c # cs) then None else map_of (consumers (fst s)) c')" for c'
      using rest(3) [of c'] one(3) by simp
    ultimately show ?thesis using rest(2,5) one(5) by blast
  qed
qed

text \<open>A closed connection takes its consumers along: whatever the order in which they are
  cancelled, and when the dead-letter queues are declared, \<open>disconnect_connection\<close> returns a count;
  afterwards no registered consumer belongs to the connection, no delivery of one of its consumers
  is in flight in any queue, and the broker's structures are in order.\<close>

theorem disconnect_connection_clears:
  assumes "manager_ok cm" "engine_inv e" "dlqs_declared e" "\<forall>S. finite S \<longrightarrow> set (order S) = S"
  shows "\<exists>n cm' e'. disconnect_connection order conn (cm, e) = (Inr n, cm', e') \<and>
    manager_ok cm' \<and> engine_inv e' \<and>
    (\<forall>c con. map_of (consumers cm') c = Some con \<longrightarrow>
       con_connection con \<noteq> conn \<and> map_of (consumers cm) c = Some con) \<and>
    (\<forall>c con. map_of (consumers cm) c = Some con \<and> con_connection con = conn \<longrightarrow>
       map_of (consumers cm') c = None \<and> \<not> records_of c e')"
proof -
  let ?ids = "case map_of (by_connection cm) conn of None \<Rightarrow> [] | Some S \<Rightarrow> order S"
  have "broker_ok (cm, e)" using assms(1-3) by (simp add: broker_ok_def)
  from cancel_each_effect [OF this, of ?ids 0]
  obtain n cm' e' where run: "cancel_each ?ids 0 (cm, e) = (Inr n, cm', e')"
    and eff: "broker_ok (cm', e')"
      "\<forall>c. map_of (consumers cm') c = (if c \<in> set ?ids then None else map_of (consumers cm) c)"
      "\<forall>c \<in> set ?ids. map_of (consumers cm) c \<noteq> None \<longrightarrow> \<not> records_of c e'"
    unfolding fst_conv by (elim exE conjE)
  have res: "disconnect_connection order conn (cm, e) = (Inr n, cm', e')"
    using run by (simp add: disconnect_connection_def)
  have mine: "c \<in> set ?ids" if con: "map_of (consumers cm) c = Some con" "con_connection con = conn" for c con
  proof -
    obtain S where "map_of (by_connection cm) conn = Some S" "c \<in> S" "finite S"
      using manager_ok_con [OF assms(1) con(1)] con(2) by blast
    then show ?thesis using assms(4) by simp
  qed
  show ?thesis
  proof (intro exI conjI allI impI)
    show "disconnect_connection order conn (cm, e) = (Inr n, cm', e')" by (rule res)
    show "manager_ok cm'" "engine_inv e'" using eff(1) by (simp_all add: broker_ok_def)
    fix c con assume c: "map_of (consumers cm') c = Some con"
    then show old: "map_of (consumers cm) c = Some con" using spec [OF eff(2), of c] by (simp split: if_splits)
    show "con_connection con \<noteq> conn"
    proof
      assume "con_connection con = conn"
      then have "c \<in> set ?ids" by (rule mine [OF old])
      then show False using c spec [OF eff(2), of c] by simp
    qed
  next
    fix c con assume "map_of (consumers cm) c = Some con \<and> con_connection con = conn"
    then have "c \<in> set ?ids" "map_of (consumers cm) c \<noteq> None" using mine by auto
    then show "map_of (consumers cm') c = None" "\<not> records_of c e'" using spec [OF eff(2), of c] bspec [OF eff(3), of c] by simp_all
  qed
qed

theorem disconnect_connection_clears_witness:
  "\<exists>n cm' e'. disconnect_connection sorted_list_of_set ''k1'' demo_consuming = (Inr n, cm', e') \<and>
     map_of (consumers cm') ''c1'' = None \<and> \<not> records_of ''c1'' e'"
proof -
  have dl: "dlqs_declared (snd demo_consuming)" by (rule dlqs_declaredI) code_simp
  have set: "\<forall>S :: string set. finite S \<longrightarrow> set (sorted_list_of_set S) = S" by simp
  have "map_option con_connection (map_of (consumers (fst demo_consuming)) ''c1'') = Some ''k1''" by code_simp
  then obtain con where con: "map_of (consumers (fst demo_consuming)) ''c1'' = Some con \<and> con_connection con = ''k1''"
    by blast
  show ?thesis
    using disconnect_connection_clears [OF demo_consuming_manager demo_consuming_inv dl set, of "''k1''"]
  proof (elim exE conjE)
    fix n cm' e'
    assume d: "disconnect_connection sorted_list_of_set ''k1'' (fst demo_consuming, snd demo_consuming) = (Inr n, cm', e')"
      and gone: "\<forall>c con. map_of (consumers (fst demo_consuming)) c = Some con \<and> con_connection con = ''k1'' \<longrightarrow>
       map_of (consumers cm') c = None \<and> \<not> records_of c e'"
    show ?thesis using d gone [rule_format, OF con] by simp
  qed
qed

text \<open>A visibility timeout gives the delivery up but tells the manager nothing: the consumer keeps the
  slot it had for it. Here a consumer with a prefetch limit of one never receives anything again,
  although nothing is in flight and a message is ready for it.\<close>

definition demo_timed_out :: "manager \<times> engine" where
  "demo_timed_out =
     (let s = snd (try_reserve ''jobs'' demo_consuming)
      in (fst s, snd (timeout_inflight 1000 (snd s))))"

lemma timed_out_slot_is_lost:
  "case demo_timed_out of (cm, e) \<Rightarrow>
     (case get_queue ''jobs'' e of
        None \<Rightarrow> False
      | Some q \<Rightarrow> fst (try_reserve ''jobs'' (cm, e)) = None \<and> inflight q = [] \<and> live q ''a'')"
  by code_simp

end
