(* ===== verification/Queues.thy ===== *)
theory Queues
  imports Delivery
begin

text \<open>
  Queues and what is published to them: declaration and deletion, the answers of \<open>enqueue\<close>, where a
  published message goes, the invariant of every reachable engine, and the restart from a snapshot.
\<close>

section \<open>Every reachable engine is in order\<close>

text \<open>C1. No message is ever stranded. In every state a fresh engine can reach by its public
  operations, each stored message of each queue is on the ready heap, delayed or in flight; a
  delayed one has an entry on the delayed heap and an in-flight one an entry with its deadline on
  the visibility heap, so that a later tick finds it; the index names a queue that has the message;
  and the remembered acknowledgements are distinct and within their limit.\<close>

theorem reachable_engine_in_order:
  assumes "reachable_engine e"
  shows "(\<forall>n q k. get_queue n e = Some q \<and> k \<in> dkeys (messages q) \<longrightarrow>
      k \<in> ready_ids q \<or> k \<in> delayed_ids q \<or> k \<in> dkeys (inflight q)) \<and>
    (\<forall>n q k. get_queue n e = Some q \<and> k \<in> delayed_ids q \<longrightarrow> (\<exists>t s. (t, s, n, k) \<in> set (delayed e))) \<and>
    (\<forall>n q k r. get_queue n e = Some q \<and> map_of (inflight q) k = Some r \<longrightarrow>
      (\<exists>s. (visibility_deadline r, s, n, k) \<in> set (visibility_heap e))) \<and>
    (\<forall>k n. map_of (by_id e) k = Some n \<longrightarrow> (\<exists>q. get_queue n e = Some q \<and> k \<in> dkeys (messages q))) \<and>
    distinct (recent_acks e) \<and> length (recent_acks e) \<le> recent_ack_limit e"
proof -
  have inv: "engine_inv e" using assms by (rule engine.reach_safe)
  have base: "index_ok e" "distinct (recent_acks e)" "length (recent_acks e) \<le> recent_ack_limit e"
    using einv_base [OF inv] by (simp_all add: base_ok_def)
  have t: "\<forall>k \<in> dkeys (messages q). k \<in> ready_ids q \<or> k \<in> delayed_ids q \<or> k \<in> dkeys (inflight q)"
    and d: "\<forall>k \<in> delayed_ids q. \<exists>t s. (t, s, n, k) \<in> set (delayed e)"
    and v: "\<forall>k r. map_of (inflight q) k = Some r \<longrightarrow> (\<exists>s. (visibility_deadline r, s, n, k) \<in> set (visibility_heap e))"
    if q: "get_queue n e = Some q" for n q
    using einv_parts [OF inv q] unfolding part_defs empty_iff simp_thms .
  show ?thesis
  proof (intro conjI allI impI; (elim conjE)?)
    fix n q k assume "get_queue n e = Some q" "k \<in> dkeys (messages q)"
    then show "k \<in> ready_ids q \<or> k \<in> delayed_ids q \<or> k \<in> dkeys (inflight q)"
      using t by (simp only: Ball_def)
  next
    fix n q k assume "get_queue n e = Some q" "k \<in> delayed_ids q"
    then show "\<exists>t s. (t, s, n, k) \<in> set (delayed e)" using d by blast
  next
    fix n q k r assume "get_queue n e = Some q" "map_of (inflight q) k = Some r"
    then show "\<exists>s. (visibility_deadline r, s, n, k) \<in> set (visibility_heap e)" using v by blast
  next
    fix k n assume "map_of (by_id e) k = Some n"
    then show "\<exists>q. get_queue n e = Some q \<and> k \<in> dkeys (messages q)" by (rule index_okD [OF base(1)])
  qed (fact base)+
qed

theorem reachable_engine_in_order_witness:
  "length (recent_acks demo_inflight) \<le> recent_ack_limit demo_inflight"
  using reachable_engine_in_order [OF demo_reachable(4)] by (elim conjE)

section \<open>Publication\<close>

text \<open>The answers of a publication: \<open>NOT_FOUND\<close> without the queue, \<open>QUEUE_FULL\<close> when the
  queue's ready, in-flight and delayed messages have reached its limit, \<open>OK\<close> otherwise; an answer
  other than \<open>OK\<close> changes nothing, not even the journal.\<close>

theorem enqueue_answers:
  "fst (enqueue m persist e) =
     (case get_queue (msg_queue m) e of
        None \<Rightarrow> EnqNotFound
      | Some q \<Rightarrow>
          (case max_length (spec q) of
             None \<Rightarrow> EnqOK
           | Some l \<Rightarrow>
               if l \<le> int (length (ready q) + length (inflight q) + card (delayed_ids q))
               then EnqQueueFull else EnqOK)) \<and>
   (fst (enqueue m persist e) = EnqOK \<or> snd (enqueue m persist e) = e)"
  using enqueue_failed [of m persist e]
  by (auto simp: enqueue_result over_limit_def depth_def ready_count_def inflight_count_def
      delayed_count_def split: option.split)

lemma enqueue_effect:
  assumes "get_queue (msg_queue m) e = Some q" "\<not> over_limit q"
  defines "late \<equiv> (\<exists>t. available_at m = Some t \<and> clock e (clock_ix e) < t)"
  defines "m' \<equiv> (if late then m else m\<lparr>available_at := None\<rparr>)"
  shows "get_queue (msg_queue m) (snd (enqueue m persist e)) =
      Some (if late
        then q\<lparr>messages := dset (msg_id m) m' (messages q), delayed_ids := insert (msg_id m) (delayed_ids q),
               stats := (stats q)\<lparr>published := Suc (published (stats q))\<rparr>\<rparr>
        else q\<lparr>messages := dset (msg_id m) m' (messages q),
               ready := heappush (ready q) (- priority m, seq e + 1, msg_id m),
               stats := (stats q)\<lparr>published := Suc (published (stats q))\<rparr>\<rparr>)"
    and "set (delayed (snd (enqueue m persist e))) =
      (if late then insert (the (available_at m), seq e + 1, msg_queue m, msg_id m) (set (delayed e))
       else set (delayed e))"
    and "by_id (snd (enqueue m persist e)) = dset (msg_id m) (msg_queue m) (by_id e)"
    and "journal (snd (enqueue m persist e)) = journal e @
      (if persist then [\<lparr>j_op = ''MESSAGE_PUBLISH'', j_meta = publish_meta m', j_payload = payload m\<rparr>] else [])"
    and "n' \<noteq> msg_queue m \<Longrightarrow> get_queue n' (snd (enqueue m persist e)) = get_queue n' e"
proof -
  have late: "(case available_at m of None \<Rightarrow> False | Some t \<Rightarrow> clock e (clock_ix e) < t) = late"
    by (auto simp: late_def split: option.split)
  note defs = enqueue_def Let_def read_clock_def push_ready_def next_seq_def push_delayed_def
    index_id_def upd_stats_def set_message_def journal_append_def delayed_push_def m'_def
  show "get_queue (msg_queue m) (snd (enqueue m persist e)) =
      Some (if late
        then q\<lparr>messages := dset (msg_id m) m' (messages q), delayed_ids := insert (msg_id m) (delayed_ids q),
               stats := (stats q)\<lparr>published := Suc (published (stats q))\<rparr>\<rparr>
        else q\<lparr>messages := dset (msg_id m) m' (messages q),
               ready := heappush (ready q) (- priority m, seq e + 1, msg_id m),
               stats := (stats q)\<lparr>published := Suc (published (stats q))\<rparr>\<rparr>)"
    using assms(1,2) late by (cases late) (simp_all add: defs)
  show "set (delayed (snd (enqueue m persist e))) =
      (if late then insert (the (available_at m), seq e + 1, msg_queue m, msg_id m) (set (delayed e))
       else set (delayed e))"
    using assms(1,2) late by (cases late) (simp_all add: defs)
  show "by_id (snd (enqueue m persist e)) = dset (msg_id m) (msg_queue m) (by_id e)"
    using assms(1,2) late by (cases late) (simp_all add: defs)
  show "journal (snd (enqueue m persist e)) = journal e @
      (if persist then [\<lparr>j_op = ''MESSAGE_PUBLISH'', j_meta = publish_meta m', j_payload = payload m\<rparr>] else [])"
    using assms(1,2) late by (cases late) (simp_all add: defs)
  show "n' \<noteq> msg_queue m \<Longrightarrow> get_queue n' (snd (enqueue m persist e)) = get_queue n' e"
    using assms(1,2) late by (cases late) (simp_all add: defs)
qed

text \<open>Where a published message goes: with an availability time in the future it is delayed,
  with an entry for that time on the delayed heap; otherwise it is ready at once, behind every
  message of its own or a higher priority that was published before it and ahead of every message
  of a lower priority. It is stored and indexed, and with \<open>persist\<close> the journal has it. The depth
  of a limited queue stays within its limit.\<close>

theorem enqueue_places_message:
  assumes "engine_inv e" "get_queue (msg_queue m) e = Some q" "\<not> over_limit q"
    "late = (\<exists>t. available_at m = Some t \<and> clock e (clock_ix e) < t)"
    "m' = (if late then m else m\<lparr>available_at := None\<rparr>)"
  shows "let n = msg_queue m; k = msg_id m; entry = (- priority m, seq e + 1, k);
             e' = snd (enqueue m persist e) in
    (\<exists>q'. get_queue n e' = Some q' \<and> map_of (messages q') k = Some m' \<and>
       (if late
        then k \<in> delayed_ids q' \<and> (the (available_at m), seq e + 1, n, k) \<in> set (delayed e') \<and> ready q' = ready q
        else set (ready q') = insert entry (set (ready q)) \<and>
          (\<forall>(p, s, i) \<in> set (ready q). if p \<le> - priority m then (p, s, i) < entry else entry < (p, s, i))) \<and>
       (\<forall>l. max_length (spec q) = Some l \<longrightarrow> int (depth q') \<le> l)) \<and>
    map_of (by_id e') k = Some n \<and>
    (persist \<longrightarrow> last (journal e') = \<lparr>j_op = ''MESSAGE_PUBLISH'', j_meta = publish_meta m', j_payload = payload m\<rparr>)"
proof -
  note eff = enqueue_effect [OF assms(2,3), where persist = persist, folded assms(4), folded assms(5)]
  have fin: "finite (delayed_ids q)" and sq: "\<forall>x \<in> set (ready q). fst (snd x) \<le> seq e"
    using einv_queue [OF assms(1,2)] by (simp_all add: queue_ok_def)
  have order: "\<forall>(p, s, i) \<in> set (ready q). if p \<le> - priority m then (p, s, i) < (- priority m, seq e + 1, msg_id m)
      else (- priority m, seq e + 1, msg_id m) < (p, s, i)"
    using sq by (fastforce simp: less_prod_def)
  have lim: "int (depth q) + 1 \<le> l" if "max_length (spec q) = Some l" for l
    using assms(3) that by (simp add: over_limit_def)
  have grow: "card (insert (msg_id m) (delayed_ids q)) \<le> Suc (card (delayed_ids q))"
    using fin by (cases "msg_id m \<in> delayed_ids q") (simp_all add: insert_absorb)
  show ?thesis
  proof (cases late)
    case True
    then show ?thesis using eff grow lim
      by (auto simp: Let_def depth_def ready_count_def inflight_count_def delayed_count_def)
  next
    case False
    then show ?thesis using eff order lim
      by (auto simp: Let_def depth_def ready_count_def inflight_count_def delayed_count_def)
  qed
qed

theorem enqueue_places_message_witness:
  "\<exists>q'. get_queue ''jobs'' (snd (enqueue (demo_message ''z'' 7) True demo_ready)) = Some q' \<and>
     (-7, seq demo_ready + 1, ''z'') \<in> set (ready q')"
proof -
  have m: "msg_queue (demo_message ''z'' 7) = ''jobs''" "available_at (demo_message ''z'' 7) = None"
    "msg_id (demo_message ''z'' 7) = ''z''" "priority (demo_message ''z'' 7) = 7"
    by (simp_all add: demo_message_def)
  have "\<not> over_limit (demo_jobs demo_ready)" by code_simp
  then show ?thesis
    using enqueue_places_message [OF demo_inv(3), of "demo_message ''z'' 7" "demo_jobs demo_ready" False, OF _ _ _ refl, where persist = True]
      demo_queue(1) m
    by (auto simp: Let_def)
qed

section \<open>Declaration and deletion\<close>

lemma declare_queue_new:
  assumes "get_queue n e = None"
  shows "get_queue n (declare_queue n dur ml vt ma dl persist e) =
    Some (new_queue (declared_spec n dur ml vt ma dl e))"
proof -
  have "get_queue n (declare_queue n' dur' ml' vt' ma' dl' persist
      (e\<lparr>queues := dset n q (queues e)\<rparr>)) = Some q" for n' dur' ml' vt' ma' dl' q
    by (rule declare_queue_keeps) simp
  then show ?thesis using assms by (subst declare_queue.simps) (simp add: Let_def)
qed

text \<open>Declaring a queue: a queue that exists is left alone, with whatever arguments; a new one
  is empty and takes from the engine's defaults what the caller leaves out; a plain queue that
  wants dead letters gets a dead-letter queue, which has none itself and, when it is new, allows
  one attempt and carries the visibility timeout of its queue and the engine's default length
  limit. No other queue is touched.\<close>

theorem declare_queue_effect:
  "(get_queue n e \<noteq> None \<longrightarrow> declare_queue n dur ml vt ma dl persist e = e) \<and>
   (get_queue n e = None \<longrightarrow>
      (let e' = declare_queue n dur ml vt ma dl persist e; sp = declared_spec n dur ml vt ma dl e in
       get_queue n e' = Some (new_queue sp) \<and> dead_letter sp = (dl \<and> \<not> is_dlq n) \<and>
       (dead_letter sp \<longrightarrow> (\<exists>d. get_queue (dlq_name n) e' = Some d \<and>
          (get_queue (dlq_name n) e = None \<longrightarrow> d = new_queue \<lparr>spec_name = dlq_name n, durable = True,
             max_length = default_max_length e, visibility_timeout = visibility_timeout sp,
             spec_max_attempts = 1, dead_letter = False\<rparr>) \<and>
          (get_queue (dlq_name n) e \<noteq> None \<longrightarrow> Some d = get_queue (dlq_name n) e))) \<and>
       (\<forall>n'. n' \<noteq> n \<longrightarrow> \<not> (dead_letter sp \<and> n' = dlq_name n) \<longrightarrow> get_queue n' e' = get_queue n' e)))"
proof (cases "get_queue n e")
  case (Some q)
  then show ?thesis by (subst declare_queue.simps) simp
next
  case None
  let ?sp = "declared_spec n dur ml vt ma dl e"
  let ?e' = "declare_queue n dur ml vt ma dl persist e"
  let ?e1 = "e\<lparr>queues := dset n (new_queue ?sp) (queues e)\<rparr>"
  let ?e2 = "declare_queue (dlq_name n) True None (Some (visibility_timeout ?sp)) (Some 1) False persist ?e1"
  have sp: "dead_letter ?sp = (dl \<and> \<not> is_dlq n)" by (simp add: declared_spec_def)
  have q: "queues ?e' = queues (if dead_letter ?sp then ?e2 else ?e1)"
    using None by (subst declare_queue.simps) (simp add: Let_def)
  have d: "\<exists>d. get_queue (dlq_name n) ?e' = Some d \<and>
          (get_queue (dlq_name n) e = None \<longrightarrow> d = new_queue \<lparr>spec_name = dlq_name n, durable = True,
             max_length = default_max_length e, visibility_timeout = visibility_timeout ?sp,
             spec_max_attempts = 1, dead_letter = False\<rparr>) \<and>
          (get_queue (dlq_name n) e \<noteq> None \<longrightarrow> Some d = get_queue (dlq_name n) e)"
    if dl: "dead_letter ?sp"
  proof (cases "get_queue (dlq_name n) e")
    case no_dlq: None
    have "dlq_name n \<noteq> n" using dl sp dlq_name_neq by simp
    then have "get_queue (dlq_name n) ?e1 = None" using no_dlq by simp
    from declare_queue_new [OF this, of True None "Some (visibility_timeout ?sp)" "Some 1" False persist]
    show ?thesis using dl q no_dlq by (simp add: declared_spec_def)
  next
    case dlq: (Some d)
    have "dlq_name n \<noteq> n" using dl sp dlq_name_neq by simp
    then have "get_queue (dlq_name n) ?e1 = Some d" using dlq by simp
    from declare_queue_keeps [OF this] show ?thesis using dl q dlq by simp
  qed
  have other: "get_queue n' ?e' = get_queue n' e"
    if "n' \<noteq> n" "\<not> (dead_letter ?sp \<and> n' = dlq_name n)" for n'
    using that sp by (intro declare_queue_other) auto
  have new: "get_queue n ?e' = Some (new_queue ?sp)" using None by (rule declare_queue_new)
  show ?thesis
  proof (intro conjI impI)
    show "get_queue n e \<noteq> None \<Longrightarrow> ?e' = e" using None by simp
    show "let e' = ?e'; sp = ?sp in
       get_queue n e' = Some (new_queue sp) \<and> dead_letter sp = (dl \<and> \<not> is_dlq n) \<and>
       (dead_letter sp \<longrightarrow> (\<exists>d. get_queue (dlq_name n) e' = Some d \<and>
          (get_queue (dlq_name n) e = None \<longrightarrow> d = new_queue \<lparr>spec_name = dlq_name n, durable = True,
             max_length = default_max_length e, visibility_timeout = visibility_timeout sp,
             spec_max_attempts = 1, dead_letter = False\<rparr>) \<and>
          (get_queue (dlq_name n) e \<noteq> None \<longrightarrow> Some d = get_queue (dlq_name n) e))) \<and>
       (\<forall>n'. n' \<noteq> n \<longrightarrow> \<not> (dead_letter sp \<and> n' = dlq_name n) \<longrightarrow> get_queue n' e' = get_queue n' e)"
      unfolding Let_def using new sp d other by blast
  qed
qed

theorem declare_queue_effect_witness:
  "get_queue ''jobs'' demo_declared = Some (new_queue (declared_spec ''jobs'' True None None None True demo_empty))"
proof -
  have "get_queue ''jobs'' demo_empty = None" by (simp add: demo_empty_def new_engine_def)
  then show ?thesis
    using declare_queue_effect [where n = "''jobs''" and e = demo_empty and dur = True and ml = None and
        vt = None and ma = None and dl = True and persist = True]
    unfolding demo_declared_def Let_def by blast
qed

lemma delete_queue_get:
  "get_queue n' (snd (delete_queue n persist e)) = None \<or>
   get_queue n' (snd (delete_queue n persist e)) = get_queue n' e"
proof (induction n persist e rule: delete_queue.induct)
  case (1 n persist e)
  show ?case
  proof (cases "get_queue n e")
    case (Some q)
    let ?e1 = "journal_append persist ''QUEUE_DELETE'' [(''name'', JStr n)] []
      (unindex_all (messages q) (e\<lparr>queues := ddel n (queues e)\<rparr>))"
    have "get_queue n' ?e1 = None \<or> get_queue n' ?e1 = get_queue n' e" by simp
    then show ?thesis
      using "1.IH" [OF Some refl refl] Some by (subst (1 2) delete_queue.simps) (auto simp: Let_def)
  qed (subst (1 2) delete_queue.simps, simp)
qed

lemma delete_queue_other:
  assumes "n' \<noteq> n" "n' \<noteq> dlq_name n"
  shows "get_queue n' (snd (delete_queue n persist e)) = get_queue n' e"
  using assms
proof (induction n persist e rule: delete_queue.induct)
  case (1 n persist e)
  show ?case
  proof (cases "get_queue n e")
    case (Some q)
    then show ?thesis
      using "1.IH" [OF Some refl refl] "1.prems" by (subst delete_queue.simps) (simp add: Let_def)
  qed (subst delete_queue.simps, simp)
qed

text \<open>Deleting a queue removes it and, when it has one, its dead-letter queue, and no other;
  no id of the index leads to a removed queue any more, and the rest of the engine is in order.\<close>

theorem delete_queue_effect:
  assumes "engine_inv e" "get_queue n e = Some q"
  shows "let e' = snd (delete_queue n persist e) in
    fst (delete_queue n persist e) \<and> get_queue n e' = None \<and>
    (dead_letter (spec q) \<longrightarrow> get_queue (dlq_name n) e' = None) \<and>
    (\<forall>n'. n' \<noteq> n \<longrightarrow> n' \<noteq> dlq_name n \<longrightarrow> get_queue n' e' = get_queue n' e) \<and>
    (\<forall>k. map_of (by_id e') k \<noteq> Some n) \<and> engine_inv e'"
proof -
  let ?e1 = "journal_append persist ''QUEUE_DELETE'' [(''name'', JStr n)] []
      (unindex_all (messages q) (e\<lparr>queues := ddel n (queues e)\<rparr>))"
  have unf: "delete_queue n persist e =
      (True, if dead_letter (spec q) then snd (delete_queue (dlq_name n) persist ?e1) else ?e1)"
    using assms(2) by (subst delete_queue.simps) (simp add: Let_def)
  have n1: "get_queue n ?e1 = None" by simp
  have gone: "get_queue n' (snd (delete_queue n' persist e'')) = None" for n' e''
  proof (cases "get_queue n' e''")
    case (Some q')
    let ?e2 = "journal_append persist ''QUEUE_DELETE'' [(''name'', JStr n')] []
      (unindex_all (messages q') (e''\<lparr>queues := ddel n' (queues e'')\<rparr>))"
    have "get_queue n' ?e2 = None" by simp
    then show ?thesis
      using delete_queue_get [where n' = n' and n = "dlq_name n'" and persist = persist and e = ?e2] Some
      by (subst delete_queue.simps) (auto simp: Let_def)
  qed (subst delete_queue.simps, simp)
  have inv: "engine_inv (snd (delete_queue n persist e))" using assms(1) by (rule einv_delete_queue)
  have none: "get_queue n (snd (delete_queue n persist e)) = None" by (rule gone)
  have "map_of (by_id (snd (delete_queue n persist e))) k \<noteq> Some n" for k
  proof
    assume "map_of (by_id (snd (delete_queue n persist e))) k = Some n"
    then obtain q' where "get_queue n (snd (delete_queue n persist e)) = Some q'"
      using index_okD einv_base [OF inv] unfolding base_ok_def by blast
    then show False using none by simp
  qed
  moreover have "get_queue (dlq_name n) (snd (delete_queue n persist e)) = None" if "dead_letter (spec q)"
    using that unf gone by simp
  ultimately show ?thesis
    using none inv unf delete_queue_other [where n = n and persist = persist and e = e] by (simp add: Let_def)
qed

theorem delete_queue_effect_witness:
  "get_queue ''jobs'' (snd (delete_queue ''jobs'' True demo_inflight)) = None"
  using delete_queue_effect [OF demo_inv(4) demo_queue(2), of True] by (simp add: Let_def)

section \<open>Restart\<close>

text \<open>A restart from a snapshot loses no message: restoring the snapshot of a reachable engine
  into a fresh one gives the same queues in the same order with the same specifications, counters
  and messages; what was delayed and not in flight is delayed again, and everything else, also what
  was in flight, is ready. The sequence numbers go on above those of the snapshot, and the restored
  engine is in order.\<close>

theorem restart_keeps_messages:
  assumes "reachable_engine e" "fresh_engine f"
  shows "let e' = restore_state (snapshot_state e) f in
    map fst (queues e') = map fst (queues e) \<and> seq e \<le> seq e' \<and> engine_inv e' \<and>
    (\<forall>n q. get_queue n e = Some q \<longrightarrow>
       (\<exists>q'. get_queue n e' = Some q' \<and> spec q' = spec q \<and> messages q' = messages q \<and>
          counters (stats q') = counters (stats q) \<and> inflight q' = [] \<and>
          delayed_ids q' = {k \<in> dkeys (messages q). k \<in> delayed_ids q \<and> k \<notin> dkeys (inflight q)} \<and>
          ready_ids q' = dkeys (messages q) - delayed_ids q'))"
proof -
  have inv: "engine_inv e" using assms(1) by (rule engine.reach_safe)
  have f: "engine_inv f" using assms(2) by (rule engine.init_safe)
  note snap = snap_ok_snapshot [OF inv]
  note r = restore_state_describes [OF f snap(1)]
  have "\<exists>q'. get_queue n (restore_state (snapshot_state e) f) = Some q' \<and> describes (snapshot_queue q) q'"
    and ok: "queue_ok (seq e) n q" if q: "get_queue n e = Some q" for n q
  proof -
    show ok: "queue_ok (seq e) n q" using inv q by (rule einv_queue)
    have "snapshot_queue q \<in> set (es_queues (snapshot_state e))"
      using map_of_SomeD [OF q] by (force simp: snapshot_state_def)
    with r(4) show "\<exists>q'. get_queue n (restore_state (snapshot_state e) f) = Some q' \<and> describes (snapshot_queue q) q'"
      using ok by (fastforce simp: snapshot_queue_def queue_ok_def)
  qed
  then have "\<exists>q'. get_queue n (restore_state (snapshot_state e) f) = Some q' \<and> spec q' = spec q \<and>
      messages q' = messages q \<and> counters (stats q') = counters (stats q) \<and> inflight q' = [] \<and>
      delayed_ids q' = resting q \<and> ready_ids q' = dkeys (messages q) - delayed_ids q'"
    if q: "get_queue n e = Some q" for n q
    using snapshot_queue_messages(1) [OF ok [OF q]] snapshot_queue_states [OF ok [OF q]] that
    by (fastforce simp: describes_def snapshot_queue_def counters_def)
  moreover have "es_seq (snapshot_state e) = seq e" by (simp add: snapshot_state_def)
  ultimately show ?thesis using r snap(2) by (simp add: Let_def resting_def)
qed

theorem restart_keeps_messages_witness:
  "map fst (queues (restore_state (snapshot_state demo_inflight) demo_empty)) = map fst (queues demo_inflight)"
proof -
  have "fresh_engine demo_empty" unfolding demo_empty_def by (rule fresh_engine.intros)
  from restart_keeps_messages [OF demo_reachable(4) this] show ?thesis by (simp add: Let_def)
qed

end
