(* ===== verification/Routing.thy ===== *)
theory Routing
  imports Queues
begin

text \<open>
  \<open>core/exchange.py\<close>, \<open>core/bindings.py\<close> and \<open>core/routing.py\<close>: direct and fanout exchanges over the
  queue engine. The routing engine and the queue engine write to one journal (\<open>broker/runtime.py\<close>
  gives both the same), which is the journal of the engine here. \<open>_bindings\<close> is a Python set; where
  its iteration order shows (the snapshot), the order is a parameter.

  A publication makes one message per target. The \<open>i\<close>-th one would take its id from
  \<open>uuid.uuid4()\<close> and its time from \<open>time.time()\<close>: \<open>mk i\<close> is the pair of these values.
\<close>

section \<open>State\<close>

record exchange_rec =
  ex_name :: string
  ex_type :: string
  ex_durable :: bool

record binding =
  b_exchange :: string
  b_queue :: string
  b_key :: string

record routing =
  exchanges :: "(string \<times> exchange_rec) list"
  bindings :: "binding set"

definition DEFAULT_EXCHANGE :: string where
  "DEFAULT_EXCHANGE = ''''"

definition new_exchange :: "string \<Rightarrow> string \<Rightarrow> bool \<Rightarrow> py_error + exchange_rec" where
  "new_exchange n ty dur =
     (if ty \<notin> {''direct'', ''fanout''}
      then Inl (ValueError ''V1 supports only direct and fanout exchanges'')
      else Inr \<lparr>ex_name = n, ex_type = ty, ex_durable = dur\<rparr>)"

section \<open>Operations\<close>

definition declare_exchange ::
  "string \<Rightarrow> string \<Rightarrow> bool \<Rightarrow> bool \<Rightarrow> routing \<times> engine \<Rightarrow> (py_error + exchange_rec) \<times> routing \<times> engine" where
  "declare_exchange n ty dur persist s =
     (case s of (r, e) \<Rightarrow>
        case map_of (exchanges r) n of
          Some x \<Rightarrow> (Inr x, r, e)
        | None \<Rightarrow>
            (case new_exchange n ty dur of
               Inl err \<Rightarrow> (Inl err, r, e)
             | Inr x \<Rightarrow>
                 (Inr x, r\<lparr>exchanges := dset n x (exchanges r)\<rparr>,
                  journal_append persist ''EXCHANGE_DECLARE''
                    [(''name'', JStr n), (''type'', JStr ty), (''durable'', JBool dur)] [] e)))"

definition new_routing :: routing where
  "new_routing = \<lparr>exchanges = [(DEFAULT_EXCHANGE,
     \<lparr>ex_name = DEFAULT_EXCHANGE, ex_type = ''direct'', ex_durable = True\<rparr>)], bindings = {}\<rparr>"

definition delete_exchange :: "string \<Rightarrow> bool \<Rightarrow> routing \<times> engine \<Rightarrow> bool \<times> routing \<times> engine" where
  "delete_exchange n persist s =
     (case s of (r, e) \<Rightarrow>
        if n = DEFAULT_EXCHANGE then (False, r, e)
        else if n \<notin> dkeys (exchanges r) then (False, r, e)
        else (True,
              r\<lparr>exchanges := ddel n (exchanges r), bindings := {b \<in> bindings r. b_exchange b \<noteq> n}\<rparr>,
              journal_append persist ''EXCHANGE_DELETE'' [(''name'', JStr n)] [] e))"

definition bind_meta :: "string \<Rightarrow> string \<Rightarrow> string \<Rightarrow> (string \<times> json) list" where
  "bind_meta x q k = [(''exchange'', JStr x), (''queue'', JStr q), (''routing_key'', JStr k)]"

definition bind_queue :: "string \<Rightarrow> string \<Rightarrow> string \<Rightarrow> bool \<Rightarrow> routing \<times> engine \<Rightarrow> bool \<times> routing \<times> engine" where
  "bind_queue x q k persist s =
     (case s of (r, e) \<Rightarrow>
        if x \<notin> dkeys (exchanges r) then (False, r, e)
        else if get_queue q e = None then (False, r, e)
        else (True,
              r\<lparr>bindings := insert \<lparr>b_exchange = x, b_queue = q, b_key = k\<rparr> (bindings r)\<rparr>,
              journal_append persist ''BIND'' (bind_meta x q k) [] e))"

definition unbind_queue :: "string \<Rightarrow> string \<Rightarrow> string \<Rightarrow> bool \<Rightarrow> routing \<times> engine \<Rightarrow> bool \<times> routing \<times> engine" where
  "unbind_queue x q k persist s =
     (case s of (r, e) \<Rightarrow>
        let b = \<lparr>b_exchange = x, b_queue = q, b_key = k\<rparr> in
        if b \<notin> bindings r then (False, r, e)
        else (True, r\<lparr>bindings := bindings r - {b}\<rparr>,
              journal_append persist ''UNBIND'' (bind_meta x q k) [] e))"

definition on_queue_declared :: "string \<Rightarrow> bool \<Rightarrow> routing \<times> engine \<Rightarrow> routing \<times> engine" where
  "on_queue_declared q persist s = snd (bind_queue DEFAULT_EXCHANGE q q persist s)"

definition route_targets :: "string \<Rightarrow> string \<Rightarrow> routing \<Rightarrow> string list" where
  "route_targets x k r =
     (case map_of (exchanges r) x of
        None \<Rightarrow> []
      | Some ex \<Rightarrow>
          if ex_type ex = ''fanout''
          then sorted_list_of_set (b_queue ` {b \<in> bindings r. b_exchange b = x})
          else sorted_list_of_set (b_queue ` {b \<in> bindings r. b_exchange b = x \<and> b_key b = k}))"

section \<open>Publication\<close>

record publication =
  pb_payload :: bytes
  pb_max_attempts :: int
  pb_priority :: int
  pb_headers :: json
  pb_exchange :: string
  pb_key :: string
  pb_message_id :: "string option"

definition publication_message :: "publication \<Rightarrow> nat \<Rightarrow> (nat \<Rightarrow> string \<times> time) \<Rightarrow> nat \<Rightarrow> string \<Rightarrow> message" where
  "publication_message pb cnt mk i target =
     message_create target (pb_payload pb) (pb_max_attempts pb) (pb_priority pb) (pb_headers pb) None
       (pb_exchange pb) (pb_key pb) (if cnt = 1 then pb_message_id pb else None) None 0
       (fst (mk i)) (snd (mk i))"

text \<open>The loop over the targets; \<open>i\<close> counts them, \<open>cnt\<close> is their number.\<close>

fun publish_loop ::
  "publication \<Rightarrow> nat \<Rightarrow> (nat \<Rightarrow> string \<times> time) \<Rightarrow> bool \<Rightarrow> string list \<Rightarrow> nat \<Rightarrow> string list \<Rightarrow> string \<Rightarrow>
   engine \<Rightarrow> (string \<times> string list \<times> enqueue_result) \<times> engine" where
  "publish_loop pb cnt mk persist [] i routed last_id e =
     (if routed = [] then ((last_id, routed, EnqNotFound), e) else ((last_id, routed, EnqOK), e))"
| "publish_loop pb cnt mk persist (target # targets) i routed last_id e =
     (let m = publication_message pb cnt mk i target in
      case enqueue m persist e of
        (EnqQueueFull, e') \<Rightarrow> ((msg_id m, routed, EnqQueueFull), e')
      | (EnqOK, e') \<Rightarrow> publish_loop pb cnt mk persist targets (Suc i) (routed @ [target]) (msg_id m) e'
      | (EnqNotFound, e') \<Rightarrow> publish_loop pb cnt mk persist targets (Suc i) routed last_id e')"

definition nonempty :: "string option \<Rightarrow> bool" where
  "nonempty s = (case s of None \<Rightarrow> False | Some x \<Rightarrow> x \<noteq> [])"

definition publish ::
  "bytes \<Rightarrow> string option \<Rightarrow> string \<Rightarrow> string option \<Rightarrow> int option \<Rightarrow> int \<Rightarrow> json \<Rightarrow> string option \<Rightarrow>
   (nat \<Rightarrow> string \<times> time) \<Rightarrow> bool \<Rightarrow> routing \<times> engine \<Rightarrow>
   (string \<times> string list \<times> enqueue_result) \<times> routing \<times> engine" where
  "publish pl exch key queue max_att prio hdrs mid mk persist s =
     (let by_queue = (nonempty queue \<and> \<not> nonempty exch);
          exch1 = (if by_queue then Some DEFAULT_EXCHANGE else exch);
          key1 = (if by_queue \<and> key = [] then the queue else key);
          s1 = (if by_queue \<and> get_queue (the queue) (snd s) = None
                then on_queue_declared (the queue) persist
                       (fst s, declare_queue (the queue) True None None None True persist (snd s))
                else s);
          exch2 = (case exch1 of None \<Rightarrow> DEFAULT_EXCHANGE | Some x \<Rightarrow> x)
      in case s1 of (r, e) \<Rightarrow>
           if exch2 \<notin> dkeys (exchanges r) then (([], [], EnqNotFound), r, e)
           else
             (let targets = route_targets exch2 key1 r in
              if targets = [] then (([], [], EnqNotFound), r, e)
              else
                (let pb = \<lparr>pb_payload = pl,
                           pb_max_attempts = (case max_att of None \<Rightarrow> default_max_attempts e
                                              | Some a \<Rightarrow> if a = 0 then default_max_attempts e else a),
                           pb_priority = prio, pb_headers = hdrs, pb_exchange = exch2, pb_key = key1,
                           pb_message_id = mid\<rparr>
                 in case publish_loop pb (length targets) mk persist targets 0 [] [] e of
                      (res, e') \<Rightarrow> (res, r, e'))))"

section \<open>Snapshot and restore\<close>

record routing_snap =
  rs_exchanges :: "exchange_rec list"
  rs_bindings :: "binding list"

definition routing_snapshot :: "(binding set \<Rightarrow> binding list) \<Rightarrow> routing \<Rightarrow> routing_snap" where
  "routing_snapshot order r =
     \<lparr>rs_exchanges = map (\<lambda>(n, x). x) (exchanges r), rs_bindings = order (bindings r)\<rparr>"

fun restore_exchanges :: "exchange_rec list \<Rightarrow> routing \<times> engine \<Rightarrow> (py_error + unit) \<times> routing \<times> engine" where
  "restore_exchanges [] s = (Inr (), s)"
| "restore_exchanges (x # xs) s =
     (case declare_exchange (ex_name x) (ex_type x) (ex_durable x) False s of
        (Inl err, s') \<Rightarrow> (Inl err, s')
      | (Inr _, s') \<Rightarrow> restore_exchanges xs s')"

definition restore_binding :: "binding \<Rightarrow> routing \<times> engine \<Rightarrow> routing \<times> engine" where
  "restore_binding b s = snd (bind_queue (b_exchange b) (b_queue b) (b_key b) False s)"

definition routing_restore :: "routing_snap \<Rightarrow> routing \<times> engine \<Rightarrow> (py_error + unit) \<times> routing \<times> engine" where
  "routing_restore st s =
     (case restore_exchanges (rs_exchanges st) (new_routing, snd s) of
        (Inl err, s') \<Rightarrow> (Inl err, s')
      | (Inr _, s') \<Rightarrow> (Inr (), fold restore_binding (rs_bindings st) s'))"

section \<open>The invariant of the routing tables\<close>

definition routing_ok :: "routing \<Rightarrow> bool" where
  "routing_ok r \<longleftrightarrow>
     dict_ok (exchanges r) \<and> finite (bindings r) \<and>
     (\<exists>xs. exchanges r = exchanges new_routing @ xs) \<and>
     (\<forall>n x. map_of (exchanges r) n = Some x \<longrightarrow> ex_name x = n \<and> ex_type x \<in> {''direct'', ''fanout''}) \<and>
     (\<forall>b \<in> bindings r. b_exchange b \<in> dkeys (exchanges r))"

lemma routing_ok_default: "routing_ok r \<Longrightarrow> map_of (exchanges r) DEFAULT_EXCHANGE = Some \<lparr>ex_name = DEFAULT_EXCHANGE, ex_type = ''direct'', ex_durable = True\<rparr>"
  by (auto simp: routing_ok_def new_routing_def)

lemma routing_ok_new: "routing_ok new_routing"
  by (simp add: routing_ok_def new_routing_def dict_ok_def)

lemma routing_ok_declare_exchange:
  assumes "routing_ok r"
  shows "routing_ok (fst (snd (declare_exchange n ty dur persist (r, e))))"
proof (cases "map_of (exchanges r) n")
  case (Some x)
  then show ?thesis using assms by (simp add: declare_exchange_def)
next
  case None
  show ?thesis
  proof (cases "ty \<in> {''direct'', ''fanout''}")
    case False
    then show ?thesis using None assms by (simp add: declare_exchange_def new_exchange_def)
  next
    case True
    let ?x = "\<lparr>ex_name = n, ex_type = ty, ex_durable = dur\<rparr>"
    have eq: "fst (snd (declare_exchange n ty dur persist (r, e))) = r\<lparr>exchanges := dset n ?x (exchanges r)\<rparr>"
      using None True by (simp add: declare_exchange_def new_exchange_def)
    have k: "n \<notin> dkeys (exchanges r)" using None by (simp add: map_of_eq_None_iff)
    have "\<exists>xs. dset n ?x (exchanges r) = exchanges new_routing @ xs"
      using assms dset_new [OF k, of ?x] unfolding routing_ok_def by auto
    then show ?thesis
      unfolding eq using assms True by (auto simp: routing_ok_def simp del: image_iff)
  qed
qed

lemma routing_ok_delete_exchange:
  assumes "routing_ok r"
  shows "routing_ok (fst (snd (delete_exchange n persist (r, e))))"
proof -
  have "\<exists>xs. ddel n (exchanges r) = exchanges new_routing @ xs" if "n \<noteq> DEFAULT_EXCHANGE"
  proof -
    obtain xs where "exchanges r = exchanges new_routing @ xs" using assms by (auto simp: routing_ok_def)
    then have "ddel n (exchanges r) = exchanges new_routing @ ddel n xs"
      using that by (simp add: new_routing_def)
    then show ?thesis ..
  qed
  then show ?thesis using assms
    by (auto simp: delete_exchange_def routing_ok_def simp del: image_iff)
qed

lemma routing_ok_bind_queue:
  "routing_ok r \<Longrightarrow> routing_ok (fst (snd (bind_queue x q k persist (r, e))))"
  by (simp add: bind_queue_def routing_ok_def)

lemma routing_ok_unbind_queue:
  "routing_ok r \<Longrightarrow> routing_ok (fst (snd (unbind_queue x q k persist (r, e))))"
  by (simp add: unbind_queue_def routing_ok_def Let_def)

inductive routing_step :: "routing \<times> engine \<Rightarrow> routing \<times> engine \<Rightarrow> bool" where
  declare_exchange_step: "routing_step s (snd (declare_exchange n ty dur persist s))"
| delete_exchange_step: "routing_step s (snd (delete_exchange n persist s))"
| bind_step: "routing_step s (snd (bind_queue x q k persist s))"
| unbind_step: "routing_step s (snd (unbind_queue x q k persist s))"
| publish_step: "routing_step s (snd (publish pl exch key queue ma prio hdrs mid mk persist s))"
| engine_steps: "engine_step e e' \<Longrightarrow> routing_step (r, e) (r, e')"

inductive_cases routing_stepE: "routing_step s s'"

inductive fresh_routing :: "routing \<times> engine \<Rightarrow> bool" where
  "fresh_engine e \<Longrightarrow> fresh_routing (new_routing, e)"

lemma einv_publish_loop:
  "engine_inv e \<Longrightarrow> engine_inv (snd (publish_loop pb cnt mk persist ts i routed last_id e))"
proof (induction ts arbitrary: i routed last_id e)
  case (Cons t ts)
  obtain res e1 where r: "enqueue (publication_message pb cnt mk i t) persist e = (res, e1)" by fastforce
  have "engine_inv e1" using einv_enqueue [OF Cons.prems, of "publication_message pb cnt mk i t" persist] r by simp
  then show ?case using Cons.IH r by (cases res) (simp_all add: Let_def)
qed simp

lemma on_queue_declared_ok:
  assumes "routing_ok r" "engine_inv e"
  shows "routing_ok (fst (on_queue_declared n persist (r, e)))" "engine_inv (snd (on_queue_declared n persist (r, e)))"
  using assms routing_ok_bind_queue [OF assms(1)]
  by (auto simp: on_queue_declared_def bind_queue_def einv_journal_append)

lemma publish_ok:
  assumes "routing_ok r" "engine_inv e"
  shows "routing_ok (fst (snd (publish pl exch key queue ma prio hdrs mid mk persist (r, e)))) \<and>
    engine_inv (snd (snd (publish pl exch key queue ma prio hdrs mid mk persist (r, e))))"
proof -
  define s1 where "s1 = (if (nonempty queue \<and> \<not> nonempty exch) \<and> get_queue (the queue) e = None
     then on_queue_declared (the queue) persist (r, declare_queue (the queue) True None None None True persist e)
     else (r, e))"
  have "routing_ok (fst s1)" "engine_inv (snd s1)"
    using assms on_queue_declared_ok [OF assms(1) einv_declare_queue [OF assms(2)]] by (simp_all add: s1_def)
  moreover obtain r1 e1 where "s1 = (r1, e1)" by fastforce
  ultimately show ?thesis
    unfolding publish_def Let_def snd_conv fst_conv s1_def [symmetric]
    by (simp add: case_prod_beta einv_publish_loop)
qed

interpretation routing: step_invariant fresh_routing routing_step "\<lambda>s. routing_ok (fst s) \<and> engine_inv (snd s)"
proof unfold_locales
  show "routing_ok (fst s) \<and> engine_inv (snd s)" if "fresh_routing s" for s
    using that by (auto elim!: fresh_routing.cases intro: routing_ok_new engine.init_safe)
  show "routing_ok (fst s') \<and> engine_inv (snd s')"
    if "routing_step s s'" "routing_ok (fst s) \<and> engine_inv (snd s)" for s s'
    using that
  proof (cases rule: routing_step.cases)
    case (declare_exchange_step n ty dur persist)
    have "engine_inv (snd (snd (declare_exchange n ty dur persist s)))"
      using that(2) by (auto simp: declare_exchange_def einv_journal_append split: option.split sum.split prod.split)
    then show ?thesis using declare_exchange_step that(2) routing_ok_declare_exchange [of "fst s" n ty dur persist "snd s"] by simp
  next
    case (delete_exchange_step n persist)
    have "engine_inv (snd (snd (delete_exchange n persist s)))"
      using that(2) by (auto simp: delete_exchange_def einv_journal_append split: prod.split)
    then show ?thesis using delete_exchange_step that(2) routing_ok_delete_exchange [of "fst s" n persist "snd s"] by simp
  next
    case (bind_step x q k persist)
    have "engine_inv (snd (snd (bind_queue x q k persist s)))"
      using that(2) by (auto simp: bind_queue_def einv_journal_append split: prod.split)
    then show ?thesis using bind_step that(2) routing_ok_bind_queue [of "fst s" x q k persist "snd s"] by simp
  next
    case (unbind_step x q k persist)
    have "engine_inv (snd (snd (unbind_queue x q k persist s)))"
      using that(2) by (auto simp: unbind_queue_def Let_def einv_journal_append split: prod.split)
    then show ?thesis using unbind_step that(2) routing_ok_unbind_queue [of "fst s" x q k persist "snd s"] by simp
  next
    case (publish_step pl exch key queue ma prio hdrs mid mk persist)
    then show ?thesis using publish_ok [of "fst s" "snd s"] that(2) by simp
  next
    case (engine_steps e e' r)
    then show ?thesis using that(2) engine_step_inv by simp
  qed
qed

abbreviation reachable_routing :: "routing \<times> engine \<Rightarrow> bool" where
  "reachable_routing \<equiv> reach fresh_routing routing_step"

section \<open>Properties\<close>

text \<open>The routing tables of every reachable broker are in order: the default exchange is there and
  is direct, every exchange is stored under its own name and is direct or fanout, and every binding
  refers to a declared exchange.\<close>

theorem reachable_routing_in_order:
  assumes "reachable_routing (r, e)"
  shows "map_of (exchanges r) DEFAULT_EXCHANGE = Some \<lparr>ex_name = DEFAULT_EXCHANGE, ex_type = ''direct'', ex_durable = True\<rparr> \<and>
    (\<forall>n x. map_of (exchanges r) n = Some x \<longrightarrow> ex_name x = n \<and> ex_type x \<in> {''direct'', ''fanout''}) \<and>
    (\<forall>b \<in> bindings r. map_of (exchanges r) (b_exchange b) \<noteq> None) \<and> finite (bindings r) \<and> engine_inv e"
  using routing.reach_safe [OF assms] routing_ok_default [of r]
  by (simp add: routing_ok_def dkeys_iff del: image_iff)

definition demo_routing :: routing where
  "demo_routing = fst (snd (bind_queue '''' ''jobs'' ''jobs'' True (new_routing, demo_ready)))"

lemma demo_routing_reachable: "reachable_routing (demo_routing, demo_ready)"
proof -
  have base: "reachable_routing (new_routing, e)" if "reachable_engine e" for e
    using that
  proof (induction rule: reach.induct)
    case (start s)
    then show ?case by (intro reach.start fresh_routing.intros)
  next
    case (after s s')
    then show ?case by (intro reach.after [OF after.IH] engine_steps)
  qed
  have j: "snd (snd (bind_queue '''' ''jobs'' ''jobs'' False (new_routing, demo_ready))) = demo_ready"
    by (simp add: bind_queue_def journal_append_def)
  have d: "fst (snd (bind_queue '''' ''jobs'' ''jobs'' False (new_routing, demo_ready))) = demo_routing"
    by (simp add: demo_routing_def bind_queue_def)
  have "reachable_routing (snd (bind_queue '''' ''jobs'' ''jobs'' False (new_routing, demo_ready)))"
    by (rule reach.after [OF base [OF demo_reachable(3)]]) (rule bind_step)
  moreover have "snd (bind_queue '''' ''jobs'' ''jobs'' False (new_routing, demo_ready)) = (demo_routing, demo_ready)"
    using j d by (simp add: prod_eq_iff)
  ultimately show ?thesis by simp
qed

theorem reachable_routing_in_order_witness: "finite (bindings demo_routing)"
  using reachable_routing_in_order [OF demo_routing_reachable] by (elim conjE)

text \<open>Where a publication goes: a fanout exchange routes to every queue bound to it, a direct one
  to the queues bound with exactly the routing key, an unknown one nowhere; each queue once, in
  alphabetical order.\<close>

theorem route_targets_correct:
  assumes "finite (bindings r)"
  shows "sorted (route_targets x k r) \<and> distinct (route_targets x k r) \<and>
    set (route_targets x k r) =
      (case map_of (exchanges r) x of
         None \<Rightarrow> {}
       | Some ex \<Rightarrow> {q. \<exists>b \<in> bindings r. b_exchange b = x \<and> b_queue b = q \<and> (ex_type ex = ''fanout'' \<or> b_key b = k)})"
proof -
  have fin: "finite (b_queue ` {b \<in> bindings r. P b})" for P using assms by simp
  show ?thesis
  proof (cases "map_of (exchanges r) x")
    case None
    then show ?thesis by (simp add: route_targets_def)
  next
    case (Some ex)
    show ?thesis
      using Some fin by (cases "ex_type ex = ''fanout''") (simp_all add: route_targets_def, blast+)
  qed
qed

theorem route_targets_correct_witness:
  "set (route_targets '''' ''jobs'' demo_routing) = {''jobs''}"
proof -
  obtain q where q: "get_queue ''jobs'' demo_ready = Some q" using demo_queue(1) by blast
  have b: "bindings demo_routing = {\<lparr>b_exchange = '''', b_queue = ''jobs'', b_key = ''jobs''\<rparr>}"
    using q by (simp add: demo_routing_def bind_queue_def new_routing_def DEFAULT_EXCHANGE_def)
  have x: "map_of (exchanges demo_routing) '''' = Some \<lparr>ex_name = '''', ex_type = ''direct'', ex_durable = True\<rparr>"
    using q by (simp add: demo_routing_def bind_queue_def new_routing_def DEFAULT_EXCHANGE_def)
  have "finite (bindings demo_routing)" using b by simp
  from route_targets_correct [OF this, of "''''" "''jobs''"] x b show ?thesis by auto
qed

text \<open>Binding and unbinding: \<open>bind\<close> succeeds exactly when the exchange and the queue exist, and
  then the binding is there, once; \<open>unbind\<close> succeeds exactly when the binding is there, and a new
  binding that is unbound again leaves the tables as they were. A failed call changes nothing.\<close>

theorem bind_unbind:
  "(fst (bind_queue x q k persist (r, e)) \<longleftrightarrow> map_of (exchanges r) x \<noteq> None \<and> get_queue q e \<noteq> None) \<and>
   (if fst (bind_queue x q k persist (r, e))
    then let (r', e') = snd (bind_queue x q k persist (r, e)) in
      bindings r' = insert \<lparr>b_exchange = x, b_queue = q, b_key = k\<rparr> (bindings r) \<and>
      fst (unbind_queue x q k persist (r', e')) \<and>
      (\<lparr>b_exchange = x, b_queue = q, b_key = k\<rparr> \<in> bindings r \<or> fst (snd (unbind_queue x q k persist (r', e'))) = r)
    else snd (bind_queue x q k persist (r, e)) = (r, e)) \<and>
   (fst (unbind_queue x q k persist (r, e)) \<longleftrightarrow> \<lparr>b_exchange = x, b_queue = q, b_key = k\<rparr> \<in> bindings r) \<and>
   (fst (unbind_queue x q k persist (r, e)) \<or> snd (unbind_queue x q k persist (r, e)) = (r, e))"
proof -
  have "map_of (exchanges r) x \<noteq> None \<longleftrightarrow> x \<in> dkeys (exchanges r)" by (simp only: dkeys_iff simp_thms)
  then show ?thesis
    by (simp add: bind_queue_def unbind_queue_def Let_def case_prod_beta del: image_iff not_None_eq)
qed

section \<open>What a publication does\<close>

lemma publication_message_fields [simp]:
  "msg_queue (publication_message pb cnt mk i t) = t"
  "payload (publication_message pb cnt mk i t) = pb_payload pb"
  "priority (publication_message pb cnt mk i t) = pb_priority pb"
  "max_attempts (publication_message pb cnt mk i t) = pb_max_attempts pb"
  "headers (publication_message pb cnt mk i t) = pb_headers pb"
  "available_at (publication_message pb cnt mk i t) = None"
  "attempts (publication_message pb cnt mk i t) = 0"
  "exchange (publication_message pb cnt mk i t) = pb_exchange pb"
  "routing_key (publication_message pb cnt mk i t) = pb_key pb"
  by (simp_all add: publication_message_def message_create_def)

text \<open>The queue of a target after the publication: one more message, ready.\<close>

definition took :: "publication \<Rightarrow> dqueue \<Rightarrow> dqueue \<Rightarrow> bool" where
  "took pb q q' \<longleftrightarrow>
     (\<exists>m s. map_of (messages q') = (map_of (messages q))(msg_id m \<mapsto> m) \<and>
        payload m = pb_payload pb \<and> headers m = pb_headers pb \<and> priority m = pb_priority pb \<and>
        max_attempts m = pb_max_attempts pb \<and> attempts m = 0 \<and>
        exchange m = pb_exchange pb \<and> routing_key m = pb_key pb \<and>
        set (ready q') = insert (- pb_priority pb, s, msg_id m) (set (ready q)) \<and>
        inflight q' = inflight q \<and> delayed_ids q' = delayed_ids q)"

lemma publish_loop_effect:
  assumes "distinct ts" "\<forall>t \<in> set ts. \<forall>q. get_queue t e = Some q \<longrightarrow> \<not> over_limit q"
  shows "\<exists>lid'. fst (publish_loop pb cnt mk persist ts i routed lid e) =
      (lid', routed @ filter (\<lambda>t. get_queue t e \<noteq> None) ts,
       if routed @ filter (\<lambda>t. get_queue t e \<noteq> None) ts = [] then EnqNotFound else EnqOK)"
    and "\<And>n. n \<notin> set ts \<Longrightarrow> get_queue n (snd (publish_loop pb cnt mk persist ts i routed lid e)) = get_queue n e"
    and "\<And>t. t \<in> set ts \<Longrightarrow>
      (case get_queue t e of
         None \<Rightarrow> get_queue t (snd (publish_loop pb cnt mk persist ts i routed lid e)) = None
       | Some q \<Rightarrow> \<exists>q'. get_queue t (snd (publish_loop pb cnt mk persist ts i routed lid e)) = Some q' \<and> took pb q q')"
proof -
  have "(\<exists>lid'. fst (publish_loop pb cnt mk persist ts i routed lid e) =
      (lid', routed @ filter (\<lambda>t. get_queue t e \<noteq> None) ts,
       if routed @ filter (\<lambda>t. get_queue t e \<noteq> None) ts = [] then EnqNotFound else EnqOK)) \<and>
    (\<forall>n. n \<notin> set ts \<longrightarrow> get_queue n (snd (publish_loop pb cnt mk persist ts i routed lid e)) = get_queue n e) \<and>
    (\<forall>t \<in> set ts. (case get_queue t e of
         None \<Rightarrow> get_queue t (snd (publish_loop pb cnt mk persist ts i routed lid e)) = None
       | Some q \<Rightarrow> \<exists>q'. get_queue t (snd (publish_loop pb cnt mk persist ts i routed lid e)) = Some q' \<and> took pb q q'))"
    using assms
  proof (induction ts arbitrary: i routed lid e)
    case Nil
    then show ?case by simp
  next
    case (Cons t ts)
    let ?m = "publication_message pb cnt mk i t"
    let ?e1 = "snd (enqueue ?m persist e)"
    have nin: "t \<notin> set ts" "distinct ts" using Cons.prems(1) by simp_all
    show ?case
    proof (cases "get_queue t e")
      case None
      then have r: "enqueue ?m persist e = (EnqNotFound, e)" by (simp add: enqueue_def Let_def)
      have "\<forall>t \<in> set ts. \<forall>q. get_queue t e = Some q \<longrightarrow> \<not> over_limit q" using Cons.prems(2) by simp
      note ih = Cons.IH [OF nin(2) this, where i = "Suc i" and routed = routed and lid = lid]
      have unf: "publish_loop pb cnt mk persist (t # ts) i routed lid e =
          publish_loop pb cnt mk persist ts (Suc i) routed lid e"
        using r by (simp add: Let_def)
      show ?thesis unfolding unf using ih None nin(1) by simp
    next
      case (Some q)
      then have lim: "\<not> over_limit q" using Cons.prems(2) by simp
      have get: "get_queue (msg_queue ?m) e = Some q" using Some by simp
      have av: "\<And>u. available_at ?m = Some u \<Longrightarrow> u \<le> clock e (clock_ix e)" by simp
      note now = enqueue_now [OF get lim av, where persist = persist, simplified]
      have t: "get_queue t ?e1 = Some (q\<lparr>messages := dset (msg_id ?m) (?m\<lparr>available_at := None\<rparr>) (messages q),
            ready := heappush (ready q) (- pb_priority pb, seq e + 1, msg_id ?m),
            stats := (stats q)\<lparr>published := Suc (published (stats q))\<rparr>\<rparr>)"
        using now(2) by simp
      have others: "get_queue n ?e1 = get_queue n e" if "n \<noteq> t" for n using now(4) that by simp
      have same: "get_queue u ?e1 = get_queue u e" if "u \<in> set ts" for u
        using that nin(1) by (intro others) blast
      have "\<forall>u \<in> set ts. \<forall>q. get_queue u ?e1 = Some q \<longrightarrow> \<not> over_limit q"
        using Cons.prems(2) same by simp
      note ih = Cons.IH [OF nin(2) this, where i = "Suc i" and routed = "routed @ [t]" and lid = "msg_id ?m"]
      have flt: "filter (\<lambda>u. get_queue u ?e1 \<noteq> None) ts = filter (\<lambda>u. get_queue u e \<noteq> None) ts"
        using same by (intro filter_cong) simp_all
      have tk: "took pb q (q\<lparr>messages := dset (msg_id ?m) (?m\<lparr>available_at := None\<rparr>) (messages q),
            ready := heappush (ready q) (- pb_priority pb, seq e + 1, msg_id ?m),
            stats := (stats q)\<lparr>published := Suc (published (stats q))\<rparr>\<rparr>)"
        unfolding took_def by (intro exI [of _ "?m\<lparr>available_at := None\<rparr>"] exI [of _ "seq e + 1"]) simp
      have unf: "publish_loop pb cnt mk persist (t # ts) i routed lid e =
          publish_loop pb cnt mk persist ts (Suc i) (routed @ [t]) (msg_id ?m) ?e1"
        using now(1) by (simp add: Let_def case_prod_beta)
      have rest: "case get_queue u e of
           None \<Rightarrow> get_queue u (snd (publish_loop pb cnt mk persist ts (Suc i) (routed @ [t]) (msg_id ?m) ?e1)) = None
         | Some q \<Rightarrow> \<exists>q'. get_queue u (snd (publish_loop pb cnt mk persist ts (Suc i) (routed @ [t]) (msg_id ?m) ?e1)) = Some q' \<and> took pb q q'"
        if u: "u \<in> set ts" for u
        using bspec [OF ih [THEN conjunct2, THEN conjunct2] u] unfolding same [OF u] .
      have first: "get_queue t (snd (publish_loop pb cnt mk persist ts (Suc i) (routed @ [t]) (msg_id ?m) ?e1)) = get_queue t ?e1"
        using ih nin(1) by blast
      show ?thesis
        unfolding unf using ih rest first t tk Some others flt by auto
    qed
  qed
  then show "\<exists>lid'. fst (publish_loop pb cnt mk persist ts i routed lid e) =
      (lid', routed @ filter (\<lambda>t. get_queue t e \<noteq> None) ts,
       if routed @ filter (\<lambda>t. get_queue t e \<noteq> None) ts = [] then EnqNotFound else EnqOK)"
    and "\<And>n. n \<notin> set ts \<Longrightarrow> get_queue n (snd (publish_loop pb cnt mk persist ts i routed lid e)) = get_queue n e"
    and "\<And>t. t \<in> set ts \<Longrightarrow>
      (case get_queue t e of
         None \<Rightarrow> get_queue t (snd (publish_loop pb cnt mk persist ts i routed lid e)) = None
       | Some q \<Rightarrow> \<exists>q'. get_queue t (snd (publish_loop pb cnt mk persist ts i routed lid e)) = Some q' \<and> took pb q q')"
    by blast+
qed

text \<open>C17. A publication to a named exchange reaches every target once, when no target queue is full: the
  answer lists exactly the targets that exist as queues, each of them has one more message, ready,
  with the payload, headers, priority, attempts limit, exchange and key of the publication, every
  other queue and the routing tables are as they were, and the answer is \<open>NOT_FOUND\<close> exactly when no
  target exists.\<close>

theorem publish_reaches_targets:
  assumes "finite (bindings r)" "x \<noteq> ''''" "targets = route_targets x key r"
    "\<forall>t \<in> set targets. \<forall>q. get_queue t e = Some q \<longrightarrow> \<not> over_limit q"
    "pb = \<lparr>pb_payload = pl, pb_max_attempts = (if a = 0 then default_max_attempts e else a),
       pb_priority = prio, pb_headers = hdrs, pb_exchange = x, pb_key = key, pb_message_id = mid\<rparr>"
  shows "\<exists>mid' e'. publish pl (Some x) key queue (Some a) prio hdrs mid mk persist (r, e) =
      ((mid', filter (\<lambda>t. get_queue t e \<noteq> None) targets,
        if filter (\<lambda>t. get_queue t e \<noteq> None) targets = [] then EnqNotFound else EnqOK), r, e') \<and>
    (\<forall>t \<in> set targets. \<forall>q. get_queue t e = Some q \<longrightarrow> (\<exists>q'. get_queue t e' = Some q' \<and> took pb q q')) \<and>
    (\<forall>n. n \<notin> set targets \<longrightarrow> get_queue n e' = get_queue n e)"
proof (cases "targets = []")
  case True
  have "publish pl (Some x) key queue (Some a) prio hdrs mid mk persist (r, e) = (([], [], EnqNotFound), r, e)"
    using assms(2,3) True by (simp add: publish_def nonempty_def Let_def)
  then show ?thesis using True by simp
next
  case False
  have "x \<in> dkeys (exchanges r)"
    using False assms(3) by (cases "map_of (exchanges r) x") (auto simp: route_targets_def dkeys_iff simp del: image_iff)
  then have unf: "publish pl (Some x) key queue (Some a) prio hdrs mid mk persist (r, e) =
      (fst (publish_loop pb (length targets) mk persist targets 0 [] [] e), r,
       snd (publish_loop pb (length targets) mk persist targets 0 [] [] e))"
    using assms(2,3,5) False by (simp add: publish_def nonempty_def Let_def case_prod_beta del: image_iff)
  have "distinct targets" unfolding assms(3) by (simp add: route_targets_def split: option.split)
  note eff = publish_loop_effect [OF this assms(4), where pb = pb and cnt = "length targets" and mk = mk and
      persist = persist and i = 0 and routed = "[]" and lid = "[]"]
  obtain mid' where "fst (publish_loop pb (length targets) mk persist targets 0 [] [] e) =
      (mid', filter (\<lambda>t. get_queue t e \<noteq> None) targets,
       if filter (\<lambda>t. get_queue t e \<noteq> None) targets = [] then EnqNotFound else EnqOK)"
    using eff(1) unfolding append_Nil by blast
  moreover have "\<exists>q'. get_queue t (snd (publish_loop pb (length targets) mk persist targets 0 [] [] e)) = Some q' \<and> took pb q q'"
    if "t \<in> set targets" "get_queue t e = Some q" for t q
    using eff(3) [OF that(1)] that(2) by simp
  ultimately show ?thesis unfolding unf using eff(2) by blast
qed

definition demo_fanout :: routing where
  "demo_fanout = new_routing\<lparr>exchanges := exchanges new_routing @ [(''f'', \<lparr>ex_name = ''f'', ex_type = ''fanout'', ex_durable = True\<rparr>)],
     bindings := {\<lparr>b_exchange = ''f'', b_queue = ''jobs'', b_key = ''''\<rparr>}\<rparr>"

theorem publish_reaches_targets_witness:
  "fst (snd (fst (publish [1] (Some ''f'') '''' None (Some 0) 0 JNull None (\<lambda>i. (''u'', 0)) True (demo_fanout, demo_ready)))) = [''jobs'']"
proof -
  have t: "[''jobs''] = route_targets ''f'' '''' demo_fanout"
  proof -
    have "{b \<in> bindings demo_fanout. b_exchange b = ''f''} = {\<lparr>b_exchange = ''f'', b_queue = ''jobs'', b_key = ''''\<rparr>}"
      by (auto simp: demo_fanout_def)
    then show ?thesis
      by (simp add: route_targets_def demo_fanout_def new_routing_def DEFAULT_EXCHANGE_def del: Collect_conv_if)
  qed
  have o: "\<not> over_limit (demo_jobs demo_ready)" by code_simp
  have "\<forall>t \<in> set [''jobs'']. \<forall>q. get_queue t demo_ready = Some q \<longrightarrow> \<not> over_limit q" using o by auto
  moreover have "finite (bindings demo_fanout)" by (simp add: demo_fanout_def)
  moreover have "filter (\<lambda>t. get_queue t demo_ready \<noteq> None) [''jobs''] = [''jobs'']" using demo_queue(1) by auto
  ultimately show ?thesis
    using publish_reaches_targets [OF _ _ t, where e = demo_ready and pl = "[1]" and a = 0 and prio = 0 and
        hdrs = JNull and mid = None and queue = None and mk = "\<lambda>i. (''u'', 0)" and persist = True] by force
qed

text \<open>Publishing to a queue by its name works only while the default exchange has a binding for
  it: a queue that exists without one (declared by \<open>register\<close> for a consumer or \<open>GET\<close>, or unbound)
  answers \<open>NOT_FOUND\<close> and gets nothing, although the queue is there.\<close>

theorem publish_to_unbound_queue:
  assumes "get_queue n e \<noteq> None" "n \<noteq> ''''" "routing_ok r"
    "\<forall>b \<in> bindings r. \<not> (b_exchange b = DEFAULT_EXCHANGE \<and> b_key b = n)"
  shows "publish pl None '''' (Some n) ma prio hdrs mid mk persist (r, e) = (([], [], EnqNotFound), r, e)"
proof -
  have none: "{b \<in> bindings r. b_exchange b = DEFAULT_EXCHANGE \<and> b_key b = n} = {}" using assms(4) by blast
  have "route_targets DEFAULT_EXCHANGE n r = []"
    unfolding route_targets_def none using routing_ok_default [OF assms(3)] by simp
  then show ?thesis using assms(1,2) by (auto simp: publish_def nonempty_def Let_def)
qed

theorem publish_to_unbound_queue_witness:
  "publish [1] None '''' (Some ''jobs'') None 0 JNull None (\<lambda>i. (''u'', 0)) True (new_routing, demo_ready) =
     (([], [], EnqNotFound), new_routing, demo_ready)"
proof -
  have "get_queue ''jobs'' demo_ready \<noteq> None" using demo_queue(1) by blast
  then show ?thesis
    using publish_to_unbound_queue [where n = "''jobs''" and e = demo_ready, OF _ _ routing_ok_new]
    by (simp add: new_routing_def)
qed

lemma exchange_rec_eta [simp]:
  "\<lparr>ex_name = ex_name x, ex_type = ex_type x, ex_durable = ex_durable x\<rparr> = x"
  by (cases x) simp

lemma binding_eta [simp]:
  "\<lparr>b_exchange = b_exchange b, b_queue = b_queue b, b_key = b_key b\<rparr> = b"
  by (cases b) simp

lemma restore_exchanges_ok:
  assumes "dict_ok (exchanges r @ map (\<lambda>x. (ex_name x, x)) xs)"
    "\<forall>x \<in> set xs. ex_type x \<in> {''direct'', ''fanout''}"
  shows "restore_exchanges xs (r, e) =
    (Inr (), r\<lparr>exchanges := exchanges r @ map (\<lambda>x. (ex_name x, x)) xs\<rparr>, e)"
  using assms
proof (induction xs arbitrary: r)
  case (Cons x xs)
  have new: "ex_name x \<notin> dkeys (exchanges r)" using Cons.prems(1) by (auto simp: dict_ok_def)
  then have none: "map_of (exchanges r) (ex_name x) = None" by (simp only: map_of_eq_None_iff simp_thms)
  have "declare_exchange (ex_name x) (ex_type x) (ex_durable x) False (r, e) =
      (Inr x, r\<lparr>exchanges := exchanges r @ [(ex_name x, x)]\<rparr>, e)"
    using none Cons.prems(2) dset_new [OF new, of x]
    by (auto simp: declare_exchange_def new_exchange_def journal_append_def)
  then show ?case
    using Cons.IH [of "r\<lparr>exchanges := exchanges r @ [(ex_name x, x)]\<rparr>"] Cons.prems by simp
qed simp

lemma restore_bindings:
  assumes "\<forall>b \<in> set bs. b_exchange b \<in> dkeys (exchanges r)"
  shows "fold restore_binding bs (r, e) =
    (r\<lparr>bindings := bindings r \<union> {b \<in> set bs. get_queue (b_queue b) e \<noteq> None}\<rparr>, e)"
  using assms
proof (induction bs arbitrary: r)
  case (Cons b bs)
  have one: "restore_binding b (r, e) =
      (if get_queue (b_queue b) e = None then r else r\<lparr>bindings := insert b (bindings r)\<rparr>, e)"
    using Cons.prems by (simp add: restore_binding_def bind_queue_def journal_append_def del: image_iff)
  show ?case
  proof (cases "get_queue (b_queue b) e")
    case None
    have "{x \<in> set (b # bs). get_queue (b_queue x) e \<noteq> None} = {x \<in> set bs. get_queue (b_queue x) e \<noteq> None}"
      using None by auto
    then show ?thesis using Cons.IH [of r] Cons.prems one None by simp
  next
    case (Some q)
    have "bindings r \<union> {x \<in> set (b # bs). get_queue (b_queue x) e \<noteq> None} =
        insert b (bindings r) \<union> {x \<in> set bs. get_queue (b_queue x) e \<noteq> None}" using Some by auto
    then show ?thesis using Cons.IH [of "r\<lparr>bindings := insert b (bindings r)\<rparr>"] Cons.prems one Some by simp
  qed
qed simp

lemma routing_restore_ok:
  assumes ok: "routing_ok r" and ord: "set (order (bindings r)) = bindings r"
  shows "routing_restore (routing_snapshot order r) (r', e') =
    (Inr (), r\<lparr>bindings := {b \<in> bindings r. get_queue (b_queue b) e' \<noteq> None}\<rparr>, e')"
proof -
  obtain xs where xs: "exchanges r = exchanges new_routing @ xs" using ok by (auto simp: routing_ok_def)
  have named: "map (\<lambda>x. (ex_name x, x)) (map (\<lambda>(n, x). x) (exchanges r)) = exchanges r"
  proof -
    have "ex_name x = n" if "(n, x) \<in> set (exchanges r)" for n x
      using in_set_map_of [OF _ that] ok by (auto simp: routing_ok_def)
    then show ?thesis by (auto intro!: map_idI)
  qed
  let ?d = "\<lparr>ex_name = DEFAULT_EXCHANGE, ex_type = ''direct'', ex_durable = True\<rparr>"
  let ?xs = "map (\<lambda>(n, x). x) xs"
  have all: "map (\<lambda>(n, x). x) (exchanges r) = ?d # ?xs" by (simp add: xs new_routing_def)
  have named': "exchanges new_routing @ map (\<lambda>x. (ex_name x, x)) ?xs = exchanges r"
    using named unfolding all by (simp add: xs new_routing_def)
  have types: "\<forall>x \<in> set ?xs. ex_type x \<in> {''direct'', ''fanout''}"
  proof
    fix x assume "x \<in> set ?xs"
    then obtain n where "(n, x) \<in> set (exchanges r)" by (auto simp: xs)
    then show "ex_type x \<in> {''direct'', ''fanout''}" using in_set_map_of ok unfolding routing_ok_def by metis
  qed
  have "restore_exchanges (?d # ?xs) (new_routing, e') = restore_exchanges ?xs (new_routing, e')"
    by (simp add: declare_exchange_def new_routing_def)
  also have "\<dots> = (Inr (), new_routing\<lparr>exchanges := exchanges r\<rparr>, e')"
    using restore_exchanges_ok [of new_routing ?xs e', unfolded named'] types ok by (simp add: routing_ok_def)
  finally have ex: "restore_exchanges (map (\<lambda>(n, x). x) (exchanges r)) (new_routing, e') =
      (Inr (), new_routing\<lparr>exchanges := exchanges r\<rparr>, e')" unfolding all .
  have "\<forall>b \<in> set (order (bindings r)). b_exchange b \<in> dkeys (exchanges (new_routing\<lparr>exchanges := exchanges r\<rparr>))"
    using ok ord by (simp add: routing_ok_def)
  from restore_bindings [OF this, of e'] ex ord
  show ?thesis by (simp add: routing_restore_def routing_snapshot_def new_routing_def)
qed

text \<open>The routing tables survive a restart: restoring the snapshot of a reachable broker over its
  restored queues gives the same exchanges in the same order and, whatever the order in which the
  snapshot lists them, the bindings of the queues that exist.\<close>

theorem routing_restore_roundtrip:
  assumes "reachable_routing (r, e)" "set (order (bindings r)) = bindings r"
  shows "routing_restore (routing_snapshot order r) (r', e') =
    (Inr (), r\<lparr>bindings := {b \<in> bindings r. get_queue (b_queue b) e' \<noteq> None}\<rparr>, e')"
  using routing.reach_safe [OF assms(1)] assms(2) by (intro routing_restore_ok) simp_all

theorem routing_restore_roundtrip_witness:
  "routing_restore (routing_snapshot (\<lambda>B. [\<lparr>b_exchange = '''', b_queue = ''jobs'', b_key = ''jobs''\<rparr>]) demo_routing) (new_routing, demo_ready) =
     (Inr (), demo_routing, demo_ready)"
proof -
  obtain q where q: "get_queue ''jobs'' demo_ready = Some q" using demo_queue(1) by blast
  have b: "bindings demo_routing = {\<lparr>b_exchange = '''', b_queue = ''jobs'', b_key = ''jobs''\<rparr>}"
    using q by (simp add: demo_routing_def bind_queue_def new_routing_def DEFAULT_EXCHANGE_def)
  have k: "{b \<in> bindings demo_routing. get_queue (b_queue b) demo_ready \<noteq> None} = bindings demo_routing"
    using b q by auto
  have "set [\<lparr>b_exchange = '''', b_queue = ''jobs'', b_key = ''jobs''\<rparr>] = bindings demo_routing" using b by simp
  from routing_restore_roundtrip [OF demo_routing_reachable, of "\<lambda>B. [\<lparr>b_exchange = '''', b_queue = ''jobs'', b_key = ''jobs''\<rparr>]", OF this, of new_routing demo_ready] k
  show ?thesis by simp
qed

end
