(* ===== verification/Bytes.thy ===== *)
theory Bytes
  imports Machine
begin

text \<open>
  The parts of Python's \<open>struct\<close> and \<open>zlib\<close> the broker uses for its wire frames, its append-only file
  and its snapshot: big-endian unsigned fields with their range checks, and the CRC-32 checksum, with
  what the codecs rest on: packing and unpacking are inverse to each other, and the checksum of two
  byte strings that differ in one byte differs. The locale \<open>record_codec\<close> is the contract between a
  codec of self-delimiting records and a loop that reads them off a buffer; \<open>Frames\<close> and \<open>Records\<close>
  interpret it for the two codecs of the broker.
\<close>

section \<open>Unsigned big-endian fields\<close>

fun be :: "nat \<Rightarrow> nat \<Rightarrow> bytes" where
  "be 0 v = []"
| "be (Suc n) v = be n (v div 256) @ [of_nat v]"

definition unbe :: "bytes \<Rightarrow> nat" where
  "unbe bs = foldl (\<lambda>a b. a * 256 + unat b) 0 bs"

lemma length_be [simp]: "length (be n v) = n"
  by (induction n arbitrary: v) auto

lemma unbe_Nil [simp]: "unbe [] = 0"
  by (simp add: unbe_def)

lemma unbe_snoc [simp]: "unbe (bs @ [b]) = unbe bs * 256 + unat b"
  by (simp add: unbe_def)

lemma unat_of_nat_byte: "unat (of_nat v :: byte) = v mod 256"
  by (simp add: unat_of_nat take_bit_eq_mod)

lemma byte_less: "unat (b :: byte) < 256"
  using unsigned_less [of b, where ?'a = nat] by simp

lemma unbe_be: "unbe (be n v) = v mod 256 ^ n"
proof (induction n arbitrary: v)
  case (Suc n)
  have "unbe (be (Suc n) v) = (v div 256) mod 256 ^ n * 256 + v mod 256"
    by (simp add: Suc unat_of_nat_byte)
  also have "\<dots> = v mod (256 * 256 ^ n)" by (simp add: mod_mult2_eq)
  finally show ?case by simp
qed simp

lemma unbe_be_small [simp]: "v < 256 ^ n \<Longrightarrow> unbe (be n v) = v"
  by (simp add: unbe_be)

lemma unbe_less: "unbe bs < 256 ^ length bs"
proof (induction bs rule: rev_induct)
  case (snoc b bs)
  have "unat b < 256" by (rule byte_less)
  then have "unbe (bs @ [b]) < unbe bs * 256 + 256" by simp
  also have "\<dots> \<le> 256 ^ length bs * 256" using snoc by linarith
  finally show ?case by (simp add: mult.commute)
qed simp

lemma be_unbe [simp]: "be (length bs) (unbe bs) = bs"
proof (induction bs rule: rev_induct)
  case (snoc b bs)
  have small: "unat b < 256" by (rule byte_less)
  have "(unbe bs * 256 + unat b) div 256 = unbe bs" using small by simp
  moreover have "(of_nat (unbe bs * 256 + unat b) :: byte) = b"
  proof -
    have "(256 :: byte) = 0" by simp
    then show ?thesis by (simp only: of_nat_add of_nat_mult of_nat_numeral mult_zero_right add_0_left) simp
  qed
  ultimately show ?case using snoc by simp
qed simp

declare be.simps [simp del]

text \<open>\<open>struct.pack\<close> of a sequence of unsigned fields, each with its width in bytes, and
  \<open>struct.unpack\<close>.\<close>

fun pack_fields :: "(nat \<times> int) list \<Rightarrow> py_error + bytes" where
  "pack_fields [] = Inr []"
| "pack_fields ((n, v) # fs) =
     (if 0 \<le> v \<and> v < 256 ^ n
      then (case pack_fields fs of Inl err \<Rightarrow> Inl err | Inr bs \<Rightarrow> Inr (be n (nat v) @ bs))
      else Inl StructError)"

fun unpack_fields :: "nat list \<Rightarrow> bytes \<Rightarrow> int list" where
  "unpack_fields [] bs = []"
| "unpack_fields (n # ns) bs = int (unbe (take n bs)) # unpack_fields ns (drop n bs)"

definition fields_ok :: "(nat \<times> int) list \<Rightarrow> bool" where
  "fields_ok fs \<longleftrightarrow> (\<forall>(n, v) \<in> set fs. 0 \<le> v \<and> v < 256 ^ n)"

lemma pack_fields_ok: "fields_ok fs \<Longrightarrow> pack_fields fs = Inr (concat (map (\<lambda>(n, v). be n (nat v)) fs))"
  by (induction fs) (auto simp: fields_ok_def)

lemma pack_fields_error: "\<not> fields_ok fs \<Longrightarrow> pack_fields fs = Inl StructError"
proof (induction fs)
  case (Cons f fs)
  obtain n v where "f = (n, v)" by fastforce
  then show ?case using Cons by (cases "0 \<le> v \<and> v < 256 ^ n") (auto simp: fields_ok_def)
qed (simp add: fields_ok_def)

lemma length_packed [simp]: "length (concat (map (\<lambda>(n, v). be n (nat v)) fs)) = sum_list (map fst fs)"
  by (induction fs) auto

lemma unpack_packed:
  "fields_ok fs \<Longrightarrow>
   unpack_fields (map fst fs) (concat (map (\<lambda>(n, v). be n (nat v)) fs) @ r) = map snd fs"
proof (induction fs)
  case (Cons f fs)
  obtain n v where f: "f = (n, v)" by fastforce
  have v: "0 \<le> v" "v < 256 ^ n" and ok: "fields_ok fs" using Cons.prems f by (auto simp: fields_ok_def)
  have "nat v < 256 ^ n" using v by (simp add: nat_less_iff)
  then show ?case using Cons.IH [OF ok] v by (simp add: f)
qed simp

lemma fields_ok_unpacked:
  "sum_list ns \<le> length bs \<Longrightarrow> fields_ok (zip ns (unpack_fields ns bs))"
proof (induction ns arbitrary: bs)
  case (Cons n ns)
  have "unbe (take n bs) < 256 ^ length (take n bs)" by (rule unbe_less)
  moreover have "length (take n bs) = n" using Cons.prems by simp
  ultimately have "int (unbe (take n bs)) < 256 ^ n" by (simp only: flip: of_nat_power) simp
  then show ?case using Cons.IH [of "drop n bs"] Cons.prems by (simp add: fields_ok_def)
qed (simp add: fields_ok_def)

lemma pack_unpacked:
  "sum_list ns = length bs \<Longrightarrow>
   concat (map (\<lambda>(n, v). be n (nat v)) (zip ns (unpack_fields ns bs))) = bs"
proof (induction ns arbitrary: bs)
  case (Cons n ns)
  have "length (take n bs) = n" using Cons.prems by simp
  then have "be n (unbe (take n bs)) = take n bs" using be_unbe [of "take n bs"] by simp
  then show ?case using Cons.IH [of "drop n bs"] Cons.prems by simp
qed simp

section \<open>CRC-32\<close>

text \<open>\<open>zlib.crc32\<close>: the reflected polynomial \<open>0xEDB88320\<close>, one bit at a time.\<close>

definition crc_bit :: "32 word \<Rightarrow> 32 word" where
  "crc_bit c = (if bit c 0 then xor (drop_bit 1 c) 0xEDB88320 else drop_bit 1 c)"

definition crc_byte :: "32 word \<Rightarrow> byte \<Rightarrow> 32 word" where
  "crc_byte c b = (crc_bit ^^ 8) (xor c (ucast b))"

definition crc32 :: "bytes \<Rightarrow> 32 word" where
  "crc32 bs = not (foldl crc_byte (not 0) bs)"

lemma crc32_check_value:
  "crc32 [0x61] = 0xE8B7BE43"
  by code_simp

lemma crc_bit_top: "bit (crc_bit c) 31 = bit c 0"
proof -
  have "\<not> bit c 32" using bit_imp_le_length [of c 32] by auto
  then show ?thesis by (simp add: crc_bit_def bit_xor_iff bit_drop_bit_eq)
qed

lemma crc_bit_inj: "crc_bit c = crc_bit c' \<Longrightarrow> c = c'"
proof -
  assume eq: "crc_bit c = crc_bit c'"
  have low: "bit c 0 = bit c' 0" using crc_bit_top [of c] crc_bit_top [of c'] eq by simp
  have "drop_bit 1 c = drop_bit 1 c'"
  proof (cases "bit c 0")
    case True
    then have "xor (xor (drop_bit 1 c) 0xEDB88320) 0xEDB88320 = xor (xor (drop_bit 1 c') 0xEDB88320) (0xEDB88320 :: 32 word)"
      using eq low unfolding crc_bit_def by simp
    then show ?thesis by (simp only: xor.assoc xor_self_eq xor.right_neutral)
  next
    case False
    then show ?thesis using eq low by (simp add: crc_bit_def)
  qed
  then have high: "bit c (Suc n) = bit c' (Suc n)" for n
    by (metis bit_drop_bit_eq plus_1_eq_Suc comp_apply)
  show "c = c'"
  proof (rule bit_eqI)
    fix n show "bit c n = bit c' n" using low high by (cases n) simp_all
  qed
qed

lemma crc_bits_inj: "(crc_bit ^^ n) c = (crc_bit ^^ n) c' \<Longrightarrow> c = c'"
  by (induction n arbitrary: c c') (auto dest: crc_bit_inj)

lemma crc_byte_inj_state: "crc_byte c b = crc_byte c' b \<Longrightarrow> c = c'"
proof -
  assume "crc_byte c b = crc_byte c' b"
  then have "xor c (ucast b) = xor c' (ucast b :: 32 word)" unfolding crc_byte_def by (rule crc_bits_inj)
  then have "xor (xor c (ucast b)) (ucast b) = xor (xor c' (ucast b)) (ucast b :: 32 word)" by simp
  then show "c = c'" by (simp only: xor.assoc xor_self_eq xor.right_neutral)
qed

lemma crc_byte_inj_byte: "crc_byte c b = crc_byte c b' \<Longrightarrow> b = b'"
proof -
  assume "crc_byte c b = crc_byte c b'"
  then have "xor c (ucast b) = xor c (ucast b' :: 32 word)" unfolding crc_byte_def by (rule crc_bits_inj)
  then have "xor c (xor c (ucast b)) = xor c (xor c (ucast b' :: 32 word))" by simp
  then have "(ucast b :: 32 word) = ucast b'"
    by (simp only: xor.assoc [symmetric] xor_self_eq xor.left_neutral)
  then have "bit (ucast b :: 32 word) n = bit (ucast b' :: 32 word) n" for n by (rule arg_cong)
  then have low: "(n < 32 \<and> bit b n) = (n < 32 \<and> bit b' n)" for n by (simp add: bit_ucast_iff)
  have "bit b n = bit b' n" if "n < 8" for n using low [of n] that by simp
  then show "b = b'" by (auto intro: bit_word_eqI)
qed

lemma crc_fold_inj: "foldl crc_byte c bs = foldl crc_byte c' bs \<Longrightarrow> c = c'"
  by (induction bs arbitrary: c c') (auto dest: crc_byte_inj_state)

text \<open>One changed byte always changes the checksum.\<close>

lemma crc32_detects: "crc32 (xs @ b # ys) = crc32 (xs @ b' # ys) \<longleftrightarrow> b = b'"
proof
  assume "crc32 (xs @ b # ys) = crc32 (xs @ b' # ys)"
  then have "foldl crc_byte (crc_byte (foldl crc_byte (not 0) xs) b) ys =
             foldl crc_byte (crc_byte (foldl crc_byte (not 0) xs) b') ys"
    by (simp add: crc32_def)
  then show "b = b'" by (blast dest: crc_fold_inj crc_byte_inj_byte)
qed simp

lemma crc32_update: "i < length bs \<Longrightarrow> crc32 (bs[i := b]) = crc32 bs \<longleftrightarrow> b = bs ! i"
  by (metis crc32_detects id_take_nth_drop upd_conv_take_nth_drop)

section \<open>Self-delimiting records\<close>

text \<open>\<open>enc\<close> writes a record, \<open>dec\<close> reads one off the front of a buffer: it fails, asks for more bytes
  (\<open>None\<close>) or gives the record and the number of its bytes. \<open>go\<close> is a loop that reads records until it
  needs more bytes (\<open>done\<close>), carrying a state that \<open>push\<close> extends by each record.\<close>

locale record_codec =
  fixes valid :: "'a \<Rightarrow> bool" and enc :: "'a \<Rightarrow> bytes"
    and dec :: "bytes \<Rightarrow> 'e + ('a \<times> nat) option"
    and push :: "'a \<Rightarrow> nat \<Rightarrow> 's \<Rightarrow> 's" and go :: "'s \<Rightarrow> bytes \<Rightarrow> 'r" and finish :: "'s \<Rightarrow> bytes \<Rightarrow> 'r"
  assumes dec_enc: "valid x \<Longrightarrow> dec (enc x @ r) = Inr (Some (x, length (enc x)))"
    and dec_prefix: "valid x \<Longrightarrow> enc x = p @ q \<Longrightarrow> q \<noteq> [] \<Longrightarrow> dec p = Inr None"
    and dec_more: "dec bs = Inr (Some (x, n)) \<Longrightarrow> 0 < n \<and> n \<le> length bs \<and> dec (bs @ r) = Inr (Some (x, n))"
    and dec_fail: "dec bs = Inl e \<Longrightarrow> dec (bs @ r) = Inl e"
    and go_some: "dec bs = Inr (Some (x, n)) \<Longrightarrow> go s bs = go (push x n s) (drop n bs)"
    and go_none: "dec bs = Inr None \<Longrightarrow> go s bs = finish s bs"
begin

lemma dec_cases:
  obtains (item) x n where "dec bs = Inr (Some (x, n))" | (wait) "dec bs = Inr None"
    | (bad) e where "dec bs = Inl e"
proof (cases "dec bs")
  case (Inr r)
  then show ?thesis using item wait by (cases r) auto
qed (rule bad)

definition push_all :: "'a list \<Rightarrow> 's \<Rightarrow> 's" where
  "push_all xs s = fold (\<lambda>x. push x (length (enc x))) xs s"

lemma go_written:
  "\<forall>x \<in> set xs. valid x \<Longrightarrow> go s (concat (map enc xs) @ r) = go (push_all xs s) r"
proof (induction xs arbitrary: s)
  case (Cons x xs)
  then show ?case using go_some [OF dec_enc, where s = s] by (simp add: push_all_def)
qed (simp add: push_all_def)

lemma go_torn:
  assumes "\<forall>x \<in> set xs. valid x" "valid x" "enc x = p @ q" "q \<noteq> []"
  shows "go s (concat (map enc xs) @ p) = finish (push_all xs s) p"
  using go_written [OF assms(1)] go_none [OF dec_prefix [OF assms(2-4)]] by simp

text \<open>Bytes that arrive later are read as if they had been there from the start.\<close>

lemma go_split:
  "\<exists>s' a'. go s a = go s' a' \<and> go s (a @ b) = go s' (a' @ b) \<and> (dec a' = Inr None \<or> (\<exists>e. dec a' = Inl e))"
proof (induction "length a" arbitrary: a s rule: less_induct)
  case less
  show ?case
  proof (cases "\<exists>x n. dec a = Inr (Some (x, n))")
    case True
    then obtain x n where some: "dec a = Inr (Some (x, n))" by blast
    have n: "0 < n" "n \<le> length a" and more: "dec (a @ b) = Inr (Some (x, n))"
      using dec_more [OF some, of b] by auto
    have "length (drop n a) < length a" using n by simp
    from less [OF this, of "push x n s"] show ?thesis
      using go_some [OF some, of s] go_some [OF more, of s] n by simp
  next
    case False
    then have "dec a = Inr None \<or> (\<exists>e. dec a = Inl e)"
      by (cases rule: dec_cases [of a]) auto
    then show ?thesis by blast
  qed
qed

end

text \<open>A codec is canonical when what it reads is exactly what it would have written.\<close>

locale canonical_codec = record_codec +
  assumes dec_canonical: "dec bs = Inr (Some (x, n)) \<Longrightarrow> valid x \<and> enc x = take n bs"
begin

text \<open>The loop cuts a buffer into the written forms of valid records and a rest that does not start
  with one.\<close>

lemma go_cuts:
  "\<exists>xs rest. (\<forall>x \<in> set xs. valid x) \<and> bs = concat (map enc xs) @ rest \<and>
     go s bs = go (push_all xs s) rest \<and> (dec rest = Inr None \<or> (\<exists>e. dec rest = Inl e))"
proof (induction "length bs" arbitrary: bs s rule: less_induct)
  case less
  show ?case
  proof (cases "\<exists>x n. dec bs = Inr (Some (x, n))")
    case True
    then obtain x n where some: "dec bs = Inr (Some (x, n))" by blast
    have n: "0 < n" "n \<le> length bs" using dec_more [OF some] by auto
    have "length (drop n bs) < length bs" using n by simp
    from less [OF this, of "push x n s"] obtain xs rest where
      IH: "\<forall>x \<in> set xs. valid x" "drop n bs = concat (map enc xs) @ rest"
      "go (push x n s) (drop n bs) = go (push_all xs (push x n s)) rest"
      "dec rest = Inr None \<or> (\<exists>e. dec rest = Inl e)" by blast
    have enc: "valid x" "enc x = take n bs" using dec_canonical [OF some] by auto
    have "bs = concat (map enc (x # xs)) @ rest" using enc IH(2) append_take_drop_id [of n bs] by simp
    moreover have "go s bs = go (push_all (x # xs) s) rest"
      using go_some [OF some, of s] IH(3) enc n by (simp add: push_all_def min_def)
    ultimately show ?thesis using IH(1,4) enc(1) by (metis set_ConsD)
  next
    case False
    then have "dec bs = Inr None \<or> (\<exists>e. dec bs = Inl e)"
      by (cases rule: dec_cases [of bs]) auto
    then show ?thesis by (intro exI [of _ "[]"] exI [of _ bs]) (simp add: push_all_def)
  qed
qed

end

end
