(* ===== verification/Frames.thy ===== *)
theory Frames
  imports Bytes
begin

text \<open>
  \<open>protocol/frames.py\<close>, \<open>protocol/codec.py\<close> and \<open>ProtocolError\<close>: the binary frames of the wire
  protocol, the incremental reader that takes them off a byte stream, and the JSON metadata on top.

  The fields of a frame are Python integers; \<open>struct\<close> raises for one that does not fit its field.
  \<open>json.dumps\<close> (with the encoding to UTF-8) and \<open>json.loads\<close> are the parameters \<open>dumps\<close> and \<open>loads\<close>
  of the codec; \<open>loads\<close> gives \<open>None\<close> for \<open>UnicodeDecodeError\<close> and \<open>JSONDecodeError\<close>.
\<close>

section \<open>Frames\<close>

record protocol_error =
  err_code :: string
  err_message :: string

record frame =
  fr_type :: int
  fr_request :: int
  fr_meta :: bytes
  fr_payload :: bytes
  fr_flags :: int
  fr_version :: int

definition MAGIC :: bytes where
  "MAGIC = [0x4F, 0x4F, 0x42, 0x31]"

definition FRAME_VERSION :: int where "FRAME_VERSION = 1"
definition HEADER_SIZE :: nat where "HEADER_SIZE = 28"
definition FRAME_COMMAND :: int where "FRAME_COMMAND = 1"
definition FRAME_RESPONSE :: int where "FRAME_RESPONSE = 2"
definition FRAME_EVENT :: int where "FRAME_EVENT = 3"
definition FRAME_HEARTBEAT :: int where "FRAME_HEARTBEAT = 4"

definition is_command :: "frame \<Rightarrow> bool" where "is_command f \<longleftrightarrow> fr_type f = FRAME_COMMAND"
definition is_response :: "frame \<Rightarrow> bool" where "is_response f \<longleftrightarrow> fr_type f = FRAME_RESPONSE"
definition is_event :: "frame \<Rightarrow> bool" where "is_event f \<longleftrightarrow> fr_type f = FRAME_EVENT"

definition header_widths :: "nat list" where
  "header_widths = [1, 1, 2, 8, 4, 4, 4]"

definition pack_header :: "int \<Rightarrow> int \<Rightarrow> int \<Rightarrow> int \<Rightarrow> int \<Rightarrow> int \<Rightarrow> int \<Rightarrow> py_error + bytes" where
  "pack_header ver ty flags rid ml pl crc =
     (case pack_fields (zip header_widths [ver, ty, flags, rid, ml, pl, crc]) of
        Inl err \<Rightarrow> Inl err | Inr bs \<Rightarrow> Inr (MAGIC @ bs))"

definition frame_crc :: "bytes \<Rightarrow> bytes \<Rightarrow> bytes \<Rightarrow> int" where
  "frame_crc header24 meta pl = uint (crc32 (header24 @ meta @ pl))"

definition encode_frame :: "frame \<Rightarrow> py_error + bytes" where
  "encode_frame f =
     (let meta = fr_meta f; pl = fr_payload f;
          pack = pack_header (fr_version f) (fr_type f) (fr_flags f) (fr_request f)
                   (int (length meta)) (int (length pl))
      in case pack 0 of
           Inl err \<Rightarrow> Inl err
         | Inr h \<Rightarrow>
             (case pack (frame_crc (take 24 h) meta pl) of
                Inl err \<Rightarrow> Inl err
              | Inr header \<Rightarrow> Inr (header @ meta @ pl)))"

definition protocol_exc :: "string \<Rightarrow> string \<Rightarrow> protocol_error" where
  "protocol_exc code msg = \<lparr>err_code = code, err_message = (if msg = [] then code else msg)\<rparr>"

definition decode_header :: "bytes \<Rightarrow> protocol_error + int \<times> int \<times> int \<times> int \<times> int \<times> int \<times> int" where
  "decode_header header =
     (if length header < HEADER_SIZE then Inl (protocol_exc ''INVALID_FRAME'' ''truncated header'')
      else
        (case unpack_fields header_widths (drop 4 header) of
           [ver, ty, flags, rid, ml, pl, crc] \<Rightarrow>
             if take 4 header \<noteq> MAGIC then Inl (protocol_exc ''INVALID_FRAME'' ''bad magic'')
             else if ver \<noteq> FRAME_VERSION then Inl (protocol_exc ''INVALID_FRAME'' ''unsupported version'')
             else Inr (ty, flags, rid, ml, pl, crc, ver)))"

section \<open>The reader\<close>

record reader =
  max_frame_size :: int
  rd_buf :: bytes
  closed_error :: "protocol_error option"

definition new_reader :: "int \<Rightarrow> reader" where
  "new_reader mx = \<lparr>max_frame_size = mx, rd_buf = [], closed_error = None\<rparr>"

definition try_one :: "reader \<Rightarrow> (protocol_error + frame option) \<times> reader" where
  "try_one r =
     (let buf = rd_buf r in
      if length buf < HEADER_SIZE then (Inr None, r)
      else
        (case decode_header (take HEADER_SIZE buf) of
           Inl exc \<Rightarrow> (Inl exc, r\<lparr>closed_error := Some exc\<rparr>)
         | Inr (ty, flags, rid, ml, pl, crc, ver) \<Rightarrow>
             let size = int HEADER_SIZE + ml + pl in
             if size > max_frame_size r \<or> ml < 0 \<or> pl < 0
             then (let err = protocol_exc ''FRAME_TOO_LARGE'' ''frame exceeds max_frame_size''
                   in (Inl err, r\<lparr>closed_error := Some err\<rparr>))
             else if int (length buf) < size then (Inr None, r)
             else
               (let raw = take (nat size) buf;
                    r1 = r\<lparr>rd_buf := drop (nat size) buf\<rparr>;
                    meta = take (nat ml) (drop HEADER_SIZE raw);
                    payload = drop (HEADER_SIZE + nat ml) raw
                in if frame_crc (take 24 raw) meta payload \<noteq> crc
                   then (let err = protocol_exc ''INVALID_FRAME'' ''checksum mismatch''
                         in (Inl err, r1\<lparr>closed_error := Some err\<rparr>))
                   else (Inr (Some \<lparr>fr_type = ty, fr_request = rid, fr_meta = meta, fr_payload = payload,
                                    fr_flags = flags, fr_version = ver\<rparr>), r1))))"

lemma unpack_header:
  "unpack_fields header_widths bs =
     [int (unbe (take 1 bs)), int (unbe (take 1 (drop 1 bs))), int (unbe (take 2 (drop 2 bs))),
      int (unbe (take 8 (drop 4 bs))), int (unbe (take 4 (drop 12 bs))), int (unbe (take 4 (drop 16 bs))),
      int (unbe (take 4 (drop 20 bs)))]"
  by (simp add: header_widths_def flip: numeral_2_eq_2)

lemma decode_header_lengths:
  assumes "decode_header h = Inr (ty, flags, rid, ml, pl, crc, ver)"
  obtains m p where "ml = int m" "pl = int p" "HEADER_SIZE \<le> length h"
  using assms by (auto simp: decode_header_def unpack_header split: if_splits)

lemma try_one_short: "length (rd_buf r) < HEADER_SIZE \<Longrightarrow> try_one r = (Inr None, r)"
  by (simp add: try_one_def)

lemma try_one_bad:
  "HEADER_SIZE \<le> length (rd_buf r) \<Longrightarrow> decode_header (take HEADER_SIZE (rd_buf r)) = Inl exc \<Longrightarrow>
   try_one r = (Inl exc, r\<lparr>closed_error := Some exc\<rparr>)"
  by (simp add: try_one_def)

text \<open>The reader on a buffer with a good header, with the lengths as natural numbers.\<close>

lemma try_one_good:
  assumes "HEADER_SIZE \<le> length (rd_buf r)"
    "decode_header (take HEADER_SIZE (rd_buf r)) = Inr (ty, flags, rid, int m, int p, crc, ver)"
  shows "try_one r =
    (let too_large = protocol_exc ''FRAME_TOO_LARGE'' ''frame exceeds max_frame_size'';
         mismatch = protocol_exc ''INVALID_FRAME'' ''checksum mismatch'';
         size = HEADER_SIZE + m + p;
         meta = take m (drop HEADER_SIZE (rd_buf r));
         payload = take p (drop (HEADER_SIZE + m) (rd_buf r));
         r1 = r\<lparr>rd_buf := drop size (rd_buf r)\<rparr>
     in if max_frame_size r < int size then (Inl too_large, r\<lparr>closed_error := Some too_large\<rparr>)
        else if length (rd_buf r) < size then (Inr None, r)
        else if frame_crc (take 24 (rd_buf r)) meta payload \<noteq> crc
             then (Inl mismatch, r1\<lparr>closed_error := Some mismatch\<rparr>)
        else (Inr (Some \<lparr>fr_type = ty, fr_request = rid, fr_meta = meta, fr_payload = payload,
                         fr_flags = flags, fr_version = ver\<rparr>), r1))"
proof -
  have size: "nat (int HEADER_SIZE + int m + int p) = HEADER_SIZE + m + p" by simp
  have slices: "take m (drop HEADER_SIZE (take (HEADER_SIZE + m + p) (rd_buf r))) = take m (drop HEADER_SIZE (rd_buf r))"
    "drop (HEADER_SIZE + m) (take (HEADER_SIZE + m + p) (rd_buf r)) = take p (drop (HEADER_SIZE + m) (rd_buf r))"
    "take 24 (take (HEADER_SIZE + m + p) (rd_buf r)) = take 24 (rd_buf r)"
    by (simp_all add: drop_take HEADER_SIZE_def min_def)
  have "min 24 (HEADER_SIZE + m + p) = 24" by (simp add: HEADER_SIZE_def)
  then show ?thesis
    using assms unfolding try_one_def
    by (simp add: Let_def size slices del: drop_take take_drop)
qed

lemma try_one_someE:
  assumes "try_one r = (Inr (Some f), r')"
  obtains ty flags rid m p crc ver where
    "decode_header (take HEADER_SIZE (rd_buf r)) = Inr (ty, flags, rid, int m, int p, crc, ver)"
    "HEADER_SIZE + m + p \<le> length (rd_buf r)" "int (HEADER_SIZE + m + p) \<le> max_frame_size r"
    "f = \<lparr>fr_type = ty, fr_request = rid, fr_meta = take m (drop HEADER_SIZE (rd_buf r)),
          fr_payload = take p (drop (HEADER_SIZE + m) (rd_buf r)), fr_flags = flags, fr_version = ver\<rparr>"
    "frame_crc (take 24 (rd_buf r)) (fr_meta f) (fr_payload f) = crc"
    "r' = r\<lparr>rd_buf := drop (HEADER_SIZE + m + p) (rd_buf r)\<rparr>"
proof -
  have len: "HEADER_SIZE \<le> length (rd_buf r)"
    using assms try_one_short [of r] by (cases "length (rd_buf r) < HEADER_SIZE") auto
  show ?thesis
  proof (cases "decode_header (take HEADER_SIZE (rd_buf r))")
    case (Inl exc)
    then show ?thesis using try_one_bad [OF len Inl] assms by simp
  next
    case (Inr h)
    obtain ty flags rid ml pl crc ver where h: "h = (ty, flags, rid, ml, pl, crc, ver)" by (metis surj_pair)
    obtain m p where mp: "ml = int m" "pl = int p" using decode_header_lengths [OF Inr [unfolded h]] by metis
    note good = try_one_good [OF len Inr [unfolded h mp]]
    show ?thesis
      using assms unfolding good
      by (intro that [OF Inr [unfolded h mp]]) (auto simp: Let_def split: if_splits)
  qed
qed

lemma try_one_shrinks: "try_one r = (Inr (Some f), r') \<Longrightarrow> length (rd_buf r') < length (rd_buf r)"
  by (erule try_one_someE) (auto simp: HEADER_SIZE_def)

function feed_loop :: "reader \<Rightarrow> frame list \<Rightarrow> (protocol_error + frame list) \<times> reader" where
  "feed_loop r frames =
     (case try_one r of
        (Inl exc, r') \<Rightarrow> (Inl exc, r')
      | (Inr None, r') \<Rightarrow> (Inr frames, r')
      | (Inr (Some f), r') \<Rightarrow> feed_loop r' (frames @ [f]))"
  by pat_completeness auto
termination
  by (relation "measure (\<lambda>(r, frames). length (rd_buf r))")
     (auto dest: try_one_shrinks [OF sym])

declare feed_loop.simps [simp del]

definition feed :: "bytes \<Rightarrow> reader \<Rightarrow> (protocol_error + frame list) \<times> reader" where
  "feed data r =
     (case closed_error r of
        Some exc \<Rightarrow> (Inl exc, r)
      | None \<Rightarrow> feed_loop (r\<lparr>rd_buf := rd_buf r @ data\<rparr>) [])"

section \<open>What the reader does with an encoded frame\<close>

definition fields_fit :: "frame \<Rightarrow> bool" where
  "fields_fit f \<longleftrightarrow>
     0 \<le> fr_version f \<and> fr_version f < 2 ^ 8 \<and> 0 \<le> fr_type f \<and> fr_type f < 2 ^ 8 \<and>
     0 \<le> fr_flags f \<and> fr_flags f < 2 ^ 16 \<and> 0 \<le> fr_request f \<and> fr_request f < 2 ^ 64 \<and>
     length (fr_meta f) < 2 ^ 32 \<and> length (fr_payload f) < 2 ^ 32"

definition valid_frame :: "int \<Rightarrow> frame \<Rightarrow> bool" where
  "valid_frame mx f \<longleftrightarrow> fields_fit f \<and> fr_version f = FRAME_VERSION \<and>
     int (HEADER_SIZE + length (fr_meta f) + length (fr_payload f)) \<le> mx"

definition head24 :: "frame \<Rightarrow> bytes" where
  "head24 f = MAGIC @ be 1 (nat (fr_version f)) @ be 1 (nat (fr_type f)) @ be 2 (nat (fr_flags f)) @
     be 8 (nat (fr_request f)) @ be 4 (length (fr_meta f)) @ be 4 (length (fr_payload f))"

definition frame_bytes :: "frame \<Rightarrow> bytes" where
  "frame_bytes f = head24 f @ be 4 (nat (frame_crc (head24 f) (fr_meta f) (fr_payload f))) @
     fr_meta f @ fr_payload f"

lemma length_MAGIC [simp]: "length MAGIC = 4"
  by (simp add: MAGIC_def)

lemma length_head24 [simp]: "length (head24 f) = 24"
  by (simp add: head24_def)

lemma frame_crc_range: "0 \<le> frame_crc h m p" "frame_crc h m p < 2 ^ 32"
  using uint_ge_0 uint_lt2p [of "crc32 (h @ m @ p)"] by (simp_all add: frame_crc_def)

lemma int_length_less: "length xs < 2 ^ 32 \<longleftrightarrow> int (length xs) < 2 ^ 32"
  by simp

lemma pack_header_eq:
  assumes "0 \<le> crc" "crc < 2 ^ 32"
  shows "pack_header (fr_version f) (fr_type f) (fr_flags f) (fr_request f)
      (int (length (fr_meta f))) (int (length (fr_payload f))) crc =
    (if fields_fit f then Inr (head24 f @ be 4 (nat crc)) else Inl StructError)"
proof (cases "fields_fit f")
  case True
  then have "fields_ok (zip header_widths [fr_version f, fr_type f, fr_flags f, fr_request f,
      int (length (fr_meta f)), int (length (fr_payload f)), crc])"
    using assms by (simp add: fields_ok_def header_widths_def fields_fit_def)
  then show ?thesis using True
    by (simp add: pack_header_def pack_fields_ok) (simp add: header_widths_def head24_def)
next
  case False
  then have "\<not> fields_ok (zip header_widths [fr_version f, fr_type f, fr_flags f, fr_request f,
      int (length (fr_meta f)), int (length (fr_payload f)), crc])"
    using assms by (simp add: fields_ok_def header_widths_def fields_fit_def)
  then show ?thesis using False by (simp add: pack_header_def pack_fields_error)
qed

lemma encode_frame_eq:
  "encode_frame f = (if fields_fit f then Inr (frame_bytes f) else Inl StructError)"
  using frame_crc_range by (simp add: encode_frame_def pack_header_eq frame_bytes_def Let_def)

text \<open>The header of an encoded frame, also with other bytes in the fields that do not rule the
  length.\<close>

lemma decode_header_bytes:
  assumes "length h = 24" "length c = 4"
  shows "decode_header (h @ c) =
    (if take 4 h \<noteq> MAGIC then Inl (protocol_exc ''INVALID_FRAME'' ''bad magic'')
     else if unbe (take 1 (drop 4 h)) \<noteq> 1 then Inl (protocol_exc ''INVALID_FRAME'' ''unsupported version'')
     else Inr (int (unbe (take 1 (drop 5 h))), int (unbe (take 2 (drop 6 h))), int (unbe (take 8 (drop 8 h))),
        int (unbe (take 4 (drop 16 h))), int (unbe (take 4 (drop 20 h))), int (unbe c), FRAME_VERSION))"
  using assms by (auto simp: decode_header_def HEADER_SIZE_def unpack_header FRAME_VERSION_def)

lemma head24_fields:
  assumes "fields_fit f"
  shows "take 4 (head24 f) = MAGIC" "unbe (take 1 (drop 4 (head24 f))) = nat (fr_version f)"
    "int (unbe (take 1 (drop 5 (head24 f)))) = fr_type f"
    "int (unbe (take 2 (drop 6 (head24 f)))) = fr_flags f"
    "int (unbe (take 8 (drop 8 (head24 f)))) = fr_request f"
    "unbe (take 4 (drop 16 (head24 f))) = length (fr_meta f)"
    "unbe (take 4 (drop 20 (head24 f))) = length (fr_payload f)"
  using assms by (simp_all add: head24_def fields_fit_def nat_less_iff)

lemma decode_head24:
  assumes "valid_frame mx f" "length c = 4"
  shows "decode_header (head24 f @ c) =
    Inr (fr_type f, fr_flags f, fr_request f, int (length (fr_meta f)), int (length (fr_payload f)),
         int (unbe c), FRAME_VERSION)"
  using assms head24_fields [of f]
  by (simp add: decode_header_bytes valid_frame_def FRAME_VERSION_def)

section \<open>The frames as a canonical codec\<close>

abbreviation on_buffer :: "int \<Rightarrow> bytes \<Rightarrow> reader" where
  "on_buffer mx bs \<equiv> \<lparr>max_frame_size = mx, rd_buf = bs, closed_error = None\<rparr>"

lemma try_one_buffer:
  assumes "HEADER_SIZE \<le> length bs"
    "decode_header (take HEADER_SIZE bs) = Inr (ty, flags, rid, int m, int p, crc, ver)"
    "take m (drop HEADER_SIZE bs) = meta" "take p (drop (HEADER_SIZE + m) bs) = payload"
    "int (HEADER_SIZE + m + p) \<le> mx" "HEADER_SIZE + m + p \<le> length bs"
    "frame_crc (take 24 bs) meta payload = crc"
  shows "try_one (on_buffer mx bs) =
    (Inr (Some \<lparr>fr_type = ty, fr_request = rid, fr_meta = meta, fr_payload = payload,
                fr_flags = flags, fr_version = ver\<rparr>), on_buffer mx (drop (HEADER_SIZE + m + p) bs))"
  using assms try_one_good [of "on_buffer mx bs"] by simp

lemma try_one_waits:
  assumes "HEADER_SIZE \<le> length bs"
    "decode_header (take HEADER_SIZE bs) = Inr (ty, flags, rid, int m, int p, crc, ver)"
    "int (HEADER_SIZE + m + p) \<le> mx" "length bs < HEADER_SIZE + m + p"
  shows "try_one (on_buffer mx bs) = (Inr None, on_buffer mx bs)"
  using assms try_one_good [of "on_buffer mx bs"] by simp

definition frame_dec :: "int \<Rightarrow> bytes \<Rightarrow> protocol_error + (frame \<times> nat) option" where
  "frame_dec mx bs =
     (case try_one (on_buffer mx bs) of
        (Inl exc, _) \<Rightarrow> Inl exc
      | (Inr None, _) \<Rightarrow> Inr None
      | (Inr (Some f), r) \<Rightarrow> Inr (Some (f, length bs - length (rd_buf r))))"

lemma length_frame_bytes: "length (frame_bytes f) = HEADER_SIZE + length (fr_meta f) + length (fr_payload f)"
  by (simp add: frame_bytes_def HEADER_SIZE_def)

lemma frame_bytes_parts:
  "take HEADER_SIZE (frame_bytes f @ r) = head24 f @ be 4 (nat (frame_crc (head24 f) (fr_meta f) (fr_payload f)))"
  "take 24 (frame_bytes f @ r) = head24 f"
  "take (length (fr_meta f)) (drop HEADER_SIZE (frame_bytes f @ r)) = fr_meta f"
  "take (length (fr_payload f)) (drop (HEADER_SIZE + length (fr_meta f)) (frame_bytes f @ r)) = fr_payload f"
  by (simp_all add: frame_bytes_def HEADER_SIZE_def)

lemma decode_frame_header:
  assumes "valid_frame mx f"
  shows "decode_header (take HEADER_SIZE (frame_bytes f @ r)) =
    Inr (fr_type f, fr_flags f, fr_request f, int (length (fr_meta f)), int (length (fr_payload f)),
         frame_crc (head24 f) (fr_meta f) (fr_payload f), FRAME_VERSION)"
  unfolding frame_bytes_parts(1) using decode_head24 [OF assms] frame_crc_range
  by (simp add: nat_less_iff)

lemma try_one_frame_bytes:
  assumes "valid_frame mx f"
  shows "try_one (on_buffer mx (frame_bytes f @ r)) = (Inr (Some f), on_buffer mx r)"
proof -
  have len: "HEADER_SIZE \<le> length (frame_bytes f @ r)" and
    all: "HEADER_SIZE + length (fr_meta f) + length (fr_payload f) \<le> length (frame_bytes f @ r)"
    by (simp_all add: length_frame_bytes)
  have "drop (HEADER_SIZE + length (fr_meta f) + length (fr_payload f)) (frame_bytes f @ r) = r"
    by (simp add: length_frame_bytes)
  moreover have "int (HEADER_SIZE + length (fr_meta f) + length (fr_payload f)) \<le> mx"
    using assms by (simp add: valid_frame_def)
  moreover have "frame_crc (take 24 (frame_bytes f @ r)) (fr_meta f) (fr_payload f) = frame_crc (head24 f) (fr_meta f) (fr_payload f)"
    unfolding frame_bytes_parts ..
  ultimately show ?thesis
    using try_one_buffer [OF len decode_frame_header [OF assms] frame_bytes_parts(3,4) _ all] assms
    by (simp add: valid_frame_def)
qed

lemma try_one_partial:
  assumes "valid_frame mx f" "frame_bytes f = p @ q" "q \<noteq> []"
  shows "try_one (on_buffer mx p) = (Inr None, on_buffer mx p)"
proof (cases "length p < HEADER_SIZE")
  case True
  then show ?thesis by (simp add: try_one_short)
next
  case False
  then have len: "HEADER_SIZE \<le> length p" by simp
  have header: "take HEADER_SIZE (frame_bytes f @ []) = take HEADER_SIZE p" using False assms(2) by simp
  have "length (frame_bytes f) = length p + length q" using assms(2) by simp
  then have "length p < HEADER_SIZE + length (fr_meta f) + length (fr_payload f)"
    using assms(3) unfolding length_frame_bytes by simp
  then show ?thesis
    using try_one_waits [OF len decode_frame_header [OF assms(1), of "[]", unfolded header]] assms(1)
    by (simp add: valid_frame_def)
qed

lemma try_one_canonical:
  assumes "try_one (on_buffer mx bs) = (Inr (Some f), r)"
  shows "valid_frame mx f" "bs = frame_bytes f @ rd_buf r" "r = on_buffer mx (rd_buf r)"
proof -
  obtain ty flags rid m p crc ver where d: "decode_header (take HEADER_SIZE bs) = Inr (ty, flags, rid, int m, int p, crc, ver)"
    "HEADER_SIZE + m + p \<le> length bs" "int (HEADER_SIZE + m + p) \<le> mx"
    "f = \<lparr>fr_type = ty, fr_request = rid, fr_meta = take m (drop HEADER_SIZE bs),
          fr_payload = take p (drop (HEADER_SIZE + m) bs), fr_flags = flags, fr_version = ver\<rparr>"
    "frame_crc (take 24 bs) (fr_meta f) (fr_payload f) = crc"
    "r = on_buffer mx (drop (HEADER_SIZE + m + p) bs)"
    by (rule try_one_someE [OF assms, unfolded reader.simps])
  have len: "HEADER_SIZE \<le> length bs" using d(2) by simp
  have sizes: "length (fr_meta f) = m" "length (fr_payload f) = p" using d(2) by (simp_all add: d(4))
  have flds: "fr_type f = ty" "fr_flags f = flags" "fr_request f = rid" "fr_version f = ver" by (simp_all add: d(4))
  have slices: "take m (drop HEADER_SIZE bs) = fr_meta f" "take p (drop (HEADER_SIZE + m) bs) = fr_payload f"
    by (simp_all add: d(4))
  define vs where "vs = unpack_fields header_widths (take 24 (drop 4 bs))"
  have hd28: "take HEADER_SIZE bs = take 24 bs @ take 4 (drop 24 bs)"
    by (simp add: HEADER_SIZE_def take_add [symmetric])
  have magic: "take 4 bs = MAGIC" and vs: "vs = [ver, ty, flags, rid, int m, int p, crc]" and ver: "ver = FRAME_VERSION"
    using d(1) len unfolding vs_def
    by (auto simp: decode_header_def HEADER_SIZE_def header_widths_def drop_take min_def split: if_splits)
  have fit: "fields_ok (zip header_widths vs)"
    unfolding vs_def using len by (intro fields_ok_unpacked) (simp add: header_widths_def HEADER_SIZE_def)
  then have "fields_fit f"
    unfolding fields_fit_def sizes flds by (simp add: fields_ok_def vs header_widths_def)
  then show "valid_frame mx f" unfolding valid_frame_def sizes flds using d(3) ver by simp
  have "concat (map (\<lambda>(n, v). be n (nat v)) (zip header_widths vs)) = take 24 (drop 4 bs)"
    unfolding vs_def using len by (intro pack_unpacked) (simp add: header_widths_def HEADER_SIZE_def)
  then have "take 4 bs @ take 24 (drop 4 bs) = head24 f @ be 4 (nat crc)"
    unfolding head24_def sizes flds magic by (simp add: vs header_widths_def)
  then have h: "take HEADER_SIZE bs = head24 f @ be 4 (nat crc)"
    by (simp add: HEADER_SIZE_def take_add [symmetric])
  then have "take 24 bs = head24 f"
    unfolding hd28 using len by (simp add: HEADER_SIZE_def append_eq_append_conv)
  then have crc: "crc = frame_crc (head24 f) (fr_meta f) (fr_payload f)" using d(5) by simp
  have "bs = take HEADER_SIZE bs @ take m (drop HEADER_SIZE bs) @ take p (drop (HEADER_SIZE + m) bs) @ drop (HEADER_SIZE + m + p) bs"
    by (simp only: take_add [symmetric] append_assoc [symmetric] append_take_drop_id)
  then show "bs = frame_bytes f @ rd_buf r" unfolding slices h crc by (simp add: frame_bytes_def d(6))
  show "r = on_buffer mx (rd_buf r)" using d(6) by simp
qed

lemma frame_dec_some: "frame_dec mx bs = Inr (Some (f, n)) \<longleftrightarrow>
    try_one (on_buffer mx bs) = (Inr (Some f), on_buffer mx (drop n bs)) \<and> n = length (frame_bytes f)"
proof
  assume "frame_dec mx bs = Inr (Some (f, n))"
  then obtain r where r: "try_one (on_buffer mx bs) = (Inr (Some f), r)" and n: "n = length bs - length (rd_buf r)"
    by (auto simp: frame_dec_def split: prod.splits sum.splits option.splits)
  from try_one_canonical [OF r] n have "n = length (frame_bytes f)" "drop n bs = rd_buf r" by (auto dest: arg_cong [where f = length])
  then show "try_one (on_buffer mx bs) = (Inr (Some f), on_buffer mx (drop n bs)) \<and> n = length (frame_bytes f)"
    using r try_one_canonical(3) [OF r] by metis
next
  assume a: "try_one (on_buffer mx bs) = (Inr (Some f), on_buffer mx (drop n bs)) \<and> n = length (frame_bytes f)"
  then have "bs = frame_bytes f @ drop n bs" using try_one_canonical(2) by force
  then have "n \<le> length bs" using a by (metis length_append le_add1)
  then show "frame_dec mx bs = Inr (Some (f, n))" using a by (simp add: frame_dec_def)
qed

lemma frame_dec_wait: "frame_dec mx bs = Inr None \<longleftrightarrow> try_one (on_buffer mx bs) = (Inr None, on_buffer mx bs)"
proof -
  have "try_one (on_buffer mx bs) = (Inr None, r) \<Longrightarrow> r = on_buffer mx bs" for r
    by (auto simp: try_one_def Let_def split: if_splits sum.splits)
  then show ?thesis by (auto simp: frame_dec_def split: prod.splits sum.splits option.splits)
qed

lemma frame_dec_bad: "frame_dec mx bs = Inl exc \<longleftrightarrow> fst (try_one (on_buffer mx bs)) = Inl exc"
  by (auto simp: frame_dec_def split: prod.splits sum.splits option.splits)

lemma try_one_bad_more:
  assumes "fst (try_one (on_buffer mx bs)) = Inl exc"
  shows "fst (try_one (on_buffer mx (bs @ r))) = Inl exc"
proof -
  have len: "HEADER_SIZE \<le> length bs"
    using assms try_one_short [of "on_buffer mx bs"] by (cases "length bs < HEADER_SIZE") auto
  then have len': "HEADER_SIZE \<le> length (bs @ r)" and header: "take HEADER_SIZE (bs @ r) = take HEADER_SIZE bs" by auto
  show ?thesis
  proof (cases "decode_header (take HEADER_SIZE bs)")
    case (Inl exc')
    then show ?thesis
      using assms len len' header try_one_bad [of "on_buffer mx bs"] try_one_bad [of "on_buffer mx (bs @ r)"] by simp
  next
    case (Inr h)
    obtain ty flags rid ml pl crc ver where h: "h = (ty, flags, rid, ml, pl, crc, ver)" by (metis surj_pair)
    obtain m p where mp: "ml = int m" "pl = int p" using decode_header_lengths [OF Inr [unfolded h]] by metis
    note d = Inr [unfolded h mp]
    note good = try_one_good [of "on_buffer mx bs", unfolded reader.simps, OF len d]
    note good' = try_one_good [of "on_buffer mx (bs @ r)", unfolded reader.simps, OF len', unfolded header, OF d]
    have "take 24 (bs @ r) = take 24 bs" using len by (simp add: HEADER_SIZE_def)
    then show ?thesis using assms unfolding good good' by (auto simp: Let_def split: if_splits)
  qed
qed

lemma feed_loop_some:
  "try_one r = (Inr (Some f), r') \<Longrightarrow> feed_loop r frames = feed_loop r' (frames @ [f])"
  by (subst feed_loop.simps) simp

lemma feed_loop_none: "try_one r = (Inr None, r') \<Longrightarrow> feed_loop r frames = (Inr frames, r')"
  by (subst feed_loop.simps) simp

lemma feed_loop_bad: "try_one r = (Inl exc, r') \<Longrightarrow> feed_loop r frames = (Inl exc, r')"
  by (subst feed_loop.simps) simp

interpretation wire: canonical_codec "valid_frame mx" frame_bytes "frame_dec mx" "\<lambda>f n frames. frames @ [f]"
    "\<lambda>frames bs. feed_loop (on_buffer mx bs) frames" "\<lambda>frames bs. (Inr frames, on_buffer mx bs)"
proof
  fix f r bs n p q exc and s :: "frame list"
  show "frame_dec mx (frame_bytes f @ r) = Inr (Some (f, length (frame_bytes f)))" if "valid_frame mx f"
    using try_one_frame_bytes [OF that] by (simp add: frame_dec_some)
  show "frame_dec mx p = Inr None" if "valid_frame mx f" "frame_bytes f = p @ q" "q \<noteq> []"
    using try_one_partial [OF that] by (simp add: frame_dec_wait)
  show "0 < n \<and> n \<le> length bs \<and> frame_dec mx (bs @ r) = Inr (Some (f, n))" if "frame_dec mx bs = Inr (Some (f, n))"
  proof -
    have t: "try_one (on_buffer mx bs) = (Inr (Some f), on_buffer mx (drop n bs))" and n: "n = length (frame_bytes f)"
      using that by (simp_all add: frame_dec_some)
    from try_one_canonical(2) [OF t] have bs: "bs = frame_bytes f @ drop n bs" by simp
    have "frame_dec mx (frame_bytes f @ drop n bs @ r) = Inr (Some (f, n))"
      using try_one_frame_bytes [OF try_one_canonical(1) [OF t], of "drop n bs @ r"] n by (simp add: frame_dec_some)
    moreover have "bs @ r = frame_bytes f @ drop n bs @ r" using bs by simp
    ultimately have "frame_dec mx (bs @ r) = Inr (Some (f, n))" by (simp only:)
    moreover have "n \<le> length bs" using bs n by (metis length_append le_add1)
    moreover have "0 < n" using n by (simp add: length_frame_bytes HEADER_SIZE_def)
    ultimately show ?thesis by blast
  qed
  show "frame_dec mx (bs @ r) = Inl exc" if "frame_dec mx bs = Inl exc"
    using that try_one_bad_more by (simp add: frame_dec_bad)
  show "feed_loop (on_buffer mx bs) s = feed_loop (on_buffer mx (drop n bs)) (s @ [f])"
    if "frame_dec mx bs = Inr (Some (f, n))"
    using that by (simp add: frame_dec_some feed_loop_some)
  show "feed_loop (on_buffer mx bs) s = (Inr s, on_buffer mx bs)" if "frame_dec mx bs = Inr None"
    using that by (simp add: frame_dec_wait feed_loop_none)
  show "valid_frame mx f \<and> frame_bytes f = take n bs" if "frame_dec mx bs = Inr (Some (f, n))"
  proof -
    have t: "try_one (on_buffer mx bs) = (Inr (Some f), on_buffer mx (drop n bs))" and n: "n = length (frame_bytes f)"
      using that by (simp_all add: frame_dec_some)
    have "bs = frame_bytes f @ drop n bs" using try_one_canonical(2) [OF t] by simp
    then have "take n bs = frame_bytes f" using n by (metis append_eq_conv_conj)
    then show ?thesis using try_one_canonical(1) [OF t] by simp
  qed
qed

lemma push_frames [simp]: "wire.push_all fs s = s @ fs"
  by (induction fs arbitrary: s) (simp_all add: wire.push_all_def)

section \<open>The reader on a byte stream\<close>

lemma feed_open: "feed data (on_buffer mx buf) = feed_loop (on_buffer mx (buf @ data)) []"
  by (simp add: feed_def)

lemma feed_cuts:
  "\<exists>fs rest. (\<forall>f \<in> set fs. valid_frame mx f) \<and> buf @ data = concat (map frame_bytes fs) @ rest \<and>
     (frame_dec mx rest = Inr None \<and> feed data (on_buffer mx buf) = (Inr fs, on_buffer mx rest) \<or>
      (\<exists>exc. frame_dec mx rest = Inl exc \<and> fst (feed data (on_buffer mx buf)) = Inl exc))"
proof -
  note cuts = wire.go_cuts [where mx = mx and bs = "buf @ data" and s = "[]", unfolded push_frames append_Nil]
  from cuts obtain fs rest where c: "\<forall>f \<in> set fs. valid_frame mx f" "buf @ data = concat (map frame_bytes fs) @ rest"
    "feed_loop (on_buffer mx (buf @ data)) [] = feed_loop (on_buffer mx rest) fs"
    "frame_dec mx rest = Inr None \<or> (\<exists>exc. frame_dec mx rest = Inl exc)"
    by (elim exE conjE)
  have "feed data (on_buffer mx buf) = (Inr fs, on_buffer mx rest)" if "frame_dec mx rest = Inr None"
    using wire.go_none [OF that] c(3) by (simp add: feed_open)
  moreover have "fst (feed data (on_buffer mx buf)) = Inl exc" if bad: "frame_dec mx rest = Inl exc" for exc
  proof -
    obtain r' where "try_one (on_buffer mx rest) = (Inl exc, r')"
      using bad by (metis frame_dec_bad prod.collapse)
    then show ?thesis using c(3) by (simp add: feed_open feed_loop_bad)
  qed
  ultimately show ?thesis using c(1,2,4) by (intro exI [of _ fs] exI [of _ rest]) blast
qed

lemma encoded_frames:
  "map encode_frame fs = map Inr bss \<Longrightarrow> bss = map frame_bytes fs \<and> (\<forall>f \<in> set fs. fields_fit f)"
  by (induction fs arbitrary: bss) (auto simp: encode_frame_eq split: if_splits)

text \<open>Whatever arrives, the frames a reader gives out are exactly the ones whose encodings it has
  taken off the stream: when \<open>feed\<close> does not raise, the bytes buffered before together with the new
  ones are the encodings of the returned frames, in order, followed by the bytes still buffered, which
  do not hold another complete frame.\<close>

theorem feed_takes_whole_frames:
  assumes "feed data (on_buffer mx buf) = (Inr fs, r')"
  shows "\<exists>bss rest. map encode_frame fs = map Inr bss \<and> buf @ data = concat bss @ rest \<and>
    r' = on_buffer mx rest \<and> try_one r' = (Inr None, r')"
proof -
  from feed_cuts [of mx buf data] assms obtain rest where c: "\<forall>f \<in> set fs. valid_frame mx f"
    "buf @ data = concat (map frame_bytes fs) @ rest" "frame_dec mx rest = Inr None" "r' = on_buffer mx rest"
    by fastforce
  have "map encode_frame fs = map Inr (map frame_bytes fs)"
    using c(1) by (simp add: encode_frame_eq valid_frame_def)
  moreover have "try_one r' = (Inr None, r')" using c(3,4) by (simp add: frame_dec_wait)
  ultimately show ?thesis using c(2,4) by blast
qed

fun read_chunks :: "bytes list \<Rightarrow> reader \<Rightarrow> (protocol_error + frame list) \<times> reader" where
  "read_chunks [] r = (Inr [], r)"
| "read_chunks (c # cs) r =
     (case feed c r of
        (Inl exc, r') \<Rightarrow> (Inl exc, r')
      | (Inr fs, r') \<Rightarrow>
          (case read_chunks cs r' of
             (Inl exc, r'') \<Rightarrow> (Inl exc, r'')
           | (Inr fs', r'') \<Rightarrow> (Inr (fs @ fs'), r'')))"

lemma frames_cut_off:
  assumes "\<forall>f \<in> set fs. valid_frame mx f" "concat (map frame_bytes fs) = a @ b"
  obtains gs hs p where "fs = gs @ hs" "a = concat (map frame_bytes gs) @ p" "frame_dec mx p = Inr None"
    "p @ b = concat (map frame_bytes hs)"
  using assms
proof (induction fs arbitrary: a thesis)
  case Nil
  have "frame_dec mx [] = Inr None" by (simp add: frame_dec_wait try_one_short HEADER_SIZE_def)
  then show ?case using Nil(1) [of "[]" "[]" "[]"] Nil(3) by simp
next
  case (Cons f fs)
  show ?case
  proof (cases "length a < length (frame_bytes f)")
    case True
    then obtain q where q: "frame_bytes f = a @ q" "q \<noteq> []"
      using Cons.prems(3) by (auto simp: append_eq_append_conv2)
    have "frame_dec mx a = Inr None" using wire.dec_prefix [OF _ q] Cons.prems(2) by simp
    then show ?thesis using Cons.prems(1) [of "[]" "f # fs" a] Cons.prems(3) by simp
  next
    case False
    then obtain a' where a': "a = frame_bytes f @ a'" "concat (map frame_bytes fs) = a' @ b"
      using Cons.prems(3) by (auto simp: append_eq_append_conv2)
    obtain gs hs p where "fs = gs @ hs" "a' = concat (map frame_bytes gs) @ p" "frame_dec mx p = Inr None"
      "p @ b = concat (map frame_bytes hs)"
      using Cons.IH [OF _ _ a'(2)] Cons.prems(2) by auto
    then show ?thesis using Cons.prems(1) [of "f # gs" hs p] a'(1) by simp
  qed
qed

lemma read_chunks_frames:
  assumes "\<forall>f \<in> set fs. valid_frame mx f" "buf @ concat chunks = concat (map frame_bytes fs)"
    "frame_dec mx buf = Inr None"
  shows "read_chunks chunks (on_buffer mx buf) = (Inr fs, on_buffer mx [])"
  using assms
proof (induction chunks arbitrary: buf fs)
  case Nil
  obtain f where "fs = [] \<or> (\<exists>gs. fs = f # gs)" by (cases fs) auto
  moreover have "frame_dec mx (frame_bytes f @ concat (map frame_bytes gs)) \<noteq> Inr None" if "fs = f # gs" for gs
    using wire.dec_enc [of mx f] Nil.prems(1) that by simp
  ultimately show ?case using Nil.prems(2,3) by auto
next
  case (Cons c cs)
  have "concat (map frame_bytes fs) = (buf @ c) @ concat cs" using Cons.prems(2) by simp
  then obtain gs hs p where s: "fs = gs @ hs" "buf @ c = concat (map frame_bytes gs) @ p" "frame_dec mx p = Inr None"
    "p @ concat cs = concat (map frame_bytes hs)"
    using frames_cut_off [OF Cons.prems(1)] by metis
  have "feed_loop (on_buffer mx (buf @ c)) [] = (Inr gs, on_buffer mx p)"
    using wire.go_written [where xs = gs and mx = mx and s = "[]" and r = p] wire.go_none [OF s(3)] Cons.prems(1) s(1) unfolding s(2) by simp
  then have "feed c (on_buffer mx buf) = (Inr gs, on_buffer mx p)" by (simp add: feed_open)
  moreover have "read_chunks cs (on_buffer mx p) = (Inr hs, on_buffer mx [])"
    using Cons.IH [OF _ s(4,3)] Cons.prems(1) s(1) by simp
  ultimately show ?case by (simp add: s(1))
qed

text \<open>C12. Frames survive the stream: however the encodings of frames within the size limit are cut
  into chunks, a new reader that is fed the chunks gives out exactly these frames, in order, and ends
  with an empty buffer.\<close>

theorem read_chunks_roundtrip:
  assumes "map encode_frame fs = map Inr bss" "\<forall>f \<in> set fs. fr_version f = FRAME_VERSION"
    "\<forall>bs \<in> set bss. int (length bs) \<le> mx" "concat chunks = concat bss"
  shows "read_chunks chunks (new_reader mx) = (Inr fs, new_reader mx)"
proof -
  have e: "bss = map frame_bytes fs" "\<forall>f \<in> set fs. fields_fit f" using encoded_frames [OF assms(1)] by auto
  have "\<forall>f \<in> set fs. valid_frame mx f"
    using e assms(2,3) by (simp add: valid_frame_def length_frame_bytes add.assoc)
  moreover have "frame_dec mx [] = Inr None" by (simp add: frame_dec_wait try_one_short HEADER_SIZE_def)
  ultimately have "read_chunks chunks (on_buffer mx []) = (Inr fs, on_buffer mx [])"
    using assms(4) e(1) by (intro read_chunks_frames) simp_all
  then show ?thesis by (simp add: new_reader_def)
qed

definition demo_ping :: frame where
  "demo_ping = \<lparr>fr_type = FRAME_COMMAND, fr_request = 7, fr_meta = [0x7B, 0x7D], fr_payload = [1, 2, 3],
     fr_flags = 0, fr_version = FRAME_VERSION\<rparr>"

lemma demo_ping_valid: "valid_frame 100 demo_ping"
  by (simp add: valid_frame_def demo_ping_def fields_fit_def FRAME_COMMAND_def FRAME_VERSION_def HEADER_SIZE_def)

lemma demo_ping_encodes: "encode_frame demo_ping = Inr (frame_bytes demo_ping)"
  using demo_ping_valid by (simp add: encode_frame_eq valid_frame_def)

lemma demo_ping_version: "fr_version demo_ping = FRAME_VERSION"
  by (simp add: demo_ping_def)

lemma demo_ping_length: "length (frame_bytes demo_ping) = 33"
  unfolding length_frame_bytes by (simp add: demo_ping_def HEADER_SIZE_def)

theorem feed_takes_whole_frames_witness:
  "\<exists>bss rest. map encode_frame [demo_ping] = map Inr bss \<and>
     [] @ (frame_bytes demo_ping @ [0x4F]) = concat bss @ rest \<and>
     on_buffer 100 [0x4F] = on_buffer 100 rest \<and>
     try_one (on_buffer 100 [0x4F]) = (Inr None, on_buffer 100 [0x4F])"
proof -
  have "frame_dec 100 [0x4F] = Inr None" by (simp add: frame_dec_wait try_one_short HEADER_SIZE_def)
  then have "feed (frame_bytes demo_ping @ [0x4F]) (on_buffer 100 []) = (Inr [demo_ping], on_buffer 100 [0x4F])"
    using wire.go_written [where xs = "[demo_ping]" and mx = 100 and s = "[]" and r = "[0x4F]"] wire.go_none
      demo_ping_valid by (simp add: feed_open)
  from feed_takes_whole_frames [OF this] show ?thesis .
qed

theorem read_chunks_roundtrip_witness:
  "read_chunks [take 5 (frame_bytes demo_ping), drop 5 (frame_bytes demo_ping @ frame_bytes demo_ping)] (new_reader 100) =
     (Inr [demo_ping, demo_ping], new_reader 100)"
  by (rule read_chunks_roundtrip [where bss = "[frame_bytes demo_ping, frame_bytes demo_ping]"])
     (simp_all add: demo_ping_encodes demo_ping_version demo_ping_length drop_append [symmetric] append_assoc [symmetric] del: append_assoc)

section \<open>Corrupted frames\<close>

lemma slice_kept: "i < j \<or> j + k \<le> i \<Longrightarrow> take k (drop j (xs[i := x])) = take k (drop j xs)"
  by (auto simp: take_update_cancel drop_update_swap)

lemma slice_changed:
  assumes "i < length xs" "x \<noteq> xs ! i" "j \<le> i" "i < j + k"
  shows "take k (drop j (xs[i := x])) \<noteq> take k (drop j xs)"
proof
  assume "take k (drop j (xs[i := x])) = take k (drop j xs)"
  then have "take k (drop j (xs[i := x])) ! (i - j) = take k (drop j xs) ! (i - j)" by simp
  then show False using assms by (simp add: nth_list_update)
qed

lemma unbe_inj: "length xs = length ys \<Longrightarrow> unbe xs = unbe ys \<longleftrightarrow> xs = ys"
  by (metis be_unbe)

lemma feed_closed: "closed_error r = Some exc \<Longrightarrow> feed data r = (Inl exc, r)"
  by (simp add: feed_def)

lemma feed_bad_start:
  assumes "fst (try_one (on_buffer mx bs)) = Inl exc"
  shows "\<exists>r'. feed bs (new_reader mx) = (Inl exc, r') \<and> closed_error r' = Some exc"
proof -
  obtain r' where t: "try_one (on_buffer mx bs) = (Inl exc, r')" using assms by (metis prod.collapse)
  then have "closed_error r' = Some exc"
    by (auto simp: try_one_def Let_def split: if_splits sum.splits)
  then show ?thesis using t by (simp add: feed_def new_reader_def feed_loop_bad)
qed

lemma corrupted_header:
  assumes "valid_frame mx f" "i < 5" "b \<noteq> frame_bytes f ! i"
  shows "\<exists>msg. fst (try_one (on_buffer mx ((frame_bytes f)[i := b]))) = Inl (protocol_exc ''INVALID_FRAME'' msg)"
proof -
  let ?bs = "frame_bytes f" and ?bs' = "(frame_bytes f)[i := b]"
  have len: "HEADER_SIZE \<le> length ?bs'" "i < length ?bs" using assms(2) by (simp_all add: length_frame_bytes HEADER_SIZE_def)
  have magic: "take 4 (drop 0 ?bs) = MAGIC" and ver: "take 1 (drop 4 ?bs) = [1]"
    using assms(1) by (simp_all add: frame_bytes_def head24_def valid_frame_def FRAME_VERSION_def be.simps)
  have hd28: "take HEADER_SIZE ?bs' = take 24 ?bs' @ take 4 (drop 24 ?bs')"
    by (simp add: HEADER_SIZE_def take_add [symmetric] del: take_update_swap)
  have "(take 4 (take 24 ?bs') \<noteq> MAGIC) \<or> unbe (take 1 (drop 4 (take 24 ?bs'))) \<noteq> 1"
  proof (cases "i < 4")
    case True
    then show ?thesis using slice_changed [OF len(2) assms(3), of 0 4] magic by (simp add: min_def)
  next
    case False
    then have "take 1 (drop 4 ?bs') \<noteq> take 1 (drop 4 ?bs)" using assms(2) slice_changed [OF len(2) assms(3), of 4 1] by simp
    moreover have "length (take 1 (drop 4 ?bs')) = length [1 :: byte]" using len by (simp add: HEADER_SIZE_def)
    ultimately have "unbe (take 1 (drop 4 ?bs')) \<noteq> unbe [1]" using ver unbe_inj by metis
    moreover have "unbe [1] = 1" using unbe_snoc [of "[]" 1] by simp
    ultimately show ?thesis by (simp add: drop_take min_def)
  qed
  moreover have "length (take 24 ?bs') = 24" "length (take 4 (drop 24 ?bs')) = 4" using len by (simp_all add: HEADER_SIZE_def)
  ultimately have "\<exists>msg. decode_header (take HEADER_SIZE ?bs') = Inl (protocol_exc ''INVALID_FRAME'' msg)"
    unfolding hd28 using decode_header_bytes [of "take 24 ?bs'" "take 4 (drop 24 ?bs')"] by auto
  then show ?thesis using len try_one_bad [of "on_buffer mx ?bs'"] by auto
qed

lemma corrupted_body:
  assumes "valid_frame mx f" "5 \<le> i" "i < length (frame_bytes f)" "i \<notin> {16..<24}" "b \<noteq> frame_bytes f ! i"
  shows "fst (try_one (on_buffer mx ((frame_bytes f)[i := b]))) = Inl (protocol_exc ''INVALID_FRAME'' ''checksum mismatch'')"
proof -
  let ?bs = "frame_bytes f" and ?bs' = "(frame_bytes f)[i := b]"
  let ?m = "length (fr_meta f)" and ?p = "length (fr_payload f)"
  let ?c' = "take 4 (drop 24 ?bs')"
  have len: "length ?bs' = HEADER_SIZE + ?m + ?p" by (simp add: length_frame_bytes)
  have kept: "take k (drop j (take 24 ?bs')) = take k (drop j ?bs)" if "i < j \<or> j + k \<le> i" "j + k \<le> 24" for j k
    using that slice_kept [of i j k ?bs b] by (simp add: drop_take min_def)
  have orig: "take 24 ?bs = head24 f" using frame_bytes_parts(2) [of f "[]"] by simp
  have orig': "take k (drop j ?bs) = take k (drop j (head24 f))" if "j + k \<le> 24" for j k
    unfolding orig [symmetric] using that by (simp add: drop_take min_def)
  have fit: "fields_fit f" and ver: "fr_version f = 1" using assms(1) by (simp_all add: valid_frame_def FRAME_VERSION_def)
  have f1: "take 4 (take 24 ?bs') = MAGIC"
    using kept [of 0 4] orig' [of 0 4] head24_fields(1) [OF fit] assms(2) by simp
  have f2: "unbe (take 1 (drop 4 (take 24 ?bs'))) = 1"
    using kept [of 4 1] orig' [of 4 1] head24_fields(2) [OF fit] assms(2) ver by simp
  have f3: "unbe (take 4 (drop 16 (take 24 ?bs'))) = ?m"
    using kept [of 16 4] orig' [of 16 4] head24_fields(6) [OF fit] assms(4) by auto
  have f4: "unbe (take 4 (drop 20 (take 24 ?bs'))) = ?p"
    using kept [of 20 4] orig' [of 20 4] head24_fields(7) [OF fit] assms(4) by auto
  have hd28: "take HEADER_SIZE ?bs' = take 24 ?bs' @ ?c'"
    by (simp add: HEADER_SIZE_def take_add [symmetric] del: take_update_swap)
  have l24: "length (take 24 ?bs') = 24" and l4: "length ?c' = 4" using len by (simp_all add: HEADER_SIZE_def)
  have dec: "\<exists>ty flags rid. decode_header (take HEADER_SIZE ?bs') =
      Inr (ty, flags, rid, int ?m, int ?p, int (unbe ?c'), FRAME_VERSION)"
    unfolding hd28 decode_header_bytes [OF l24 l4] using f1 f2 f3 f4 by simp
  define h where "h = take 24 ?bs'"
  define meta where "meta = take ?m (drop HEADER_SIZE ?bs')"
  define pl where "pl = take ?p (drop (HEADER_SIZE + ?m) ?bs')"
  have content: "h @ meta @ pl = take 24 ?bs' @ drop 28 ?bs'"
  proof -
    have "meta @ pl = take (?m + ?p) (drop HEADER_SIZE ?bs')"
      unfolding meta_def pl_def by (simp add: take_add add.commute del: drop_update_swap)
    also have "\<dots> = drop 28 ?bs'" using len by (simp add: HEADER_SIZE_def)
    finally show ?thesis by (simp add: h_def)
  qed
  have crc0: "unbe (take 4 (drop 24 ?bs)) = nat (frame_crc (head24 f) (fr_meta f) (fr_payload f))"
    using frame_crc_range [of "head24 f" "fr_meta f" "fr_payload f"] by (simp add: frame_bytes_def nat_less_iff)
  have content0: "take 24 ?bs @ drop 28 ?bs = head24 f @ fr_meta f @ fr_payload f" by (simp add: frame_bytes_def)
  have crc_eq: "crc32 (take 24 ?bs @ drop 28 ?bs) = crc32 (head24 f @ fr_meta f @ fr_payload f)" by (simp only: content0)
  have "frame_crc h meta pl \<noteq> int (unbe ?c')"
  proof (cases "24 \<le> i \<and> i < 28")
    case True
    have "take 24 ?bs' @ drop 28 ?bs' = take 24 ?bs @ drop 28 ?bs" using True by simp
    then have "frame_crc h meta pl = frame_crc (head24 f) (fr_meta f) (fr_payload f)"
      unfolding frame_crc_def content using crc_eq by simp
    moreover have "unbe ?c' \<noteq> unbe (take 4 (drop 24 ?bs))"
      using slice_changed [OF assms(3,5), of 24 4] True len by (subst unbe_inj) (simp_all add: HEADER_SIZE_def)
    ultimately show ?thesis using crc0 frame_crc_range(1) by (metis nat_int)
  next
    case False
    define j where "j = (if i < 24 then i else i - 4)"
    have j: "take 24 ?bs' @ drop 28 ?bs' = (take 24 ?bs @ drop 28 ?bs)[j := b]" "j < length (take 24 ?bs @ drop 28 ?bs)"
      "(take 24 ?bs @ drop 28 ?bs) ! j = ?bs ! i"
      using False assms(3) len
      by (auto simp: j_def HEADER_SIZE_def list_update_append drop_update_swap take_update_swap list_update_beyond nth_append)
    have "crc32 ((take 24 ?bs @ drop 28 ?bs)[j := b]) \<noteq> crc32 (take 24 ?bs @ drop 28 ?bs)"
      using crc32_update [OF j(2)] j(3) assms(5) by metis
    then have "frame_crc h meta pl \<noteq> frame_crc (head24 f) (fr_meta f) (fr_payload f)"
      unfolding frame_crc_def content j(1) crc_eq word_uint_eq_iff .
    moreover have "?c' = take 4 (drop 24 ?bs)" using False by (intro slice_kept) auto
    ultimately show ?thesis using crc0 frame_crc_range(1) by (metis int_nat_eq)
  qed
  moreover have "take 24 (rd_buf (on_buffer mx ?bs')) = h" by (simp add: h_def)
  moreover have "HEADER_SIZE \<le> length (rd_buf (on_buffer mx ?bs'))" using len by simp
  moreover have "int (HEADER_SIZE + ?m + ?p) \<le> mx" using assms(1) by (simp add: valid_frame_def)
  ultimately show ?thesis
    using dec len try_one_good [of "on_buffer mx ?bs'", where m = ?m and p = ?p]
    by (auto simp: Let_def meta_def pl_def)
qed

text \<open>C13. A frame with one corrupted byte is never accepted: unless the byte is one of the eight that
  hold the lengths (where the reader may instead wait for more bytes or refuse the size), the reader
  raises \<open>INVALID_FRAME\<close>, and raises it again for everything that follows on the connection.\<close>

theorem corrupted_frame_rejected:
  assumes "encode_frame f = Inr bs" "fr_version f = FRAME_VERSION" "int (length bs) \<le> mx"
    "i < length bs" "i \<notin> {16..<24}" "b \<noteq> bs ! i"
  shows "\<exists>msg r'. feed (bs[i := b]) (new_reader mx) = (Inl (protocol_exc ''INVALID_FRAME'' msg), r') \<and>
    feed data r' = (Inl (protocol_exc ''INVALID_FRAME'' msg), r')"
proof -
  have bs: "bs = frame_bytes f" and fit: "fields_fit f" using assms(1) by (auto simp: encode_frame_eq split: if_splits)
  then have v: "valid_frame mx f" using assms(2,3) by (simp add: valid_frame_def length_frame_bytes)
  obtain msg where "fst (try_one (on_buffer mx (bs[i := b]))) = Inl (protocol_exc ''INVALID_FRAME'' msg)"
    using corrupted_header [OF v] corrupted_body [OF v] assms(4-6) unfolding bs by (metis not_less)
  from feed_bad_start [OF this] show ?thesis using feed_closed by blast
qed

theorem corrupted_frame_rejected_witness:
  "\<exists>msg r'. feed ((frame_bytes demo_ping)[31 := 9]) (new_reader 100) =
       (Inl (protocol_exc ''INVALID_FRAME'' msg), r') \<and>
     feed [1] r' = (Inl (protocol_exc ''INVALID_FRAME'' msg), r')"
proof (rule corrupted_frame_rejected [OF demo_ping_encodes demo_ping_version])
  show "9 \<noteq> frame_bytes demo_ping ! 31" by (simp add: frame_bytes_def nth_append) (simp add: demo_ping_def)
qed (simp_all add: demo_ping_length)

section \<open>Metadata\<close>

text \<open>\<open>{**base, **extra}\<close>.\<close>

definition dict_merge :: "(string \<times> json) list \<Rightarrow> (string \<times> json) list \<Rightarrow> (string \<times> json) list" where
  "dict_merge base extra = fold (\<lambda>(k, v). dset k v) extra base"

definition meta_frame ::
  "((string \<times> json) list \<Rightarrow> bytes) \<Rightarrow> int \<Rightarrow> int \<Rightarrow> (string \<times> json) list \<Rightarrow> bytes \<Rightarrow> py_error + bytes" where
  "meta_frame dumps ty rid meta payload =
     encode_frame \<lparr>fr_type = ty, fr_request = rid, fr_meta = dumps meta, fr_payload = payload,
                   fr_flags = 0, fr_version = FRAME_VERSION\<rparr>"

definition command_frame where
  "command_frame dumps rid cmd extra payload =
     meta_frame dumps FRAME_COMMAND rid (dict_merge [(''cmd'', JStr cmd)] extra) payload"

definition or_else :: "string option \<Rightarrow> string \<Rightarrow> string" where
  "or_else x d = (case x of None \<Rightarrow> d | Some s \<Rightarrow> if s = [] then d else s)"

definition response_meta ::
  "bool \<Rightarrow> (string \<times> json) list \<Rightarrow> string option \<Rightarrow> string option \<Rightarrow> (string \<times> json) list" where
  "response_meta ok extra code message =
     (let meta = dict_merge [(''ok'', JBool ok)] extra in
      if ok then meta
      else (let c = or_else code ''INTERNAL_ERROR''
            in dset ''message'' (JStr (or_else message c)) (dset ''code'' (JStr c) meta)))"

definition response_frame where
  "response_frame dumps rid ok extra payload code message =
     meta_frame dumps FRAME_RESPONSE rid (response_meta ok extra code message) payload"

definition event_frame where
  "event_frame dumps event extra payload rid =
     meta_frame dumps FRAME_EVENT rid (dict_merge [(''event'', JStr event)] extra) payload"

definition heartbeat_frame :: "int \<Rightarrow> py_error + bytes" where
  "heartbeat_frame rid =
     encode_frame \<lparr>fr_type = FRAME_HEARTBEAT, fr_request = rid, fr_meta = [0x7B, 0x7D], fr_payload = [],
                   fr_flags = 0, fr_version = FRAME_VERSION\<rparr>"

definition loads_meta :: "(bytes \<Rightarrow> json option) \<Rightarrow> bytes \<Rightarrow> protocol_error + (string \<times> json) list" where
  "loads_meta loads raw =
     (if raw = [] then Inr []
      else
        (case loads raw of
           None \<Rightarrow> Inl (protocol_exc ''INVALID_FRAME'' ''invalid metadata json'')
         | Some (JObj d) \<Rightarrow> Inr d
         | Some _ \<Rightarrow> Inl (protocol_exc ''INVALID_FRAME'' ''metadata must be an object'')))"

definition parse_metadata :: "(bytes \<Rightarrow> json option) \<Rightarrow> frame \<Rightarrow> protocol_error + (string \<times> json) list" where
  "parse_metadata loads f = loads_meta loads (fr_meta f)"

text \<open>A reader that holds an encoded frame followed by bytes that do not start with the magic drops the
  good frame with the bad ones: \<open>feed\<close> raises before it returns the list.\<close>

lemma feed_drops_good_frame:
  assumes "valid_frame mx f" "length bad = HEADER_SIZE" "take 4 bad \<noteq> MAGIC"
  shows "\<exists>r'. feed (frame_bytes f @ bad) (new_reader mx) = (Inl (protocol_exc ''INVALID_FRAME'' ''bad magic''), r')"
proof -
  have "decode_header bad = Inl (protocol_exc ''INVALID_FRAME'' ''bad magic'')"
    using assms(2,3) decode_header_bytes [of "take 24 bad" "drop 24 bad"] by (simp add: HEADER_SIZE_def)
  then have "try_one (on_buffer mx bad) = (Inl (protocol_exc ''INVALID_FRAME'' ''bad magic''),
      (on_buffer mx bad)\<lparr>closed_error := Some (protocol_exc ''INVALID_FRAME'' ''bad magic'')\<rparr>)"
    using try_one_bad [of "on_buffer mx bad"] assms(2) by simp
  then show ?thesis
    using wire.go_written [where xs = "[f]" and mx = mx and s = "[]" and r = bad] assms(1)
    by (simp add: feed_def new_reader_def feed_loop_bad)
qed

text \<open>A request reaches the broker as it was sent: the frame a client writes for a command, cut
  into any chunks on the way, is read as one frame with the request id and the payload of the command,
  and its metadata parses to the command with its arguments, provided that the JSON library reads back
  the object it has written.\<close>

theorem command_roundtrip:
  assumes "command_frame dumps rid cmd extra payload = Inr bs" "int (length bs) \<le> mx" "concat chunks = bs"
    "meta = dict_merge [(''cmd'', JStr cmd)] extra" "dumps meta \<noteq> []" "loads (dumps meta) = Some (JObj meta)"
  shows "\<exists>f. read_chunks chunks (new_reader mx) = (Inr [f], new_reader mx) \<and> fr_type f = FRAME_COMMAND \<and>
    fr_request f = rid \<and> fr_payload f = payload \<and>
    parse_metadata loads f = Inr meta"
proof -
  let ?f = "\<lparr>fr_type = FRAME_COMMAND, fr_request = rid, fr_meta = dumps meta,
     fr_payload = payload, fr_flags = 0, fr_version = FRAME_VERSION\<rparr>"
  have e: "encode_frame ?f = Inr bs" using assms(1,4) by (simp add: command_frame_def meta_frame_def)
  then have bs: "bs = frame_bytes ?f" "fields_fit ?f" by (auto simp: encode_frame_eq split: if_splits)
  then have "valid_frame mx ?f" using assms(2) by (simp add: valid_frame_def length_frame_bytes)
  moreover have "frame_dec mx [] = Inr None" by (simp add: frame_dec_wait try_one_short HEADER_SIZE_def)
  ultimately have "read_chunks chunks (on_buffer mx []) = (Inr [?f], on_buffer mx [])"
    using assms(3) bs(1) by (intro read_chunks_frames) simp_all
  then show ?thesis using assms(5,6) by (intro exI [of _ ?f]) (simp add: parse_metadata_def loads_meta_def new_reader_def)
qed

definition demo_request :: frame where
  "demo_request = \<lparr>fr_type = FRAME_COMMAND, fr_request = 1, fr_meta = [0x7B], fr_payload = [9], fr_flags = 0,
     fr_version = FRAME_VERSION\<rparr>"

theorem command_roundtrip_witness:
  "\<exists>f. read_chunks [take 3 (frame_bytes demo_request), drop 3 (frame_bytes demo_request)] (new_reader 100) =
       (Inr [f], new_reader 100) \<and>
     fr_type f = FRAME_COMMAND \<and> fr_request f = 1 \<and> fr_payload f = [9] \<and>
     parse_metadata (\<lambda>_. Some (JObj [(''cmd'', JStr ''PING'')])) f = Inr [(''cmd'', JStr ''PING'')]"
proof (rule command_roundtrip [where dumps = "\<lambda>_. [0x7B]" and cmd = "''PING''" and extra = "[]"])
  show "command_frame (\<lambda>_. [0x7B]) 1 ''PING'' [] [9] = Inr (frame_bytes demo_request)"
    unfolding command_frame_def meta_frame_def encode_frame_eq
    by (simp add: demo_request_def fields_fit_def FRAME_COMMAND_def FRAME_VERSION_def)
  have "length (frame_bytes demo_request) = 30" unfolding length_frame_bytes by (simp add: demo_request_def HEADER_SIZE_def)
  then show "int (length (frame_bytes demo_request)) \<le> 100" by simp
qed (simp_all add: dict_merge_def)

end
