(* ===== verification/Records.thy ===== *)
theory Records
  imports Bytes
begin

text \<open>
  \<open>persistence/records.py\<close> and \<open>read_aof\<close> of \<open>persistence/recovery.py\<close>: the records of the append-only
  file and the scan of a file that a crash may have cut off.

  The timestamp of a record is a Python float that is only stored; it is modelled by the 64 bits of
  its IEEE representation, which is what \<open>struct\<close> writes. \<open>json.dumps\<close> and \<open>json.loads\<close> are the
  parameters \<open>dumps\<close> and \<open>loads\<close>; \<open>loads\<close> gives \<open>None\<close> for an exception (all of them are
  \<open>ValueError\<close>s).
\<close>

section \<open>Records\<close>

record aof_record =
  rc_seq :: int
  rc_op :: string
  rc_meta :: json
  rc_payload :: bytes
  rc_timestamp :: "64 word"

definition AOF_MAGIC :: bytes where
  "AOF_MAGIC = [0x4F, 0x41, 0x4F, 0x46]"

definition AOF_VERSION :: int where "AOF_VERSION = 1"

definition AOF_HEADER_SIZE :: nat where "AOF_HEADER_SIZE = 35"

definition OP_BY_NAME :: "(string \<times> int) list" where
  "OP_BY_NAME =
     [(''QUEUE_DECLARE'', 1), (''QUEUE_DELETE'', 2), (''EXCHANGE_DECLARE'', 3), (''EXCHANGE_DELETE'', 4),
      (''BIND'', 5), (''UNBIND'', 6), (''MESSAGE_PUBLISH'', 7), (''MESSAGE_ACK'', 8), (''MESSAGE_NACK'', 9),
      (''MESSAGE_REQUEUE'', 10), (''MESSAGE_DEAD'', 11)]"

definition NAME_BY_OP :: "(int \<times> string) list" where
  "NAME_BY_OP = map (\<lambda>(k, v). (v, k)) OP_BY_NAME"

definition aof_widths :: "nat list" where
  "aof_widths = [1, 2, 8, 8, 4, 4, 4]"

definition pack_aof_header :: "int \<Rightarrow> int \<Rightarrow> 64 word \<Rightarrow> int \<Rightarrow> int \<Rightarrow> int \<Rightarrow> py_error + bytes" where
  "pack_aof_header op_id sq ts ml pl crc =
     (case pack_fields (zip aof_widths [AOF_VERSION, op_id, sq, uint ts, ml, pl, crc]) of
        Inl err \<Rightarrow> Inl err | Inr bs \<Rightarrow> Inr (AOF_MAGIC @ bs))"

definition encode_record ::
  "((string \<times> json) list \<Rightarrow> bytes) \<Rightarrow> int \<Rightarrow> string \<Rightarrow> (string \<times> json) list \<Rightarrow> bytes \<Rightarrow> 64 word \<Rightarrow>
   py_error + bytes" where
  "encode_record dumps sq op meta payload ts =
     (case map_of OP_BY_NAME op of
        None \<Rightarrow> Inl (KeyError op)
      | Some op_id \<Rightarrow>
          let meta_b = dumps meta;
              pack = pack_aof_header op_id sq ts (int (length meta_b)) (int (length payload))
          in (case pack 0 of
                Inl err \<Rightarrow> Inl err
              | Inr h \<Rightarrow>
                  (case pack (uint (crc32 (take (AOF_HEADER_SIZE - 4) h @ meta_b @ payload))) of
                     Inl err \<Rightarrow> Inl err
                   | Inr header \<Rightarrow> Inr (header @ meta_b @ payload))))"

definition decode_record ::
  "(bytes \<Rightarrow> json option) \<Rightarrow> bytes \<Rightarrow> py_error + (aof_record \<times> nat) option" where
  "decode_record loads buf =
     (if length buf < AOF_HEADER_SIZE then Inr None
      else
        (case unpack_fields aof_widths (drop 4 (take AOF_HEADER_SIZE buf)) of
           [ver, op_id, sq, ts, ml, pl, crc] \<Rightarrow>
             if take 4 buf \<noteq> AOF_MAGIC \<or> ver \<noteq> AOF_VERSION
             then Inl (ValueError ''invalid AOF magic or version'')
             else
               (let size = AOF_HEADER_SIZE + nat ml + nat pl in
                if length buf < size then Inr None
                else
                  (let raw = take size buf;
                       meta_b = take (nat ml) (drop AOF_HEADER_SIZE raw);
                       payload = drop (AOF_HEADER_SIZE + nat ml) raw
                   in if uint (crc32 (take (AOF_HEADER_SIZE - 4) raw @ meta_b @ payload)) \<noteq> crc
                      then Inl (ValueError ''AOF checksum mismatch'')
                      else
                        (case map_of NAME_BY_OP op_id of
                           None \<Rightarrow> Inl (ValueError ''unknown AOF op'')
                         | Some op \<Rightarrow>
                             (case (if meta_b = [] then Some (JObj []) else loads meta_b) of
                                None \<Rightarrow> Inl (ValueError ''json'')
                              | Some meta \<Rightarrow>
                                  Inr (Some (\<lparr>rc_seq = sq, rc_op = op, rc_meta = meta, rc_payload = payload,
                                             rc_timestamp = word_of_int ts\<rparr>, size))))))))"

lemma unpack_aof_header:
  "unpack_fields aof_widths bs =
     [int (unbe (take 1 bs)), int (unbe (take 2 (drop 1 bs))), int (unbe (take 8 (drop 3 bs))),
      int (unbe (take 8 (drop 11 bs))), int (unbe (take 4 (drop 19 bs))), int (unbe (take 4 (drop 23 bs))),
      int (unbe (take 4 (drop 27 bs)))]"
  by (simp add: aof_widths_def flip: numeral_2_eq_2 numeral_3_eq_3)

abbreviation slice :: "nat \<Rightarrow> nat \<Rightarrow> bytes \<Rightarrow> bytes" where
  "slice j k buf \<equiv> take k (drop j buf)"

lemma slice_append: "j + k \<le> length bs \<Longrightarrow> slice j k (bs @ r) = slice j k bs"
  by simp

text \<open>\<open>decode_record\<close> on a buffer that holds a header, over the slices of the buffer.\<close>

lemma decode_record_long:
  assumes "AOF_HEADER_SIZE \<le> length buf" "m = unbe (slice 23 4 buf)" "p = unbe (slice 27 4 buf)"
  shows "decode_record loads buf =
    (if slice 0 4 buf \<noteq> AOF_MAGIC \<or> unbe (slice 4 1 buf) \<noteq> 1 then Inl (ValueError ''invalid AOF magic or version'')
     else if length buf < 35 + m + p then Inr None
     else if unat (crc32 (slice 0 31 buf @ slice 35 m buf @ slice (35 + m) p buf)) \<noteq> unbe (slice 31 4 buf)
     then Inl (ValueError ''AOF checksum mismatch'')
     else
       (case map_of NAME_BY_OP (int (unbe (slice 5 2 buf))) of
          None \<Rightarrow> Inl (ValueError ''unknown AOF op'')
        | Some op \<Rightarrow>
            (case (if slice 35 m buf = [] then Some (JObj []) else loads (slice 35 m buf)) of
               None \<Rightarrow> Inl (ValueError ''json'')
             | Some meta \<Rightarrow>
                 Inr (Some (\<lparr>rc_seq = int (unbe (slice 7 8 buf)), rc_op = op, rc_meta = meta,
                            rc_payload = slice (35 + m) p buf,
                            rc_timestamp = of_nat (unbe (slice 15 8 buf))\<rparr>, 35 + m + p)))))"
proof -
  have field: "take k (drop j (drop 4 (take 35 buf))) = slice (4 + j) k buf" if "j + k \<le> 31" for j k
    using that by (simp add: drop_take min_def add.commute)
  have fields: "unpack_fields aof_widths (drop 4 (take 35 buf)) =
      [int (unbe (slice 4 1 buf)), int (unbe (slice 5 2 buf)), int (unbe (slice 7 8 buf)),
       int (unbe (slice 15 8 buf)), int m, int p, int (unbe (slice 31 4 buf))]"
    unfolding unpack_aof_header assms(2,3)
    using field [of 0 1] field [of 1 2] field [of 3 8] field [of 11 8] field [of 19 4] field [of 23 4] field [of 27 4]
    by simp
  have raw: "take m (drop 35 (take (35 + m + p) buf)) = slice 35 m buf"
    "drop (35 + m) (take (35 + m + p) buf) = slice (35 + m) p buf"
    "take (35 - 4) (take (35 + m + p) buf) = slice 0 31 buf"
    by (simp_all add: drop_take min_def)
  have magic: "take 4 buf = slice 0 4 buf" by simp
  have ver: "int (unbe (slice 4 1 buf)) = AOF_VERSION \<longleftrightarrow> unbe (slice 4 1 buf) = 1" by (simp add: AOF_VERSION_def)
  have crc: "uint (crc32 bs) = int v \<longleftrightarrow> unat (crc32 bs) = v" for bs v by (metis nat_int uint_nat)
  have ts: "(word_of_int (int v) :: 64 word) = of_nat v" for v by simp
  show ?thesis
    using assms(1) unfolding decode_record_def AOF_HEADER_SIZE_def
    unfolding fields list.case nat_int Let_def raw crc ver magic ts by simp
qed

lemma decode_record_short: "length buf < AOF_HEADER_SIZE \<Longrightarrow> decode_record loads buf = Inr None"
  by (simp add: decode_record_def)

section \<open>Scanning the file\<close>

lemma decode_record_size:
  assumes "decode_record loads buf = Inr (Some (rec, n))"
  shows "AOF_HEADER_SIZE \<le> n \<and> n \<le> length buf"
proof -
  have len: "AOF_HEADER_SIZE \<le> length buf"
    using assms decode_record_short [of buf loads] by (cases "length buf < AOF_HEADER_SIZE") auto
  show ?thesis
    using assms unfolding decode_record_long [OF len refl refl]
    by (auto simp: AOF_HEADER_SIZE_def split: if_split_asm option.split_asm)
qed

text \<open>The loop of \<open>read_aof\<close>: \<open>rest\<close> is \<open>data[offset:]\<close>.\<close>

function read_records ::
  "(bytes \<Rightarrow> json option) \<Rightarrow> bytes \<Rightarrow> nat \<Rightarrow> aof_record list \<Rightarrow> aof_record list \<times> nat" where
  "read_records loads rest offset records =
     (if rest = [] then (records, offset)
      else
        (case decode_record loads rest of
           Inl _ \<Rightarrow> (records, offset)
         | Inr None \<Rightarrow> (records, offset)
         | Inr (Some (rec, consumed)) \<Rightarrow>
             read_records loads (drop consumed rest) (offset + consumed) (records @ [rec])))"
  by pat_completeness auto
termination
  by (relation "measure (\<lambda>(loads, rest, offset, records). length rest)")
     (auto simp: AOF_HEADER_SIZE_def dest!: decode_record_size)

declare read_records.simps [simp del]

text \<open>The content of the file is \<open>None\<close> when it does not exist.\<close>

definition read_aof :: "(bytes \<Rightarrow> json option) \<Rightarrow> bytes option \<Rightarrow> aof_record list \<times> nat" where
  "read_aof loads file =
     (case file of None \<Rightarrow> ([], 0) | Some data \<Rightarrow> read_records loads data 0 [])"

section \<open>The records as a codec\<close>

text \<open>A record that was written: its operation is known, its fields fit, and the JSON library reads its
  metadata back.\<close>

definition valid_record :: "((string \<times> json) list \<Rightarrow> bytes) \<Rightarrow> (bytes \<Rightarrow> json option) \<Rightarrow> aof_record \<Rightarrow> bool" where
  "valid_record dumps loads r \<longleftrightarrow>
     (\<exists>d. rc_meta r = JObj d \<and> dumps d \<noteq> [] \<and> loads (dumps d) = Some (JObj d) \<and> length (dumps d) < 2 ^ 32) \<and>
     map_of OP_BY_NAME (rc_op r) \<noteq> None \<and> 0 \<le> rc_seq r \<and> rc_seq r < 2 ^ 64 \<and> length (rc_payload r) < 2 ^ 32"

definition record_dict :: "aof_record \<Rightarrow> (string \<times> json) list" where
  "record_dict r = (case rc_meta r of JObj d \<Rightarrow> d | _ \<Rightarrow> [])"

definition head31 :: "((string \<times> json) list \<Rightarrow> bytes) \<Rightarrow> aof_record \<Rightarrow> bytes" where
  "head31 dumps r = AOF_MAGIC @ be 1 1 @ be 2 (nat (the (map_of OP_BY_NAME (rc_op r)))) @ be 8 (nat (rc_seq r)) @
     be 8 (unat (rc_timestamp r)) @ be 4 (length (dumps (record_dict r))) @ be 4 (length (rc_payload r))"

definition record_bytes :: "((string \<times> json) list \<Rightarrow> bytes) \<Rightarrow> aof_record \<Rightarrow> bytes" where
  "record_bytes dumps r =
     (let body = dumps (record_dict r) @ rc_payload r
      in head31 dumps r @ be 4 (unat (crc32 (head31 dumps r @ body))) @ body)"

lemma op_ids: "map_of OP_BY_NAME op = Some i \<Longrightarrow> 1 \<le> i \<and> i \<le> 11 \<and> map_of NAME_BY_OP i = Some op"
  by (auto simp: OP_BY_NAME_def NAME_BY_OP_def split: if_splits)

lemma length_AOF_MAGIC [simp]: "length AOF_MAGIC = 4"
  by (simp add: AOF_MAGIC_def)

lemma length_head31 [simp]: "length (head31 dumps r) = 31"
  by (simp add: head31_def)

lemma length_record_bytes:
  "length (record_bytes dumps r) = AOF_HEADER_SIZE + length (dumps (record_dict r)) + length (rc_payload r)"
  by (simp add: record_bytes_def AOF_HEADER_SIZE_def Let_def)

lemma unat_crc_less: "unat (crc32 bs) < 2 ^ 32"
  using unsigned_less [of "crc32 bs", where ?'a = nat] by simp

lemma unat_ts_less: "unat (ts :: 64 word) < 2 ^ 64"
  using unsigned_less [of ts, where ?'a = nat] by simp

lemma encode_record_eq:
  assumes "valid_record dumps loads r"
  shows "encode_record dumps (rc_seq r) (rc_op r) (record_dict r) (rc_payload r) (rc_timestamp r) =
    Inr (record_bytes dumps r)"
proof -
  obtain op_id where op: "map_of OP_BY_NAME (rc_op r) = Some op_id" using assms by (auto simp: valid_record_def)
  have small: "length (dumps (record_dict r)) < 2 ^ 32" using assms by (auto simp: valid_record_def record_dict_def)
  have crc: "uint (crc32 bs) = int (unat (crc32 bs))" for bs by simp
  have pack: "pack_aof_header op_id (rc_seq r) (rc_timestamp r) (int (length (dumps (record_dict r))))
      (int (length (rc_payload r))) (int c) = Inr (head31 dumps r @ be 4 c)" if "c < 2 ^ 32" for c
  proof -
    have ts: "uint (rc_timestamp r) = int (unat (rc_timestamp r))" by simp
    have "fields_ok (zip aof_widths [AOF_VERSION, op_id, rc_seq r, int (unat (rc_timestamp r)),
        int (length (dumps (record_dict r))), int (length (rc_payload r)), int c])"
      using assms small that op_ids [OF op] uint_lt2p [of "rc_timestamp r"]
      by (simp add: fields_ok_def aof_widths_def AOF_VERSION_def valid_record_def)
    then show ?thesis unfolding pack_aof_header_def ts
      by (simp add: pack_fields_ok) (simp add: aof_widths_def head31_def op AOF_VERSION_def)
  qed
  have p0: "pack_aof_header op_id (rc_seq r) (rc_timestamp r) (int (length (dumps (record_dict r))))
      (int (length (rc_payload r))) 0 = Inr (head31 dumps r @ be 4 0)"
    using pack [of 0] by simp
  let ?c = "crc32 (head31 dumps r @ dumps (record_dict r) @ rc_payload r)"
  have p1: "pack_aof_header op_id (rc_seq r) (rc_timestamp r) (int (length (dumps (record_dict r))))
      (int (length (rc_payload r))) (uint ?c) = Inr (head31 dumps r @ be 4 (unat ?c))"
    unfolding crc by (rule pack [OF unat_crc_less])
  have "take (AOF_HEADER_SIZE - 4) (head31 dumps r @ be 4 0) = head31 dumps r"
    by (simp add: AOF_HEADER_SIZE_def)
  then show ?thesis
    unfolding encode_record_def op option.case Let_def p0 sum.case p1 record_bytes_def by (simp add: p1)
qed

lemma decode_record_more:
  assumes "decode_record loads bs \<noteq> Inr None"
  shows "decode_record loads (bs @ r) = decode_record loads bs"
proof -
  have len: "AOF_HEADER_SIZE \<le> length bs"
    using assms decode_record_short [of bs loads] by (cases "length bs < AOF_HEADER_SIZE") auto
  then have len': "AOF_HEADER_SIZE \<le> length (bs @ r)" by simp
  have head: "slice j k (bs @ r) = slice j k bs" if "j + k \<le> 35" for j k
    using that len by (intro slice_append) (simp add: AOF_HEADER_SIZE_def)
  let ?m = "unbe (slice 23 4 bs)" and ?p = "unbe (slice 27 4 bs)"
  note l = decode_record_long [OF len refl refl, of loads]
  have m: "?m = unbe (slice 23 4 (bs @ r))" "?p = unbe (slice 27 4 (bs @ r))" by (simp_all only: head)
  note l' = decode_record_long [OF len' m, of loads]
  show ?thesis
  proof (cases "slice 0 4 bs \<noteq> AOF_MAGIC \<or> unbe (slice 4 1 bs) \<noteq> 1")
    case True
    then show ?thesis unfolding l l' by (simp only: head) simp
  next
    case False
    then have all: "35 + ?m + ?p \<le> length bs" using assms unfolding l by (simp split: if_splits)
    have body: "slice 35 ?m (bs @ r) = slice 35 ?m bs" "slice (35 + ?m) ?p (bs @ r) = slice (35 + ?m) ?p bs"
      using all by (intro slice_append; simp)+
    have long: "(length (bs @ r) < 35 + ?m + ?p) = (length bs < 35 + ?m + ?p)" using all by simp
    show ?thesis unfolding l l' body long by (simp only: head)
  qed
qed

lemma record_parts:
  fixes dumps :: "(string \<times> json) list \<Rightarrow> bytes" and r :: aof_record
  defines "d \<equiv> record_dict r" and "bs \<equiv> record_bytes dumps r"
  shows "slice 0 31 bs = head31 dumps r" "slice 31 4 bs = be 4 (unat (crc32 (head31 dumps r @ dumps d @ rc_payload r)))"
    "slice 35 (length (dumps d)) bs = dumps d" "slice (35 + length (dumps d)) (length (rc_payload r)) bs = rc_payload r"
    "slice 0 4 bs = AOF_MAGIC" "slice 4 1 bs = be 1 1" "slice 5 2 bs = be 2 (nat (the (map_of OP_BY_NAME (rc_op r))))"
    "slice 7 8 bs = be 8 (nat (rc_seq r))" "slice 15 8 bs = be 8 (unat (rc_timestamp r))"
    "slice 23 4 bs = be 4 (length (dumps d))" "slice 27 4 bs = be 4 (length (rc_payload r))"
  unfolding bs_def d_def by (simp_all add: record_bytes_def head31_def Let_def)

lemma decode_record_bytes:
  assumes "valid_record dumps loads r"
  shows "decode_record loads (record_bytes dumps r) = Inr (Some (r, length (record_bytes dumps r)))"
proof -
  obtain d where d: "rc_meta r = JObj d" "dumps d \<noteq> []" "loads (dumps d) = Some (JObj d)" "length (dumps d) < 2 ^ 32"
    using assms by (auto simp: valid_record_def)
  have rd: "record_dict r = d" using d(1) by (simp add: record_dict_def)
  obtain i where i: "map_of OP_BY_NAME (rc_op r) = Some i" using assms by (auto simp: valid_record_def)
  have range: "0 \<le> rc_seq r" "nat (rc_seq r) < 256 ^ 8" "length (rc_payload r) < 2 ^ 32"
    using assms by (simp_all add: valid_record_def nat_less_iff)
  have len: "AOF_HEADER_SIZE \<le> length (record_bytes dumps r)" by (simp add: length_record_bytes)
  have mp: "length (dumps d) = unbe (slice 23 4 (record_bytes dumps r))" "length (rc_payload r) = unbe (slice 27 4 (record_bytes dumps r))"
    using d(4) range(3) by (simp_all add: record_parts rd)
  have "nat i < 256 ^ 2" using op_ids [OF i] by (simp add: nat_less_iff)
  then have "int (unbe (be 2 (nat i))) = i" using op_ids [OF i] by simp
  then have op: "map_of NAME_BY_OP (int (unbe (be 2 (nat (the (map_of OP_BY_NAME (rc_op r))))))) = Some (rc_op r)"
    using op_ids [OF i] i by simp
  have ts: "(of_nat (unbe (be 8 (unat (rc_timestamp r)))) :: 64 word) = rc_timestamp r"
    using unat_ts_less [of "rc_timestamp r"] by simp
  have crc: "unat (crc32 (head31 dumps r @ dumps d @ rc_payload r)) =
      unbe (be 4 (unat (crc32 (head31 dumps r @ dumps d @ rc_payload r))))"
    using unat_crc_less [of "head31 dumps r @ dumps d @ rc_payload r"] by simp
  have ver: "unbe (be 1 1) = 1" by simp
  note parts = record_parts [where dumps = dumps and r = r, unfolded rd]
  have all: "\<not> length (record_bytes dumps r) < 35 + length (dumps d) + length (rc_payload r)"
    "35 + length (dumps d) + length (rc_payload r) = length (record_bytes dumps r)"
    by (simp_all add: length_record_bytes rd AOF_HEADER_SIZE_def)
  show ?thesis
    unfolding decode_record_long [OF len mp, of loads] parts op ts
    using crc ver d range(1,2) all by (cases r) simp
qed

lemma decode_record_torn:
  assumes "valid_record dumps loads r" "record_bytes dumps r = p @ q" "q \<noteq> []"
  shows "decode_record loads p = Inr None"
proof (rule ccontr)
  assume no: "decode_record loads p \<noteq> Inr None"
  have full: "decode_record loads (p @ q) = Inr (Some (r, length (p @ q)))"
    using decode_record_bytes [OF assms(1)] assms(2) by simp
  then have "decode_record loads p = Inr (Some (r, length (p @ q)))" using decode_record_more [OF no, of q] by simp
  from decode_record_size [OF this] assms(3) show False by simp
qed

lemma read_records_some:
  "decode_record loads rest = Inr (Some (rec, n)) \<Longrightarrow>
   read_records loads rest offset records = read_records loads (drop n rest) (offset + n) (records @ [rec])"
  using decode_record_size [of loads rest rec n]
  by (subst read_records.simps) (auto simp: AOF_HEADER_SIZE_def)

lemma read_records_none:
  "decode_record loads rest = Inr None \<Longrightarrow> read_records loads rest offset records = (records, offset)"
  by (subst read_records.simps) simp

interpretation aof: record_codec "valid_record dumps loads" "record_bytes dumps" "decode_record loads"
    "\<lambda>r n (records, offset). (records @ [r], offset + n)"
    "\<lambda>(records, offset) bs. read_records loads bs offset records" "\<lambda>(records, offset) bs. (records, offset)"
proof
  fix r x n p q e bs bs' and s :: "aof_record list \<times> nat"
  obtain records offset where s: "s = (records, offset)" by fastforce
  show "decode_record loads (record_bytes dumps x @ r) = Inr (Some (x, length (record_bytes dumps x)))"
    if "valid_record dumps loads x"
    using decode_record_bytes [OF that] decode_record_more [of loads "record_bytes dumps x" r] by simp
  show "decode_record loads p = Inr None" if "valid_record dumps loads x" "record_bytes dumps x = p @ q" "q \<noteq> []"
    using that by (rule decode_record_torn)
  show "0 < n \<and> n \<le> length bs \<and> decode_record loads (bs @ r) = Inr (Some (x, n))"
    if "decode_record loads bs = Inr (Some (x, n))"
    using that decode_record_size [OF that] decode_record_more [of loads bs r] by (simp add: AOF_HEADER_SIZE_def)
  show "decode_record loads (bs @ r) = Inl e" if "decode_record loads bs = Inl e"
    using that decode_record_more [of loads bs r] by simp
  show "(case s of (records, offset) \<Rightarrow> \<lambda>bs. read_records loads bs offset records) bs =
      (case case s of (records, offset) \<Rightarrow> (records @ [x], offset + n) of
         (records, offset) \<Rightarrow> \<lambda>bs. read_records loads bs offset records) (drop n bs)"
    if "decode_record loads bs = Inr (Some (x, n))"
    using read_records_some [OF that] by (simp add: s)
  show "(case s of (records, offset) \<Rightarrow> \<lambda>bs. read_records loads bs offset records) bs =
      (case s of (records, offset) \<Rightarrow> \<lambda>bs. (records, offset)) bs"
    if "decode_record loads bs = Inr None"
    using read_records_none [OF that] by (simp add: s)
qed

lemma push_records:
  "aof.push_all dumps rs (records, offset) = (records @ rs, offset + length (concat (map (record_bytes dumps) rs)))"
  by (induction rs arbitrary: records offset) (simp_all add: aof.push_all_def)

section \<open>What a crash leaves\<close>

definition writes :: "((string \<times> json) list \<Rightarrow> bytes) \<Rightarrow> aof_record \<Rightarrow> bytes \<Rightarrow> bool" where
  "writes dumps r bs \<longleftrightarrow>
     encode_record dumps (rc_seq r) (rc_op r) (record_dict r) (rc_payload r) (rc_timestamp r) = Inr bs"

lemma writes_record_bytes: "valid_record dumps loads r \<Longrightarrow> writes dumps r bs \<longleftrightarrow> bs = record_bytes dumps r"
  by (auto simp: writes_def encode_record_eq)

lemma list_writes:
  "\<forall>r \<in> set rs. valid_record dumps loads r \<Longrightarrow> list_all2 (writes dumps) rs bss \<Longrightarrow> bss = map (record_bytes dumps) rs"
  by (induction rs arbitrary: bss) (auto simp: list_all2_Cons1 writes_record_bytes)

text \<open>The records that a cut of the written bytes keeps.\<close>

lemma read_records_cut:
  assumes "\<forall>r \<in> set rs. valid_record dumps loads r" "concat (map (record_bytes dumps) rs) = p @ q"
  shows "\<exists>n \<le> length rs. read_records loads p offset acc =
      (acc @ take n rs, offset + length (concat (map (record_bytes dumps) (take n rs)))) \<and>
    (\<forall>k \<le> length rs. length (concat (map (record_bytes dumps) (take k rs))) \<le> length p \<longleftrightarrow> k \<le> n)"
  using assms
proof (induction rs arbitrary: p offset acc)
  case Nil
  then have "read_records loads p offset acc = (acc, offset)" by (subst read_records.simps) simp
  then show ?case by simp
next
  case (Cons r rs)
  have v: "valid_record dumps loads r" using Cons.prems(1) by simp
  show ?case
  proof (cases "length p < length (record_bytes dumps r)")
    case True
    then obtain q' where q': "record_bytes dumps r = p @ q'" "q' \<noteq> []"
      using Cons.prems(2) by (auto simp: append_eq_append_conv2)
    have "read_records loads p offset acc = (acc, offset)"
      using read_records_none [OF decode_record_torn [OF v q']] .
    moreover have "length (concat (map (record_bytes dumps) (take k (r # rs)))) \<le> length p \<longleftrightarrow> k \<le> 0" for k
      using True by (cases k) simp_all
    ultimately show ?thesis by (intro exI [of _ 0]) simp
  next
    case False
    then obtain p' where p': "p = record_bytes dumps r @ p'" "concat (map (record_bytes dumps) rs) = p' @ q"
      using Cons.prems(2) by (auto simp: append_eq_append_conv2)
    obtain n where n: "n \<le> length rs" "read_records loads p' (offset + length (record_bytes dumps r)) (acc @ [r]) =
        ((acc @ [r]) @ take n rs, offset + length (record_bytes dumps r) + length (concat (map (record_bytes dumps) (take n rs))))"
      "\<forall>k \<le> length rs. length (concat (map (record_bytes dumps) (take k rs))) \<le> length p' \<longleftrightarrow> k \<le> n"
      using Cons.IH [OF _ p'(2)] Cons.prems(1) by (metis list.set_intros(2))
    have "read_records loads p offset acc =
        read_records loads p' (offset + length (record_bytes dumps r)) (acc @ [r])"
      using read_records_some [OF aof.dec_enc [OF v], of p'] unfolding p'(1) by simp
    moreover have "length (concat (map (record_bytes dumps) (take k (r # rs)))) \<le> length p \<longleftrightarrow> k \<le> Suc n"
      if "k \<le> length (r # rs)" for k
      using that n(3) p'(1) by (cases k) auto
    ultimately show ?thesis using n(1,2) by (intro exI [of _ "Suc n"]) simp
  qed
qed

text \<open>C14. The log survives a crash: when the file holds any initial part of the bytes of a sequence of
  written records - cut off anywhere, also inside a record - \<open>read_aof\<close> gives exactly the records whose
  bytes are complete, and the offset to truncate the file to is the end of the last of them.\<close>

theorem read_aof_after_crash:
  assumes "\<forall>r \<in> set rs. valid_record dumps loads r" "list_all2 (writes dumps) rs bss" "concat bss = data @ lost"
  shows "\<exists>n \<le> length rs. read_aof loads (Some data) = (take n rs, length (concat (take n bss))) \<and>
    (\<forall>k \<le> length rs. length (concat (take k bss)) \<le> length data \<longleftrightarrow> k \<le> n)"
proof -
  have bss: "bss = map (record_bytes dumps) rs" by (rule list_writes [OF assms(1,2)])
  have "concat (map (record_bytes dumps) rs) = data @ lost" using assms(3) bss by simp
  from read_records_cut [OF assms(1) this, of 0 "[]"] show ?thesis
    unfolding bss read_aof_def by (simp add: take_map)
qed

definition demo_log :: "aof_record list" where
  "demo_log =
     [\<lparr>rc_seq = 1, rc_op = ''QUEUE_DECLARE'', rc_meta = JObj [], rc_payload = [], rc_timestamp = 0\<rparr>,
      \<lparr>rc_seq = 2, rc_op = ''MESSAGE_PUBLISH'', rc_meta = JObj [], rc_payload = [1, 2], rc_timestamp = 0\<rparr>]"

abbreviation demo_dumps :: "(string \<times> json) list \<Rightarrow> bytes" where
  "demo_dumps \<equiv> \<lambda>_. [0x7B, 0x7D]"

abbreviation demo_loads :: "bytes \<Rightarrow> json option" where
  "demo_loads \<equiv> \<lambda>_. Some (JObj [])"

lemma demo_log_valid: "\<forall>r \<in> set demo_log. valid_record demo_dumps demo_loads r"
  by (simp add: demo_log_def valid_record_def OP_BY_NAME_def)

text \<open>The second record loses its last byte.\<close>

theorem read_aof_after_crash_witness:
  "read_aof demo_loads (Some (butlast (concat (map (record_bytes demo_dumps) demo_log)))) =
     (take 1 demo_log, length (record_bytes demo_dumps (demo_log ! 0)))"
proof -
  let ?bss = "map (record_bytes demo_dumps) demo_log"
  have nn: "concat ?bss \<noteq> []" by (simp add: demo_log_def record_bytes_def head31_def Let_def)
  have two: "length demo_log = 2" by (simp add: demo_log_def)
  have w: "list_all2 (writes demo_dumps) demo_log ?bss"
    using demo_log_valid by (auto simp: list_all2_map2 writes_record_bytes intro!: list.rel_refl_strong)
  obtain n where n: "n \<le> 2" "read_aof demo_loads (Some (butlast (concat ?bss))) = (take n demo_log, length (concat (take n ?bss)))"
    "\<forall>k \<le> 2. length (concat (take k ?bss)) \<le> length (butlast (concat ?bss)) \<longleftrightarrow> k \<le> n"
    using read_aof_after_crash [OF demo_log_valid w append_butlast_last_id [OF nn, symmetric], unfolded two]
    by (elim exE conjE)
  have "length (butlast (concat ?bss)) = 75" by (simp add: demo_log_def length_record_bytes AOF_HEADER_SIZE_def)
  then have "\<not> 2 \<le> n" "1 \<le> n"
    using n(3) [rule_format, of 2] n(3) [rule_format, of 1]
    by (simp_all add: demo_log_def length_record_bytes AOF_HEADER_SIZE_def)
  then have "n = 1" by simp
  then show ?thesis using n(2) by (simp add: demo_log_def)
qed

end
