(* ===== verification/PubSub.thy ===== *)
theory PubSub
  imports Machine
begin

text \<open>
  \<open>pubsub/channels.py\<close>: channels, their subscribers and counters. The three dictionaries are
  \<open>defaultdict\<close>s: reading a missing key with \<open>d[k]\<close> inserts it, which the model writes out.
  Sending an event to a connection changes the connection's outbound queue; \<open>send_event\<close> takes and
  returns the state \<open>'w\<close> it works on.

  The abstract specification is a set of pairs (channel, connection); \<open>subscribe\<close>, \<open>unsubscribe\<close>,
  \<open>disconnect\<close> and \<open>publish\<close> are shown to refine insertion, removal and the offer of the payload to
  the connections of a channel.
\<close>

section \<open>State and operations\<close>

record channel_stats =
  cs_published :: nat
  cs_fanout :: nat
  cs_slow_drops :: nat

type_synonym send_fn = "bytes \<Rightarrow> bool"

record pubsub =
  subscriber_buffer :: int
  subs :: "(string \<times> (string \<times> send_fn) list) list"
  chans_of :: "(string \<times> string set) list"
  chan_stats :: "(string \<times> channel_stats) list"
  total_published :: nat
  total_fanout :: nat

definition new_pubsub :: "int \<Rightarrow> pubsub" where
  "new_pubsub buffer =
     \<lparr>subscriber_buffer = buffer, subs = [], chans_of = [], chan_stats = [],
      total_published = 0, total_fanout = 0\<rparr>"

definition no_stats :: channel_stats where
  "no_stats = \<lparr>cs_published = 0, cs_fanout = 0, cs_slow_drops = 0\<rparr>"

definition get_default :: "'v \<Rightarrow> 'k \<Rightarrow> ('k \<times> 'v) list \<Rightarrow> 'v" where
  "get_default d k xs = (case map_of xs k of None \<Rightarrow> d | Some v \<Rightarrow> v)"

definition subscribe :: "string \<Rightarrow> string \<Rightarrow> send_fn \<Rightarrow> pubsub \<Rightarrow> pubsub" where
  "subscribe conn ch send ps =
     ps\<lparr>subs := dset ch (dset conn send (get_default [] ch (subs ps))) (subs ps),
        chans_of := dset conn (insert ch (get_default {} conn (chans_of ps))) (chans_of ps)\<rparr>"

definition unsubscribe :: "string \<Rightarrow> string \<Rightarrow> pubsub \<Rightarrow> bool \<times> pubsub" where
  "unsubscribe conn ch ps =
     (case map_of (subs ps) ch of
        None \<Rightarrow> (False, ps)
      | Some conns \<Rightarrow>
          if conns = [] \<or> conn \<notin> dkeys conns then (False, ps)
          else
            (let conns' = ddel conn conns;
                 ps1 = ps\<lparr>subs := dset ch conns' (subs ps),
                          chans_of := dset conn (get_default {} conn (chans_of ps) - {ch}) (chans_of ps)\<rparr>
             in (True, if conns' = [] then ps1\<lparr>subs := ddel ch (subs ps1)\<rparr> else ps1)))"

definition disconnect :: "(string set \<Rightarrow> string list) \<Rightarrow> string \<Rightarrow> pubsub \<Rightarrow> pubsub" where
  "disconnect order conn ps =
     fold (\<lambda>ch ps. snd (unsubscribe conn ch ps)) (order (get_default {} conn (chans_of ps)))
       (ps\<lparr>chans_of := ddel conn (chans_of ps)\<rparr>)"

definition bump :: "string \<Rightarrow> (channel_stats \<Rightarrow> channel_stats) \<Rightarrow> pubsub \<Rightarrow> pubsub" where
  "bump ch f ps = ps\<lparr>chan_stats := dset ch (f (get_default no_stats ch (chan_stats ps))) (chan_stats ps)\<rparr>"

fun publish_each ::
  "(string \<Rightarrow> bytes \<Rightarrow> 'w \<Rightarrow> bool \<times> 'w) \<Rightarrow> string \<Rightarrow> bytes \<Rightarrow> string list \<Rightarrow> nat \<Rightarrow> string list \<Rightarrow>
   pubsub \<times> 'w \<Rightarrow> (nat \<times> string list) \<times> pubsub \<times> 'w" where
  "publish_each send_event ch payload [] delivered slow s = ((delivered, slow), s)"
| "publish_each send_event ch payload (conn # conns) delivered slow (ps, w) =
     (case send_event conn payload w of
        (True, w') \<Rightarrow>
          publish_each send_event ch payload conns (Suc delivered) slow
            (bump ch (\<lambda>st. st\<lparr>cs_fanout := Suc (cs_fanout st)\<rparr>)
               (ps\<lparr>total_fanout := Suc (total_fanout ps)\<rparr>), w')
      | (False, w') \<Rightarrow>
          publish_each send_event ch payload conns delivered (slow @ [conn])
            (bump ch (\<lambda>st. st\<lparr>cs_slow_drops := Suc (cs_slow_drops st)\<rparr>) ps, w'))"

definition publish_channel ::
  "(string \<Rightarrow> bytes \<Rightarrow> 'w \<Rightarrow> bool \<times> 'w) \<Rightarrow> string \<Rightarrow> bytes \<Rightarrow> pubsub \<times> 'w \<Rightarrow>
   (nat \<times> string list) \<times> pubsub \<times> 'w" where
  "publish_channel send_event ch payload s =
     (case s of (ps, w) \<Rightarrow>
        publish_each send_event ch payload (map fst (get_default [] ch (subs ps))) 0 []
          (bump ch (\<lambda>st. st\<lparr>cs_published := Suc (cs_published st)\<rparr>)
             (ps\<lparr>total_published := Suc (total_published ps)\<rparr>), w))"

record channel_report =
  cr_channel :: string
  cr_subscribers :: nat
  cr_published :: nat
  cr_fanout :: nat

text \<open>Listing reads \<open>_stats[name]\<close> and so leaves an entry for every channel.\<close>

definition list_channels :: "pubsub \<Rightarrow> channel_report list \<times> pubsub" where
  "list_channels ps =
     (let names = sorted_list_of_set (dkeys (subs ps) \<union> dkeys (chan_stats ps));
          row = (\<lambda>n. let st = get_default no_stats n (chan_stats ps)
                     in \<lparr>cr_channel = n, cr_subscribers = length (get_default [] n (subs ps)),
                         cr_published = cs_published st, cr_fanout = cs_fanout st\<rparr>)
      in (map row names, fold (\<lambda>n. bump n (\<lambda>st. st)) names ps))"

section \<open>The invariant\<close>

definition subscriptions :: "pubsub \<Rightarrow> (string \<times> string) set" where
  "subscriptions ps = {(ch, conn). map_of (get_default [] ch (subs ps)) conn \<noteq> None}"

definition pubsub_ok :: "pubsub \<Rightarrow> bool" where
  "pubsub_ok ps \<longleftrightarrow>
     (\<forall>ch conns. map_of (subs ps) ch = Some conns \<longrightarrow> dict_ok conns \<and> conns \<noteq> []) \<and>
     (\<forall>conn. finite (get_default {} conn (chans_of ps))) \<and>
     (\<forall>conn ch. ch \<in> get_default {} conn (chans_of ps) \<longleftrightarrow> (ch, conn) \<in> subscriptions ps)"

lemma get_default_dset [simp]: "get_default d k (dset k' v xs) = (if k = k' then v else get_default d k xs)"
  by (simp add: get_default_def)

lemma get_default_ddel [simp]: "get_default d k (ddel k' xs) = (if k = k' then d else get_default d k xs)"
  by (simp add: get_default_def)

lemma ddel_Nil: "ddel k xs = [] \<Longrightarrow> map_of xs k' = Some v \<Longrightarrow> k' = k"
  by (metis fun_upd_apply map_of.simps(1) map_of_ddel option.distinct(1))

lemma bump_frame [simp]:
  "subs (bump ch f ps) = subs ps" "chans_of (bump ch f ps) = chans_of ps"
  "subscriptions (bump ch f ps) = subscriptions ps" "pubsub_ok (bump ch f ps) = pubsub_ok ps"
  "total_published (bump ch f ps) = total_published ps" "total_fanout (bump ch f ps) = total_fanout ps"
  by (simp_all add: bump_def subscriptions_def pubsub_ok_def)

lemma subscriptions_subscribe: "subscriptions (subscribe conn ch send ps) = insert (ch, conn) (subscriptions ps)"
  by (auto simp: subscriptions_def subscribe_def split: if_splits)

lemma unsubscribe_cases:
  obtains (no) "(ch, conn) \<notin> subscriptions ps" "unsubscribe conn ch ps = (False, ps)"
  | (last) conns where "(ch, conn) \<in> subscriptions ps" "map_of (subs ps) ch = Some conns" "ddel conn conns = []"
      "unsubscribe conn ch ps = (True, ps\<lparr>subs := ddel ch (dset ch [] (subs ps)),
         chans_of := dset conn (get_default {} conn (chans_of ps) - {ch}) (chans_of ps)\<rparr>)"
  | (some) conns where "(ch, conn) \<in> subscriptions ps" "map_of (subs ps) ch = Some conns" "ddel conn conns \<noteq> []"
      "unsubscribe conn ch ps = (True, ps\<lparr>subs := dset ch (ddel conn conns) (subs ps),
         chans_of := dset conn (get_default {} conn (chans_of ps) - {ch}) (chans_of ps)\<rparr>)"
proof (cases "(ch, conn) \<in> subscriptions ps")
  case False
  then have "unsubscribe conn ch ps = (False, ps)"
    by (auto simp: unsubscribe_def subscriptions_def get_default_def dkeys_iff simp del: image_iff split: option.splits)
  then show ?thesis using no False by blast
next
  case True
  then obtain conns where m: "map_of (subs ps) ch = Some conns" "map_of conns conn \<noteq> None"
    by (auto simp: subscriptions_def get_default_def split: option.splits)
  then have c: "map_of (subs ps) ch = Some conns" "conns \<noteq> []" "conn \<in> dkeys conns"
    by (auto simp: dkeys_iff simp del: image_iff)
  show ?thesis
  proof (cases "ddel conn conns = []")
    case empty: True
    then show ?thesis using last [OF True c(1) empty] c by (simp add: unsubscribe_def Let_def del: image_iff)
  next
    case False
    then show ?thesis using some [OF True c(1) False] c by (simp add: unsubscribe_def Let_def del: image_iff)
  qed
qed

lemma unsubscribe_answer: "fst (unsubscribe conn ch ps) \<longleftrightarrow> (ch, conn) \<in> subscriptions ps"
  by (cases rule: unsubscribe_cases [of ch conn ps]) simp_all

lemma subscriptions_unsubscribe:
  "subscriptions (snd (unsubscribe conn ch ps)) = subscriptions ps - {(ch, conn)}"
proof (cases rule: unsubscribe_cases [of ch conn ps])
  case no
  then show ?thesis by simp
next
  case (last conns)
  have "get_default [] ch (subs ps) = conns" using last(2) by (simp add: get_default_def)
  then have "k = conn" if "map_of (get_default [] ch (subs ps)) k = Some v" for k v
    using that ddel_Nil [OF last(3)] by simp
  then show ?thesis unfolding last(4) subscriptions_def by (auto split: if_splits)
next
  case (some conns)
  have "get_default [] ch (subs ps) = conns" using some(2) by (simp add: get_default_def)
  then show ?thesis unfolding some(4) subscriptions_def by (auto split: if_splits)
qed

lemma pubsub_ok_new: "pubsub_ok (new_pubsub b)"
  by (simp add: pubsub_ok_def new_pubsub_def get_default_def subscriptions_def)

lemma pubsub_ok_subscribe:
  assumes "pubsub_ok ps"
  shows "pubsub_ok (subscribe conn ch send ps)"
proof -
  have "dict_ok (dset conn send (get_default [] ch (subs ps)))"
    using assms by (auto simp: pubsub_ok_def get_default_def split: option.split)
  moreover have "dset conn send xs \<noteq> []" for xs by (cases xs) auto
  ultimately show ?thesis
    using assms unfolding pubsub_ok_def subscriptions_subscribe by (auto simp: subscribe_def)
qed

text \<open>After the entry of a connection has been taken away, its channels are unsubscribed one by one:
  then the dictionary of channels no longer mirrors the subscriptions of that connection.\<close>

definition mirrors_except :: "string \<Rightarrow> pubsub \<Rightarrow> bool" where
  "mirrors_except c ps \<longleftrightarrow>
     (\<forall>ch conns. map_of (subs ps) ch = Some conns \<longrightarrow> dict_ok conns \<and> conns \<noteq> []) \<and>
     (\<forall>conn. finite (get_default {} conn (chans_of ps))) \<and>
     (\<forall>conn ch. conn \<noteq> c \<longrightarrow> (ch \<in> get_default {} conn (chans_of ps) \<longleftrightarrow> (ch, conn) \<in> subscriptions ps))"

lemma pubsub_ok_unsubscribe:
  assumes "pubsub_ok ps"
  shows "pubsub_ok (snd (unsubscribe conn ch ps))"
proof -
  have "(\<forall>ch' conns. map_of (subs (snd (unsubscribe conn ch ps))) ch' = Some conns \<longrightarrow> dict_ok conns \<and> conns \<noteq> [])"
    using assms by (cases rule: unsubscribe_cases [of ch conn ps]) (auto simp: pubsub_ok_def)
  moreover have "get_default {} c (chans_of (snd (unsubscribe conn ch ps))) =
      (if c = conn then get_default {} conn (chans_of ps) - {ch} else get_default {} c (chans_of ps))" for c
    using assms by (cases rule: unsubscribe_cases [of ch conn ps]) (auto simp: pubsub_ok_def)
  ultimately show ?thesis
    using assms unfolding pubsub_ok_def subscriptions_unsubscribe by auto
qed

lemma mirrors_unsubscribe:
  assumes "mirrors_except conn ps"
  shows "mirrors_except conn (snd (unsubscribe conn ch ps))"
    "get_default {} conn (chans_of ps) = {} \<Longrightarrow> get_default {} conn (chans_of (snd (unsubscribe conn ch ps))) = {}"
proof -
  have "(\<forall>ch' conns. map_of (subs (snd (unsubscribe conn ch ps))) ch' = Some conns \<longrightarrow> dict_ok conns \<and> conns \<noteq> [])"
    using assms by (cases rule: unsubscribe_cases [of ch conn ps]) (auto simp: mirrors_except_def)
  moreover have "get_default {} c (chans_of (snd (unsubscribe conn ch ps))) =
      (if c = conn \<and> (ch, conn) \<in> subscriptions ps then get_default {} conn (chans_of ps) - {ch} else get_default {} c (chans_of ps))" for c
    by (cases rule: unsubscribe_cases [of ch conn ps]) auto
  ultimately show "mirrors_except conn (snd (unsubscribe conn ch ps))"
    "get_default {} conn (chans_of ps) = {} \<Longrightarrow> get_default {} conn (chans_of (snd (unsubscribe conn ch ps))) = {}"
    using assms unfolding mirrors_except_def subscriptions_unsubscribe by auto
qed

lemma unsubscribe_all:
  assumes "mirrors_except conn ps" "get_default {} conn (chans_of ps) = {}"
  shows "mirrors_except conn (fold (\<lambda>ch ps. snd (unsubscribe conn ch ps)) chs ps) \<and>
    get_default {} conn (chans_of (fold (\<lambda>ch ps. snd (unsubscribe conn ch ps)) chs ps)) = {} \<and>
    subscriptions (fold (\<lambda>ch ps. snd (unsubscribe conn ch ps)) chs ps) = subscriptions ps - set chs \<times> {conn}"
  using assms
proof (induction chs arbitrary: ps)
  case (Cons ch chs)
  show ?case
    using Cons.IH [OF mirrors_unsubscribe(1) [OF Cons.prems(1)] mirrors_unsubscribe(2) [OF Cons.prems]]
    by (auto simp: subscriptions_unsubscribe)
qed simp

lemma disconnect_effect:
  assumes "pubsub_ok ps" "set (order (get_default {} conn (chans_of ps))) = get_default {} conn (chans_of ps)"
  shows "pubsub_ok (disconnect order conn ps)"
    "subscriptions (disconnect order conn ps) = {(ch, c) \<in> subscriptions ps. c \<noteq> conn}"
proof -
  let ?ps = "ps\<lparr>chans_of := ddel conn (chans_of ps)\<rparr>" and ?chs = "order (get_default {} conn (chans_of ps))"
  have subs: "subscriptions ?ps = subscriptions ps" by (simp add: subscriptions_def)
  have "mirrors_except conn ?ps" "get_default {} conn (chans_of ?ps) = {}"
    using assms(1) unfolding mirrors_except_def pubsub_ok_def subs by simp_all
  from unsubscribe_all [OF this, of ?chs] have all: "mirrors_except conn (disconnect order conn ps)"
    "get_default {} conn (chans_of (disconnect order conn ps)) = {}"
    "subscriptions (disconnect order conn ps) = subscriptions ps - set ?chs \<times> {conn}"
    unfolding disconnect_def subs by blast+
  show eff: "subscriptions (disconnect order conn ps) = {(ch, c) \<in> subscriptions ps. c \<noteq> conn}"
    unfolding all(3) using assms by (auto simp: pubsub_ok_def)
  show "pubsub_ok (disconnect order conn ps)"
    unfolding pubsub_ok_def
  proof (intro conjI allI)
    fix c ch
    show "ch \<in> get_default {} c (chans_of (disconnect order conn ps)) \<longleftrightarrow> (ch, c) \<in> subscriptions (disconnect order conn ps)"
      using all(1,2) eff by (cases "c = conn") (auto simp: mirrors_except_def)
  qed (use all(1) in \<open>auto simp: mirrors_except_def\<close>)
qed

section \<open>Reachable states\<close>

inductive fresh_pubsub :: "pubsub \<Rightarrow> bool" where
  "fresh_pubsub (new_pubsub b)"

inductive pubsub_step :: "pubsub \<Rightarrow> pubsub \<Rightarrow> bool" where
  "pubsub_step ps (subscribe conn ch send ps)"
| "pubsub_step ps (snd (unsubscribe conn ch ps))"
| "(\<forall>S. finite S \<longrightarrow> set (order S) = S) \<Longrightarrow> pubsub_step ps (disconnect order conn ps)"
| "pubsub_step ps (fst (snd (publish_channel send_event ch payload (ps, w :: unit))))"
| "pubsub_step ps (snd (list_channels ps))"

inductive_cases pubsub_stepE: "pubsub_step ps ps'"

text \<open>What is offered to the connections of a channel, one after the other.\<close>

fun offer :: "(string \<Rightarrow> bytes \<Rightarrow> 'w \<Rightarrow> bool \<times> 'w) \<Rightarrow> bytes \<Rightarrow> string list \<Rightarrow> 'w \<Rightarrow> (string \<times> bool) list \<times> 'w" where
  "offer send_event payload [] w = ([], w)"
| "offer send_event payload (c # cs) w =
     (case send_event c payload w of
        (ok, w') \<Rightarrow> (case offer send_event payload cs w' of (oks, w'') \<Rightarrow> ((c, ok) # oks, w'')))"

lemma offer_conns: "map fst (fst (offer send_event payload cs w)) = cs"
  by (induction cs arbitrary: w) (simp_all split: prod.split, metis fst_conv)

lemma publish_each_effect:
  "\<exists>ps'. publish_each send_event ch payload cs d sl (ps, w) =
     ((d + length (filter snd (fst (offer send_event payload cs w))),
       sl @ map fst (filter (\<lambda>x. \<not> snd x) (fst (offer send_event payload cs w)))),
      ps', snd (offer send_event payload cs w)) \<and>
    subs ps' = subs ps \<and> chans_of ps' = chans_of ps \<and> total_published ps' = total_published ps \<and>
    total_fanout ps' = total_fanout ps + length (filter snd (fst (offer send_event payload cs w)))"
proof (induction cs arbitrary: d sl ps w)
  case (Cons c cs)
  obtain ok w' where s: "send_event c payload w = (ok, w')" by fastforce
  show ?case
  proof (cases ok)
    case True
    obtain ps' where ps': "publish_each send_event ch payload cs (Suc d) sl
        (bump ch (\<lambda>st. st\<lparr>cs_fanout := Suc (cs_fanout st)\<rparr>) (ps\<lparr>total_fanout := Suc (total_fanout ps)\<rparr>), w') =
       ((Suc d + length (filter snd (fst (offer send_event payload cs w'))),
         sl @ map fst (filter (\<lambda>x. \<not> snd x) (fst (offer send_event payload cs w')))),
        ps', snd (offer send_event payload cs w'))"
      "subs ps' = subs ps" "chans_of ps' = chans_of ps" "total_published ps' = total_published ps"
      "total_fanout ps' = Suc (total_fanout ps) + length (filter snd (fst (offer send_event payload cs w')))"
      using Cons.IH [of "Suc d" sl "bump ch (\<lambda>st. st\<lparr>cs_fanout := Suc (cs_fanout st)\<rparr>) (ps\<lparr>total_fanout := Suc (total_fanout ps)\<rparr>)" w']
      by auto
    then show ?thesis using s True by (simp add: case_prod_beta)
  next
    case False
    obtain ps' where ps': "publish_each send_event ch payload cs d (sl @ [c])
        (bump ch (\<lambda>st. st\<lparr>cs_slow_drops := Suc (cs_slow_drops st)\<rparr>) ps, w') =
       ((d + length (filter snd (fst (offer send_event payload cs w'))),
         (sl @ [c]) @ map fst (filter (\<lambda>x. \<not> snd x) (fst (offer send_event payload cs w')))),
        ps', snd (offer send_event payload cs w'))"
      "subs ps' = subs ps" "chans_of ps' = chans_of ps" "total_published ps' = total_published ps"
      "total_fanout ps' = total_fanout ps + length (filter snd (fst (offer send_event payload cs w')))"
      using Cons.IH [of d "sl @ [c]" "bump ch (\<lambda>st. st\<lparr>cs_slow_drops := Suc (cs_slow_drops st)\<rparr>) ps" w'] by auto
    then show ?thesis using s False by (simp add: case_prod_beta)
  qed
qed simp

lemma publish_channel_effect:
  obtains ps' where "publish_channel send_event ch payload (ps, w) =
     ((length (filter snd (fst (offer send_event payload (map fst (get_default [] ch (subs ps))) w))),
       map fst (filter (\<lambda>x. \<not> snd x) (fst (offer send_event payload (map fst (get_default [] ch (subs ps))) w)))),
      ps', snd (offer send_event payload (map fst (get_default [] ch (subs ps))) w))"
    "subs ps' = subs ps" "chans_of ps' = chans_of ps" "total_published ps' = Suc (total_published ps)"
    "total_fanout ps' = total_fanout ps +
       length (filter snd (fst (offer send_event payload (map fst (get_default [] ch (subs ps))) w)))"
  using publish_each_effect [of send_event ch payload "map fst (get_default [] ch (subs ps))" 0 "[]"
      "bump ch (\<lambda>st. st\<lparr>cs_published := Suc (cs_published st)\<rparr>) (ps\<lparr>total_published := Suc (total_published ps)\<rparr>)" w]
  by (auto simp: publish_channel_def)

lemma same_subscriptions:
  "subs ps' = subs ps \<Longrightarrow> subscriptions ps' = subscriptions ps"
  "subs ps' = subs ps \<Longrightarrow> chans_of ps' = chans_of ps \<Longrightarrow> pubsub_ok ps' = pubsub_ok ps"
  by (simp_all add: subscriptions_def pubsub_ok_def)

lemma list_channels_frame: "subs (snd (list_channels ps)) = subs ps" "chans_of (snd (list_channels ps)) = chans_of ps"
proof -
  have "subs (fold (\<lambda>n. bump n (\<lambda>st. st)) ns ps) = subs ps \<and> chans_of (fold (\<lambda>n. bump n (\<lambda>st. st)) ns ps) = chans_of ps" for ns
    by (induction ns arbitrary: ps) simp_all
  then show "subs (snd (list_channels ps)) = subs ps" "chans_of (snd (list_channels ps)) = chans_of ps"
    by (simp_all add: list_channels_def Let_def)
qed

lemma pubsub_ok_step:
  assumes "pubsub_step ps ps'" "pubsub_ok ps"
  shows "pubsub_ok ps'"
  using assms(1)
proof cases
  case (3 order conn)
  have "finite (get_default {} conn (chans_of ps))" using assms(2) by (simp add: pubsub_ok_def)
  then have "set (order (get_default {} conn (chans_of ps))) = get_default {} conn (chans_of ps)" using 3(2) by blast
  then show ?thesis unfolding 3(1) by (rule disconnect_effect(1) [OF assms(2)])
next
  case (4 send_event ch payload w)
  obtain ps'' where ps'': "fst (snd (publish_channel send_event ch payload (ps, w))) = ps''"
    "subs ps'' = subs ps" "chans_of ps'' = chans_of ps"
    by (rule publish_channel_effect [of send_event ch payload ps w]) simp
  show ?thesis unfolding 4 ps''(1) using assms(2) same_subscriptions(2) [OF ps''(2,3)] by simp
next
  case 5
  show ?thesis unfolding 5 using assms(2) same_subscriptions(2) [OF list_channels_frame] by simp
qed (simp_all add: assms pubsub_ok_subscribe pubsub_ok_unsubscribe)

interpretation pubsub: step_invariant fresh_pubsub pubsub_step pubsub_ok
  by unfold_locales (auto elim!: fresh_pubsub.cases intro: pubsub_ok_new pubsub_ok_step)

abbreviation reachable_pubsub :: "pubsub \<Rightarrow> bool" where
  "reachable_pubsub \<equiv> reach fresh_pubsub pubsub_step"

section \<open>Properties\<close>

text \<open>C21. The subscription tables implement a set of pairs of a channel and a connection: \<open>subscribe\<close>
  inserts the pair, \<open>unsubscribe\<close> answers whether it is there and removes it, and \<open>disconnect\<close> removes
  all pairs of the connection and nothing else.\<close>

theorem pubsub_refines_subscriptions:
  assumes "reachable_pubsub ps" "\<forall>S. finite S \<longrightarrow> set (order S) = S"
  shows "subscriptions (subscribe conn ch send ps) = insert (ch, conn) (subscriptions ps) \<and>
    (\<exists>ps'. unsubscribe conn ch ps = ((ch, conn) \<in> subscriptions ps, ps') \<and>
           subscriptions ps' = subscriptions ps - {(ch, conn)}) \<and>
    subscriptions (disconnect order conn ps) = {(ch, c) \<in> subscriptions ps. c \<noteq> conn}"
proof -
  have ok: "pubsub_ok ps" by (rule pubsub.reach_safe [OF assms(1)])
  then have "set (order (get_default {} conn (chans_of ps))) = get_default {} conn (chans_of ps)"
    using assms(2) by (simp add: pubsub_ok_def)
  then have "subscriptions (disconnect order conn ps) = {(ch, c) \<in> subscriptions ps. c \<noteq> conn}"
    by (rule disconnect_effect(2) [OF ok])
  moreover have "unsubscribe conn ch ps = ((ch, conn) \<in> subscriptions ps, snd (unsubscribe conn ch ps))"
    by (simp add: unsubscribe_answer prod_eq_iff)
  ultimately show ?thesis
    by (intro conjI exI [of _ "snd (unsubscribe conn ch ps)"] subscriptions_subscribe subscriptions_unsubscribe)
qed

definition demo_channels :: pubsub where
  "demo_channels = subscribe ''b'' ''news'' (\<lambda>_. True) (subscribe ''a'' ''news'' (\<lambda>_. True) (new_pubsub 10))"

lemma demo_channels_reachable: "reachable_pubsub demo_channels"
  unfolding demo_channels_def
proof -
  have "reachable_pubsub (new_pubsub 10)" by (rule reach.start) (rule fresh_pubsub.intros)
  then have "reachable_pubsub (subscribe ''a'' ''news'' (\<lambda>_. True) (new_pubsub 10))"
    by (rule reach.after) (rule pubsub_step.intros)
  then show "reachable_pubsub (subscribe ''b'' ''news'' (\<lambda>_. True) (subscribe ''a'' ''news'' (\<lambda>_. True) (new_pubsub 10)))"
    by (rule reach.after) (rule pubsub_step.intros)
qed

lemma demo_subscriptions: "subscriptions demo_channels = {(''news'', ''a''), (''news'', ''b'')}"
  unfolding demo_channels_def subscriptions_subscribe
  by (auto simp: subscriptions_def new_pubsub_def get_default_def)

theorem pubsub_refines_subscriptions_witness:
  "subscriptions (disconnect sorted_list_of_set ''a'' demo_channels) = {(''news'', ''b'')}"
  using pubsub_refines_subscriptions [OF demo_channels_reachable, of sorted_list_of_set "''a''"]
  unfolding demo_subscriptions by auto

text \<open>A publication to a channel is offered to every subscriber exactly once: the connections that
  are tried are distinct and are the subscribers of the channel, the answer counts the ones that took
  it and lists the others in the order they were tried, and the subscriptions stay as they were.\<close>

theorem publish_channel_offers_once:
  assumes "reachable_pubsub ps"
  shows "\<exists>conns oks w' ps'. distinct conns \<and> set conns = {c. (ch, c) \<in> subscriptions ps} \<and>
    offer send_event payload conns w = (oks, w') \<and>
    publish_channel send_event ch payload (ps, w) =
      ((length (filter snd oks), map fst (filter (\<lambda>x. \<not> snd x) oks)), ps', w') \<and>
    subscriptions ps' = subscriptions ps \<and> total_published ps' = Suc (total_published ps) \<and>
    total_fanout ps' = total_fanout ps + length (filter snd oks)"
proof -
  let ?conns = "map fst (get_default [] ch (subs ps))"
  have ok: "pubsub_ok ps" by (rule pubsub.reach_safe [OF assms])
  then have d: "distinct ?conns"
    by (auto simp: pubsub_ok_def get_default_def dict_ok_def split: option.split)
  have c: "set ?conns = {c. (ch, c) \<in> subscriptions ps}"
    by (simp add: subscriptions_def dom_map_of_conv_image_fst [symmetric] dom_def)
  obtain oks w' where o: "offer send_event payload ?conns w = (oks, w')" by fastforce
  obtain ps' where p: "publish_channel send_event ch payload (ps, w) =
      ((length (filter snd oks), map fst (filter (\<lambda>x. \<not> snd x) oks)), ps', w')"
    "subs ps' = subs ps" "total_published ps' = Suc (total_published ps)"
    "total_fanout ps' = total_fanout ps + length (filter snd oks)"
    by (rule publish_channel_effect [of send_event ch payload ps w]) (simp add: o)
  show ?thesis
    by (rule exI [of _ ?conns], rule exI [of _ oks], rule exI [of _ w'], rule exI [of _ ps'])
       (simp only: d c o p same_subscriptions(1) [OF p(2)])
qed

theorem publish_channel_offers_once_witness:
  "fst (publish_channel (\<lambda>c pl n. (c = ''a'', Suc n)) ''news'' [1] (demo_channels, 0)) = (1, [''b''])"
proof -
  let ?send = "\<lambda>c pl n. (c = ''a'', Suc n)"
  note once = publish_channel_offers_once [OF demo_channels_reachable, where ch = "''news''" and
      send_event = ?send and payload = "[1]" and w = 0]
  show ?thesis
  proof (rule exE [OF once], elim exE conjE)
    fix conns oks w' ps'
    assume d: "distinct conns" and "set conns = {c. (''news'', c) \<in> subscriptions demo_channels}"
      and o: "offer ?send [1] conns 0 = (oks, w')"
      and p: "publish_channel ?send ''news'' [1] (demo_channels, 0) =
        ((length (filter snd oks), map fst (filter (\<lambda>x. \<not> snd x) oks)), ps', w')"
    then have s: "set conns = {''a'', ''b''}" unfolding demo_subscriptions by auto
    then have "length conns = 2" using distinct_card [OF d] by simp
    then obtain x y where xy: "conns = [x, y]" by (auto simp: length_Suc_conv numeral_2_eq_2)
    then have "{x, y} = {''a'', ''b''}" using s by simp
    then have "conns = [''a'', ''b''] \<or> conns = [''b'', ''a'']" unfolding doubleton_eq_iff xy by blast
    then show ?thesis using o p by auto
  qed
qed

end
