(* ===== verification/Security.thy ===== *)
theory Security
  imports Prelude
begin

text \<open>
  \<open>security/auth.py\<close> and \<open>security/acl.py\<close>: principals, the check of credentials and the roles.
  Logging is left out. \<open>hmac.compare_digest\<close> is equality (that it takes the same time for all
  arguments does not show in its result), and encoding to UTF-8 is injective, so \<open>_digest\<close> compares
  the strings.
\<close>

section \<open>Principals and credentials\<close>

definition ROLES :: "string list" where
  "ROLES = [''admin'', ''producer'', ''consumer'', ''subscriber'', ''monitor'']"

record principal =
  pr_name :: string
  pr_role :: string

definition new_principal :: "string \<Rightarrow> string \<Rightarrow> py_error + principal" where
  "new_principal n r =
     (if r \<notin> set ROLES then Inl (ValueError ''unknown role'') else Inr \<lparr>pr_name = n, pr_role = r\<rparr>)"

text \<open>\<open>AuthUser\<close> of \<open>broker/config.py\<close>, which checks the role and asks for a secret.\<close>

record auth_user =
  us_name :: string
  us_token :: string
  us_password :: string
  us_role :: string

definition new_user :: "string \<Rightarrow> string \<Rightarrow> string \<Rightarrow> string \<Rightarrow> py_error + auth_user" where
  "new_user n tok pw r =
     (if r \<notin> {''admin'', ''producer'', ''consumer'', ''subscriber'', ''monitor''}
      then Inl (ValueError ''unknown role'')
      else if tok = [] \<and> pw = [] then Inl (ValueError ''user needs a token or password'')
      else Inr \<lparr>us_name = n, us_token = tok, us_password = pw, us_role = r\<rparr>)"

definition digest :: "string \<Rightarrow> string \<Rightarrow> bool" where
  "digest a b = (if length a \<noteq> length b then False else a = b)"

fun token_loop :: "string \<Rightarrow> auth_user list \<Rightarrow> py_error + principal option" where
  "token_loop token [] = Inr None"
| "token_loop token (u # us) =
     (let secret = us_token u in
      if secret \<noteq> [] \<and> digest token secret
      then (case new_principal (us_name u) (us_role u) of Inl err \<Rightarrow> Inl err | Inr p \<Rightarrow> Inr (Some p))
      else token_loop token us)"

fun password_loop :: "string \<Rightarrow> string \<Rightarrow> auth_user list \<Rightarrow> py_error + principal option" where
  "password_loop username password [] = Inr None"
| "password_loop username password (u # us) =
     (if us_name u \<noteq> username then password_loop username password us
      else
        (let secret = (if us_password u \<noteq> [] then us_password u else us_token u) in
         if secret \<noteq> [] \<and> digest password secret
         then (case new_principal (us_name u) (us_role u) of Inl err \<Rightarrow> Inl err | Inr p \<Rightarrow> Inr (Some p))
         else password_loop username password us))"

definition given :: "string option \<Rightarrow> bool" where
  "given s = (case s of None \<Rightarrow> False | Some x \<Rightarrow> x \<noteq> [])"

definition authenticate ::
  "string option \<Rightarrow> string option \<Rightarrow> string option \<Rightarrow> auth_user list \<Rightarrow> py_error + principal option" where
  "authenticate token username password users =
     (if given token then token_loop (the token) users
      else if given username \<and> given password
      then password_loop (the username) (the password) users
      else Inr None)"

section \<open>Roles\<close>

definition upper_char :: "char \<Rightarrow> char" where
  "upper_char c = (if 97 \<le> (of_char c :: nat) \<and> (of_char c :: nat) \<le> 122 then char_of (of_char c - 32 :: nat) else c)"

definition lower_char :: "char \<Rightarrow> char" where
  "lower_char c = (if 65 \<le> (of_char c :: nat) \<and> (of_char c :: nat) \<le> 90 then char_of (of_char c + 32 :: nat) else c)"

definition upper :: "string \<Rightarrow> string" where "upper = map upper_char"
definition lower :: "string \<Rightarrow> string" where "lower = map lower_char"

definition UNAUTHENTICATED_COMMANDS :: "string list" where
  "UNAUTHENTICATED_COMMANDS = [''PING'', ''AUTH'']"

definition PRODUCER :: "string list" where
  "PRODUCER = [''PING'', ''AUTH'', ''PUBLISH'', ''DECLARE_QUEUE'', ''DECLARE_EXCHANGE'', ''BIND'', ''UNBIND'',
     ''QUEUE_INFO'', ''LIST_QUEUES'']"

definition CONSUMER :: "string list" where
  "CONSUMER = [''PING'', ''AUTH'', ''CONSUME'', ''GET'', ''ACK'', ''NACK'', ''CANCEL'', ''QOS'', ''DECLARE_QUEUE'',
     ''QUEUE_INFO'']"

definition SUBSCRIBER :: "string list" where
  "SUBSCRIBER = [''PING'', ''AUTH'', ''SUBSCRIBE'', ''UNSUBSCRIBE'', ''PUBLISH_CHANNEL'', ''LIST_CHANNELS'']"

definition MONITOR :: "string list" where
  "MONITOR = [''PING'', ''AUTH'', ''INFO'', ''STATS'', ''LIST_QUEUES'', ''QUEUE_INFO'', ''LIST_CONSUMERS'',
     ''LIST_CHANNELS'', ''DLQ_INFO'']"

definition ROLE_COMMANDS :: "(string \<times> string list option) list" where
  "ROLE_COMMANDS = [(''admin'', None), (''producer'', Some PRODUCER), (''consumer'', Some CONSUMER),
     (''subscriber'', Some SUBSCRIBER), (''monitor'', Some MONITOR)]"

text \<open>The answer is \<open>(allowed, error code, message)\<close>. \<open>ROLE_COMMANDS.get(role)\<close> is \<open>None\<close> for the
  administrator and for a role that is not in the table.\<close>

definition authorize :: "principal option \<Rightarrow> string \<Rightarrow> bool \<Rightarrow> bool \<times> string \<times> string" where
  "authorize who command auth_required =
     (let cmd = upper command in
      if cmd \<in> set UNAUTHENTICATED_COMMANDS then (True, '''', '''')
      else if auth_required \<and> who = None
      then (False, ''UNAUTHORIZED'', ''authentication required'')
      else
        (case who of
           None \<Rightarrow> (True, '''', '''')
         | Some p \<Rightarrow>
             (case map_of ROLE_COMMANDS (pr_role p) of
                None \<Rightarrow> (True, '''', '''')
              | Some None \<Rightarrow> (True, '''', '''')
              | Some (Some allowed) \<Rightarrow>
                  if cmd \<in> set allowed then (True, '''', '''')
                  else (False, ''FORBIDDEN'', ''role '' @ pr_role p @ '' cannot '' @ cmd))))"

section \<open>Properties\<close>

lemma digest_eq [simp]: "digest a b \<longleftrightarrow> a = b"
  by (auto simp: digest_def)

lemma roles_have_commands: "r \<in> set ROLES \<Longrightarrow> map_of ROLE_COMMANDS r \<noteq> None"
  by (auto simp: ROLES_def ROLE_COMMANDS_def)

definition shows_secret :: "string option \<Rightarrow> string option \<Rightarrow> string option \<Rightarrow> auth_user \<Rightarrow> bool" where
  "shows_secret token username password u \<longleftrightarrow>
     (if given token then us_token u = the token
      else given username \<and> given password \<and> us_name u = the username \<and>
        the password = (if us_password u \<noteq> [] then us_password u else us_token u))"

lemma token_loop_find:
  assumes "token \<noteq> []" "\<forall>u \<in> set us. us_role u \<in> set ROLES"
  shows "token_loop token us =
    Inr (map_option (\<lambda>u. \<lparr>pr_name = us_name u, pr_role = us_role u\<rparr>) (find (\<lambda>u. us_token u = token) us))"
  using assms by (induction us) (auto simp: new_principal_def Let_def)

lemma password_loop_find:
  assumes "password \<noteq> []" "\<forall>u \<in> set us. us_role u \<in> set ROLES"
  shows "password_loop username password us =
    Inr (map_option (\<lambda>u. \<lparr>pr_name = us_name u, pr_role = us_role u\<rparr>)
      (find (\<lambda>u. us_name u = username \<and> password = (if us_password u \<noteq> [] then us_password u else us_token u)) us))"
  using assms by (induction us) (auto simp: new_principal_def Let_def)

text \<open>Credentials are checked soundly and completely: for users with configured roles,
  \<open>authenticate\<close> gives the name and role of the first user whose secret was shown - the token, or the
  password of that name, where a user without a password is checked against its token - and nobody
  when no user's secret was shown; missing or empty credentials never succeed.\<close>

theorem authenticate_first_match:
  assumes "\<forall>u \<in> set users. us_role u \<in> set ROLES"
  shows "authenticate token username password users =
    Inr (map_option (\<lambda>u. \<lparr>pr_name = us_name u, pr_role = us_role u\<rparr>)
      (find (shows_secret token username password) users))"
proof -
  consider "given token" | "\<not> given token" "given username \<and> given password"
    | "\<not> given token" "\<not> (given username \<and> given password)" by blast
  then show ?thesis
  proof cases
    case 1
    then have "shows_secret token username password = (\<lambda>u. us_token u = the token)"
      by (simp add: shows_secret_def fun_eq_iff)
    then show ?thesis using 1 token_loop_find [OF _ assms, of "the token"]
      by (auto simp: authenticate_def given_def split: option.splits)
  next
    case 2
    then have "shows_secret token username password = (\<lambda>u. us_name u = the username \<and>
        the password = (if us_password u \<noteq> [] then us_password u else us_token u))"
      by (simp add: shows_secret_def fun_eq_iff)
    then show ?thesis using 2 password_loop_find [OF _ assms, of "the password" "the username"]
      by (auto simp: authenticate_def given_def split: option.splits)
  next
    case 3
    then have "shows_secret token username password = (\<lambda>u. False)"
      by (auto simp: shows_secret_def fun_eq_iff)
    moreover have "find (\<lambda>u. False) users = None" by (induction users) simp_all
    ultimately show ?thesis using 3 by (auto simp: authenticate_def)
  qed
qed

definition demo_users :: "auth_user list" where
  "demo_users =
     [\<lparr>us_name = ''ops'', us_token = ''t1'', us_password = '''', us_role = ''admin''\<rparr>,
      \<lparr>us_name = ''app'', us_token = '''', us_password = ''pw'', us_role = ''producer''\<rparr>]"

theorem authenticate_first_match_witness:
  "authenticate None (Some ''app'') (Some ''pw'') demo_users = Inr (Some \<lparr>pr_name = ''app'', pr_role = ''producer''\<rparr>)"
  using authenticate_first_match [of demo_users None "Some ''app''" "Some ''pw''"]
  by (simp add: demo_users_def ROLES_def shows_secret_def given_def)

text \<open>What a principal may do.\<close>

definition may_run :: "principal option \<Rightarrow> string \<Rightarrow> bool \<Rightarrow> bool" where
  "may_run who command auth_required \<longleftrightarrow> fst (authorize who command auth_required)"

lemma may_run_iff:
  assumes "\<forall>p. who = Some p \<longrightarrow> pr_role p \<in> set ROLES"
  shows "may_run who command auth_required \<longleftrightarrow>
    upper command \<in> {''PING'', ''AUTH''} \<or>
    (who = None \<and> \<not> auth_required) \<or>
    (\<exists>p. who = Some p \<and>
       (pr_role p = ''admin'' \<or>
        pr_role p = ''producer'' \<and> upper command \<in> set PRODUCER \<or>
        pr_role p = ''consumer'' \<and> upper command \<in> set CONSUMER \<or>
        pr_role p = ''subscriber'' \<and> upper command \<in> set SUBSCRIBER \<or>
        pr_role p = ''monitor'' \<and> upper command \<in> set MONITOR))"
  using assms
  by (auto simp: may_run_def authorize_def Let_def UNAUTHENTICATED_COMMANDS_def ROLES_def ROLE_COMMANDS_def
      split: option.splits)

lemma authenticate_nobody:
  assumes "\<forall>u \<in> set users. \<not> shows_secret token username password u"
  shows "authenticate token username password users = Inr None"
proof -
  have t: "token_loop t us = Inr None" if "\<forall>u \<in> set us. us_token u \<noteq> t" for t us
    using that by (induction us) (auto simp: Let_def)
  have p: "password_loop n pw us = Inr None"
    if "\<forall>u \<in> set us. \<not> (us_name u = n \<and> pw = (if us_password u \<noteq> [] then us_password u else us_token u))" for n pw us
    using that by (induction us) (auto simp: Let_def)
  show ?thesis using assms t [of users "the token"] p [of users "the username" "the password"]
    by (auto simp: authenticate_def shows_secret_def)
qed

lemma case_conversions: "lower (upper s) = lower s" "upper (lower s) = upper s"
proof -
  have "lower_char (upper_char c) = lower_char c" "upper_char (lower_char c) = upper_char c" for c
    by (auto simp: lower_char_def upper_char_def of_char_of)
  then show "lower (upper s) = lower s" "upper (lower s) = upper s" by (simp_all add: lower_def upper_def)
qed

end
