(* ===== verification/Broker.thy ===== *)
theory Broker
  imports Consumers Routing PubSub Security Frames
begin

text \<open>
  The composed state of the broker (\<open>broker/runtime.py\<close>, the counters of \<open>monitoring/metrics.py\<close>, the
  connections of \<open>broker/server.py\<close> as far as the handler sees them), the access to JSON arguments,
  and the reports of \<open>monitoring/introspection.py\<close>.

  The queue engine, the routing engine and the consumer manager share the queue engine's state; each
  operation of a component is lifted to the whole broker. An outgoing frame is kept before it is
  encoded; \<open>encode_out\<close> is its encoding by \<open>protocol/codec.py\<close>.
\<close>

section \<open>JSON arguments\<close>

text \<open>A request is a JSON object. Where the protocol has a string or a number, a value of another JSON
  type is read as if it were missing: requests with ill-typed arguments are outside the model, up to the
  conversions the code makes itself (\<open>int\<close>, \<open>bool\<close> and truth values).\<close>

type_synonym dict = "(string \<times> json) list"

definition jget :: "string \<Rightarrow> dict \<Rightarrow> json" where
  "jget k m = (case map_of m k of None \<Rightarrow> JNull | Some v \<Rightarrow> v)"

fun truthy :: "json \<Rightarrow> bool" where
  "truthy JNull = False"
| "truthy (JBool b) = b"
| "truthy (JInt i) = (i \<noteq> 0)"
| "truthy (JFloat r) = (r \<noteq> 0)"
| "truthy (JStr s) = (s \<noteq> [])"
| "truthy (JList xs) = (xs \<noteq> [])"
| "truthy (JObj d) = (d \<noteq> [])"

fun as_str :: "json \<Rightarrow> string option" where
  "as_str (JStr s) = Some s"
| "as_str _ = None"

fun as_int :: "json \<Rightarrow> int option" where
  "as_int (JInt i) = Some i"
| "as_int (JBool b) = Some (of_bool b)"
| "as_int _ = None"

fun as_time :: "json \<Rightarrow> time option" where
  "as_time (JInt i) = Some (of_int i)"
| "as_time (JFloat r) = Some r"
| "as_time _ = None"

text \<open>\<open>meta.get(k) or ""\<close> and \<open>meta.get(k) or meta.get(k')\<close> for strings.\<close>

definition str_arg :: "string \<Rightarrow> dict \<Rightarrow> string" where
  "str_arg k m = (case as_str (jget k m) of None \<Rightarrow> '''' | Some s \<Rightarrow> s)"

definition str_arg2 :: "string \<Rightarrow> string \<Rightarrow> dict \<Rightarrow> string" where
  "str_arg2 k k' m = (if str_arg k m \<noteq> [] then str_arg k m else str_arg k' m)"

text \<open>\<open>int(v)\<close>; a string is read as a decimal numeral with an optional sign.\<close>

definition digits :: "string \<Rightarrow> int option" where
  "digits s =
     (if s \<noteq> [] \<and> list_all (\<lambda>c. 48 \<le> (of_char c :: nat) \<and> (of_char c :: nat) \<le> 57) s
      then Some (foldl (\<lambda>a c. 10 * a + (of_char c - 48)) 0 s) else None)"

definition decimal :: "string \<Rightarrow> int option" where
  "decimal s =
     (case s of
        [] \<Rightarrow> None
      | c # cs \<Rightarrow> if c = CHR ''-'' then map_option uminus (digits cs)
                  else if c = CHR ''+'' then digits cs else digits s)"

fun py_int :: "json \<Rightarrow> py_error + int" where
  "py_int (JInt i) = Inr i"
| "py_int (JBool b) = Inr (of_bool b)"
| "py_int (JFloat r) = Inr (if r < 0 then \<lceil>r\<rceil> else \<lfloor>r\<rfloor>)"
| "py_int (JStr s) = (case decimal s of None \<Rightarrow> Inl (ValueError ''invalid literal for int()'') | Some i \<Rightarrow> Inr i)"
| "py_int _ = Inl (TypeError ''int() argument'')"

text \<open>\<open>int(meta.get(k) or d)\<close>.\<close>

definition int_arg :: "string \<Rightarrow> int \<Rightarrow> dict \<Rightarrow> py_error + int" where
  "int_arg k d m = (if truthy (jget k m) then py_int (jget k m) else Inr d)"

section \<open>Outgoing frames and connections\<close>

record out_frame =
  of_type :: int
  of_request :: int
  of_meta :: dict
  of_payload :: bytes

definition encode_out :: "(dict \<Rightarrow> bytes) \<Rightarrow> out_frame \<Rightarrow> py_error + bytes" where
  "encode_out dumps f = meta_frame dumps (of_type f) (of_request f) (of_meta f) (of_payload f)"

definition ok_reply :: "int \<Rightarrow> dict \<Rightarrow> bytes \<Rightarrow> out_frame" where
  "ok_reply rid extra pl =
     \<lparr>of_type = FRAME_RESPONSE, of_request = rid, of_meta = response_meta True extra None None, of_payload = pl\<rparr>"

definition err_reply :: "int \<Rightarrow> string \<Rightarrow> string \<Rightarrow> out_frame" where
  "err_reply rid code msg =
     \<lparr>of_type = FRAME_RESPONSE, of_request = rid,
      of_meta = response_meta False [] (Some code) (Some (if msg = [] then code else msg)), of_payload = []\<rparr>"

definition event_out :: "string \<Rightarrow> dict \<Rightarrow> bytes \<Rightarrow> out_frame" where
  "event_out event extra pl =
     \<lparr>of_type = FRAME_EVENT, of_request = 0, of_meta = dict_merge [(''event'', JStr event)] extra, of_payload = pl\<rparr>"

lemma encode_replies:
  "encode_out dumps (ok_reply rid extra pl) = response_frame dumps rid True extra pl None None"
  "encode_out dumps (err_reply rid code msg) =
     response_frame dumps rid False [] [] (Some code) (Some (if msg = [] then code else msg))"
  "encode_out dumps (event_out event extra pl) = event_frame dumps event extra pl 0"
  by (simp_all add: encode_out_def ok_reply_def err_reply_def event_out_def response_frame_def event_frame_def)

text \<open>\<open>ClientConnection\<close>: its bounded outbound queue; \<open>None\<close> in the queue tells the writer to stop. An
  \<open>asyncio.Queue\<close> with a limit of 0 or less is unbounded.\<close>

record connection =
  cn_id :: string
  cn_closed :: bool
  cn_limit :: int
  cn_outbound :: "out_frame option list"

definition outbound_full :: "connection \<Rightarrow> bool" where
  "outbound_full c \<longleftrightarrow> 0 < cn_limit c \<and> cn_limit c \<le> int (length (cn_outbound c))"

definition try_send :: "out_frame \<Rightarrow> connection \<Rightarrow> bool \<times> connection" where
  "try_send f c =
     (if cn_closed c then (False, c)
      else if outbound_full c then (False, c)
      else (True, c\<lparr>cn_outbound := cn_outbound c @ [Some f]\<rparr>))"

type_synonym net = "(string \<times> connection) list"

text \<open>\<open>self._senders.get(connection_id)\<close> and the call of the sender.\<close>

definition send_to :: "string \<Rightarrow> out_frame \<Rightarrow> net \<Rightarrow> bool \<times> net" where
  "send_to conn f net =
     (case map_of net conn of
        None \<Rightarrow> (False, net)
      | Some c \<Rightarrow> (case try_send f c of (ok, c') \<Rightarrow> (ok, dset conn c' net)))"

section \<open>Runtime\<close>

record metrics =
  started_at :: time
  bytes_received :: nat
  bytes_sent :: nat
  mt_connections :: nat
  total_connections :: nat

definition new_metrics :: "time \<Rightarrow> metrics" where
  "new_metrics t =
     \<lparr>started_at = t, bytes_received = 0, bytes_sent = 0, mt_connections = 0, total_connections = 0\<rparr>"

definition on_connect :: "metrics \<Rightarrow> metrics" where
  "on_connect mt = mt\<lparr>mt_connections := Suc (mt_connections mt), total_connections := Suc (total_connections mt)\<rparr>"

definition on_disconnect :: "metrics \<Rightarrow> metrics" where
  "on_disconnect mt = (if 0 < mt_connections mt then mt\<lparr>mt_connections := mt_connections mt - 1\<rparr> else mt)"

definition add_received :: "nat \<Rightarrow> metrics \<Rightarrow> metrics" where
  "add_received n mt = mt\<lparr>bytes_received := bytes_received mt + n\<rparr>"

definition add_sent :: "nat \<Rightarrow> metrics \<Rightarrow> metrics" where
  "add_sent n mt = mt\<lparr>bytes_sent := bytes_sent mt + n\<rparr>"

record config =
  cf_host :: string
  cf_port :: int
  cf_version :: string
  cf_auth_enabled :: bool
  cf_users :: "auth_user list"

record broker =
  br_config :: config
  br_engine :: engine
  br_routing :: routing
  br_consumers :: manager
  br_pubsub :: pubsub
  br_metrics :: metrics
  br_net :: net
  br_last_slow :: "string list"

definition with_engine :: "(engine \<Rightarrow> 'a \<times> engine) \<Rightarrow> broker \<Rightarrow> 'a \<times> broker" where
  "with_engine f b = (case f (br_engine b) of (r, e) \<Rightarrow> (r, b\<lparr>br_engine := e\<rparr>))"

definition with_routing :: "(routing \<times> engine \<Rightarrow> 'a \<times> routing \<times> engine) \<Rightarrow> broker \<Rightarrow> 'a \<times> broker" where
  "with_routing f b =
     (case f (br_routing b, br_engine b) of (r, rt, e) \<Rightarrow> (r, b\<lparr>br_routing := rt, br_engine := e\<rparr>))"

definition with_consumers :: "(manager \<times> engine \<Rightarrow> 'a \<times> manager \<times> engine) \<Rightarrow> broker \<Rightarrow> 'a \<times> broker" where
  "with_consumers f b =
     (case f (br_consumers b, br_engine b) of (r, cm, e) \<Rightarrow> (r, b\<lparr>br_consumers := cm, br_engine := e\<rparr>))"

record runtime_snap =
  sn_queues :: engine_snap
  sn_routing :: routing_snap

definition runtime_snapshot :: "(binding set \<Rightarrow> binding list) \<Rightarrow> broker \<Rightarrow> runtime_snap" where
  "runtime_snapshot order b =
     \<lparr>sn_queues = snapshot_state (br_engine b), sn_routing = routing_snapshot order (br_routing b)\<rparr>"

definition restore_snapshot :: "runtime_snap \<Rightarrow> broker \<Rightarrow> (py_error + unit) \<times> broker" where
  "restore_snapshot st b =
     with_routing (routing_restore (sn_routing st)) (b\<lparr>br_engine := restore_state (sn_queues st) (br_engine b)\<rparr>)"

section \<open>Reports\<close>

definition jopt :: "('a \<Rightarrow> json) \<Rightarrow> 'a option \<Rightarrow> json" where
  "jopt f x = (case x of None \<Rightarrow> JNull | Some v \<Rightarrow> f v)"

abbreviation jnat :: "nat \<Rightarrow> json" where
  "jnat n \<equiv> JInt (int n)"

definition queue_report_json :: "queue_report \<Rightarrow> dict" where
  "queue_report_json r =
     [(''name'', JStr (qr_name r)), (''ready'', jnat (qr_ready r)), (''inflight'', jnat (qr_inflight r)),
      (''delayed'', jnat (qr_delayed r)), (''dlq'', jnat (qr_dlq r)), (''consumers'', jnat (qr_consumers r)),
      (''published'', jnat (qr_published r)), (''delivered'', jnat (qr_delivered r)),
      (''acked'', jnat (qr_acked r)), (''nacked'', jnat (qr_nacked r)), (''retried'', jnat (qr_retried r)),
      (''dead'', jnat (qr_dead r)), (''visibility_timeout'', JFloat (qr_visibility_timeout r)),
      (''max_attempts'', JInt (qr_max_attempts r)), (''max_length'', jopt JInt (qr_max_length r))]"

definition dlq_message_json :: "dlq_message \<Rightarrow> json" where
  "dlq_message_json m =
     JObj [(''id'', JStr (dm_id m)), (''queue'', JStr (dm_queue m)), (''attempts'', JInt (dm_attempts m)),
           (''created_at'', JFloat (dm_created_at m)), (''headers'', dm_headers m)]"

definition dlq_report_json :: "dlq_report \<Rightarrow> dict" where
  "dlq_report_json r =
     [(''queue'', JStr (dr_queue r)), (''dlq'', JStr (dr_dlq r)), (''count'', jnat (dr_count r)),
      (''messages'', JList (map dlq_message_json (dr_messages r)))]"

definition list_queues_report :: "broker \<Rightarrow> json list" where
  "list_queues_report b =
     List.map_filter (\<lambda>n. map_option (\<lambda>r. JObj (queue_report_json r)) (queue_info n (br_engine b)))
       (list_queues (br_engine b))"

definition consumer_row :: "time \<Rightarrow> consumer \<Rightarrow> json" where
  "consumer_row now c =
     JObj [(''consumer_id'', JStr (con_id c)), (''connection_id'', JStr (con_connection c)),
           (''queues'', JList (map JStr (con_queues c))), (''prefetch'', JInt (prefetch_count (con_qos c))),
           (''unacked'', JInt (unacked_count (con_qos c))), (''age'', JFloat (now - connected_at c)),
           (''last_activity'', JFloat (last_activity c)), (''tag'', JStr (con_tag c))]"

definition list_consumers_report :: "broker \<Rightarrow> json list \<times> broker" where
  "list_consumers_report b =
     (case with_engine read_clock b of
        (now, b1) \<Rightarrow> (map (consumer_row now) (list_consumers (br_consumers b1)), b1))"

definition channel_row :: "channel_report \<Rightarrow> json" where
  "channel_row r =
     JObj [(''channel'', JStr (cr_channel r)), (''subscribers'', jnat (cr_subscribers r)),
           (''published'', jnat (cr_published r)), (''fanout'', jnat (cr_fanout r))]"

text \<open>\<open>broker_stats\<close> reads the clock (\<open>now\<close>) and the sizes of the two files from outside.\<close>

definition broker_stats :: "time \<Rightarrow> nat \<Rightarrow> nat \<Rightarrow> broker \<Rightarrow> dict \<times> broker" where
  "broker_stats now aof_size snap_size b =
     (let infos = List.map_filter (\<lambda>n. queue_info n (br_engine b)) (list_queues (br_engine b));
          sum = (\<lambda>f. jnat (sum_list (map f infos)));
          dlq = jnat (sum_list (map qr_ready (filter (\<lambda>r. ends_with (qr_name r) ''.DLQ'') infos)));
          mt = br_metrics b
      in case list_channels (br_pubsub b) of
           (chans, ps) \<Rightarrow>
             ([(''uptime'', JFloat (now - started_at mt)), (''connections'', jnat (mt_connections mt)),
               (''total_connections'', jnat (total_connections mt)),
               (''consumers'', jnat (length (list_consumers (br_consumers b)))),
               (''queues'', jnat (length (list_queues (br_engine b)))), (''channels'', jnat (length chans)),
               (''published'', sum qr_published), (''delivered'', sum qr_delivered), (''acked'', sum qr_acked),
               (''nacked'', sum qr_nacked), (''retried'', sum qr_retried), (''dead'', sum qr_dead),
               (''ready'', sum qr_ready), (''inflight'', sum qr_inflight), (''delayed'', sum qr_delayed),
               (''dlq'', dlq), (''pubsub_published'', jnat (total_published ps)),
               (''pubsub_fanout'', jnat (total_fanout ps)), (''bytes_received'', jnat (bytes_received mt)),
               (''bytes_sent'', jnat (bytes_sent mt)), (''aof_size'', jnat aof_size),
               (''snapshot_size'', jnat snap_size)], b\<lparr>br_pubsub := ps\<rparr>))"

end
