(* ===== verification/Handler.thy ===== *)
theory Handler
  imports Broker
begin

text \<open>
  \<open>broker/handler.py\<close>: the commands of a connection against the broker. A command takes the request
  id, the metadata and the payload and returns an exception or a reply, with the new context of the
  connection and the new broker; \<open>handle\<close> checks the access rights, dispatches, and turns an exception
  into \<open>INTERNAL_ERROR\<close>, with the state the exception left.

  What a command takes from outside is the record \<open>outside\<close>: the ids and times that \<open>uuid.uuid4()\<close> and
  \<open>time.time()\<close> give, the sizes of the two files of the data directory.
\<close>

section \<open>Context\<close>

record conn_ctx =
  cx_connection :: string
  cx_prefetch :: int
  cx_principal :: "principal option"
  cx_failures :: nat
  cx_must_close :: bool

definition new_context :: "string \<Rightarrow> conn_ctx" where
  "new_context conn =
     \<lparr>cx_connection = conn, cx_prefetch = 0, cx_principal = None, cx_failures = 0, cx_must_close = False\<rparr>"

record outside =
  ou_message :: "nat \<Rightarrow> string \<times> time"
  ou_consumer :: string
  ou_now :: time
  ou_aof_size :: nat
  ou_snap_size :: nat

type_synonym command =
  "outside \<Rightarrow> int \<Rightarrow> dict \<Rightarrow> bytes \<Rightarrow> conn_ctx \<times> broker \<Rightarrow> (py_error + out_frame) \<times> conn_ctx \<times> broker"

section \<open>Pushing messages to consumers\<close>

definition deliver_frame :: "consumer \<Rightarrow> message \<Rightarrow> out_frame" where
  "deliver_frame c m =
     event_out ''DELIVER''
       [(''message_id'', JStr (msg_id m)), (''queue'', JStr (msg_queue m)), (''attempts'', JInt (attempts m)),
        (''headers'', headers m), (''consumer_id'', JStr (con_id c)), (''priority'', JInt (priority m))] (payload m)"

text \<open>\<open>queues.nack(message.id, requeue=True)\<close> and \<open>consumers.on_ack(consumer.consumer_id)\<close> after a
  failed send.\<close>

definition take_back :: "consumer \<Rightarrow> message \<Rightarrow> broker \<Rightarrow> broker" where
  "take_back c m b =
     (let b1 = snd (with_engine (nack (msg_id m) True True) b)
      in b1\<lparr>br_consumers := consumer_on_ack (con_id c) (br_consumers b1)\<rparr>)"

lemma reserve_step_shrinks:
  "with_consumers (try_reserve qn) b = (Some x, b1) \<Longrightarrow> ready_left qn (br_engine b1) < ready_left qn (br_engine b)"
  by (auto simp: with_consumers_def split: prod.splits dest: try_reserve_shrinks)

function pump_queue :: "string \<Rightarrow> broker \<Rightarrow> broker" where
  "pump_queue qn b =
     (case with_consumers (try_reserve qn) b of
        (None, b1) \<Rightarrow> b1
      | (Some (c, m), b1) \<Rightarrow>
          (case send_to (con_connection c) (deliver_frame c m) (br_net b1) of
             (True, net) \<Rightarrow> pump_queue qn (b1\<lparr>br_net := net\<rparr>)
           | (False, net) \<Rightarrow> take_back c m (b1\<lparr>br_net := net\<rparr>)))"
  by pat_completeness auto

termination
  by (relation "measure (\<lambda>(qn, b). ready_left qn (br_engine b))") (auto dest: reserve_step_shrinks [OF sym])

declare pump_queue.simps [simp del]

text \<open>What the three parts of one round keep, pumping keeps.\<close>

lemma pump_queue_keeps:
  assumes "\<And>b. P b \<Longrightarrow> P (snd (with_consumers (try_reserve qn) b))"
    "\<And>conn f b. P b \<Longrightarrow> P (b\<lparr>br_net := snd (send_to conn f (br_net b))\<rparr>)"
    "\<And>c m b. P b \<Longrightarrow> P (take_back c m b)"
  shows "P b \<Longrightarrow> P (pump_queue qn b)"
proof (induction "ready_left qn (br_engine b)" arbitrary: b rule: less_induct)
  case less
  obtain x b1 where r: "with_consumers (try_reserve qn) b = (x, b1)" by fastforce
  have b1: "P b1" using assms(1) [OF less.prems] r by simp
  show ?case
  proof (cases x)
    case None
    then show ?thesis using r b1 by (simp add: pump_queue.simps)
  next
    case (Some y)
    obtain c m where y: "y = (c, m)" by fastforce
    obtain ok net where n: "send_to (con_connection c) (deliver_frame c m) (br_net b1) = (ok, net)" by fastforce
    let ?b = "b1\<lparr>br_net := net\<rparr>"
    have b2: "P ?b" using assms(2) [OF b1, of "con_connection c" "deliver_frame c m"] n by simp
    have "ready_left qn (br_engine ?b) < ready_left qn (br_engine b)"
      using reserve_step_shrinks [of qn b y b1] r Some by simp
    then have "P (pump_queue qn ?b)" using less.hyps b2 by blast
    then show ?thesis
      using r Some y n assms(3) [OF b2] by (cases ok) (simp_all add: pump_queue.simps [of qn b])
  qed
qed

definition pump_all :: "string list \<Rightarrow> broker \<Rightarrow> broker" where
  "pump_all qns b = fold pump_queue qns b"

section \<open>Connection and information\<close>

definition cmd_ping :: command where
  "cmd_ping ou rid meta pl s = (Inr (ok_reply rid [(''pong'', JBool True)] []), s)"

definition user_reply :: "int \<Rightarrow> principal \<Rightarrow> out_frame" where
  "user_reply rid p = ok_reply rid [(''user'', JStr (pr_name p)), (''role'', JStr (pr_role p))] []"

definition count_failure :: "conn_ctx \<Rightarrow> conn_ctx" where
  "count_failure cx =
     (let cx1 = cx\<lparr>cx_failures := Suc (cx_failures cx)\<rparr>
      in if 5 \<le> cx_failures cx1 then cx1\<lparr>cx_must_close := True\<rparr> else cx1)"

definition cmd_auth :: command where
  "cmd_auth ou rid meta pl s =
     (case s of (cx, b) \<Rightarrow>
        if \<not> cf_auth_enabled (br_config b)
        then (let p = \<lparr>pr_name = ''anonymous'', pr_role = ''admin''\<rparr>
              in (Inr (user_reply rid p), cx\<lparr>cx_principal := Some p\<rparr>, b))
        else
          (case authenticate (as_str (jget ''token'' meta)) (Some (str_arg2 ''username'' ''user'' meta))
                  (as_str (jget ''password'' meta)) (cf_users (br_config b)) of
             Inl err \<Rightarrow> (Inl err, cx, b)
           | Inr None \<Rightarrow> (Inr (err_reply rid ''UNAUTHORIZED'' ''invalid credentials''), count_failure cx, b)
           | Inr (Some p) \<Rightarrow> (Inr (user_reply rid p), cx\<lparr>cx_principal := Some p, cx_failures := 0\<rparr>, b)))"

definition cmd_info :: command where
  "cmd_info ou rid meta pl s =
     (case s of (cx, b) \<Rightarrow>
        (Inr (ok_reply rid [(''version'', JStr (cf_version (br_config b))), (''host'', JStr (cf_host (br_config b))),
                            (''port'', JInt (cf_port (br_config b)))] []), cx, b))"

definition cmd_stats :: command where
  "cmd_stats ou rid meta pl s =
     (case s of (cx, b) \<Rightarrow>
        (case broker_stats (ou_now ou) (ou_aof_size ou) (ou_snap_size ou) b of
           (d, b1) \<Rightarrow> (Inr (ok_reply rid d []), cx, b1)))"

section \<open>Exchanges, queues and bindings\<close>

definition cmd_declare_exchange :: command where
  "cmd_declare_exchange ou rid meta pl s =
     (case s of (cx, b) \<Rightarrow>
        let name = str_arg ''name'' meta;
            ty = (if str_arg ''type'' meta \<noteq> [] then str_arg ''type'' meta else ''direct'')
        in (case with_routing (declare_exchange name ty True True) b of
              (Inl (ValueError msg), b1) \<Rightarrow> (Inr (err_reply rid ''INVALID_COMMAND'' msg), cx, b1)
            | (Inl err, b1) \<Rightarrow> (Inl err, cx, b1)
            | (Inr x, b1) \<Rightarrow> (Inr (ok_reply rid [(''name'', JStr name), (''type'', JStr ty)] []), cx, b1)))"

definition cmd_delete_exchange :: command where
  "cmd_delete_exchange ou rid meta pl s =
     (case s of (cx, b) \<Rightarrow>
        (case with_routing (delete_exchange (str_arg ''name'' meta) True) b of
           (False, b1) \<Rightarrow> (Inr (err_reply rid ''NOT_FOUND'' ''exchange not found''), cx, b1)
         | (True, b1) \<Rightarrow> (Inr (ok_reply rid [] []), cx, b1)))"

definition cmd_declare_queue :: command where
  "cmd_declare_queue ou rid meta pl s =
     (case s of (cx, b) \<Rightarrow>
        let name = str_arg ''name'' meta in
        if name = [] then (Inr (err_reply rid ''INVALID_COMMAND'' ''name required''), cx, b)
        else
          (let e1 = declare_queue name True (as_int (jget ''max_length'' meta))
                      (as_time (jget ''visibility_timeout'' meta)) (as_int (jget ''max_attempts'' meta))
                      True True (br_engine b)
           in (case on_queue_declared name True (br_routing b, e1) of
                 (rt, e2) \<Rightarrow> (Inr (ok_reply rid [(''name'', JStr name)] []), cx,
                              b\<lparr>br_routing := rt, br_engine := e2\<rparr>))))"

definition cmd_delete_queue :: command where
  "cmd_delete_queue ou rid meta pl s =
     (case s of (cx, b) \<Rightarrow>
        (case with_engine (delete_queue (str_arg ''name'' meta) True) b of
           (False, b1) \<Rightarrow> (Inr (err_reply rid ''NOT_FOUND'' ''queue not found''), cx, b1)
         | (True, b1) \<Rightarrow> (Inr (ok_reply rid [] []), cx, b1)))"

definition cmd_queue_info :: command where
  "cmd_queue_info ou rid meta pl s =
     (case s of (cx, b) \<Rightarrow>
        (case queue_info (str_arg ''name'' meta) (br_engine b) of
           None \<Rightarrow> (Inr (err_reply rid ''NOT_FOUND'' ''queue not found''), cx, b)
         | Some r \<Rightarrow> (Inr (ok_reply rid (queue_report_json r) []), cx, b)))"

definition cmd_list_queues :: command where
  "cmd_list_queues ou rid meta pl s =
     (case s of (cx, b) \<Rightarrow>
        (Inr (ok_reply rid [(''queues'', JList (list_queues_report b))] []), cx, b))"

definition cmd_bind :: command where
  "cmd_bind ou rid meta pl s =
     (case s of (cx, b) \<Rightarrow>
        (case with_routing (bind_queue (str_arg ''exchange'' meta) (str_arg ''queue'' meta)
                              (str_arg ''routing_key'' meta) True) b of
           (False, b1) \<Rightarrow> (Inr (err_reply rid ''NOT_FOUND'' ''exchange or queue not found''), cx, b1)
         | (True, b1) \<Rightarrow> (Inr (ok_reply rid [] []), cx, b1)))"

definition cmd_unbind :: command where
  "cmd_unbind ou rid meta pl s =
     (case s of (cx, b) \<Rightarrow>
        (case with_routing (unbind_queue (str_arg ''exchange'' meta) (str_arg ''queue'' meta)
                              (str_arg ''routing_key'' meta) True) b of
           (False, b1) \<Rightarrow> (Inr (err_reply rid ''NOT_FOUND'' ''binding not found''), cx, b1)
         | (True, b1) \<Rightarrow> (Inr (ok_reply rid [] []), cx, b1)))"

section \<open>Publishing and consuming\<close>

definition cmd_publish :: command where
  "cmd_publish ou rid meta pl s =
     (case s of (cx, b) \<Rightarrow>
        (case int_arg ''priority'' 0 meta of
           Inl err \<Rightarrow> (Inl err, cx, b)
         | Inr prio \<Rightarrow>
             (case with_routing (publish pl (as_str (jget ''exchange'' meta)) (str_arg ''routing_key'' meta)
                     (as_str (jget ''queue'' meta)) (as_int (jget ''max_attempts'' meta)) prio
                     (jget ''headers'' meta) (as_str (jget ''message_id'' meta)) (ou_message ou) True) b of
                ((mid, routed, result), b1) \<Rightarrow>
                  if result = EnqQueueFull then (Inr (err_reply rid ''QUEUE_FULL'' ''queue is full''), cx, b1)
                  else if result = EnqNotFound \<or> routed = []
                  then (Inr (err_reply rid ''NOT_FOUND'' ''not bound''), cx, b1)
                  else (Inr (ok_reply rid [(''id'', JStr mid), (''routed'', JList (map JStr routed))] []),
                        cx, pump_all routed b1))))"

definition set_consumer_prefetch :: "string \<Rightarrow> int \<Rightarrow> broker \<Rightarrow> broker" where
  "set_consumer_prefetch c p b =
     b\<lparr>br_consumers := upd_consumer c (\<lambda>con. con\<lparr>con_qos := set_prefetch p (con_qos con)\<rparr>) (br_consumers b)\<rparr>"

definition prefetch_arg :: "int \<Rightarrow> dict \<Rightarrow> py_error + int" where
  "prefetch_arg d meta = (if jget ''prefetch'' meta \<noteq> JNull then py_int (jget ''prefetch'' meta) else Inr d)"

text \<open>The consumer a \<open>GET\<close> reads with: registered by the first \<open>GET\<close>.\<close>

definition ensure_getter :: "string \<Rightarrow> string \<Rightarrow> string \<Rightarrow> int \<Rightarrow> broker \<Rightarrow> broker" where
  "ensure_getter c conn queue prefetch b =
     (case get_consumer c (br_consumers b) of
        None \<Rightarrow> snd (with_consumers (register c conn [queue] prefetch '''') b)
      | Some _ \<Rightarrow> if prefetch \<noteq> 0 then set_consumer_prefetch c prefetch b else b)"

definition cmd_get :: command where
  "cmd_get ou rid meta pl s =
     (case s of (cx, b) \<Rightarrow>
        let queue = str_arg ''queue'' meta;
            given_id = str_arg ''consumer_id'' meta;
            consumer_id = (if given_id \<noteq> [] then given_id else ''get-'' @ cx_connection cx @ ''-'' @ queue)
        in if queue = [] then (Inr (err_reply rid ''INVALID_COMMAND'' ''queue required''), cx, b)
           else
             (case prefetch_arg (cx_prefetch cx) meta of
                Inl err \<Rightarrow> (Inl err, cx, b)
              | Inr prefetch \<Rightarrow>
                  (case with_consumers (try_reserve queue) (ensure_getter consumer_id (cx_connection cx) queue prefetch b) of
                     (None, b2) \<Rightarrow> (Inr (ok_reply rid [(''empty'', JBool True)] []), cx, b2)
                   | (Some (c, m), b2) \<Rightarrow>
                       (Inr (ok_reply rid
                          [(''empty'', JBool False), (''message_id'', JStr (msg_id m)),
                           (''queue'', JStr (msg_queue m)), (''attempts'', JInt (attempts m)),
                           (''headers'', headers m), (''consumer_id'', JStr (con_id c))] (payload m)), cx, b2))))"

definition declare_missing :: "string \<Rightarrow> broker \<Rightarrow> broker" where
  "declare_missing n b =
     (if get_queue n (br_engine b) = None
      then (case on_queue_declared n True
                   (br_routing b, declare_queue n True None None None True True (br_engine b)) of
              (rt, e) \<Rightarrow> b\<lparr>br_routing := rt, br_engine := e\<rparr>)
      else b)"

definition queues_arg :: "dict \<Rightarrow> string list" where
  "queues_arg meta =
     (case jget ''queues'' meta of
        JList (x # xs) \<Rightarrow> List.map_filter as_str (x # xs)
      | _ \<Rightarrow> if str_arg ''queue'' meta \<noteq> [] then [str_arg ''queue'' meta] else [])"

definition cmd_consume :: command where
  "cmd_consume ou rid meta pl s =
     (case s of (cx, b) \<Rightarrow>
        let qns = queues_arg meta;
            given_id = str_arg ''consumer_id'' meta;
            consumer_id = (if given_id \<noteq> [] then given_id else ou_consumer ou)
        in if qns = [] then (Inr (err_reply rid ''INVALID_COMMAND'' ''queue required''), cx, b)
           else
             (let b1 = fold declare_missing qns b in
              case prefetch_arg (if cx_prefetch cx = 0 then 1 else cx_prefetch cx) meta of
                Inl err \<Rightarrow> (Inl err, cx, b1)
              | Inr prefetch \<Rightarrow>
                  let b2 = snd (with_consumers
                             (register consumer_id (cx_connection cx) qns prefetch (str_arg ''tag'' meta)) b1)
                  in (Inr (ok_reply rid [(''consumer_id'', JStr consumer_id), (''prefetch'', JInt prefetch)] []),
                      cx, pump_all qns b2)))"

definition cmd_cancel :: command where
  "cmd_cancel ou rid meta pl s =
     (case s of (cx, b) \<Rightarrow>
        let consumer_id = str_arg ''consumer_id'' meta in
        if consumer_id = [] then (Inr (err_reply rid ''INVALID_COMMAND'' ''consumer_id required''), cx, b)
        else
          (case with_consumers (cancel_consumer consumer_id True) b of
             (Inl err, b1) \<Rightarrow> (Inl err, cx, b1)
           | (Inr False, b1) \<Rightarrow> (Inr (err_reply rid ''NOT_CONSUMER'' ''unknown consumer''), cx, b1)
           | (Inr True, b1) \<Rightarrow> (Inr (ok_reply rid [] []), cx, b1)))"

text \<open>What \<open>ACK\<close> and \<open>NACK\<close> do for the consumer that held the delivery.\<close>

definition settle_consumer :: "string option \<Rightarrow> broker \<Rightarrow> broker" where
  "settle_consumer who b =
     (case who of
        None \<Rightarrow> b
      | Some c \<Rightarrow>
          if c = [] then b
          else
            (let b1 = b\<lparr>br_consumers := consumer_on_ack c (br_consumers b)\<rparr> in
             case get_consumer c (br_consumers b1) of
               None \<Rightarrow> b1
             | Some con \<Rightarrow> pump_all (con_queues con) b1))"

definition cmd_ack :: command where
  "cmd_ack ou rid meta pl s =
     (case s of (cx, b) \<Rightarrow>
        let k = str_arg2 ''message_id'' ''id'' meta in
        if k = [] then (Inr (err_reply rid ''INVALID_COMMAND'' ''message_id required''), cx, b)
        else
          (let who = inflight_consumer k (br_engine b) in
           case with_engine (ack k True) b of
             (AckAlreadyAcked, b1) \<Rightarrow> (Inr (err_reply rid ''ALREADY_ACKED'' ''already acked''), cx, b1)
           | (AckNotFound, b1) \<Rightarrow> (Inr (err_reply rid ''NOT_FOUND'' ''unknown delivery''), cx, b1)
           | (AckOK, b1) \<Rightarrow> (Inr (ok_reply rid [] []), cx, settle_consumer who b1)))"

definition cmd_nack :: command where
  "cmd_nack ou rid meta pl s =
     (case s of (cx, b) \<Rightarrow>
        let k = str_arg2 ''message_id'' ''id'' meta;
            requeue = (case map_of meta ''requeue'' of None \<Rightarrow> True | Some v \<Rightarrow> truthy v)
        in if k = [] then (Inr (err_reply rid ''INVALID_COMMAND'' ''message_id required''), cx, b)
           else
             (let who = inflight_consumer k (br_engine b) in
              case with_engine (nack k requeue True) b of
                (NackOK, b1) \<Rightarrow> (Inr (ok_reply rid [] []), cx, settle_consumer who b1)
              | (_, b1) \<Rightarrow> (Inr (err_reply rid ''UNKNOWN_DELIVERY'' ''unknown delivery''), cx, b1)))"

definition set_connection_prefetch :: "string \<Rightarrow> int \<Rightarrow> broker \<Rightarrow> broker" where
  "set_connection_prefetch conn p b =
     b\<lparr>br_consumers := (br_consumers b)\<lparr>consumers :=
         map (\<lambda>(c, con). (c, if con_connection con = conn then con\<lparr>con_qos := set_prefetch p (con_qos con)\<rparr> else con))
           (consumers (br_consumers b))\<rparr>\<rparr>"

definition cmd_qos :: command where
  "cmd_qos ou rid meta pl s =
     (case s of (cx, b) \<Rightarrow>
        (case int_arg ''prefetch'' 0 meta of
           Inl err \<Rightarrow> (Inl err, cx, b)
         | Inr prefetch \<Rightarrow>
             let cx1 = cx\<lparr>cx_prefetch := prefetch\<rparr>;
                 c = str_arg ''consumer_id'' meta;
                 reply = ok_reply rid [(''prefetch'', JInt prefetch)] []
             in if c \<noteq> []
                then (case qos_command c prefetch (br_consumers b) of
                        (False, cm) \<Rightarrow> (Inr (err_reply rid ''NOT_CONSUMER'' ''unknown consumer''), cx1, b\<lparr>br_consumers := cm\<rparr>)
                      | (True, cm) \<Rightarrow> (Inr reply, cx1, b\<lparr>br_consumers := cm\<rparr>))
                else (Inr reply, cx1, set_connection_prefetch (cx_connection cx) prefetch b)))"

definition cmd_list_consumers :: command where
  "cmd_list_consumers ou rid meta pl s =
     (case s of (cx, b) \<Rightarrow>
        (case list_consumers_report b of
           (rows, b1) \<Rightarrow> (Inr (ok_reply rid [(''consumers'', JList rows)] []), cx, b1)))"

section \<open>Channels\<close>

definition cmd_subscribe :: command where
  "cmd_subscribe ou rid meta pl s =
     (case s of (cx, b) \<Rightarrow>
        let ch = str_arg ''channel'' meta in
        if ch = [] then (Inr (err_reply rid ''INVALID_COMMAND'' ''channel required''), cx, b)
        else (Inr (ok_reply rid [(''channel'', JStr ch)] []), cx,
              b\<lparr>br_pubsub := subscribe (cx_connection cx) ch (\<lambda>_. True) (br_pubsub b)\<rparr>))"

definition cmd_unsubscribe :: command where
  "cmd_unsubscribe ou rid meta pl s =
     (case s of (cx, b) \<Rightarrow>
        (Inr (ok_reply rid [] []), cx,
         b\<lparr>br_pubsub := snd (unsubscribe (cx_connection cx) (str_arg ''channel'' meta) (br_pubsub b))\<rparr>))"

definition fanout_pubsub :: "string \<Rightarrow> string \<Rightarrow> bytes \<Rightarrow> net \<Rightarrow> bool \<times> net" where
  "fanout_pubsub ch conn body net =
     send_to conn (event_out ''PUBSUB_MESSAGE'' [(''channel'', JStr ch)] body) net"

definition cmd_publish_channel :: command where
  "cmd_publish_channel ou rid meta pl s =
     (case s of (cx, b) \<Rightarrow>
        let ch = str_arg ''channel'' meta in
        if ch = [] then (Inr (err_reply rid ''INVALID_COMMAND'' ''channel required''), cx, b)
        else
          (case publish_channel (fanout_pubsub ch) ch pl (br_pubsub b, br_net b) of
             ((cnt, slow), ps, net) \<Rightarrow>
               (Inr (ok_reply rid [(''delivered'', jnat cnt), (''slow'', JList (map JStr slow))] []), cx,
                b\<lparr>br_pubsub := ps, br_net := net, br_last_slow := slow\<rparr>)))"

definition cmd_list_channels :: command where
  "cmd_list_channels ou rid meta pl s =
     (case s of (cx, b) \<Rightarrow>
        (case list_channels (br_pubsub b) of
           (rows, ps) \<Rightarrow>
             (Inr (ok_reply rid [(''channels'', JList (map channel_row rows))] []), cx, b\<lparr>br_pubsub := ps\<rparr>)))"

section \<open>Dead letters\<close>

definition cmd_dlq_info :: command where
  "cmd_dlq_info ou rid meta pl s =
     (case s of (cx, b) \<Rightarrow>
        (case dlq_info (str_arg2 ''queue'' ''name'' meta) (br_engine b) of
           None \<Rightarrow> (Inr (err_reply rid ''NOT_FOUND'' ''queue not found''), cx, b)
         | Some r \<Rightarrow> (Inr (ok_reply rid (dlq_report_json r) []), cx, b)))"

definition cmd_dlq_requeue :: command where
  "cmd_dlq_requeue ou rid meta pl s =
     (case s of (cx, b) \<Rightarrow>
        let name = str_arg2 ''queue'' ''name'' meta; k = str_arg2 ''message_id'' ''id'' meta in
        if k = [] then (Inr (err_reply rid ''INVALID_COMMAND'' ''message_id required''), cx, b)
        else
          (case with_engine (dlq_requeue name k True) b of
             (False, b1) \<Rightarrow> (Inr (err_reply rid ''NOT_FOUND'' ''message not in dlq''), cx, b1)
           | (True, b1) \<Rightarrow> (Inr (ok_reply rid [] []), cx, pump_queue name b1)))"

section \<open>Dispatch\<close>

text \<open>The methods \<open>getattr(self, "cmd_" + name)\<close> finds.\<close>

definition commands :: "(string \<times> command) list" where
  "commands =
     [(''ping'', cmd_ping), (''auth'', cmd_auth), (''info'', cmd_info), (''stats'', cmd_stats),
      (''declare_exchange'', cmd_declare_exchange), (''delete_exchange'', cmd_delete_exchange),
      (''declare_queue'', cmd_declare_queue), (''delete_queue'', cmd_delete_queue),
      (''queue_info'', cmd_queue_info), (''list_queues'', cmd_list_queues), (''bind'', cmd_bind),
      (''unbind'', cmd_unbind), (''publish'', cmd_publish), (''get'', cmd_get), (''consume'', cmd_consume),
      (''cancel'', cmd_cancel), (''ack'', cmd_ack), (''nack'', cmd_nack), (''qos'', cmd_qos),
      (''list_consumers'', cmd_list_consumers), (''subscribe'', cmd_subscribe),
      (''unsubscribe'', cmd_unsubscribe), (''publish_channel'', cmd_publish_channel),
      (''list_channels'', cmd_list_channels), (''dlq_info'', cmd_dlq_info), (''dlq_requeue'', cmd_dlq_requeue)]"

definition handle :: "outside \<Rightarrow> int \<Rightarrow> dict \<Rightarrow> bytes \<Rightarrow> conn_ctx \<times> broker \<Rightarrow> out_frame \<times> conn_ctx \<times> broker" where
  "handle ou rid meta pl s =
     (case s of (cx, b) \<Rightarrow>
        let cmd = str_arg ''cmd'' meta in
        if cmd = [] then (err_reply rid ''INVALID_COMMAND'' ''missing cmd'', cx, b)
        else
          (case authorize (cx_principal cx) cmd (cf_auth_enabled (br_config b)) of
             (allowed, code, msg) \<Rightarrow>
               if \<not> allowed
               then (err_reply rid (if code = [] then ''FORBIDDEN'' else code) msg,
                     if code = ''UNAUTHORIZED'' then count_failure cx else cx, b)
               else
                 (case map_of commands (lower cmd) of
                    None \<Rightarrow> (err_reply rid ''INVALID_COMMAND'' (''unknown command '' @ cmd), cx, b)
                  | Some method \<Rightarrow>
                      (case method ou rid meta pl (cx, b) of
                         (Inl err, s') \<Rightarrow> (err_reply rid ''INTERNAL_ERROR'' ''internal error'', s')
                       | (Inr reply, s') \<Rightarrow> (reply, s')))))"

end
