(* ===== verification/Access.thy ===== *)
theory Access
  imports Handler
begin

text \<open>
  What a client may do with the broker: a session is a sequence of requests on one connection. Requests
  that the client's role does not allow have no effect on the broker, nor on the answers of the others.
\<close>

section \<open>Sessions\<close>

record request =
  rq_outside :: outside
  rq_id :: int
  rq_meta :: dict
  rq_payload :: bytes

definition rq_command :: "request \<Rightarrow> string" where
  "rq_command r = str_arg ''cmd'' (rq_meta r)"

text \<open>The loop over the frames of a connection: the one whose reply is the last after too many failures ends it.\<close>

fun serve_all :: "request list \<Rightarrow> conn_ctx \<times> broker \<Rightarrow> out_frame list \<times> conn_ctx \<times> broker" where
  "serve_all [] s = ([], s)"
| "serve_all (r # rs) s =
     (case handle (rq_outside r) (rq_id r) (rq_meta r) (rq_payload r) s of
        (reply, cx1, b1) \<Rightarrow>
          if cx_must_close cx1 then ([reply], cx1, b1)
          else (case serve_all rs (cx1, b1) of (replies, s2) \<Rightarrow> (reply # replies, s2)))"

text \<open>A request shows the secret of some user.\<close>

definition authenticates :: "auth_user list \<Rightarrow> request \<Rightarrow> bool" where
  "authenticates users r \<longleftrightarrow>
     upper (rq_command r) = ''AUTH'' \<and>
     list_ex (shows_secret (as_str (jget ''token'' (rq_meta r))) (Some (str_arg2 ''username'' ''user'' (rq_meta r)))
                (as_str (jget ''password'' (rq_meta r)))) users"

section \<open>The failure count is not seen by the commands\<close>

definition failed :: "nat \<Rightarrow> bool \<Rightarrow> conn_ctx \<Rightarrow> conn_ctx" where
  "failed n stop cx = cx\<lparr>cx_failures := n, cx_must_close := stop\<rparr>"

lemma failed_simps [simp]:
  "cx_connection (failed n stop cx) = cx_connection cx" "cx_prefetch (failed n stop cx) = cx_prefetch cx"
  "cx_principal (failed n stop cx) = cx_principal cx"
  "cx_failures (failed n stop cx) = n" "cx_must_close (failed n stop cx) = stop"
  "failed n stop (failed n' stop' cx) = failed n stop cx"
  "failed n stop (cx\<lparr>cx_prefetch := p\<rparr>) = (failed n stop cx)\<lparr>cx_prefetch := p\<rparr>"
  by (simp_all add: failed_def)

lemma failed_self: "failed (cx_failures cx) (cx_must_close cx) cx = cx"
  by (simp add: failed_def)

lemma count_failure_failed:
  "count_failure cx = failed (Suc (cx_failures cx)) (4 \<le> cx_failures cx \<or> cx_must_close cx) cx"
  by (simp add: count_failure_def failed_def Let_def)

text \<open>What only the server changes: the configuration, the counters, the names of the connections.\<close>

definition shell :: "broker \<Rightarrow> config \<times> metrics \<times> string list" where
  "shell b = (br_config b, br_metrics b, map fst (br_net b))"

text \<open>A command keeps what \<open>shell\<close> gives and the principal, and neither reads nor writes the failure count.\<close>

definition plain :: "command \<Rightarrow> bool" where
  "plain f \<longleftrightarrow>
     (\<forall>ou rid meta pl cx b.
        shell (snd (snd (f ou rid meta pl (cx, b)))) = shell b \<and>
        cx_principal (fst (snd (f ou rid meta pl (cx, b)))) = cx_principal cx \<and>
        (\<forall>n stop. f ou rid meta pl (failed n stop cx, b) =
           (case f ou rid meta pl (cx, b) of (reply, cx', b') \<Rightarrow> (reply, failed n stop cx', b'))))"

lemma plainI:
  assumes "\<And>ou rid meta pl cx b. shell (snd (snd (f ou rid meta pl (cx, b)))) = shell b"
    "\<And>ou rid meta pl cx b. cx_principal (fst (snd (f ou rid meta pl (cx, b)))) = cx_principal cx"
    "\<And>ou rid meta pl cx b n stop. f ou rid meta pl (failed n stop cx, b) =
       (fst (f ou rid meta pl (cx, b)), failed n stop (fst (snd (f ou rid meta pl (cx, b)))), snd (snd (f ou rid meta pl (cx, b))))"
  shows "plain f"
  using assms by (simp add: plain_def case_prod_beta)

lemma plainD:
  assumes "plain f" "f ou rid meta pl (cx, b) = (x, cx1, b1)"
  shows "shell b1 = shell b" "cx_principal cx1 = cx_principal cx"
    "f ou rid meta pl (failed n stop cx, b) = (x, failed n stop cx1, b1)"
proof -
  have "shell (snd (snd (f ou rid meta pl (cx, b)))) = shell b \<and>
        cx_principal (fst (snd (f ou rid meta pl (cx, b)))) = cx_principal cx \<and>
        f ou rid meta pl (failed n stop cx, b) =
           (case f ou rid meta pl (cx, b) of (reply, cx', b') \<Rightarrow> (reply, failed n stop cx', b'))"
    using assms(1) unfolding plain_def by blast
  then show "shell b1 = shell b" "cx_principal cx1 = cx_principal cx"
    "f ou rid meta pl (failed n stop cx, b) = (x, failed n stop cx1, b1)"
    unfolding assms(2) by simp_all
qed

lemma shell_frames [simp]:
  "shell (snd (with_engine g b)) = shell b"
  "shell (snd (with_routing g' b)) = shell b"
  "shell (snd (with_consumers g'' b)) = shell b"
  by (simp_all add: with_engine_def with_routing_def with_consumers_def case_prod_beta shell_def)

lemma shell_updates [simp]:
  "shell (b\<lparr>br_engine := e\<rparr>) = shell b" "shell (b\<lparr>br_routing := r\<rparr>) = shell b"
  "shell (b\<lparr>br_consumers := cm\<rparr>) = shell b" "shell (b\<lparr>br_pubsub := ps\<rparr>) = shell b"
  "shell (b\<lparr>br_last_slow := slow\<rparr>) = shell b"
  "map fst net = map fst (br_net b) \<Longrightarrow> shell (b\<lparr>br_net := net\<rparr>) = shell b"
  by (simp_all add: shell_def)

lemma names_send_to [simp]: "map fst (snd (send_to conn f net)) = map fst net"
proof (cases "map_of net conn")
  case (Some c)
  then have "conn \<in> dkeys net" by (metis domI dom_map_of_conv_image_fst)
  then show ?thesis using Some by (simp add: send_to_def map_fst_dset case_prod_beta)
qed (simp add: send_to_def)

lemma names_publish_channel [simp]:
  "map fst (snd (snd (publish_channel (fanout_pubsub ch) ch pl (ps, net)))) = map fst net"
proof -
  have "map fst (snd (offer (fanout_pubsub ch) pl cs net)) = map fst net" for cs
    by (induction cs arbitrary: net) (simp_all add: case_prod_beta fanout_pubsub_def)
  note names = this
  show ?thesis by (rule publish_channel_effect [of "fanout_pubsub ch" ch pl ps net]) (simp add: names)
qed

lemma shell_take_back [simp]: "shell (take_back c m b) = shell b"
  by (simp add: take_back_def Let_def)

lemma shell_pump_queue [simp]: "shell (pump_queue qn b) = shell b"
  by (rule pump_queue_keeps [where P = "\<lambda>b'. shell b' = shell b"]) simp_all

lemma shell_pump_all [simp]: "shell (pump_all qns b) = shell b"
  unfolding pump_all_def by (induction qns arbitrary: b) simp_all

lemma shell_helpers [simp]:
  "shell (set_consumer_prefetch c p b) = shell b"
  "shell (ensure_getter c conn qn p b) = shell b"
  "shell (declare_missing n b) = shell b"
  "shell (fold declare_missing qns b) = shell b"
  "shell (settle_consumer who b) = shell b"
  "shell (set_connection_prefetch conn p b) = shell b"
proof -
  show "shell (set_consumer_prefetch c p b) = shell b" by (simp add: set_consumer_prefetch_def)
  then show "shell (ensure_getter c conn qn p b) = shell b"
    by (simp add: ensure_getter_def split: option.split)
  have d: "shell (declare_missing n b) = shell b" for n b
    by (simp add: declare_missing_def split: prod.split)
  then show "shell (declare_missing n b) = shell b" .
  show "shell (fold declare_missing qns b) = shell b" by (induction qns arbitrary: b) (simp_all add: d)
  show "shell (settle_consumer who b) = shell b"
    by (simp add: settle_consumer_def Let_def split: option.split)
  show "shell (set_connection_prefetch conn p b) = shell b" by (simp add: set_connection_prefetch_def)
qed

lemma plain_reports:
  "plain cmd_ping" "plain cmd_info" "plain cmd_stats" "plain cmd_queue_info" "plain cmd_list_queues"
  "plain cmd_list_consumers" "plain cmd_list_channels" "plain cmd_dlq_info"
  by (rule plainI; simp add: cmd_ping_def cmd_info_def cmd_stats_def broker_stats_def cmd_queue_info_def
      cmd_list_queues_def cmd_list_consumers_def list_consumers_report_def cmd_list_channels_def cmd_dlq_info_def
      Let_def case_prod_beta split: option.split)+

lemma plain_routing:
  "plain cmd_declare_exchange" "plain cmd_delete_exchange" "plain cmd_bind" "plain cmd_unbind"
  "plain cmd_declare_queue" "plain cmd_delete_queue"
  by (rule plainI; simp add: cmd_declare_exchange_def cmd_delete_exchange_def cmd_bind_def cmd_unbind_def
      cmd_declare_queue_def cmd_delete_queue_def Let_def case_prod_beta
      split: sum.split py_error.split bool.split)+

lemma plain_publish: "plain cmd_publish"
  by (rule plainI; simp add: cmd_publish_def Let_def case_prod_beta split: sum.split)

lemma plain_consumers: "plain cmd_get" "plain cmd_consume" "plain cmd_cancel" "plain cmd_qos"
  by (rule plainI; simp add: cmd_get_def cmd_consume_def cmd_cancel_def cmd_qos_def Let_def case_prod_beta
      split: sum.split option.split bool.split)+

lemma plain_settle: "plain cmd_ack" "plain cmd_nack"
  by (rule plainI; simp add: cmd_ack_def cmd_nack_def Let_def case_prod_beta
      split: ack_result.split nack_result.split)+

lemma plain_channels: "plain cmd_subscribe" "plain cmd_unsubscribe" "plain cmd_publish_channel" "plain cmd_dlq_requeue"
  by (rule plainI; simp add: cmd_subscribe_def cmd_unsubscribe_def cmd_publish_channel_def cmd_dlq_requeue_def
      Let_def case_prod_beta split: bool.split)+

lemmas plain_commands = plain_reports plain_routing plain_publish plain_consumers plain_settle plain_channels

lemma commands_plain: "map_of commands c = Some f \<Longrightarrow> c = ''auth'' \<and> f = cmd_auth \<or> plain f"
  by (drule map_of_SomeD) (auto simp: commands_def plain_commands)

lemma shell_cmd_auth [simp]: "shell (snd (snd (cmd_auth ou rid meta pl (cx, b)))) = shell b"
  by (simp add: cmd_auth_def Let_def split: sum.split option.split)

lemma shell_handle [simp]: "shell (snd (snd (handle ou rid meta pl (cx, b)))) = shell b"
proof -
  have "shell (snd (snd (f ou rid meta pl (cx, b)))) = shell b" if f: "map_of commands c = Some f" for c f
    using commands_plain [OF f] by (auto simp: plain_def)
  then show ?thesis by (simp add: handle_def Let_def case_prod_beta split: option.split sum.split)
qed

section \<open>One request\<close>

definition serve :: "request \<Rightarrow> conn_ctx \<times> broker \<Rightarrow> out_frame \<times> conn_ctx \<times> broker" where
  "serve r s = handle (rq_outside r) (rq_id r) (rq_meta r) (rq_payload r) s"

lemma serve_all_Cons [simp]:
  "serve_all (r # rs) s =
     (case serve r s of
        (reply, cx1, b1) \<Rightarrow>
          if cx_must_close cx1 then ([reply], cx1, b1)
          else (case serve_all rs (cx1, b1) of (replies, s2) \<Rightarrow> (reply # replies, s2)))"
  by (simp add: serve_def)

declare serve_all.simps(2) [simp del]

definition permitted :: "principal option \<Rightarrow> request \<Rightarrow> bool" where
  "permitted who r = may_run who (rq_command r) True"

definition refusal :: "request \<Rightarrow> out_frame \<Rightarrow> bool" where
  "refusal r reply \<longleftrightarrow>
     (\<exists>code msg. code \<in> {''UNAUTHORIZED'', ''FORBIDDEN'', ''INVALID_COMMAND''} \<and> reply = err_reply (rq_id r) code msg)"

lemma authorize_cases:
  obtains "authorize who c ar = (True, '''', '''')" "may_run who c ar"
  | msg where "authorize who c ar = (False, ''UNAUTHORIZED'', msg)" "\<not> may_run who c ar" "who = None"
  | msg where "authorize who c ar = (False, ''FORBIDDEN'', msg)" "\<not> may_run who c ar" "who \<noteq> None"
proof -
  have "authorize who c ar = (True, '''', '''') \<or>
    (\<exists>msg. authorize who c ar = (False, ''UNAUTHORIZED'', msg) \<and> who = None) \<or>
    (\<exists>msg. authorize who c ar = (False, ''FORBIDDEN'', msg) \<and> who \<noteq> None)"
    by (auto simp: authorize_def Let_def split: option.split)
  then show ?thesis using that unfolding may_run_def by auto
qed

lemma serve_denied:
  assumes "cf_auth_enabled (br_config b)" "\<not> permitted (cx_principal cx) r"
  shows "\<exists>reply n stop. serve r (cx, b) = (reply, failed n stop cx, b) \<and> refusal r reply \<and>
    cx_failures cx \<le> n \<and> (cx_must_close cx \<longrightarrow> stop)"
proof (cases "rq_command r = []")
  case True
  then have "serve r (cx, b) = (err_reply (rq_id r) ''INVALID_COMMAND'' ''missing cmd'', failed (cx_failures cx) (cx_must_close cx) cx, b)"
    by (simp add: serve_def handle_def rq_command_def failed_self)
  then show ?thesis by (force simp: refusal_def)
next
  case False
  note h = serve_def handle_def rq_command_def [symmetric] assms(1) permitted_def Let_def
  show ?thesis
  proof (rule authorize_cases [of "cx_principal cx" "rq_command r" True])
    assume "may_run (cx_principal cx) (rq_command r) True"
    then show ?thesis using assms(2) by (simp add: permitted_def)
  next
    fix msg assume "authorize (cx_principal cx) (rq_command r) True = (False, ''UNAUTHORIZED'', msg)"
    then have "serve r (cx, b) = (err_reply (rq_id r) ''UNAUTHORIZED'' msg, count_failure cx, b)"
      using False by (simp add: h)
    then show ?thesis unfolding count_failure_failed by (force simp: refusal_def)
  next
    fix msg assume "authorize (cx_principal cx) (rq_command r) True = (False, ''FORBIDDEN'', msg)"
    then have "serve r (cx, b) = (err_reply (rq_id r) ''FORBIDDEN'' msg, failed (cx_failures cx) (cx_must_close cx) cx, b)"
      using False by (simp add: h failed_self)
    then show ?thesis by (force simp: refusal_def)
  qed
qed

lemma cmd_auth_refused:
  assumes "cf_auth_enabled (br_config b)" "\<not> authenticates (cf_users (br_config b)) r"
    "upper (rq_command r) = ''AUTH''"
  shows "cmd_auth ou rid (rq_meta r) pl (cx, b) =
    (Inr (err_reply rid ''UNAUTHORIZED'' ''invalid credentials''), count_failure cx, b)"
proof -
  have "authenticate (as_str (jget ''token'' (rq_meta r))) (Some (str_arg2 ''username'' ''user'' (rq_meta r)))
      (as_str (jget ''password'' (rq_meta r))) (cf_users (br_config b)) = Inr None"
    using assms(2,3) by (intro authenticate_nobody) (auto simp: authenticates_def list_ex_iff)
  then show ?thesis using assms(1) by (simp add: cmd_auth_def)
qed

lemma serve_frame:
  assumes auth: "cf_auth_enabled (br_config b)" and no: "\<not> authenticates (cf_users (br_config b)) r"
    and s: "serve r (cx, b) = (reply, cx', b')"
  shows "br_config b' = br_config b" "cx_principal cx' = cx_principal cx"
    "n \<le> cx_failures cx \<Longrightarrow> stop \<longrightarrow> cx_must_close cx \<Longrightarrow>
     \<exists>n' stop'. serve r (failed n stop cx, b) = (reply, failed n' stop' cx', b') \<and>
       n' \<le> cx_failures cx' \<and> (stop' \<longrightarrow> cx_must_close cx')"
proof -
  have "br_config b' = br_config b \<and> cx_principal cx' = cx_principal cx \<and>
    (n \<le> cx_failures cx \<longrightarrow> (stop \<longrightarrow> cx_must_close cx) \<longrightarrow>
     (\<exists>n' stop'. serve r (failed n stop cx, b) = (reply, failed n' stop' cx', b') \<and>
       n' \<le> cx_failures cx' \<and> (stop' \<longrightarrow> cx_must_close cx')))"
  proof (cases "permitted (cx_principal cx) r \<and> rq_command r \<noteq> []")
    case False
    note h = serve_def handle_def rq_command_def [symmetric] auth Let_def
    show ?thesis
    proof (cases "rq_command r = []")
      case True
      then show ?thesis using s by (auto simp: h)
    next
      case ne: False
      then have np: "\<not> may_run (cx_principal cx) (rq_command r) True" using False by (simp add: permitted_def)
      obtain code msg where no: "authorize (cx_principal cx) (rq_command r) True = (False, code, msg)"
        by (rule authorize_cases [of "cx_principal cx" "rq_command r" True]) (use np in auto)
      have "serve r (failed n' stop' cx, b) =
          (err_reply (rq_id r) (if code = [] then ''FORBIDDEN'' else code) msg,
           if code = ''UNAUTHORIZED'' then count_failure (failed n' stop' cx) else failed n' stop' cx, b)" for n' stop'
        using ne no by (simp add: h)
      note r = this [of n stop] this [of "cx_failures cx" "cx_must_close cx", unfolded failed_self]
      show ?thesis
      proof (cases "code = ''UNAUTHORIZED''")
        case True
        have eq: "serve r (failed n stop cx, b) = (reply, failed (Suc n) (4 \<le> n \<or> stop) cx', b')"
          "b' = b" "cx_principal cx' = cx_principal cx" "cx_failures cx' = Suc (cx_failures cx)"
          "cx_must_close cx' \<longleftrightarrow> 4 \<le> cx_failures cx \<or> cx_must_close cx"
          using r s True by (simp_all add: count_failure_failed)
        then show ?thesis by (intro conjI impI exI [of _ "Suc n"] exI [of _ "4 \<le> n \<or> stop"]) auto
      next
        case False
        have eq: "reply = err_reply (rq_id r) (if code = [] then ''FORBIDDEN'' else code) msg" "cx' = cx" "b' = b"
          using r(2) s unfolding if_not_P [OF False] by simp_all
        have "serve r (failed n stop cx, b) = (reply, failed n stop cx', b')"
          using r(1) unfolding if_not_P [OF False] eq .
        then show ?thesis using eq(2,3) by blast
      qed
    qed
  next
    case True
    then have may: "may_run (cx_principal cx) (rq_command r) True" and ne: "rq_command r \<noteq> []"
      by (simp_all add: permitted_def)
    have ok: "authorize (cx_principal cx) (rq_command r) True = (True, '''', '''')"
      by (rule authorize_cases [of "cx_principal cx" "rq_command r" True]) (use may in simp_all)
    define run where "run f c = f (rq_outside r) (rq_id r) (rq_meta r) (rq_payload r) (c, b)" for f :: command and c
    have eq: "serve r (failed n' stop' cx, b) =
        (case map_of commands (lower (rq_command r)) of
           None \<Rightarrow> (err_reply (rq_id r) ''INVALID_COMMAND'' (''unknown command '' @ rq_command r), failed n' stop' cx, b)
         | Some f \<Rightarrow> (case run f (failed n' stop' cx) of
               (Inl err, s') \<Rightarrow> (err_reply (rq_id r) ''INTERNAL_ERROR'' ''internal error'', s')
             | (Inr reply, s') \<Rightarrow> (reply, s')))" for n' stop'
      using ne ok by (simp add: serve_def handle_def rq_command_def [symmetric] auth Let_def run_def cong: option.case_cong)
    note r = eq [of n stop] eq [of "cx_failures cx" "cx_must_close cx", unfolded failed_self]
    show ?thesis
    proof (cases "map_of commands (lower (rq_command r))")
      case None
      have "cx' = cx" "b' = b" "serve r (failed n stop cx, b) = (reply, failed n stop cx, b)"
        using r s None by simp_all
      then show ?thesis by blast
    next
      case (Some f)
      note r = r [unfolded Some option.case]
      show ?thesis
      proof (cases "plain f")
        case True
        obtain x cx1 b1 where x: "run f cx = (x, cx1, b1)" by (metis prod_cases3)
        have fr: "br_config b1 = br_config b" "cx_principal cx1 = cx_principal cx"
          "run f (failed n stop cx) = (x, failed n stop cx1, b1)" for n stop
          using plainD [OF True x [unfolded run_def]] by (simp_all add: run_def shell_def)
        have "cx1 = failed (cx_failures cx) (cx_must_close cx) cx1"
          using fr(3) [of "cx_failures cx" "cx_must_close cx"] x by (simp add: failed_self)
        then have same: "cx_failures cx1 = cx_failures cx" "cx_must_close cx1 = cx_must_close cx"
          by (metis failed_simps(4), metis failed_simps(5))
        have "cx' = cx1" "b' = b1" "serve r (failed n stop cx, b) = (reply, failed n stop cx1, b1)"
          using r s unfolding x fr(3) by (cases x; simp)+
        then show ?thesis using fr(1,2) same by auto
      next
        case False
        then have f: "f = cmd_auth" "lower (rq_command r) = ''auth''" using commands_plain [OF Some] by auto
        have "upper (lower (rq_command r)) = ''AUTH''" unfolding f(2) by code_simp
        then have up: "upper (rq_command r) = ''AUTH''" by (simp add: case_conversions)
        have "run f c = (Inr (err_reply (rq_id r) ''UNAUTHORIZED'' ''invalid credentials''), count_failure c, b)" for c
          unfolding run_def f(1) by (rule cmd_auth_refused [OF auth no up])
        then have "b' = b" "cx' = failed (Suc (cx_failures cx)) (4 \<le> cx_failures cx \<or> cx_must_close cx) cx"
          "serve r (failed n stop cx, b) = (reply, failed (Suc n) (4 \<le> n \<or> stop) cx', b')"
          using r s by (simp_all add: count_failure_failed)
        then show ?thesis by (intro conjI impI exI [of _ "Suc n"] exI [of _ "4 \<le> n \<or> stop"]) auto
      qed
    qed
  qed
  then show "br_config b' = br_config b" "cx_principal cx' = cx_principal cx"
    "n \<le> cx_failures cx \<Longrightarrow> stop \<longrightarrow> cx_must_close cx \<Longrightarrow>
     \<exists>n' stop'. serve r (failed n stop cx, b) = (reply, failed n' stop' cx', b') \<and>
       n' \<le> cx_failures cx' \<and> (stop' \<longrightarrow> cx_must_close cx')" by blast+
qed

section \<open>A session\<close>

lemma serve_all_split:
  assumes "cf_auth_enabled (br_config b)" "\<forall>r \<in> set rs. \<not> authenticates (cf_users (br_config b)) r"
    "cx_principal cx = who" "n \<le> cx_failures cx" "stop \<longrightarrow> cx_must_close cx"
  shows "\<exists>replies cx' b' n' stop'. serve_all rs (cx, b) = (replies, cx', b') \<and> length replies \<le> length rs \<and>
    (length replies < length rs \<longrightarrow> cx_must_close cx') \<and>
    serve_all (filter (permitted who) (take (length replies) rs)) (failed n stop cx, b) =
      (map snd (filter (\<lambda>(r, reply). permitted who r) (zip rs replies)), failed n' stop' cx', b') \<and>
    (\<forall>(r, reply) \<in> set (zip rs replies). \<not> permitted who r \<longrightarrow> refusal r reply)"
  using assms
proof (induction rs arbitrary: cx b n stop)
  case Nil
  then show ?case by auto
next
  case (Cons r rs)
  have no: "\<not> authenticates (cf_users (br_config b)) r" using Cons.prems(2) by simp
  obtain reply cx1 b1 where s: "serve r (cx, b) = (reply, cx1, b1)" by (metis prod_cases3)
  note frame = serve_frame [OF Cons.prems(1) no s]
  have c1: "cf_auth_enabled (br_config b1)" "\<forall>r \<in> set rs. \<not> authenticates (cf_users (br_config b1)) r" "cx_principal cx1 = who"
    using Cons.prems frame(1,2) by simp_all
  show ?case
  proof (cases "permitted who r")
    case True
    obtain n1 stop1 where s1: "serve r (failed n stop cx, b) = (reply, failed n1 stop1 cx1, b1)"
      "n1 \<le> cx_failures cx1" "stop1 \<longrightarrow> cx_must_close cx1"
      using frame(3) [OF Cons.prems(4,5)] by blast
    show ?thesis
    proof (cases "cx_must_close cx1")
      case close: True
      then show ?thesis using True s s1(1)
        by (intro exI [of _ "[reply]"] exI [of _ cx1] exI [of _ b1] exI [of _ n1] exI [of _ stop1]) simp
    next
      case open1: False
      obtain replies cx' b' n' stop' where "serve_all rs (cx1, b1) = (replies, cx', b')" "length replies \<le> length rs"
        "length replies < length rs \<longrightarrow> cx_must_close cx'"
        "serve_all (filter (permitted who) (take (length replies) rs)) (failed n1 stop1 cx1, b1) =
          (map snd (filter (\<lambda>(r, reply). permitted who r) (zip rs replies)), failed n' stop' cx', b')"
        "\<forall>(r, reply) \<in> set (zip rs replies). \<not> permitted who r \<longrightarrow> refusal r reply"
        using Cons.IH [OF c1 s1(2,3)] by (elim exE conjE)
      then show ?thesis using True s s1(1,3) open1
        by (intro exI [of _ "reply # replies"] exI [of _ cx'] exI [of _ b'] exI [of _ n'] exI [of _ stop']) simp
    qed
  next
    case False
    obtain reply0 n0 stop0 where d: "serve r (cx, b) = (reply0, failed n0 stop0 cx, b)" "refusal r reply0"
      "cx_failures cx \<le> n0" "cx_must_close cx \<longrightarrow> stop0"
      using serve_denied [OF Cons.prems(1), of cx r] False Cons.prems(3) by blast
    then have eq: "reply = reply0" "cx1 = failed n0 stop0 cx" "b1 = b" using s by simp_all
    show ?thesis
    proof (cases "cx_must_close cx1")
      case close: True
      then show ?thesis using False s d(2) eq
        by (intro exI [of _ "[reply]"] exI [of _ cx1] exI [of _ b1] exI [of _ n] exI [of _ stop]) simp
    next
      case open1: False
      have le: "n \<le> cx_failures cx1" "stop \<longrightarrow> cx_must_close cx1" using d(3,4) Cons.prems(4,5) eq(2) by simp_all
      obtain replies cx' b' n' stop' where "serve_all rs (cx1, b1) = (replies, cx', b')" "length replies \<le> length rs"
        "length replies < length rs \<longrightarrow> cx_must_close cx'"
        "serve_all (filter (permitted who) (take (length replies) rs)) (failed n stop cx1, b1) =
          (map snd (filter (\<lambda>(r, reply). permitted who r) (zip rs replies)), failed n' stop' cx', b')"
        "\<forall>(r, reply) \<in> set (zip rs replies). \<not> permitted who r \<longrightarrow> refusal r reply"
        using Cons.IH [OF c1 le] by (elim exE conjE)
      then show ?thesis using False s d(2) eq open1
        by (intro exI [of _ "reply # replies"] exI [of _ cx'] exI [of _ b'] exI [of _ n'] exI [of _ stop']) simp
    qed
  qed
qed

text \<open>C22. Access control isolates: with authentication on, and no request of a session showing a user's
  secret, the server answers the requests up to the end of the session or up to the one whose failure closes
  the connection, and none after it; of the requests it answers, those the client's role does not permit are
  all refused, and the broker ends in exactly the state, and the permitted requests get exactly the answers,
  as if the refused ones had never been sent.\<close>

theorem refused_requests_have_no_effect:
  assumes "cf_auth_enabled (br_config b)" "\<forall>r \<in> set rs. \<not> authenticates (cf_users (br_config b)) r"
  shows "let who = cx_principal cx;
             (replies, cx', b') = serve_all rs (cx, b);
             answered = take (length replies) rs;
             (replies', cx'', b'') = serve_all (filter (permitted who) answered) (cx, b)
         in b' = b'' \<and> replies' = map snd (filter (\<lambda>(r, reply). permitted who r) (zip answered replies)) \<and>
            length replies \<le> length rs \<and> (length replies < length rs \<longrightarrow> cx_must_close cx') \<and>
            (\<forall>(r, reply) \<in> set (zip answered replies). \<not> permitted who r \<longrightarrow> refusal r reply)"
proof -
  have close: "cx_must_close cx \<longrightarrow> cx_must_close cx" ..
  obtain replies cx' b' n' stop' where r: "serve_all rs (cx, b) = (replies, cx', b')" "length replies \<le> length rs"
    "length replies < length rs \<longrightarrow> cx_must_close cx'"
    "serve_all (filter (permitted (cx_principal cx)) (take (length replies) rs)) (cx, b) =
       (map snd (filter (\<lambda>(r, reply). permitted (cx_principal cx) r) (zip rs replies)), failed n' stop' cx', b')"
    "\<forall>(r, reply) \<in> set (zip rs replies). \<not> permitted (cx_principal cx) r \<longrightarrow> refusal r reply"
    using serve_all_split [OF assms refl order_refl close] unfolding failed_self by (elim exE conjE)
  have "zip (take (length replies) rs) replies = zip rs replies" using take_zip [of "length replies" rs replies] by simp
  then show ?thesis using r by simp
qed

definition demo_config :: config where
  "demo_config = \<lparr>cf_host = ''127.0.0.1'', cf_port = 6380, cf_version = ''1'', cf_auth_enabled = True, cf_users = demo_users\<rparr>"

definition demo_broker :: "net \<Rightarrow> broker" where
  "demo_broker net =
     \<lparr>br_config = demo_config, br_engine = demo_ready, br_routing = new_routing,
      br_consumers = new_manager (\<lambda>_. 0), br_pubsub = new_pubsub 1000, br_metrics = new_metrics 0,
      br_net = net, br_last_slow = []\<rparr>"

definition demo_command :: "dict \<Rightarrow> request" where
  "demo_command meta =
     \<lparr>rq_outside = \<lparr>ou_message = \<lambda>_. (''m'', 0), ou_consumer = ''c'', ou_now = 0, ou_aof_size = 0, ou_snap_size = 0\<rparr>,
      rq_id = 1, rq_meta = meta, rq_payload = []\<rparr>"

definition demo_refused :: "request list" where
  "demo_refused = [demo_command [(''cmd'', JStr ''delete_queue''), (''name'', JStr ''jobs'')]]"

theorem refused_requests_have_no_effect_witness:
  "snd (snd (serve_all demo_refused (new_context ''x'', demo_broker []))) = demo_broker []"
proof -
  have auth: "cf_auth_enabled (br_config (demo_broker []))" by (simp add: demo_broker_def demo_config_def)
  have "list_all (\<lambda>r. \<not> authenticates (cf_users demo_config) r) demo_refused" by code_simp
  then have no: "\<forall>r \<in> set demo_refused. \<not> authenticates (cf_users (br_config (demo_broker []))) r"
    by (simp add: demo_broker_def list_all_iff)
  have "list_all (\<lambda>r. \<not> permitted None r) demo_refused" by code_simp
  then have "filter (permitted None) (take k demo_refused) = []" for k
    by (auto simp: filter_empty_conv list_all_iff dest: in_set_takeD)
  then show ?thesis
    using refused_requests_have_no_effect [OF auth no, of "new_context ''x''"]
    by (simp add: new_context_def case_prod_beta Let_def)
qed

section \<open>Guessing\<close>

text \<open>What counts against a client that is not authenticated: anything but an empty command and a \<open>PING\<close>.\<close>

definition attempt :: "request \<Rightarrow> bool" where
  "attempt r \<longleftrightarrow> rq_command r \<noteq> [] \<and> upper (rq_command r) \<noteq> ''PING''"

lemma serve_anonymous:
  assumes auth: "cf_auth_enabled (br_config b)" and no: "\<not> authenticates (cf_users (br_config b)) r"
    and p: "cx_principal cx = None"
  shows "snd (serve r (cx, b)) = (if attempt r then count_failure cx else cx, b)"
proof -
  note h = serve_def handle_def rq_command_def [symmetric] auth Let_def p authorize_def UNAUTHENTICATED_COMMANDS_def
  have low: "lower (rq_command r) = lower (upper (rq_command r))" by (simp add: case_conversions)
  consider "rq_command r = []" | "rq_command r \<noteq> []" "upper (rq_command r) = ''PING''"
    | "rq_command r \<noteq> []" "upper (rq_command r) = ''AUTH''"
    | "rq_command r \<noteq> []" "upper (rq_command r) \<notin> {''PING'', ''AUTH''}" by blast
  then show ?thesis
  proof cases
    case 1
    then show ?thesis by (simp add: h attempt_def)
  next
    case 2
    have "lower ''PING'' = ''ping''" by code_simp
    then have "map_of commands (lower (rq_command r)) = Some cmd_ping"
      using low 2(2) by (simp add: commands_def)
    then show ?thesis using 2 by (simp add: h attempt_def cmd_ping_def)
  next
    case 3
    have "lower ''AUTH'' = ''auth''" by code_simp
    then have "map_of commands (lower (rq_command r)) = Some cmd_auth"
      using low 3(2) by (simp add: commands_def)
    then show ?thesis using 3 cmd_auth_refused [OF auth no 3(2)] by (simp add: h attempt_def)
  next
    case 4
    then show ?thesis by (simp add: h attempt_def)
  qed
qed

lemma session_anonymous:
  assumes "cf_auth_enabled (br_config b)" "\<forall>r \<in> set rs. \<not> authenticates (cf_users (br_config b)) r"
    "cx_principal cx = None" "\<not> cx_must_close cx" "cx_failures cx < 5"
  shows "snd (serve_all rs (cx, b)) =
    ((count_failure ^^ min (5 - cx_failures cx) (length (filter attempt rs))) cx, b)"
  using assms
proof (induction rs arbitrary: cx)
  case (Cons r rs)
  let ?cx = "if attempt r then count_failure cx else cx"
  obtain reply where s: "serve r (cx, b) = (reply, ?cx, b)"
    using serve_anonymous [OF Cons.prems(1) _ Cons.prems(3), of r] Cons.prems(2) by (cases "serve r (cx, b)") simp
  have p: "cx_principal ?cx = None" using Cons.prems(3) by (simp add: count_failure_failed)
  have close: "cx_must_close ?cx \<longleftrightarrow> attempt r \<and> cx_failures cx = 4"
    using Cons.prems(4,5) by (auto simp: count_failure_failed)
  show ?case
  proof (cases "cx_must_close ?cx")
    case True
    then have "attempt r" "cx_failures cx = 4" using close by simp_all
    then have "min (5 - cx_failures cx) (length (filter attempt (r # rs))) = 1" by simp
    then show ?thesis using s True \<open>attempt r\<close> by simp
  next
    case False
    have "cx_failures ?cx < 5" using False close Cons.prems(5) by (auto simp: count_failure_failed)
    then have "snd (serve_all rs (?cx, b)) =
        ((count_failure ^^ min (5 - cx_failures ?cx) (length (filter attempt rs))) ?cx, b)"
      using Cons.IH [OF Cons.prems(1) _ p False] Cons.prems(2) by simp
    moreover have "min (5 - cx_failures cx) (length (filter attempt (r # rs))) =
        (if attempt r then Suc (min (5 - cx_failures ?cx) (length (filter attempt rs)))
         else min (5 - cx_failures ?cx) (length (filter attempt rs)))"
      using Cons.prems(5) by (auto simp: count_failure_failed min_def)
    ultimately show ?thesis using s False by (simp add: case_prod_beta funpow_swap1 split: if_splits)
  qed
qed simp

lemma count_failures:
  "cx_failures ((count_failure ^^ n) cx) = cx_failures cx + n"
  "cx_must_close ((count_failure ^^ n) cx) \<longleftrightarrow> cx_must_close cx \<or> 0 < n \<and> 5 \<le> cx_failures cx + n"
  by (induction n) (auto simp: count_failure_failed)

text \<open>Secrets cannot be guessed at leisure: a client that has not authenticated changes nothing in the
  broker, whatever it sends, every request but a \<open>PING\<close> or an empty one counts as a failure, and the fifth
  failure closes the connection.\<close>

theorem anonymous_session:
  assumes "cf_auth_enabled (br_config b)" "\<forall>r \<in> set rs. \<not> authenticates (cf_users (br_config b)) r"
  shows "\<exists>replies cx'. serve_all rs (new_context conn, b) = (replies, cx', b) \<and>
    cx_failures cx' = min 5 (length (filter attempt rs)) \<and>
    (cx_must_close cx' \<longleftrightarrow> 5 \<le> length (filter attempt rs))"
proof -
  let ?n = "min 5 (length (filter attempt rs))"
  have new: "cx_failures (new_context conn) = 0" "\<not> cx_must_close (new_context conn)" "cx_principal (new_context conn) = None"
    by (simp_all add: new_context_def)
  have "snd (serve_all rs (new_context conn, b)) = ((count_failure ^^ ?n) (new_context conn), b)"
    using session_anonymous [OF assms new(3,2)] new(1) by simp
  then show ?thesis
    using count_failures [of ?n "new_context conn"] new
    by (intro exI [of _ "fst (serve_all rs (new_context conn, b))"] exI [of _ "(count_failure ^^ ?n) (new_context conn)"])
       (auto simp: prod_eq_iff)
qed

theorem anonymous_session_witness:
  "\<exists>replies cx'. serve_all (replicate 5 (hd demo_refused)) (new_context ''x'', demo_broker []) = (replies, cx', demo_broker []) \<and>
     cx_must_close cx'"
proof -
  have auth: "cf_auth_enabled (br_config (demo_broker []))" by (simp add: demo_broker_def demo_config_def)
  have "list_all (\<lambda>r. \<not> authenticates (cf_users demo_config) r) demo_refused" by code_simp
  then have no: "\<forall>r \<in> set (replicate 5 (hd demo_refused)). \<not> authenticates (cf_users (br_config (demo_broker []))) r"
    by (simp add: demo_broker_def demo_refused_def)
  have "attempt (hd demo_refused)" by code_simp
  then have "length (filter attempt (replicate 5 (hd demo_refused))) = 5" by simp
  then show ?thesis using anonymous_session [OF auth no, of "''x''"] by auto
qed

end
