(* ===== verification/BrokerInv.thy ===== *)
theory BrokerInv
  imports Access
begin

text \<open>
  The invariant of the composed broker: each component keeps its own invariant under every command of
  the handler, and every connection stays within its outbound limit.
\<close>

section \<open>The consumer manager\<close>

lemma manager_ok_register:
  assumes "manager_ok cm"
  shows "manager_ok (fst (snd (register c conn qs prefetch tag (cm, e))))"
proof -
  obtain now cm1 where n: "cm_now cm = (now, cm1)" by fastforce
  have ok: "manager_ok cm1" using assms manager_ok_cm_now [of cm] n by simp
  let ?ids = "case map_of (by_connection cm1) conn of None \<Rightarrow> {} | Some S \<Rightarrow> S"
  let ?con = "\<lparr>con_id = c, con_connection = conn, con_queues = qs,
               con_qos = \<lparr>prefetch_count = prefetch, unacked_count = 0\<rparr>,
               connected_at = now, last_activity = now, con_tag = tag, cancelled = False\<rparr>"
  let ?cm = "cm1\<lparr>consumers := dset c ?con (consumers cm1),
                 by_connection := dset conn (insert c ?ids) (by_connection cm1)\<rparr>"
  have eq: "fst (snd (register c conn qs prefetch tag (cm, e))) = ?cm"
    by (simp add: register_def n Let_def)
  have fin: "finite ?ids" using ok by (auto simp: manager_ok_def split: option.split)
  have old: "\<exists>S. map_of (by_connection ?cm) (con_connection con') = Some S \<and> c' \<in> S"
    if con': "map_of (consumers cm1) c' = Some con'" for c' con'
  proof -
    obtain S where "map_of (by_connection cm1) (con_connection con') = Some S" "c' \<in> S"
      using manager_ok_con [OF ok con'] by blast
    then show ?thesis by (cases "con_connection con' = conn") auto
  qed
  show ?thesis
    unfolding eq manager_ok_def
  proof (intro conjI allI impI)
    show "dict_ok (consumers ?cm)" "dict_ok (by_connection ?cm)"
      using ok by (simp_all add: manager_ok_def)
    show "finite S" if "map_of (by_connection ?cm) k = Some S" for k S
      using that fin ok by (auto simp: manager_ok_def split: if_splits)
    fix c' con' assume c': "map_of (consumers ?cm) c' = Some con'"
    show "con_id con' = c'"
      using c' manager_ok_con [OF ok, of c' con'] by (auto split: if_splits)
    show "\<exists>S. map_of (by_connection ?cm) (con_connection con') = Some S \<and> c' \<in> S"
    proof (cases "c' = c")
      case True
      then have "con_connection con' = conn" using c' by auto
      then show ?thesis using True by simp
    next
      case False
      then show ?thesis using c' old by simp
    qed
  qed
qed

lemma manager_ok_qos: "manager_ok cm \<Longrightarrow> manager_ok (snd (qos_command c p cm))"
  using manager_ok_cm_now [of cm]
  by (auto simp: qos_command_def case_prod_beta split: option.split intro!: manager_ok_upd_consumer)

lemma manager_ok_on_ack: "manager_ok cm \<Longrightarrow> manager_ok (consumer_on_ack c cm)"
  using manager_ok_cm_now [of cm]
  by (auto simp: consumer_on_ack_def case_prod_beta split: option.split intro!: manager_ok_upd_consumer)

lemma manager_ok_deliver_to: "manager_ok cm \<Longrightarrow> manager_ok (fst (snd (deliver_to qn c (cm, e))))"
  using manager_ok_cm_now [of cm]
  by (auto simp: deliver_to_def Let_def case_prod_beta split: option.split intro!: manager_ok_upd_consumer)

lemma manager_ok_try_loop: "manager_ok cm \<Longrightarrow> manager_ok (fst (snd (try_loop i cids qn (cm, e))))"
  by (induction i arbitrary: e) (auto simp: Let_def manager_ok_deliver_to split: option.split)

lemma manager_ok_try_reserve: "manager_ok (fst s) \<Longrightarrow> manager_ok (fst (snd (try_reserve qn s)))"
  by (cases s) (auto simp: try_reserve_def manager_ok_try_loop split: option.split)

lemma cancel_consumer_parts:
  assumes "manager_ok cm" "engine_inv e"
  shows "manager_ok (fst (snd (cancel_consumer c recover (cm, e))))"
    "engine_inv (snd (snd (cancel_consumer c recover (cm, e))))"
proof -
  have "manager_ok (fst (snd (cancel_consumer c recover (cm, e)))) \<and>
    engine_inv (snd (snd (cancel_consumer c recover (cm, e))))"
  proof (cases "map_of (consumers cm) c")
    case None
    then show ?thesis using assms by (simp add: cancel_consumer_def)
  next
    case (Some con)
    let ?e = "fold (detach_consumer c) (con_queues con) e"
    have e: "engine_inv ?e" using assms(2) by (rule einv_detach_all)
    then have "engine_inv (snd (recover_consumer c True ?e))" by (rule einv_recover_consumer)
    then show ?thesis
      using Some e manager_ok_drop [OF assms(1) Some]
      by (auto simp: cancel_consumer_def Let_def split: prod.split sum.split)
  qed
  then show "manager_ok (fst (snd (cancel_consumer c recover (cm, e))))"
    "engine_inv (snd (snd (cancel_consumer c recover (cm, e))))" by simp_all
qed

lemma map_values:
  "map_of (map (\<lambda>(k, v). (k, g v)) xs) k = map_option g (map_of xs k)"
  "dict_ok (map (\<lambda>(k, v). (k, g v)) xs) = dict_ok xs"
proof -
  have "map fst (map (\<lambda>(k, v). (k, g v)) xs) = map fst xs" by (simp add: case_prod_beta)
  then show "dict_ok (map (\<lambda>(k, v). (k, g v)) xs) = dict_ok xs" unfolding dict_ok_def by (simp only:)
qed (induction xs, auto)

lemma manager_ok_map:
  assumes "manager_ok cm" "\<And>con. con_id (g con) = con_id con \<and> con_connection (g con) = con_connection con"
  shows "manager_ok (cm\<lparr>consumers := map (\<lambda>(c, con). (c, g con)) (consumers cm)\<rparr>)"
  using assms unfolding manager_ok_def by (auto simp: map_values)

section \<open>Connections\<close>

definition within_limit :: "connection \<Rightarrow> bool" where
  "within_limit c \<longleftrightarrow> 0 < cn_limit c \<longrightarrow> int (length (cn_outbound c)) \<le> cn_limit c"

definition net_ok :: "net \<Rightarrow> bool" where
  "net_ok net \<longleftrightarrow>
     dict_ok net \<and> (\<forall>conn c. map_of net conn = Some c \<longrightarrow> cn_id c = conn \<and> within_limit c)"

lemma try_send_frame:
  "cn_id (snd (try_send f c)) = cn_id c" "cn_limit (snd (try_send f c)) = cn_limit c"
  "cn_closed (snd (try_send f c)) = cn_closed c"
  by (simp_all add: try_send_def)

lemma within_limit_try_send: "within_limit c \<Longrightarrow> within_limit (snd (try_send f c))"
  by (auto simp: within_limit_def try_send_def outbound_full_def)

lemma net_ok_dset:
  "net_ok net \<Longrightarrow> cn_id c = conn \<Longrightarrow> within_limit c \<Longrightarrow> net_ok (dset conn c net)"
  by (auto simp: net_ok_def)

lemma net_ok_send_to: "net_ok net \<Longrightarrow> net_ok (snd (send_to conn f net))"
  by (auto simp: send_to_def case_prod_beta try_send_frame net_ok_def within_limit_try_send split: option.split
      intro!: net_ok_dset [unfolded net_ok_def])

lemma net_ok_offer: "net_ok net \<Longrightarrow> net_ok (snd (offer (fanout_pubsub ch) pl cs net))"
proof (induction cs arbitrary: net)
  case (Cons c cs)
  then show ?case by (simp add: case_prod_beta fanout_pubsub_def net_ok_send_to)
qed simp

section \<open>The invariant\<close>

definition broker_inv :: "broker \<Rightarrow> bool" where
  "broker_inv b \<longleftrightarrow>
     engine_inv (br_engine b) \<and> routing_ok (br_routing b) \<and> manager_ok (br_consumers b) \<and>
     pubsub_ok (br_pubsub b) \<and> net_ok (br_net b)"

lemma broker_inv_update:
  "broker_inv b \<Longrightarrow> engine_inv e \<Longrightarrow> broker_inv (b\<lparr>br_engine := e\<rparr>)"
  "broker_inv b \<Longrightarrow> routing_ok r \<Longrightarrow> engine_inv e \<Longrightarrow> broker_inv (b\<lparr>br_engine := e, br_routing := r\<rparr>)"
  "broker_inv b \<Longrightarrow> manager_ok cm \<Longrightarrow> engine_inv e \<Longrightarrow> broker_inv (b\<lparr>br_engine := e, br_consumers := cm\<rparr>)"
  "broker_inv b \<Longrightarrow> manager_ok cm \<Longrightarrow> broker_inv (b\<lparr>br_consumers := cm\<rparr>)"
  "broker_inv b \<Longrightarrow> pubsub_ok ps \<Longrightarrow> broker_inv (b\<lparr>br_pubsub := ps\<rparr>)"
  "broker_inv b \<Longrightarrow> net_ok net \<Longrightarrow> broker_inv (b\<lparr>br_net := net\<rparr>)"
  by (simp_all add: broker_inv_def)

lemma broker_inv_parts:
  assumes "broker_inv b"
  shows "engine_inv (br_engine b)" "routing_ok (br_routing b)" "manager_ok (br_consumers b)"
    "pubsub_ok (br_pubsub b)" "net_ok (br_net b)"
  using assms by (simp_all add: broker_inv_def)

text \<open>What an operation of a component has to keep, for the broker's invariant to be kept.\<close>

lemma inv_with_engine:
  assumes "broker_inv b" "\<And>e. engine_inv e \<Longrightarrow> engine_inv (snd (f e))"
  shows "broker_inv (snd (with_engine f b))"
  using assms by (simp add: with_engine_def case_prod_beta broker_inv_def)

lemma inv_with_routing:
  assumes "broker_inv b"
    "\<And>r e. routing_ok r \<Longrightarrow> engine_inv e \<Longrightarrow> routing_ok (fst (snd (f (r, e)))) \<and> engine_inv (snd (snd (f (r, e))))"
  shows "broker_inv (snd (with_routing f b))"
  using assms by (simp add: with_routing_def case_prod_beta broker_inv_def)

lemma inv_with_consumers:
  assumes "broker_inv b"
    "\<And>cm e. manager_ok cm \<Longrightarrow> engine_inv e \<Longrightarrow> manager_ok (fst (snd (f (cm, e)))) \<and> engine_inv (snd (snd (f (cm, e))))"
  shows "broker_inv (snd (with_consumers f b))"
  using assms by (simp add: with_consumers_def case_prod_beta broker_inv_def)

lemma routing_step_parts:
  assumes "routing_step (r, e) s'" "routing_ok r" "engine_inv e"
  shows "routing_ok (fst s') \<and> engine_inv (snd s')"
  using routing.step_safe [OF assms(1)] assms(2,3) by simp

lemma inv_register: "broker_inv b \<Longrightarrow> broker_inv (snd (with_consumers (register c conn qs p tag) b))"
  by (rule inv_with_consumers) (simp_all add: manager_ok_register einv_register)

lemma inv_try_reserve: "broker_inv b \<Longrightarrow> broker_inv (snd (with_consumers (try_reserve qn) b))"
  by (rule inv_with_consumers) (simp_all add: manager_ok_try_reserve einv_try_reserve)

lemma inv_cancel: "broker_inv b \<Longrightarrow> broker_inv (snd (with_consumers (cancel_consumer c r) b))"
  by (rule inv_with_consumers) (simp_all add: cancel_consumer_parts)

lemma inv_on_ack: "broker_inv b \<Longrightarrow> broker_inv (b\<lparr>br_consumers := consumer_on_ack c (br_consumers b)\<rparr>)"
  by (simp add: broker_inv_update manager_ok_on_ack broker_inv_parts)

lemma inv_take_back: "broker_inv b \<Longrightarrow> broker_inv (take_back c m b)"
  unfolding take_back_def Let_def by (intro inv_on_ack inv_with_engine einv_nack)

lemma inv_pump_queue: "broker_inv b \<Longrightarrow> broker_inv (pump_queue qn b)"
  by (rule pump_queue_keeps)
     (simp_all add: inv_try_reserve inv_take_back broker_inv_update net_ok_send_to broker_inv_parts)

lemma inv_pump_all: "broker_inv b \<Longrightarrow> broker_inv (pump_all qns b)"
  unfolding pump_all_def by (induction qns arbitrary: b) (simp_all add: inv_pump_queue)

section \<open>Commands\<close>

definition keeps :: "command \<Rightarrow> bool" where
  "keeps f \<longleftrightarrow>
     (\<forall>ou rid meta pl cx b. broker_inv b \<longrightarrow> broker_inv (snd (snd (f ou rid meta pl (cx, b)))))"

lemma keepsI: "(\<And>ou rid meta pl cx b. broker_inv b \<Longrightarrow> broker_inv (snd (snd (f ou rid meta pl (cx, b))))) \<Longrightarrow> keeps f"
  unfolding keeps_def by blast

lemma keeps_reports:
  "keeps cmd_ping" "keeps cmd_auth" "keeps cmd_info" "keeps cmd_queue_info" "keeps cmd_list_queues"
  "keeps cmd_dlq_info"
  by (rule keepsI, simp add: cmd_ping_def cmd_auth_def cmd_info_def cmd_queue_info_def cmd_list_queues_def
      cmd_dlq_info_def Let_def split: option.split sum.split)+

lemma pubsub_ok_list_channels: "pubsub_ok ps \<Longrightarrow> pubsub_ok (snd (list_channels ps))"
  using pubsub.step_safe [OF pubsub_step.intros(5)] .

lemma keeps_channel_reports: "keeps cmd_stats" "keeps cmd_list_channels" "keeps cmd_list_consumers"
proof -
  show "keeps cmd_stats" "keeps cmd_list_channels"
    by (rule keepsI, simp add: cmd_stats_def broker_stats_def cmd_list_channels_def Let_def case_prod_beta
        broker_inv_update pubsub_ok_list_channels broker_inv_parts)+
  show "keeps cmd_list_consumers"
    by (rule keepsI)
       (auto simp: cmd_list_consumers_def list_consumers_report_def Let_def case_prod_beta
        intro!: inv_with_engine einv_read_clock)
qed

lemma keeps_routing:
  "keeps cmd_declare_exchange" "keeps cmd_delete_exchange" "keeps cmd_bind" "keeps cmd_unbind"
proof -
  have d: "broker_inv b \<Longrightarrow> broker_inv (snd (with_routing (declare_exchange n ty dur p) b))" for b n ty dur p
    by (erule inv_with_routing) (rule routing_step_parts [OF declare_exchange_step])
  have x: "broker_inv b \<Longrightarrow> broker_inv (snd (with_routing (delete_exchange n p) b))" for b n p
    by (erule inv_with_routing) (rule routing_step_parts [OF delete_exchange_step])
  have bi: "broker_inv b \<Longrightarrow> broker_inv (snd (with_routing (bind_queue n q k p) b))" for b n q k p
    by (erule inv_with_routing) (rule routing_step_parts [OF bind_step])
  have un: "broker_inv b \<Longrightarrow> broker_inv (snd (with_routing (unbind_queue n q k p) b))" for b n q k p
    by (erule inv_with_routing) (rule routing_step_parts [OF unbind_step])
  show "keeps cmd_declare_exchange"
    by (rule keepsI)
       (simp add: cmd_declare_exchange_def Let_def case_prod_beta d split: sum.split py_error.split)
  show "keeps cmd_delete_exchange" "keeps cmd_bind" "keeps cmd_unbind"
    by (rule keepsI, simp add: cmd_delete_exchange_def cmd_bind_def cmd_unbind_def case_prod_beta x bi un
        split: bool.split)+
qed

lemma inv_declare:
  assumes "broker_inv b" "on_queue_declared n p (br_routing b, declare_queue n dur ml vt ma dl q (br_engine b)) = (rt, e)"
  shows "broker_inv (b\<lparr>br_routing := rt, br_engine := e\<rparr>)"
proof -
  have "engine_inv (declare_queue n dur ml vt ma dl q (br_engine b))"
    using broker_inv_parts(1) [OF assms(1)] by (rule einv_declare_queue)
  from on_queue_declared_ok [OF broker_inv_parts(2) [OF assms(1)] this, of n p] show ?thesis
    using assms by (simp add: broker_inv_def)
qed

lemma keeps_queues: "keeps cmd_declare_queue" "keeps cmd_delete_queue"
proof -
  show "keeps cmd_declare_queue"
    by (rule keepsI) (auto simp: cmd_declare_queue_def Let_def inv_declare split: prod.split)
  have "broker_inv b \<Longrightarrow> broker_inv (snd (with_engine (delete_queue n p) b))" for b n p
    by (erule inv_with_engine) (rule einv_delete_queue)
  then show "keeps cmd_delete_queue"
    by (intro keepsI) (simp add: cmd_delete_queue_def case_prod_beta split: bool.split)
qed

lemma keeps_publish: "keeps cmd_publish"
proof (rule keepsI)
  fix ou rid meta pl cx b assume b: "broker_inv b"
  have "broker_inv (snd (with_routing (publish pl ex key q ma prio hd mid mk p) b))" for ex key q ma prio hd mid mk p
    using b by (rule inv_with_routing) (rule publish_ok)
  then show "broker_inv (snd (snd (cmd_publish ou rid meta pl (cx, b))))"
    using b by (simp add: cmd_publish_def case_prod_beta inv_pump_all split: sum.split)
qed

lemma inv_set_consumer_prefetch: "broker_inv b \<Longrightarrow> broker_inv (set_consumer_prefetch c p b)"
  by (simp add: set_consumer_prefetch_def broker_inv_update manager_ok_upd_consumer broker_inv_parts)

lemma inv_ensure_getter: "broker_inv b \<Longrightarrow> broker_inv (ensure_getter c conn qn p b)"
  by (simp add: ensure_getter_def inv_register inv_set_consumer_prefetch split: option.split)

lemma keeps_get: "keeps cmd_get"
  by (rule keepsI)
     (simp add: cmd_get_def Let_def case_prod_beta inv_try_reserve inv_ensure_getter split: sum.split option.split)

lemma inv_declare_missing: "broker_inv b \<Longrightarrow> broker_inv (declare_missing n b)"
  by (auto simp: declare_missing_def inv_declare split: prod.split)

lemma keeps_consume: "keeps cmd_consume"
proof (rule keepsI)
  fix ou rid meta pl cx b assume b: "broker_inv b"
  have "broker_inv (fold declare_missing qns b)" for qns
    using b by (induction qns arbitrary: b) (simp_all add: inv_declare_missing)
  then show "broker_inv (snd (snd (cmd_consume ou rid meta pl (cx, b))))"
    using b by (simp add: cmd_consume_def Let_def inv_register inv_pump_all split: sum.split)
qed

lemma keeps_cancel: "keeps cmd_cancel"
  by (rule keepsI) (simp add: cmd_cancel_def Let_def case_prod_beta inv_cancel split: sum.split bool.split)

lemma inv_settle_consumer: "broker_inv b \<Longrightarrow> broker_inv (settle_consumer who b)"
  by (simp add: settle_consumer_def Let_def inv_on_ack inv_pump_all split: option.split)

lemma keeps_settle: "keeps cmd_ack" "keeps cmd_nack"
proof -
  have "broker_inv b \<Longrightarrow> broker_inv (snd (with_engine (ack k p) b))" for b k p
    by (erule inv_with_engine) (rule einv_ack)
  then show "keeps cmd_ack"
    by (intro keepsI)
       (simp add: cmd_ack_def Let_def case_prod_beta inv_settle_consumer split: ack_result.split)
  have "broker_inv b \<Longrightarrow> broker_inv (snd (with_engine (nack k r p) b))" for b k r p
    by (erule inv_with_engine) (rule einv_nack)
  then show "keeps cmd_nack"
    by (intro keepsI)
       (simp add: cmd_nack_def Let_def case_prod_beta inv_settle_consumer split: nack_result.split)
qed

lemma inv_set_connection_prefetch: "broker_inv b \<Longrightarrow> broker_inv (set_connection_prefetch conn p b)"
  unfolding set_connection_prefetch_def
  by (rule broker_inv_update(4), assumption, rule manager_ok_map) (simp_all add: broker_inv_parts)

lemma keeps_qos: "keeps cmd_qos"
  by (rule keepsI)
     (simp add: cmd_qos_def Let_def case_prod_beta broker_inv_update manager_ok_qos broker_inv_parts
      inv_set_connection_prefetch split: sum.split bool.split)

lemma pubsub_ok_publish: "pubsub_ok ps \<Longrightarrow> pubsub_ok (fst (snd (publish_channel f ch pl (ps, w))))"
proof -
  assume ok: "pubsub_ok ps"
  obtain ps' where "fst (snd (publish_channel f ch pl (ps, w))) = ps'" "subs ps' = subs ps" "chans_of ps' = chans_of ps"
    by (rule publish_channel_effect [of f ch pl ps w]) simp
  then show ?thesis using ok same_subscriptions(2) by metis
qed

lemma net_ok_publish: "net_ok net \<Longrightarrow> net_ok (snd (snd (publish_channel (fanout_pubsub ch) ch pl (ps, net))))"
  by (rule publish_channel_effect [of "fanout_pubsub ch" ch pl ps net]) (simp add: net_ok_offer)

lemma keeps_channels: "keeps cmd_subscribe" "keeps cmd_unsubscribe" "keeps cmd_publish_channel"
proof -
  show "keeps cmd_subscribe" "keeps cmd_unsubscribe"
    by (rule keepsI, simp add: cmd_subscribe_def cmd_unsubscribe_def Let_def broker_inv_update
        pubsub_ok_subscribe pubsub_ok_unsubscribe broker_inv_parts)+
  show "keeps cmd_publish_channel"
    by (rule keepsI)
       (simp add: cmd_publish_channel_def Let_def case_prod_beta broker_inv_def pubsub_ok_publish net_ok_publish)
qed

lemma keeps_dlq_requeue: "keeps cmd_dlq_requeue"
proof -
  have "broker_inv b \<Longrightarrow> broker_inv (snd (with_engine (dlq_requeue n k p) b))" for b n k p
    by (erule inv_with_engine) (rule einv_dlq_requeue)
  then show ?thesis
    by (intro keepsI) (simp add: cmd_dlq_requeue_def Let_def case_prod_beta inv_pump_queue split: bool.split)
qed

lemmas keeps_commands = keeps_reports keeps_channel_reports keeps_routing keeps_queues keeps_publish keeps_get
  keeps_consume keeps_cancel keeps_settle keeps_qos keeps_channels keeps_dlq_requeue

lemma inv_handle: "broker_inv b \<Longrightarrow> broker_inv (snd (snd (handle ou rid meta pl (cx, b))))"
proof -
  assume b: "broker_inv b"
  have "keeps f" if "map_of commands c = Some f" for c f
    using map_of_SomeD [OF that] by (auto simp: commands_def keeps_commands)
  then have "broker_inv (snd (snd (f ou rid meta pl (cx, b))))" if "map_of commands c = Some f" for c f
    using that b unfolding keeps_def by blast
  then show ?thesis
    using b by (simp add: handle_def Let_def case_prod_beta split: option.split sum.split)
qed

section \<open>What pumping delivers\<close>

text \<open>\<open>deliveries qn b xs b'\<close>: one after the other the messages of \<open>xs\<close> were reserved from the queue and
  put into the outbound queues of their consumers' connections.\<close>

inductive deliveries :: "string \<Rightarrow> broker \<Rightarrow> (consumer \<times> message) list \<Rightarrow> broker \<Rightarrow> bool" for qn :: string where
  finished: "deliveries qn b [] b"
| more: "with_consumers (try_reserve qn) b = (Some (c, m), b1) \<Longrightarrow>
    send_to (con_connection c) (deliver_frame c m) (br_net b1) = (True, net) \<Longrightarrow>
    deliveries qn (b1\<lparr>br_net := net\<rparr>) xs b' \<Longrightarrow> deliveries qn b ((c, m) # xs) b'"

lemma deliveries_bounded: "deliveries qn b xs b' \<Longrightarrow> length xs + ready_left qn (br_engine b') \<le> ready_left qn (br_engine b)"
proof (induction rule: deliveries.induct)
  case (more b c m b1 net xs b')
  have "ready_left qn (br_engine b1) < ready_left qn (br_engine b)" by (rule reserve_step_shrinks [OF more.hyps(1)])
  then show ?case using more.IH by simp
qed simp

text \<open>C23. A queue is pumped to the end: whatever the state, \<open>pump_queue\<close> hands out a finite series of
  messages, each queued on its consumer's connection, and stops only in a state in which no consumer
  of the queue may receive or no message of it is deliverable, or because a connection refused a
  delivery, which it then takes back.\<close>

theorem pump_queue_exhausts:
  assumes "broker_inv b"
  shows "\<exists>xs b1. deliveries qn b xs b1 \<and> length xs \<le> ready_left qn (br_engine b) \<and>
    (with_consumers (try_reserve qn) b1 = (None, pump_queue qn b) \<and>
       nothing_to_do qn (br_consumers (pump_queue qn b), br_engine (pump_queue qn b)) \<or>
     (\<exists>c m b2 net. with_consumers (try_reserve qn) b1 = (Some (c, m), b2) \<and>
        send_to (con_connection c) (deliver_frame c m) (br_net b2) = (False, net) \<and>
        pump_queue qn b = take_back c m (b2\<lparr>br_net := net\<rparr>)))"
  using assms
proof (induction "ready_left qn (br_engine b)" arbitrary: b rule: less_induct)
  case less
  obtain x b1 where r: "with_consumers (try_reserve qn) b = (x, b1)" by fastforce
  show ?case
  proof (cases x)
    case None
    have "try_reserve qn (br_consumers b, br_engine b) = (None, br_consumers b1, br_engine b1)"
      using r None by (auto simp: with_consumers_def split: prod.splits)
    then have "nothing_to_do qn (br_consumers b1, br_engine b1)"
      using try_reserve_nothing [OF broker_inv_parts(1) [OF less.prems]] by blast
    then show ?thesis
      using r None by (intro exI [of _ "[]"] exI [of _ b]) (simp add: pump_queue.simps [of qn b] deliveries.finished)
  next
    case (Some y)
    obtain c m where y: "y = (c, m)" by fastforce
    obtain ok net where n: "send_to (con_connection c) (deliver_frame c m) (br_net b1) = (ok, net)" by fastforce
    let ?b = "b1\<lparr>br_net := net\<rparr>"
    have small: "ready_left qn (br_engine ?b) < ready_left qn (br_engine b)"
      using reserve_step_shrinks [of qn b y b1] r Some by simp
    show ?thesis
    proof (cases ok)
      case False
      then show ?thesis
        using r Some y n by (intro exI [of _ "[]"] exI [of _ b]) (simp add: pump_queue.simps [of qn b] deliveries.finished)
    next
      case True
      have "broker_inv b1" using inv_try_reserve [OF less.prems, of qn] r by simp
      then have "broker_inv ?b"
        using net_ok_send_to [of "br_net b1" "con_connection c" "deliver_frame c m"] n
        by (simp add: broker_inv_update broker_inv_parts)
      from less.hyps [OF small this] obtain xs b2 where
        d: "deliveries qn ?b xs b2" and
        e: "with_consumers (try_reserve qn) b2 = (None, pump_queue qn ?b) \<and>
             nothing_to_do qn (br_consumers (pump_queue qn ?b), br_engine (pump_queue qn ?b)) \<or>
           (\<exists>c m b3 net. with_consumers (try_reserve qn) b2 = (Some (c, m), b3) \<and>
             send_to (con_connection c) (deliver_frame c m) (br_net b3) = (False, net) \<and>
             pump_queue qn ?b = take_back c m (b3\<lparr>br_net := net\<rparr>))" by blast
      have p: "pump_queue qn b = pump_queue qn ?b" using r Some y n True by (simp add: pump_queue.simps [of qn b])
      have d': "deliveries qn b ((c, m) # xs) b2" by (rule deliveries.more) (use r Some y n True d in simp_all)
      have "length ((c, m) # xs) \<le> ready_left qn (br_engine b)" using deliveries_bounded [OF d'] by simp
      then show ?thesis
        unfolding p by (intro exI [of _ "(c, m) # xs"] exI [of _ b2] conjI) (rule d', assumption, rule e)
    qed
  qed
qed

lemma demo_broker_inv: "net_ok net \<Longrightarrow> broker_inv (demo_broker net)"
  by (simp add: broker_inv_def demo_broker_def demo_inv routing_ok_new pubsub_ok_new manager_ok_def new_manager_def dict_ok_def)

theorem pump_queue_exhausts_witness:
  "\<exists>xs b1. deliveries ''jobs'' (demo_broker []) xs b1 \<and> length xs \<le> 2"
proof -
  have "net_ok []" by (simp add: net_ok_def dict_ok_def)
  then have inv: "broker_inv (demo_broker [])" by (rule demo_broker_inv)
  have "ready_left ''jobs'' (br_engine (demo_broker [])) \<le> 2" by code_simp
  moreover obtain xs b1 where "deliveries ''jobs'' (demo_broker []) xs b1"
    "length xs \<le> ready_left ''jobs'' (br_engine (demo_broker []))"
    using pump_queue_exhausts [OF inv, of "''jobs''"] by blast
  ultimately show ?thesis by (intro exI [of _ xs] exI [of _ b1] conjI) (assumption, linarith)
qed

end
