(* ===== verification/Server.thy ===== *)
theory Server
  imports BrokerInv
begin

text \<open>
  \<open>broker/server.py\<close>: the connections, the read loop of a session cut at its \<open>await\<close>s, the writer, the
  ticker, the drop of a connection and the stop of the server. Between two awaits the event loop runs
  nothing else, so each definition below is one uninterrupted stretch of a coroutine.

  A connection object is in \<open>br_net\<close> as long as \<open>self.connections\<close> and \<open>self._senders\<close> hold it; the read
  loop keeps its reference to it when the server has dropped it (\<open>ss_conn\<close>). Sockets, the idle timer and
  the durable prefix of the journal are outside: their events are steps that may happen.
\<close>

section \<open>State\<close>

text \<open>Where the read loop of a session is: at the head of its loop, waiting for data, handling the
  frames of a chunk, waiting for the journal (up to an entry), sending its last words, about to leave
  the loop, or gone. \<open>Crashed\<close> is a \<open>_drop\<close> that has raised.\<close>

datatype phase =
    At_top
  | Reading
  | Handling "frame list"
  | Waiting nat "frame list"
  | Last_words out_frame
  | Leaving
  | Gone
  | Crashed

record session =
  ss_ctx :: conn_ctx
  ss_reader :: reader
  ss_phase :: phase
  ss_conn :: "connection option"

record server =
  sv_broker :: broker
  sv_sessions :: "(string \<times> session) list"
  sv_drops :: "string list"
  sv_accepting :: bool
  sv_ready :: bool
  sv_delivering :: bool
  sv_halted :: bool
  sv_max_connections :: int
  sv_max_frame :: int
  sv_outbound :: int
  sv_sync :: bool
  sv_durable :: nat
  sv_wire :: "(string \<times> out_frame) list"

definition new_server :: "broker \<Rightarrow> int \<Rightarrow> int \<Rightarrow> int \<Rightarrow> bool \<Rightarrow> server" where
  "new_server b max_connections max_frame outbound sync =
     \<lparr>sv_broker = b, sv_sessions = [], sv_drops = [], sv_accepting = False, sv_ready = False,
      sv_delivering = True, sv_halted = False, sv_max_connections = max_connections, sv_max_frame = max_frame,
      sv_outbound = outbound, sv_sync = sync, sv_durable = 0, sv_wire = []\<rparr>"

definition start_server :: "server \<Rightarrow> server" where
  "start_server sv = sv\<lparr>sv_halted := False, sv_accepting := True, sv_ready := True\<rparr>"

definition upd_session :: "string \<Rightarrow> (session \<Rightarrow> session) \<Rightarrow> server \<Rightarrow> server" where
  "upd_session i f sv =
     (case map_of (sv_sessions sv) i of
        None \<Rightarrow> sv | Some s \<Rightarrow> sv\<lparr>sv_sessions := dset i (f s) (sv_sessions sv)\<rparr>)"

definition set_phase :: "string \<Rightarrow> phase \<Rightarrow> server \<Rightarrow> server" where
  "set_phase i p sv = upd_session i (\<lambda>s. s\<lparr>ss_phase := p\<rparr>) sv"

definition set_broker :: "broker \<Rightarrow> server \<Rightarrow> server" where
  "set_broker b sv = sv\<lparr>sv_broker := b\<rparr>"

definition phase_of :: "string \<Rightarrow> server \<Rightarrow> phase option" where
  "phase_of i sv = map_option ss_phase (map_of (sv_sessions sv) i)"

section \<open>The connection object of a session\<close>

definition own_conn :: "string \<Rightarrow> server \<Rightarrow> connection option" where
  "own_conn i sv =
     (case map_of (br_net (sv_broker sv)) i of
        Some c \<Rightarrow> Some c
      | None \<Rightarrow> (case map_of (sv_sessions sv) i of None \<Rightarrow> None | Some s \<Rightarrow> ss_conn s))"

definition put_conn :: "string \<Rightarrow> connection \<Rightarrow> server \<Rightarrow> server" where
  "put_conn i c sv =
     (if map_of (br_net (sv_broker sv)) i \<noteq> None
      then set_broker ((sv_broker sv)\<lparr>br_net := dset i c (br_net (sv_broker sv))\<rparr>) sv
      else upd_session i (\<lambda>s. s\<lparr>ss_conn := Some c\<rparr>) sv)"

definition own_try_send :: "string \<Rightarrow> out_frame \<Rightarrow> server \<Rightarrow> bool \<times> server" where
  "own_try_send i f sv =
     (case own_conn i sv of
        None \<Rightarrow> (False, sv)
      | Some c \<Rightarrow> (case try_send f c of (ok, c') \<Rightarrow> (ok, put_conn i c' sv)))"

text \<open>\<open>close\<close> up to the wait for the writer: the sentinel takes the place of the oldest frame when the
  queue is full.\<close>

definition close_conn :: "connection \<Rightarrow> connection" where
  "close_conn c =
     (if cn_closed c then c
      else
        (let c1 = c\<lparr>cn_closed := True\<rparr> in
         if \<not> outbound_full c1 then c1\<lparr>cn_outbound := cn_outbound c1 @ [None]\<rparr>
         else
           (let c2 = c1\<lparr>cn_outbound := tl (cn_outbound c1)\<rparr> in
            if \<not> outbound_full c2 then c2\<lparr>cn_outbound := cn_outbound c2 @ [None]\<rparr> else c2)))"

section \<open>Accepting and dropping\<close>

definition new_connection :: "string \<Rightarrow> int \<Rightarrow> connection" where
  "new_connection i limit = \<lparr>cn_id = i, cn_closed = False, cn_limit = limit, cn_outbound = []\<rparr>"

definition on_connection :: "string \<Rightarrow> server \<Rightarrow> server" where
  "on_connection i sv =
     (let b = sv_broker sv in
      if \<not> sv_accepting sv \<or> \<not> sv_ready sv then sv
      else if sv_max_connections sv \<le> int (mt_connections (br_metrics b)) then sv
      else
        sv\<lparr>sv_broker := b\<lparr>br_net := dset i (new_connection i (sv_outbound sv)) (br_net b),
                         br_metrics := on_connect (br_metrics b)\<rparr>,
           sv_sessions := dset i \<lparr>ss_ctx = new_context i, ss_reader = new_reader (sv_max_frame sv),
                                  ss_phase = At_top, ss_conn = None\<rparr> (sv_sessions sv)\<rparr>)"

text \<open>\<open>_drop\<close>, up to the wait for the writer. The first component tells whether it raised.\<close>

definition drop_connection ::
  "(string set \<Rightarrow> string list) \<Rightarrow> (string set \<Rightarrow> string list) \<Rightarrow> string \<Rightarrow> server \<Rightarrow> bool \<times> server" where
  "drop_connection order order' i sv =
     (let b = sv_broker sv in
      case map_of (br_net b) i of
        None \<Rightarrow> (case own_conn i sv of None \<Rightarrow> (False, sv) | Some c \<Rightarrow> (False, put_conn i (close_conn c) sv))
      | Some c \<Rightarrow>
          (let b1 = b\<lparr>br_net := ddel i (br_net b), br_pubsub := disconnect order i (br_pubsub b)\<rparr> in
           case with_consumers (disconnect_connection order' i) b1 of
             (Inl err, b2) \<Rightarrow> (True, put_conn i c (set_broker b2 sv))
           | (Inr n, b2) \<Rightarrow>
               (False, put_conn i (close_conn c) (set_broker (b2\<lparr>br_metrics := on_disconnect (br_metrics b2)\<rparr>) sv))))"

definition slow_event :: out_frame where
  "slow_event = event_out ''SLOW_CONSUMER'' [(''code'', JStr ''SLOW_CONSUMER'')] []"

definition disconnect_slow :: "string \<Rightarrow> server \<Rightarrow> server" where
  "disconnect_slow i sv =
     (case map_of (br_net (sv_broker sv)) i of
        None \<Rightarrow> sv
      | Some c \<Rightarrow> (put_conn i (snd (try_send slow_event c)) sv)\<lparr>sv_drops := sv_drops sv @ [i]\<rparr>)"

section \<open>The read loop\<close>

definition loop_top :: "string \<Rightarrow> server \<Rightarrow> server" where
  "loop_top i sv =
     (if (case own_conn i sv of None \<Rightarrow> True | Some c \<Rightarrow> cn_closed c) \<or> sv_halted sv
      then set_phase i Leaving sv else set_phase i Reading sv)"

definition exc_reply :: "int \<Rightarrow> protocol_error \<Rightarrow> out_frame" where
  "exc_reply rid exc =
     \<lparr>of_type = FRAME_RESPONSE, of_request = rid,
      of_meta = response_meta False [] (Some (err_code exc)) (Some (err_message exc)), of_payload = []\<rparr>"

definition on_data :: "string \<Rightarrow> bytes \<Rightarrow> session \<Rightarrow> server \<Rightarrow> server" where
  "on_data i data s sv =
     (if sv_halted sv \<or> data = [] then set_phase i Leaving sv
      else
        (let b = sv_broker sv;
             sv1 = set_broker (b\<lparr>br_metrics := add_received (length data) (br_metrics b)\<rparr>) sv
         in case feed data (ss_reader s) of
              (Inl exc, r) \<Rightarrow> upd_session i (\<lambda>s. s\<lparr>ss_reader := r, ss_phase := Last_words (exc_reply 0 exc)\<rparr>) sv1
            | (Inr frames, r) \<Rightarrow> upd_session i (\<lambda>s. s\<lparr>ss_reader := r, ss_phase := Handling frames\<rparr>) sv1))"

text \<open>\<open>heartbeat_frame(frame.request_id)\<close> before it is encoded: its metadata is the empty object.\<close>

definition heartbeat_out :: "int \<Rightarrow> out_frame" where
  "heartbeat_out rid = \<lparr>of_type = FRAME_HEARTBEAT, of_request = rid, of_meta = [], of_payload = []\<rparr>"

definition on_frame :: "(bytes \<Rightarrow> json option) \<Rightarrow> outside \<Rightarrow> string \<Rightarrow> frame \<Rightarrow> frame list \<Rightarrow> session \<Rightarrow> server \<Rightarrow> server" where
  "on_frame loads ou i f rest s sv =
     (if fr_type f = FRAME_HEARTBEAT
      then set_phase i (Handling rest) (snd (own_try_send i (heartbeat_out (fr_request f)) sv))
      else if fr_type f \<noteq> FRAME_COMMAND then set_phase i (Handling rest) sv
      else
        (case parse_metadata loads f of
           Inl exc \<Rightarrow> set_phase i (Last_words (exc_reply (fr_request f) exc)) sv
         | Inr meta \<Rightarrow>
             (case handle ou (fr_request f) meta (fr_payload f) (ss_ctx s, sv_broker sv) of
                (reply, cx, b) \<Rightarrow>
                  (case own_try_send i reply (upd_session i (\<lambda>s. s\<lparr>ss_ctx := cx\<rparr>) (set_broker b sv)) of
                     (False, sv1) \<Rightarrow> set_phase i (Last_words slow_event) sv1
                   | (True, sv1) \<Rightarrow>
                       if cx_must_close cx then set_phase i Leaving sv1
                       else set_phase i (Waiting (length (journal (br_engine b))) rest) sv1))))"

text \<open>\<open>wait_durable\<close> returns at once unless every entry is synced; then the slow subscribers of the last
  publication are dropped.\<close>

definition may_go_on :: "nat \<Rightarrow> server \<Rightarrow> bool" where
  "may_go_on n sv \<longleftrightarrow> \<not> sv_sync sv \<or> n \<le> sv_durable sv"

definition after_wait :: "string \<Rightarrow> frame list \<Rightarrow> server \<Rightarrow> server" where
  "after_wait i rest sv =
     (let slow = br_last_slow (sv_broker sv);
          sv1 = set_broker ((sv_broker sv)\<lparr>br_last_slow := []\<rparr>) sv
      in set_phase i (Handling rest) (fold disconnect_slow slow sv1))"

text \<open>\<open>await conn.send(data)\<close>: nothing when the connection is closed, else it waits for room.\<close>

definition may_speak :: "string \<Rightarrow> server \<Rightarrow> bool" where
  "may_speak i sv \<longleftrightarrow> (case own_conn i sv of None \<Rightarrow> True | Some c \<Rightarrow> cn_closed c \<or> \<not> outbound_full c)"

definition speak :: "string \<Rightarrow> out_frame \<Rightarrow> server \<Rightarrow> server" where
  "speak i f sv = set_phase i Leaving (snd (own_try_send i f sv))"

definition leave :: "(string set \<Rightarrow> string list) \<Rightarrow> (string set \<Rightarrow> string list) \<Rightarrow> string \<Rightarrow> server \<Rightarrow> server" where
  "leave order order' i sv =
     (case drop_connection order order' i sv of
        (raised, sv1) \<Rightarrow> set_phase i (if raised then Crashed else Gone) sv1)"

section \<open>Writer, ticker, stop\<close>

text \<open>One round of \<open>_write_loop\<close>; the length of the encoded frame is counted.\<close>

definition write_one :: "(dict \<Rightarrow> bytes) \<Rightarrow> string \<Rightarrow> server \<Rightarrow> server" where
  "write_one dumps i sv =
     (case own_conn i sv of
        None \<Rightarrow> sv
      | Some c \<Rightarrow>
          (case cn_outbound c of
             [] \<Rightarrow> sv
           | None # fs \<Rightarrow> put_conn i (c\<lparr>cn_outbound := fs\<rparr>) sv
           | Some f # fs \<Rightarrow>
               (let n = (case encode_out dumps f of Inl err \<Rightarrow> 0 | Inr bs \<Rightarrow> length bs);
                    sv1 = put_conn i (c\<lparr>cn_outbound := fs\<rparr>) sv;
                    b = sv_broker sv1
                in (set_broker (b\<lparr>br_metrics := add_sent n (br_metrics b)\<rparr>) sv1)
                     \<lparr>sv_wire := sv_wire sv @ [(i, f)]\<rparr>)))"

definition ticker_round :: "server \<Rightarrow> server" where
  "ticker_round sv =
     (if \<not> sv_delivering sv then sv
      else
        (let b = snd (with_engine (tick None) (sv_broker sv))
         in set_broker (pump_all (list_queues (br_engine b)) b) sv))"

definition stop_begin :: "server \<Rightarrow> server" where
  "stop_begin sv =
     (let b = sv_broker sv in
      (set_broker (b\<lparr>br_net := map (\<lambda>(i, c). (i, c\<lparr>cn_closed := True\<rparr>)) (br_net b)\<rparr>) sv)
        \<lparr>sv_accepting := False, sv_delivering := False, sv_ready := False, sv_halted := True\<rparr>)"

text \<open>The connections that are left are closed already, so \<open>close\<close> returns at once.\<close>

definition stop_end :: "server \<Rightarrow> server" where
  "stop_end sv =
     (let b = sv_broker sv;
          sv1 = fold (\<lambda>(i, c). upd_session i (\<lambda>s. s\<lparr>ss_conn := Some (close_conn c)\<rparr>)) (br_net b) sv
      in set_broker (b\<lparr>br_net := []\<rparr>) sv1)"

section \<open>Steps\<close>

definition orders :: "(string set \<Rightarrow> string list) \<Rightarrow> bool" where
  "orders order \<longleftrightarrow> (\<forall>S. finite S \<longrightarrow> set (order S) = S)"

inductive server_step :: "(bytes \<Rightarrow> json option) \<Rightarrow> (dict \<Rightarrow> bytes) \<Rightarrow> server \<Rightarrow> server \<Rightarrow> bool"
  for loads :: "bytes \<Rightarrow> json option" and dumps :: "dict \<Rightarrow> bytes" where
  start_up: "server_step loads dumps sv (start_server sv)"
| connect: "map_of (sv_sessions sv) i = None \<Longrightarrow> map_of (br_net (sv_broker sv)) i = None \<Longrightarrow>
    server_step loads dumps sv (on_connection i sv)"
| at_top: "phase_of i sv = Some At_top \<Longrightarrow> server_step loads dumps sv (loop_top i sv)"
| data: "map_of (sv_sessions sv) i = Some s \<Longrightarrow> ss_phase s = Reading \<Longrightarrow>
    server_step loads dumps sv (on_data i bs s sv)"
| idle: "phase_of i sv = Some Reading \<Longrightarrow> server_step loads dumps sv (set_phase i Leaving sv)"
| frame: "map_of (sv_sessions sv) i = Some s \<Longrightarrow> ss_phase s = Handling (f # rest) \<Longrightarrow>
    server_step loads dumps sv (on_frame loads ou i f rest s sv)"
| chunk_done: "phase_of i sv = Some (Handling []) \<Longrightarrow> server_step loads dumps sv (set_phase i At_top sv)"
| durable: "phase_of i sv = Some (Waiting n rest) \<Longrightarrow> may_go_on n sv \<Longrightarrow>
    server_step loads dumps sv (after_wait i rest sv)"
| last_words: "phase_of i sv = Some (Last_words f) \<Longrightarrow> may_speak i sv \<Longrightarrow>
    server_step loads dumps sv (speak i f sv)"
| leaving: "phase_of i sv = Some Leaving \<Longrightarrow> orders order \<Longrightarrow> orders order' \<Longrightarrow>
    server_step loads dumps sv (leave order order' i sv)"
| drop_task: "i \<in> set (sv_drops sv) \<Longrightarrow> orders order \<Longrightarrow> orders order' \<Longrightarrow>
    server_step loads dumps sv ((snd (drop_connection order order' i sv))\<lparr>sv_drops := remove1 i (sv_drops sv)\<rparr>)"
| writing: "server_step loads dumps sv (write_one dumps i sv)"
| ticking: "server_step loads dumps sv (ticker_round sv)"
| synced: "sv_durable sv \<le> n \<Longrightarrow> n \<le> length (journal (br_engine (sv_broker sv))) \<Longrightarrow>
    server_step loads dumps sv (sv\<lparr>sv_durable := n\<rparr>)"
| stopping: "server_step loads dumps sv (stop_begin sv)"
| stopped: "sv_halted sv \<Longrightarrow> server_step loads dumps sv (stop_end sv)"

inductive fresh_server :: "server \<Rightarrow> bool" where
  "broker_inv b \<Longrightarrow> br_net b = [] \<Longrightarrow> mt_connections (br_metrics b) = 0 \<Longrightarrow>
   fresh_server (new_server b max_connections max_frame outbound sync)"

section \<open>The invariant\<close>

definition conns_ok :: "server \<Rightarrow> bool" where
  "conns_ok sv \<longleftrightarrow>
     length (br_net (sv_broker sv)) \<le> mt_connections (br_metrics (sv_broker sv)) \<and>
     int (mt_connections (br_metrics (sv_broker sv))) \<le> max 0 (sv_max_connections sv) \<and>
     (\<forall>i \<in> dkeys (br_net (sv_broker sv)). \<exists>p. phase_of i sv = Some p \<and> p \<noteq> Gone \<and> p \<noteq> Crashed)"

definition server_ok :: "server \<Rightarrow> bool" where
  "server_ok sv \<longleftrightarrow> broker_inv (sv_broker sv) \<and> conns_ok sv"

text \<open>How many connections there are, which ones, and how many are counted.\<close>

definition census :: "broker \<Rightarrow> nat \<times> string list" where
  "census b = (mt_connections (br_metrics b), map fst (br_net b))"

lemma census_shell: "shell b' = shell b \<Longrightarrow> census b' = census b"
  by (simp add: census_def shell_def)

lemma conns_ok_cong:
  assumes "census (sv_broker sv') = census (sv_broker sv)" "sv_max_connections sv' = sv_max_connections sv"
    "\<And>i. i \<in> dkeys (br_net (sv_broker sv)) \<Longrightarrow> phase_of i sv \<notin> {None, Some Gone, Some Crashed} \<Longrightarrow>
       phase_of i sv' \<notin> {None, Some Gone, Some Crashed}"
    "conns_ok sv"
  shows "conns_ok sv'"
proof -
  have n: "map fst (br_net (sv_broker sv')) = map fst (br_net (sv_broker sv))"
    "mt_connections (br_metrics (sv_broker sv')) = mt_connections (br_metrics (sv_broker sv))"
    using assms(1) by (simp_all add: census_def)
  then have "length (br_net (sv_broker sv')) = length (br_net (sv_broker sv))" by (metis length_map)
  moreover have "dkeys (br_net (sv_broker sv')) = dkeys (br_net (sv_broker sv))" using n(1) by (metis set_map)
  moreover have "\<exists>p. phase_of i sv' = Some p \<and> p \<noteq> Gone \<and> p \<noteq> Crashed" if "i \<in> dkeys (br_net (sv_broker sv))" for i
  proof -
    have "phase_of i sv \<notin> {None, Some Gone, Some Crashed}" using assms(4) that by (auto simp: conns_ok_def simp del: image_iff)
    then have "phase_of i sv' \<notin> {None, Some Gone, Some Crashed}" by (rule assms(3) [OF that])
    then show ?thesis by (cases "phase_of i sv'") auto
  qed
  ultimately show ?thesis using assms(2,4) n(2) unfolding conns_ok_def by metis
qed

lemma set_broker_simps [simp]:
  "sv_broker (set_broker b sv) = b" "sv_sessions (set_broker b sv) = sv_sessions sv"
  "sv_max_connections (set_broker b sv) = sv_max_connections sv" "phase_of i (set_broker b sv) = phase_of i sv"
  by (simp_all add: set_broker_def phase_of_def)

lemma upd_session_simps [simp]:
  "sv_broker (upd_session i f sv) = sv_broker sv"
  "sv_max_connections (upd_session i f sv) = sv_max_connections sv"
  "map_of (sv_sessions (upd_session i f sv)) j =
     (if j = i then map_option f (map_of (sv_sessions sv) i) else map_of (sv_sessions sv) j)"
  by (auto simp: upd_session_def split: option.split)

lemma phase_upd_session [simp]:
  "phase_of j (upd_session i f sv) =
     (if j = i then map_option (\<lambda>s. ss_phase (f s)) (map_of (sv_sessions sv) i) else phase_of j sv)"
  by (simp add: phase_of_def option.map_comp comp_def)

lemma server_ok_set_broker:
  "server_ok sv \<Longrightarrow> broker_inv b \<Longrightarrow> census b = census (sv_broker sv) \<Longrightarrow> server_ok (set_broker b sv)"
  unfolding server_ok_def by (auto intro: conns_ok_cong)

lemma server_ok_upd_session:
  assumes "server_ok sv" "i \<notin> dkeys (br_net (sv_broker sv)) \<or> (\<forall>s. ss_phase (f s) \<notin> {Gone, Crashed} \<or> ss_phase (f s) = ss_phase s)"
  shows "server_ok (upd_session i f sv)"
  unfolding server_ok_def
proof
  show "broker_inv (sv_broker (upd_session i f sv))" using assms(1) by (simp add: server_ok_def)
  show "conns_ok (upd_session i f sv)"
  proof (rule conns_ok_cong)
    show "conns_ok sv" using assms(1) by (simp add: server_ok_def)
    fix j assume j: "j \<in> dkeys (br_net (sv_broker sv))" "phase_of j sv \<notin> {None, Some Gone, Some Crashed}"
    then show "phase_of j (upd_session i f sv) \<notin> {None, Some Gone, Some Crashed}"
      using assms(2) by (cases "map_of (sv_sessions sv) i") (auto simp: phase_of_def)
  qed simp_all
qed

lemma server_ok_set_phase:
  "server_ok sv \<Longrightarrow> p \<noteq> Gone \<Longrightarrow> p \<noteq> Crashed \<Longrightarrow> server_ok (set_phase i p sv)"
  unfolding set_phase_def by (rule server_ok_upd_session) simp_all

lemma set_phase_simps [simp]:
  "sv_broker (set_phase i p sv) = sv_broker sv" "sv_max_connections (set_phase i p sv) = sv_max_connections sv"
  by (simp_all add: set_phase_def)

lemma server_ok_parts:
  assumes "server_ok sv"
  shows "broker_inv (sv_broker sv)" "conns_ok sv" "net_ok (br_net (sv_broker sv))"
  using assms broker_inv_parts by (auto simp: server_ok_def)

lemma census_dset: "map_of (br_net b) i \<noteq> None \<Longrightarrow> census (b\<lparr>br_net := dset i c (br_net b)\<rparr>) = census b"
  by (auto simp: census_def map_fst_dset map_of_eq_None_iff)

lemma own_conn_ok:
  assumes "server_ok sv" "own_conn i sv = Some c" "map_of (br_net (sv_broker sv)) i \<noteq> None"
  shows "cn_id c = i \<and> within_limit c"
  using assms server_ok_parts(3) [OF assms(1)] by (auto simp: own_conn_def net_ok_def)

lemma server_ok_put_conn:
  assumes "server_ok sv" "map_of (br_net (sv_broker sv)) i \<noteq> None \<longrightarrow> cn_id c = i \<and> within_limit c"
  shows "server_ok (put_conn i c sv)"
proof (cases "map_of (br_net (sv_broker sv)) i")
  case None
  then show ?thesis using assms(1) by (simp add: put_conn_def server_ok_upd_session)
next
  case (Some c0)
  have "broker_inv ((sv_broker sv)\<lparr>br_net := dset i c (br_net (sv_broker sv))\<rparr>)"
    using Some assms server_ok_parts [OF assms(1)] by (simp add: broker_inv_update net_ok_dset)
  then show ?thesis using Some assms(1) by (simp add: put_conn_def server_ok_set_broker census_dset)
qed

lemma server_ok_own_try_send:
  assumes "server_ok sv"
  shows "server_ok (snd (own_try_send i f sv))"
proof (cases "own_conn i sv")
  case None
  then show ?thesis using assms by (simp add: own_try_send_def)
next
  case (Some c)
  have "server_ok (put_conn i (snd (try_send f c)) sv)"
    using assms own_conn_ok [OF assms Some] by (intro server_ok_put_conn) (auto simp: try_send_frame within_limit_try_send)
  then show ?thesis using Some by (simp add: own_try_send_def case_prod_beta)
qed

lemma close_conn_frame: "cn_id (close_conn c) = cn_id c" "cn_limit (close_conn c) = cn_limit c"
  by (simp_all add: close_conn_def Let_def)

lemma within_limit_close: "within_limit c \<Longrightarrow> within_limit (close_conn c)"
  by (auto simp: within_limit_def close_conn_def Let_def outbound_full_def)

lemma server_ok_flags [simp]:
  "server_ok (sv\<lparr>sv_drops := ds\<rparr>) = server_ok sv" "server_ok (sv\<lparr>sv_durable := n\<rparr>) = server_ok sv"
  "server_ok (sv\<lparr>sv_wire := w\<rparr>) = server_ok sv" "server_ok (sv\<lparr>sv_accepting := f\<rparr>) = server_ok sv"
  "server_ok (sv\<lparr>sv_ready := f\<rparr>) = server_ok sv" "server_ok (sv\<lparr>sv_delivering := f\<rparr>) = server_ok sv"
  "server_ok (sv\<lparr>sv_halted := f\<rparr>) = server_ok sv"
  by (simp_all add: server_ok_def conns_ok_def phase_of_def)

lemma server_ok_start: "server_ok sv \<Longrightarrow> server_ok (start_server sv)"
  by (simp add: start_server_def)

lemma server_ok_on_connection:
  assumes "server_ok sv" "map_of (br_net (sv_broker sv)) i = None"
  shows "server_ok (on_connection i sv)"
proof (cases "sv_accepting sv \<and> sv_ready sv \<and> int (mt_connections (br_metrics (sv_broker sv))) < sv_max_connections sv")
  case False
  then show ?thesis using assms by (auto simp: on_connection_def Let_def)
next
  case True
  let ?b = "sv_broker sv" and ?c = "new_connection i (sv_outbound sv)"
  let ?sv = "on_connection i sv"
  have new: "i \<notin> dkeys (br_net ?b)" using assms(2) by (simp add: map_of_eq_None_iff)
  have b: "sv_broker ?sv = ?b\<lparr>br_net := dset i ?c (br_net ?b), br_metrics := on_connect (br_metrics ?b)\<rparr>"
    and ph: "phase_of j ?sv = (if j = i then Some At_top else phase_of j sv)"
    and mx: "sv_max_connections ?sv = sv_max_connections sv" for j
    using True by (simp_all add: on_connection_def Let_def phase_of_def)
  have "net_ok (dset i ?c (br_net ?b))"
    using server_ok_parts(3) [OF assms(1)] by (rule net_ok_dset) (simp_all add: new_connection_def within_limit_def)
  then have "broker_inv (sv_broker ?sv)" unfolding b using server_ok_parts(1) [OF assms(1)] by (simp add: broker_inv_def)
  moreover have "conns_ok ?sv"
    using server_ok_parts(2) [OF assms(1)] True new unfolding conns_ok_def b ph mx
    by (auto simp: on_connect_def length_dset simp del: image_iff)
  ultimately show ?thesis by (simp add: server_ok_def)
qed

lemma server_ok_loop_top: "server_ok sv \<Longrightarrow> server_ok (loop_top i sv)"
  by (simp add: loop_top_def server_ok_set_phase)

lemma broker_inv_metrics: "broker_inv b \<Longrightarrow> broker_inv (b\<lparr>br_metrics := mt\<rparr>)"
  "broker_inv b \<Longrightarrow> broker_inv (b\<lparr>br_last_slow := sl\<rparr>)"
  by (simp_all add: broker_inv_def)

lemma server_ok_on_data:
  assumes "server_ok sv"
  shows "server_ok (on_data i bs s sv)"
proof -
  let ?b = "sv_broker sv"
  have "server_ok (set_broker (?b\<lparr>br_metrics := add_received (length bs) (br_metrics ?b)\<rparr>) sv)"
    using assms server_ok_parts(1) [OF assms]
    by (intro server_ok_set_broker broker_inv_metrics) (simp_all add: census_def add_received_def)
  then show ?thesis
    using assms by (auto simp: on_data_def Let_def server_ok_set_phase server_ok_upd_session split: sum.split prod.split)
qed

lemma server_ok_on_frame:
  assumes "server_ok sv"
  shows "server_ok (on_frame loads ou i f rest s sv)"
proof -
  have h: "server_ok (set_broker (snd (snd (handle ou rid meta pl (ss_ctx s, sv_broker sv)))) sv)" for rid meta pl
    using assms by (intro server_ok_set_broker census_shell shell_handle inv_handle server_ok_parts)
  have "server_ok (snd (own_try_send i reply (upd_session i (\<lambda>s. s\<lparr>ss_ctx := cx\<rparr>)
      (set_broker (snd (snd (handle ou rid meta pl (ss_ctx s, sv_broker sv)))) sv))))" for reply cx rid meta pl
    by (intro server_ok_own_try_send server_ok_upd_session h) simp
  then show ?thesis
    using assms by (simp add: on_frame_def case_prod_beta server_ok_set_phase server_ok_own_try_send split: sum.split bool.split)
qed

lemma server_ok_disconnect_slow:
  assumes "server_ok sv"
  shows "server_ok (disconnect_slow i sv)"
proof (cases "map_of (br_net (sv_broker sv)) i")
  case None
  then show ?thesis using assms by (simp add: disconnect_slow_def)
next
  case (Some c)
  have "server_ok (put_conn i (snd (try_send slow_event c)) sv)"
    using Some own_conn_ok [OF assms, of i c]
    by (intro server_ok_put_conn [OF assms]) (auto simp: own_conn_def try_send_frame within_limit_try_send)
  then show ?thesis using Some by (simp add: disconnect_slow_def)
qed

lemma server_ok_after_wait:
  assumes "server_ok sv"
  shows "server_ok (after_wait i rest sv)"
proof -
  have f: "server_ok sv \<Longrightarrow> server_ok (fold disconnect_slow xs sv)" for xs sv
    by (induction xs arbitrary: sv) (simp_all add: server_ok_disconnect_slow)
  have "server_ok (set_broker ((sv_broker sv)\<lparr>br_last_slow := []\<rparr>) sv)"
    using assms server_ok_parts(1) [OF assms]
    by (intro server_ok_set_broker broker_inv_metrics) (simp_all add: census_def)
  then show ?thesis by (simp add: after_wait_def Let_def f server_ok_set_phase)
qed

section \<open>Dropping a connection\<close>

lemma cancel_each_parts:
  "manager_ok (fst s) \<Longrightarrow> engine_inv (snd s) \<Longrightarrow>
   manager_ok (fst (snd (cancel_each cs n s))) \<and> engine_inv (snd (snd (cancel_each cs n s)))"
proof (induction cs arbitrary: n s)
  case (Cons c cs)
  obtain cm e where s: "s = (cm, e)" by fastforce
  obtain x s1 where r: "cancel_consumer c True s = (x, s1)" by (cases "cancel_consumer c True s") blast
  have s1: "manager_ok (fst s1)" "engine_inv (snd s1)"
    using cancel_consumer_parts [of cm e c True] Cons.prems r s by simp_all
  show ?case using Cons.IH [OF s1] s1 r by (cases x) simp_all
qed simp

lemma inv_disconnect_connection: "broker_inv b \<Longrightarrow> broker_inv (snd (with_consumers (disconnect_connection order i) b))"
  by (rule inv_with_consumers) (simp_all add: disconnect_connection_def cancel_each_parts)

lemma inv_disconnect_pubsub: "broker_inv b \<Longrightarrow> orders order \<Longrightarrow> broker_inv (b\<lparr>br_pubsub := disconnect order i (br_pubsub b)\<rparr>)"
proof -
  assume b: "broker_inv b" and o: "orders order"
  have ok: "pubsub_ok (br_pubsub b)" using b by (rule broker_inv_parts)
  then have "finite (get_default {} i (chans_of (br_pubsub b)))" by (simp add: pubsub_ok_def)
  then have "set (order (get_default {} i (chans_of (br_pubsub b)))) = get_default {} i (chans_of (br_pubsub b))"
    using o by (simp add: orders_def)
  then show ?thesis using b disconnect_effect(1) [OF ok] by (simp add: broker_inv_update)
qed

text \<open>The broker without the connection, as \<open>_drop\<close> leaves it before the counter is updated.\<close>

definition without_connection :: "(string set \<Rightarrow> string list) \<Rightarrow> (string set \<Rightarrow> string list) \<Rightarrow> string \<Rightarrow> broker \<Rightarrow> (py_error + nat) \<times> broker" where
  "without_connection order order' i b =
     with_consumers (disconnect_connection order' i)
       (b\<lparr>br_net := ddel i (br_net b), br_pubsub := disconnect order i (br_pubsub b)\<rparr>)"

lemma without_connection_ok:
  assumes "broker_inv b" "orders order"
  shows "broker_inv (snd (without_connection order order' i b))"
    "br_net (snd (without_connection order order' i b)) = ddel i (br_net b)"
    "br_metrics (snd (without_connection order order' i b)) = br_metrics b"
proof -
  let ?b = "b\<lparr>br_net := ddel i (br_net b)\<rparr>"
  have "net_ok (ddel i (br_net b))" using broker_inv_parts(5) [OF assms(1)] by (auto simp: net_ok_def)
  then have "broker_inv ?b" by (rule broker_inv_update(6) [OF assms(1)])
  from inv_disconnect_pubsub [OF this assms(2), of i] show "broker_inv (snd (without_connection order order' i b))"
    unfolding without_connection_def by (intro inv_disconnect_connection) simp
qed (simp_all add: without_connection_def with_consumers_def case_prod_beta)

lemma length_ddel: "dict_ok d \<Longrightarrow> map_of d k = Some v \<Longrightarrow> length d = Suc (length (ddel k d))"
proof (induction d)
  case (Cons x d)
  show ?case
  proof (cases "fst x = k")
    case True
    then have "k \<notin> dkeys d" using Cons.prems(1) by (auto simp: dict_ok_def)
    then have "ddel k d = d" by (rule delete_id)
    then show ?thesis using True by (cases x) simp
  next
    case False
    then show ?thesis using Cons by (cases x) (auto simp: dict_ok_def)
  qed
qed simp

lemma server_ok_without:
  assumes "server_ok sv" "orders order" "map_of (br_net (sv_broker sv)) i = Some c"
    "b2 = snd (without_connection order order' i (sv_broker sv))" "mt = br_metrics b2 \<or> mt = on_disconnect (br_metrics b2)"
  shows "server_ok (set_broker (b2\<lparr>br_metrics := mt\<rparr>) sv)" "map_of (br_net b2) i = None"
proof -
  let ?b = "sv_broker sv"
  have d: "dict_ok (br_net ?b)" using server_ok_parts(3) [OF assms(1)] by (simp add: net_ok_def)
  note w = without_connection_ok [OF server_ok_parts(1) [OF assms(1)] assms(2), of order' i, folded assms(4)]
  show "map_of (br_net b2) i = None" using w(2) by simp
  have l: "length (br_net ?b) = Suc (length (br_net b2))" using length_ddel [OF d assms(3)] w(2) by simp
  have k: "dkeys (br_net b2) \<subseteq> dkeys (br_net ?b)" using w(2) by auto
  have c: "length (br_net ?b) \<le> mt_connections (br_metrics ?b)"
    "int (mt_connections (br_metrics ?b)) \<le> max 0 (sv_max_connections sv)"
    "\<And>j. j \<in> dkeys (br_net ?b) \<Longrightarrow> \<exists>p. phase_of j sv = Some p \<and> p \<noteq> Gone \<and> p \<noteq> Crashed"
    using server_ok_parts(2) [OF assms(1)] unfolding conns_ok_def by blast+
  have m: "mt_connections mt = mt_connections (br_metrics ?b) \<or> mt_connections mt = mt_connections (br_metrics ?b) - 1"
    using assms(5) w(3) by (auto simp: on_disconnect_def)
  have "conns_ok (set_broker (b2\<lparr>br_metrics := mt\<rparr>) sv)"
    unfolding conns_ok_def set_broker_simps
  proof (intro conjI ballI)
    show "length (br_net (b2\<lparr>br_metrics := mt\<rparr>)) \<le> mt_connections (br_metrics (b2\<lparr>br_metrics := mt\<rparr>))"
      using l c(1) m by auto
    show "int (mt_connections (br_metrics (b2\<lparr>br_metrics := mt\<rparr>))) \<le> max 0 (sv_max_connections sv)"
      using c(2) m by auto
    fix j assume "j \<in> dkeys (br_net (b2\<lparr>br_metrics := mt\<rparr>))"
    then have "j \<in> dkeys (br_net (sv_broker sv))" using k by auto
    then show "\<exists>p. phase_of j sv = Some p \<and> p \<noteq> Gone \<and> p \<noteq> Crashed" by (rule c(3))
  qed
  then show "server_ok (set_broker (b2\<lparr>br_metrics := mt\<rparr>) sv)"
    using w(1) by (simp add: server_ok_def broker_inv_metrics)
qed

lemma drop_connection_cases:
  assumes "server_ok sv" "orders order"
  shows "server_ok (snd (drop_connection order order' i sv))"
    "map_of (br_net (sv_broker (snd (drop_connection order order' i sv)))) i = None"
proof -
  have "server_ok (snd (drop_connection order order' i sv)) \<and>
    map_of (br_net (sv_broker (snd (drop_connection order order' i sv)))) i = None"
  proof (cases "map_of (br_net (sv_broker sv)) i")
    case None
    have "server_ok (put_conn i c sv)" for c by (rule server_ok_put_conn [OF assms(1)]) (simp add: None)
    moreover have "map_of (br_net (sv_broker (put_conn i c sv))) i = None" for c using None by (simp add: put_conn_def)
    ultimately show ?thesis using None assms(1) by (auto simp: drop_connection_def Let_def split: option.split)
  next
    case (Some c)
    obtain x b2 where w: "without_connection order order' i (sv_broker sv) = (x, b2)" by fastforce
    have put: "server_ok (put_conn i c' (set_broker (b2\<lparr>br_metrics := mt\<rparr>) sv)) \<and>
        map_of (br_net (sv_broker (put_conn i c' (set_broker (b2\<lparr>br_metrics := mt\<rparr>) sv)))) i = None"
      if "mt = br_metrics b2 \<or> mt = on_disconnect (br_metrics b2)" for mt c'
    proof -
      have ok: "server_ok (set_broker (b2\<lparr>br_metrics := mt\<rparr>) sv)" "map_of (br_net b2) i = None"
        using server_ok_without [OF assms Some, of b2 order' mt] w that by simp_all
      have "server_ok (put_conn i c' (set_broker (b2\<lparr>br_metrics := mt\<rparr>) sv))"
        by (rule server_ok_put_conn [OF ok(1)]) (simp add: ok(2))
      then show ?thesis using ok(2) by (simp add: put_conn_def)
    qed
    from put [of "br_metrics b2" c] put [of "on_disconnect (br_metrics b2)" "close_conn c"] show ?thesis
      using Some w by (cases x) (simp_all add: drop_connection_def without_connection_def Let_def)
  qed
  then show "server_ok (snd (drop_connection order order' i sv))"
    "map_of (br_net (sv_broker (snd (drop_connection order order' i sv)))) i = None" by simp_all
qed

lemma server_ok_leave:
  assumes "server_ok sv" "orders order"
  shows "server_ok (leave order order' i sv)"
proof -
  note d = drop_connection_cases [OF assms, of order' i]
  have "i \<notin> dkeys (br_net (sv_broker (snd (drop_connection order order' i sv))))"
    using d(2) by (simp add: map_of_eq_None_iff)
  then have "server_ok (set_phase i p (snd (drop_connection order order' i sv)))" for p
    unfolding set_phase_def by (intro server_ok_upd_session d(1)) simp
  then show ?thesis by (simp add: leave_def case_prod_beta)
qed

section \<open>Writer, ticker and stop keep the invariant\<close>

lemma server_ok_write_one:
  assumes "server_ok sv"
  shows "server_ok (write_one dumps i sv)"
proof (cases "own_conn i sv")
  case (Some c)
  have w: "server_ok (put_conn i (c\<lparr>cn_outbound := fs\<rparr>) sv)" if "cn_outbound c = x # fs" for x fs
    using own_conn_ok [OF assms Some] that
    by (intro server_ok_put_conn [OF assms]) (auto simp: within_limit_def)
  have m: "server_ok ((set_broker ((sv_broker sv1)\<lparr>br_metrics := add_sent n (br_metrics (sv_broker sv1))\<rparr>) sv1)\<lparr>sv_wire := l\<rparr>)"
    if "server_ok sv1" for sv1 n l
    using that server_ok_parts(1) [OF that]
    by (simp add: server_ok_set_broker broker_inv_metrics census_def add_sent_def)
  show ?thesis
  proof (cases "cn_outbound c")
    case (Cons x fs)
    then show ?thesis using Some w [OF Cons] m [OF w [OF Cons]]
      by (cases x) (simp_all add: write_one_def Let_def)
  qed (use assms Some in \<open>simp add: write_one_def\<close>)
qed (use assms in \<open>simp add: write_one_def\<close>)

lemma server_ok_ticker:
  assumes "server_ok sv"
  shows "server_ok (ticker_round sv)"
proof -
  let ?b = "snd (with_engine (tick None) (sv_broker sv))"
  have "broker_inv ?b" using server_ok_parts(1) [OF assms] by (rule inv_with_engine) (rule einv_tick)
  then have "server_ok (set_broker (pump_all qns ?b) sv)" for qns
    using assms by (intro server_ok_set_broker inv_pump_all census_shell) simp_all
  then show ?thesis using assms by (simp add: ticker_round_def Let_def)
qed

lemma server_ok_stop_begin:
  assumes "server_ok sv"
  shows "server_ok (stop_begin sv)"
proof -
  let ?b = "sv_broker sv"
  let ?net = "map (\<lambda>(i, c). (i, c\<lparr>cn_closed := True\<rparr>)) (br_net ?b)"
  have "net_ok ?net"
    using server_ok_parts(3) [OF assms] unfolding net_ok_def map_values
    by (auto simp: within_limit_def)
  then have "server_ok (set_broker (?b\<lparr>br_net := ?net\<rparr>) sv)"
    using assms server_ok_parts(1) [OF assms]
    by (intro server_ok_set_broker) (auto simp: broker_inv_update census_def case_prod_beta)
  then show ?thesis by (simp add: stop_begin_def Let_def)
qed

lemma server_ok_stop_end:
  assumes "server_ok sv"
  shows "server_ok (stop_end sv)"
proof -
  have f: "server_ok sv \<Longrightarrow> server_ok (fold (\<lambda>(i, c). upd_session i (\<lambda>s. s\<lparr>ss_conn := Some (close_conn c)\<rparr>)) xs sv) \<and>
      sv_broker (fold (\<lambda>(i, c). upd_session i (\<lambda>s. s\<lparr>ss_conn := Some (close_conn c)\<rparr>)) xs sv) = sv_broker sv" for xs sv
    by (induction xs arbitrary: sv) (auto simp: server_ok_upd_session)
  have "server_ok (set_broker (b\<lparr>br_net := []\<rparr>) sv1)" if "server_ok sv1" "sv_broker sv1 = b" for sv1 b
    using that server_ok_parts(1,2) [OF that(1)] unfolding server_ok_def conns_ok_def
    by (auto simp: broker_inv_def net_ok_def dict_ok_def)
  from this f [OF assms, of "br_net (sv_broker sv)"] show ?thesis
    unfolding stop_end_def Let_def by blast
qed

section \<open>Reachable servers\<close>

lemma server_ok_step: "server_step loads dumps sv sv' \<Longrightarrow> server_ok sv \<Longrightarrow> server_ok sv'"
  by (induction rule: server_step.induct)
     (simp_all add: server_ok_start server_ok_on_connection server_ok_loop_top server_ok_on_data server_ok_on_frame
       server_ok_after_wait speak_def server_ok_own_try_send server_ok_leave drop_connection_cases
       server_ok_set_phase server_ok_write_one server_ok_ticker server_ok_stop_begin server_ok_stop_end)

lemma server_ok_fresh: "fresh_server sv \<Longrightarrow> server_ok sv"
  by (auto elim!: fresh_server.cases simp: server_ok_def conns_ok_def new_server_def)

interpretation server: step_invariant fresh_server "server_step loads dumps" server_ok
  by unfold_locales (auto intro: server_ok_fresh server_ok_step)

abbreviation reachable_server :: "(bytes \<Rightarrow> json option) \<Rightarrow> (dict \<Rightarrow> bytes) \<Rightarrow> server \<Rightarrow> bool" where
  "reachable_server loads dumps \<equiv> reach fresh_server (server_step loads dumps)"

section \<open>Properties\<close>

text \<open>C24. The server stays within its bounds, whatever the clients send and however the coroutines
  interleave: the state of every component is in order, at most \<open>max_connections\<close> connections are open,
  no outbound queue is longer than its limit, and every open connection has a read loop that has not
  ended.\<close>

theorem reachable_server_in_order:
  assumes "reachable_server loads dumps sv"
  shows "broker_inv (sv_broker sv) \<and>
    int (length (br_net (sv_broker sv))) \<le> max 0 (sv_max_connections sv) \<and>
    (\<forall>i c. map_of (br_net (sv_broker sv)) i = Some c \<longrightarrow>
       (cn_limit c \<le> 0 \<or> int (length (cn_outbound c)) \<le> cn_limit c) \<and>
       (\<exists>p. phase_of i sv = Some p \<and> p \<noteq> Gone \<and> p \<noteq> Crashed))"
proof -
  have ok: "server_ok sv" by (rule server.reach_safe [OF assms])
  note conns = server_ok_parts(2) [OF ok, unfolded conns_ok_def]
  show ?thesis
  proof (intro conjI allI impI)
    show "broker_inv (sv_broker sv)" by (rule server_ok_parts(1) [OF ok])
    show "int (length (br_net (sv_broker sv))) \<le> max 0 (sv_max_connections sv)" using conns by linarith
    fix i c assume i: "map_of (br_net (sv_broker sv)) i = Some c"
    then have "within_limit c" using server_ok_parts(3) [OF ok] by (auto simp: net_ok_def)
    then show "cn_limit c \<le> 0 \<or> int (length (cn_outbound c)) \<le> cn_limit c" by (auto simp: within_limit_def)
    have "i \<in> dkeys (br_net (sv_broker sv))" using i by (metis domI dom_map_of_conv_image_fst)
    then show "\<exists>p. phase_of i sv = Some p \<and> p \<noteq> Gone \<and> p \<noteq> Crashed" using conns by blast
  qed
qed

definition demo_server :: "bool \<Rightarrow> server" where
  "demo_server sync =
     on_connection ''x'' (start_server (new_server (demo_broker []) 1 16777216 1000 sync))"

lemma demo_server_reachable: "reachable_server loads dumps (demo_server sync)"
proof -
  let ?new = "new_server (demo_broker []) 1 16777216 1000 sync"
  have "broker_inv (demo_broker [])" by (rule demo_broker_inv) (simp add: net_ok_def dict_ok_def)
  then have "reachable_server loads dumps ?new"
    by (intro reach.start fresh_server.intros) (simp_all add: demo_broker_def new_metrics_def)
  then have "reachable_server loads dumps (start_server ?new)" by (rule reach.after) (rule start_up)
  then show ?thesis unfolding demo_server_def
    by (rule reach.after) (rule connect, simp_all add: start_server_def new_server_def demo_broker_def)
qed

lemma demo_server_broker:
  "br_net (sv_broker (demo_server sync)) = [(''x'', new_connection ''x'' 1000)]"
  "br_engine (sv_broker (demo_server sync)) = demo_ready"
  by (simp_all add: demo_server_def on_connection_def start_server_def new_server_def demo_broker_def new_metrics_def Let_def)

theorem reachable_server_in_order_witness:
  "length (br_net (sv_broker (demo_server True))) = 1 \<and>
   int (length (br_net (sv_broker (demo_server True)))) \<le> max 0 (sv_max_connections (demo_server True))"
  using reachable_server_in_order [OF demo_server_reachable [of "\<lambda>_. None" "\<lambda>_. []" True]]
  by (simp add: demo_server_broker)

text \<open>C25. After a connection is dropped it has no part in the broker any more: when the dead-letter queues are
  declared, \<open>_drop\<close> does not raise; afterwards nothing is sent to the connection, it has no subscription and no
  consumer, nothing is in flight for a consumer it had, one connection less is counted, and its connection
  object is closed. (Its entry in the table of channels by connection may stay, with no channel in it.)\<close>

theorem drop_forgets_connection:
  assumes "reachable_server loads dumps sv" "orders order" "orders order'"
    "dlqs_declared (br_engine (sv_broker sv))" "map_of (br_net (sv_broker sv)) i = Some c"
  shows "case drop_connection order order' i sv of (raised, sv') \<Rightarrow>
    \<not> raised \<and> map_of (br_net (sv_broker sv')) i = None \<and>
    (\<forall>ch. (ch, i) \<notin> subscriptions (br_pubsub (sv_broker sv'))) \<and>
    (\<forall>k con. map_of (consumers (br_consumers (sv_broker sv'))) k = Some con \<longrightarrow> con_connection con \<noteq> i) \<and>
    (\<forall>k con. map_of (consumers (br_consumers (sv_broker sv))) k = Some con \<and> con_connection con = i \<longrightarrow>
       \<not> records_of k (br_engine (sv_broker sv'))) \<and>
    Suc (mt_connections (br_metrics (sv_broker sv'))) = mt_connections (br_metrics (sv_broker sv)) \<and>
    (\<exists>c'. own_conn i sv' = Some c' \<and> cn_closed c')"
proof -
  let ?b = "sv_broker sv"
  have ok: "server_ok sv" by (rule server.reach_safe [OF assms(1)])
  note inv = broker_inv_parts [OF server_ok_parts(1) [OF ok]]
  note dr = drop_connection_cases [OF ok assms(2), of order' i]
  obtain n cm e where d: "disconnect_connection order' i (br_consumers ?b, br_engine ?b) = (Inr n, cm, e)"
    and gone: "\<forall>k con. map_of (consumers cm) k = Some con \<longrightarrow> con_connection con \<noteq> i \<and> map_of (consumers (br_consumers ?b)) k = Some con"
      "\<forall>k con. map_of (consumers (br_consumers ?b)) k = Some con \<and> con_connection con = i \<longrightarrow>
         map_of (consumers cm) k = None \<and> \<not> records_of k e"
    using disconnect_connection_clears [OF inv(3,1) assms(4) assms(3) [unfolded orders_def], of i]
    by (elim exE conjE)
  define b1 where "b1 = ?b\<lparr>br_net := ddel i (br_net ?b), br_pubsub := disconnect order i (br_pubsub ?b),
               br_consumers := cm, br_engine := e, br_metrics := on_disconnect (br_metrics ?b)\<rparr>"
  have b1: "map_of (br_net b1) i = None" "br_pubsub b1 = disconnect order i (br_pubsub ?b)" "br_consumers b1 = cm"
    "br_engine b1 = e" "br_metrics b1 = on_disconnect (br_metrics ?b)" by (simp_all add: b1_def)
  have drop: "drop_connection order order' i sv = (False, put_conn i (close_conn c) (set_broker b1 sv))"
    using assms(5) d by (simp add: drop_connection_def with_consumers_def Let_def b1_def)
  obtain s where sess: "map_of (sv_sessions sv) i = Some s"
    using ok assms(5) by (force simp: server_ok_def conns_ok_def phase_of_def dest: map_of_SomeD)
  have pos: "0 < mt_connections (br_metrics ?b)"
    using ok assms(5) by (cases "br_net ?b") (auto simp: server_ok_def conns_ok_def)
  have b: "sv_broker (put_conn i (close_conn c) (set_broker b1 sv)) = b1"
    "own_conn i (put_conn i (close_conn c) (set_broker b1 sv)) = Some (close_conn c)"
    using b1(1) sess by (simp_all add: put_conn_def own_conn_def)
  have "finite (get_default {} i (chans_of (br_pubsub ?b)))" using inv(4) by (simp add: pubsub_ok_def)
  then have subs: "subscriptions (br_pubsub b1) = {(ch, k) \<in> subscriptions (br_pubsub ?b). k \<noteq> i}"
    using disconnect_effect(2) [OF inv(4)] assms(2) by (simp add: orders_def b1)
  have cl: "cn_closed (close_conn c)" by (simp add: close_conn_def Let_def)
  have cnt: "Suc (mt_connections (br_metrics b1)) = mt_connections (br_metrics ?b)"
    using pos by (simp add: on_disconnect_def b1)
  show ?thesis
    unfolding drop prod.case b
  proof (intro conjI allI)
    show "map_of (br_net b1) i = None" by (rule b1(1))
    show "(ch, i) \<notin> subscriptions (br_pubsub b1)" for ch by (simp add: subs)
    show "map_of (consumers (br_consumers b1)) k = Some con \<longrightarrow> con_connection con \<noteq> i" for k con
      using gone(1) b1(3) by blast
    show "map_of (consumers (br_consumers ?b)) k = Some con \<and> con_connection con = i \<longrightarrow> \<not> records_of k (br_engine b1)" for k con
      using gone(2) b1(4) by blast
    show "Suc (mt_connections (br_metrics b1)) = mt_connections (br_metrics ?b)" by (rule cnt)
    show "\<exists>c'. Some (close_conn c) = Some c' \<and> cn_closed c'" using cl by simp
  qed simp
qed

theorem drop_forgets_connection_witness:
  "map_of (br_net (sv_broker (snd (drop_connection sorted_list_of_set sorted_list_of_set ''x'' (demo_server True))))) ''x'' = None \<and>
   mt_connections (br_metrics (sv_broker (snd (drop_connection sorted_list_of_set sorted_list_of_set ''x'' (demo_server True))))) = 0"
proof -
  have dl: "dlqs_declared (br_engine (sv_broker (demo_server True)))"
    unfolding demo_server_broker by (rule dlqs_declaredI) code_simp
  have o: "orders sorted_list_of_set" by (simp add: orders_def)
  have m: "mt_connections (br_metrics (sv_broker (demo_server True))) = 1"
    by (simp add: demo_server_def on_connection_def start_server_def new_server_def demo_broker_def new_metrics_def on_connect_def Let_def)
  show ?thesis
    using drop_forgets_connection [OF demo_server_reachable [of "\<lambda>_. None" "\<lambda>_. []"] o o dl, of "''x''"] m
    unfolding case_prod_beta by (simp add: demo_server_broker)
qed

section \<open>Two interleavings\<close>

text \<open>With \<open>fsync = always\<close> the reply to a command is put into the outbound queue before \<open>wait_durable\<close>,
  so the writer may send it while the command's journal entries are not yet on disk: only the next
  frame of the connection waits for them.\<close>

lemma reply_before_durable:
  assumes s: "map_of (sv_sessions sv) i = Some s" "ss_phase s = Handling (f # rest)" "fr_type f = FRAME_COMMAND"
    and c: "map_of (br_net b) i = Some c" "\<not> cn_closed c" "cn_outbound c = []"
    and h: "parse_metadata loads f = Inr meta"
      "handle ou (fr_request f) meta (fr_payload f) (ss_ctx s, sv_broker sv) = (reply, cx, b)" "\<not> cx_must_close cx"
    and d: "sv_sync sv" "sv_durable sv < length (journal (br_engine b))"
  shows "\<exists>sv1 sv2. server_step loads dumps sv sv1 \<and> server_step loads dumps sv1 sv2 \<and>
    sv_wire sv2 = sv_wire sv @ [(i, reply)] \<and>
    \<not> may_go_on (length (journal (br_engine (sv_broker sv2)))) sv2"
proof -
  let ?c = "c\<lparr>cn_outbound := [Some reply]\<rparr>"
  let ?sv0 = "upd_session i (\<lambda>s. s\<lparr>ss_ctx := cx\<rparr>) (set_broker b sv)"
  let ?sv1 = "set_phase i (Waiting (length (journal (br_engine b))) rest) (put_conn i ?c ?sv0)"
  have ty: "fr_type f \<noteq> FRAME_HEARTBEAT" using s(3) by (simp add: FRAME_COMMAND_def FRAME_HEARTBEAT_def)
  have "own_conn i ?sv0 = Some c" using c(1) by (simp add: own_conn_def)
  then have "own_try_send i reply ?sv0 = (True, put_conn i ?c ?sv0)"
    using c(2,3) by (simp add: own_try_send_def try_send_def outbound_full_def)
  then have one: "on_frame loads ou i f rest s sv = ?sv1"
    using ty s(3) h by (simp add: on_frame_def)
  have b1: "sv_broker ?sv1 = b\<lparr>br_net := dset i ?c (br_net b)\<rparr>" using c(1) by (simp add: put_conn_def)
  have frame: "sv_wire ?sv1 = sv_wire sv" "sv_durable ?sv1 = sv_durable sv" "sv_sync ?sv1 = sv_sync sv"
    using c(1) by (simp_all add: put_conn_def set_phase_def upd_session_def set_broker_def split: option.split)
  have own: "own_conn i ?sv1 = Some ?c" unfolding own_conn_def b1 by simp
  let ?sv2 = "write_one dumps i ?sv1"
  have "sv_wire ?sv2 = sv_wire sv @ [(i, reply)]"
    using own frame(1) by (simp add: write_one_def Let_def)
  moreover have "sv_durable ?sv2 = sv_durable sv" "sv_sync ?sv2 = sv_sync sv" "br_engine (sv_broker ?sv2) = br_engine b"
    using own b1 frame by (simp_all add: write_one_def Let_def put_conn_def set_broker_def)
  moreover have "server_step loads dumps sv ?sv1"
    using server_step.frame [OF s(1,2), of loads dumps ou] unfolding one .
  moreover have "server_step loads dumps ?sv1 ?sv2" by (rule writing)
  ultimately show ?thesis using d unfolding may_go_on_def by (metis not_less)
qed

text \<open>A connection that \<open>_disconnect_slow\<close> drops while its read loop waits between two frames goes on
  with the frames it has: commands are then executed for a connection the server has forgotten, and
  what they register (a consumer, a subscription) is never removed.\<close>

lemma phases_drop_connection: "phase_of j (snd (drop_connection order order' i sv)) = phase_of j sv"
proof -
  have "phase_of j (put_conn i c sv) = phase_of j sv" for c sv
    by (cases "map_of (sv_sessions sv) i") (auto simp: put_conn_def phase_of_def)
  then show ?thesis
    by (simp add: drop_connection_def Let_def split: option.split sum.split prod.split)
qed

lemma dropped_session_goes_on:
  assumes "server_ok sv" "phase_of i sv = Some (Handling (f # rest))" "i \<in> set (sv_drops sv)" "orders order" "orders order'"
  shows "\<exists>sv1 s. server_step loads dumps sv sv1 \<and> map_of (br_net (sv_broker sv1)) i = None \<and>
    server_step loads dumps sv1 (on_frame loads ou i f rest s sv1)"
proof -
  let ?sv1 = "(snd (drop_connection order order' i sv))\<lparr>sv_drops := remove1 i (sv_drops sv)\<rparr>"
  have "phase_of i ?sv1 = Some (Handling (f # rest))"
    using assms(2) phases_drop_connection [of i order order' i sv] by (simp add: phase_of_def)
  then obtain s where "map_of (sv_sessions ?sv1) i = Some s" "ss_phase s = Handling (f # rest)"
    unfolding phase_of_def by blast
  then have "server_step loads dumps ?sv1 (on_frame loads ou i f rest s ?sv1)" by (rule server_step.frame)
  moreover have "server_step loads dumps sv ?sv1" using assms(3-5) by (rule drop_task)
  moreover have "map_of (br_net (sv_broker ?sv1)) i = None" using drop_connection_cases(2) [OF assms(1,4)] by simp
  ultimately show ?thesis by blast
qed

end
