(* ===== verification/Aof.thy ===== *)
theory Aof
  imports Records Machine "HOL-Library.Sublist"
begin

text \<open>
  \<open>persistence/aof.py\<close>: the writer of the append-only file. Commands append encoded records to a queue;
  a task takes batches off the queue, an executor thread writes them and syncs the file as the mode
  \<open>fsync\<close> says, and the futures of the batch are completed.

  The file is the bytes written since it was opened, after those that were there; \<open>aw_synced\<close> is the
  length that \<open>os.fsync\<close> has secured. A crash may keep any part of the unsynced bytes, in order. What is in the
  file when it is opened counts as on disk: it was read there by the recovery, and that the machine may lose it
  later all the same, if it was never synced, is outside the model.
\<close>

section \<open>The writer\<close>

text \<open>An entry of the queue: the sequence number, the encoded record, and whether it has a future. A
  waiter is a sequence number and whether its future is completed.\<close>

type_synonym aof_item = "int \<times> bytes \<times> bool"

record aof_writer =
  aw_fsync :: string
  aw_seq :: int
  aw_queue :: "aof_item list"
  aw_durable :: int
  aw_waiters :: "(int \<times> bool) list"
  aw_running :: bool
  aw_batch :: "aof_item list"
  aw_written :: bool
  aw_file :: bytes
  aw_synced :: nat
  aw_last_fsync :: time
  aw_closed :: bool

definition new_writer :: "string \<Rightarrow> aof_writer" where
  "new_writer fsync =
     \<lparr>aw_fsync = fsync, aw_seq = 0, aw_queue = [], aw_durable = 0, aw_waiters = [], aw_running = False,
      aw_batch = [], aw_written = False, aw_file = [], aw_synced = 0, aw_last_fsync = 0, aw_closed = False\<rparr>"

definition attach_existing_seq :: "int \<Rightarrow> aof_writer \<Rightarrow> aof_writer" where
  "attach_existing_seq n w = w\<lparr>aw_seq := n, aw_durable := n\<rparr>"

text \<open>\<open>start\<close>, with the file opened for appending: its bytes are on disk.\<close>

definition start_writer :: "bytes \<Rightarrow> aof_writer \<Rightarrow> aof_writer" where
  "start_writer bs w = w\<lparr>aw_file := bs, aw_synced := length bs, aw_running := True\<rparr>"

definition aof_append ::
  "((string \<times> json) list \<Rightarrow> bytes) \<Rightarrow> string \<Rightarrow> (string \<times> json) list \<Rightarrow> bytes \<Rightarrow> 64 word \<Rightarrow> aof_writer \<Rightarrow>
   (py_error + int) \<times> aof_writer" where
  "aof_append dumps op meta pl ts w =
     (if aw_closed w then (Inr (aw_seq w), w)
      else
        (let sq = aw_seq w + 1; w1 = w\<lparr>aw_seq := sq\<rparr>; always = (aw_fsync w = ''always'') in
         case encode_record dumps sq op meta pl ts of
           Inl err \<Rightarrow> (Inl err, w1)
         | Inr raw \<Rightarrow>
             (Inr sq, w1\<lparr>aw_waiters := if always then dset sq False (aw_waiters w1) else aw_waiters w1,
                         aw_queue := aw_queue w1 @ [(sq, raw, always)]\<rparr>)))"

text \<open>\<open>wait_durable\<close>: whether it may return, and what it leaves.\<close>

definition may_return :: "int \<Rightarrow> aof_writer \<Rightarrow> bool" where
  "may_return n w \<longleftrightarrow>
     aw_fsync w \<noteq> ''always'' \<or> (case map_of (aw_waiters w) n of None \<Rightarrow> True | Some completed \<Rightarrow> completed)"

definition forget_waiter :: "int \<Rightarrow> aof_writer \<Rightarrow> aof_writer" where
  "forget_waiter n w = (if aw_fsync w \<noteq> ''always'' then w else w\<lparr>aw_waiters := ddel n (aw_waiters w)\<rparr>)"

definition is_sentinel :: "aof_item \<Rightarrow> bool" where
  "is_sentinel x \<longleftrightarrow> fst x = 0 \<and> fst (snd x) = []"

fun drain :: "aof_item list \<Rightarrow> aof_item list \<times> aof_item list" where
  "drain [] = ([], [])"
| "drain (x # xs) =
     (if is_sentinel x then ([], xs @ [x]) else (case drain xs of (b, q) \<Rightarrow> (x # b, q)))"

text \<open>The head of the loop of \<open>_run\<close>, when the queue is not empty.\<close>

definition take_batch :: "aof_writer \<Rightarrow> aof_writer" where
  "take_batch w =
     (case aw_queue w of
        [] \<Rightarrow> w
      | x # xs \<Rightarrow>
          if is_sentinel x then w\<lparr>aw_queue := xs, aw_running := False\<rparr>
          else (case drain xs of (b, q) \<Rightarrow> w\<lparr>aw_batch := x # b, aw_written := False, aw_queue := q\<rparr>))"

definition blob :: "aof_item list \<Rightarrow> bytes" where
  "blob xs = concat (map (\<lambda>x. fst (snd x)) xs)"

definition write_bytes :: "bytes \<Rightarrow> time \<Rightarrow> aof_writer \<Rightarrow> aof_writer" where
  "write_bytes bs now w =
     (let w1 = w\<lparr>aw_file := aw_file w @ bs\<rparr>;
          synced = w1\<lparr>aw_synced := length (aw_file w1), aw_last_fsync := now\<rparr>
      in if aw_fsync w = ''always'' then synced
         else if aw_fsync w = ''everysec'' then (if 1 \<le> now - aw_last_fsync w then synced else w1)
         else w1)"

definition write_batch :: "time \<Rightarrow> aof_writer \<Rightarrow> aof_writer" where
  "write_batch now w = (write_bytes (blob (aw_batch w)) now w)\<lparr>aw_written := True\<rparr>"

definition complete_waiter :: "aof_item \<Rightarrow> (int \<times> bool) list \<Rightarrow> (int \<times> bool) list" where
  "complete_waiter x ws = (if snd (snd x) \<and> map_of ws (fst x) \<noteq> None then dset (fst x) True ws else ws)"

definition finish_batch :: "aof_writer \<Rightarrow> aof_writer" where
  "finish_batch w =
     w\<lparr>aw_durable := fst (last (aw_batch w)), aw_waiters := fold complete_waiter (aw_batch w) (aw_waiters w),
       aw_batch := [], aw_written := False\<rparr>"

text \<open>\<open>flush_and_stop\<close> before and after it waits for the task.\<close>

definition stop_writer :: "aof_writer \<Rightarrow> aof_writer" where
  "stop_writer w = w\<lparr>aw_closed := True, aw_queue := aw_queue w @ [(0, [], False)]\<rparr>"

definition close_file :: "aof_writer \<Rightarrow> aof_writer" where
  "close_file w = w\<lparr>aw_synced := length (aw_file w)\<rparr>"

section \<open>Runs\<close>

text \<open>A run carries, beside the writer, the records that are in the file or on their way to it. The
  metadata of a record is one the JSON library reads back; an append that fails has used up its number.\<close>

inductive opened_log ::
  "((string \<times> json) list \<Rightarrow> bytes) \<Rightarrow> (bytes \<Rightarrow> json option) \<Rightarrow> aof_record list \<times> aof_writer \<Rightarrow> bool"
  for dumps :: "(string \<times> json) list \<Rightarrow> bytes" and loads :: "bytes \<Rightarrow> json option" where
  "\<forall>r \<in> set rs. valid_record dumps loads r \<and> rc_seq r \<le> n \<Longrightarrow> 0 \<le> n \<Longrightarrow> sorted_wrt (<) (map rc_seq rs) \<Longrightarrow>
   opened_log dumps loads
     (rs, start_writer (concat (map (record_bytes dumps) rs)) (attach_existing_seq n (new_writer fsync)))"

inductive aof_step ::
  "((string \<times> json) list \<Rightarrow> bytes) \<Rightarrow> (bytes \<Rightarrow> json option) \<Rightarrow>
   aof_record list \<times> aof_writer \<Rightarrow> aof_record list \<times> aof_writer \<Rightarrow> bool"
  for dumps :: "(string \<times> json) list \<Rightarrow> bytes" and loads :: "bytes \<Rightarrow> json option" where
  append_ok: "\<not> aw_closed w \<Longrightarrow>
    r = \<lparr>rc_seq = aw_seq w + 1, rc_op = op, rc_meta = JObj meta, rc_payload = pl, rc_timestamp = ts\<rparr> \<Longrightarrow>
    valid_record dumps loads r \<Longrightarrow> aof_step dumps loads (rs, w) (rs @ [r], snd (aof_append dumps op meta pl ts w))"
| append_fails: "fst (aof_append dumps op meta pl ts w) = Inl err \<Longrightarrow>
    aof_step dumps loads (rs, w) (rs, snd (aof_append dumps op meta pl ts w))"
| append_closed: "aw_closed w \<Longrightarrow> aof_step dumps loads (rs, w) (rs, snd (aof_append dumps op meta pl ts w))"
| wait_returns: "may_return n w \<Longrightarrow> aof_step dumps loads (rs, w) (rs, forget_waiter n w)"
| batch_taken: "aw_running w \<Longrightarrow> aw_batch w = [] \<Longrightarrow> aof_step dumps loads (rs, w) (rs, take_batch w)"
| batch_written: "aw_batch w \<noteq> [] \<Longrightarrow> \<not> aw_written w \<Longrightarrow> aof_step dumps loads (rs, w) (rs, write_batch now w)"
| batch_finished: "aw_batch w \<noteq> [] \<Longrightarrow> aw_written w \<Longrightarrow> aof_step dumps loads (rs, w) (rs, finish_batch w)"
| stop_asked: "aof_step dumps loads (rs, w) (rs, stop_writer w)"
| file_closed: "\<not> aw_running w \<Longrightarrow> aof_step dumps loads (rs, w) (rs, close_file w)"

text \<open>What may be in the file after a crash: the synced bytes, and any first part of the others and of
  the batch that is being written.\<close>

definition crash_leaves :: "aof_writer \<Rightarrow> bytes \<Rightarrow> bool" where
  "crash_leaves w data \<longleftrightarrow>
     aw_synced w \<le> length data \<and>
     prefix data (aw_file w @ (if aw_written w then [] else blob (aw_batch w)))"

section \<open>The invariant\<close>

text \<open>The records are the ones in the file followed by the ones that wait: in the batch, until it is
  written, and in the queue.\<close>

definition waiting :: "aof_writer \<Rightarrow> aof_item list" where
  "waiting w = (if aw_written w then [] else aw_batch w) @ filter (\<lambda>x. \<not> is_sentinel x) (aw_queue w)"

definition item_of :: "((string \<times> json) list \<Rightarrow> bytes) \<Rightarrow> aof_record \<Rightarrow> int \<times> bytes" where
  "item_of dumps r = (rc_seq r, record_bytes dumps r)"

definition split_at :: "((string \<times> json) list \<Rightarrow> bytes) \<Rightarrow> aof_record list \<Rightarrow> aof_record list \<Rightarrow> aof_writer \<Rightarrow> bool" where
  "split_at dumps kept pend w \<longleftrightarrow>
     aw_file w = concat (map (record_bytes dumps) kept) \<and>
     map (\<lambda>x. (fst x, fst (snd x))) (waiting w) = map (item_of dumps) pend \<and>
     (aw_written w \<longrightarrow> fst ` set (aw_batch w) \<subseteq> rc_seq ` set kept) \<and>
     (aw_fsync w = ''always'' \<longrightarrow> (\<forall>r \<in> set pend. map_of (aw_waiters w) (rc_seq r) = Some False))"

definition log_ok :: "((string \<times> json) list \<Rightarrow> bytes) \<Rightarrow> (bytes \<Rightarrow> json option) \<Rightarrow> aof_record list \<times> aof_writer \<Rightarrow> bool" where
  "log_ok dumps loads s \<longleftrightarrow>
     (case s of (rs, w) \<Rightarrow>
        (\<forall>r \<in> set rs. valid_record dumps loads r \<and> rc_seq r \<le> aw_seq w) \<and> 0 \<le> aw_seq w \<and>
        sorted_wrt (<) (map rc_seq rs) \<and> (aw_batch w = [] \<longrightarrow> \<not> aw_written w) \<and>
        aw_synced w \<le> length (aw_file w) \<and> (aw_fsync w = ''always'' \<longrightarrow> aw_synced w = length (aw_file w)) \<and>
        (\<exists>kept pend. rs = kept @ pend \<and> split_at dumps kept pend w))"

lemma log_okI:
  assumes "\<forall>r \<in> set (kept @ pend). valid_record dumps loads r \<and> rc_seq r \<le> aw_seq w" "0 \<le> aw_seq w"
    "sorted_wrt (<) (map rc_seq (kept @ pend))" "aw_batch w = [] \<longrightarrow> \<not> aw_written w"
    "aw_synced w \<le> length (aw_file w)" "aw_fsync w = ''always'' \<longrightarrow> aw_synced w = length (aw_file w)"
    "split_at dumps kept pend w"
  shows "log_ok dumps loads (kept @ pend, w)"
  using assms unfolding log_ok_def by blast

lemma log_okE:
  assumes "log_ok dumps loads (rs, w)"
  obtains kept pend where "rs = kept @ pend" "split_at dumps kept pend w"
    "\<forall>r \<in> set (kept @ pend). valid_record dumps loads r \<and> rc_seq r \<le> aw_seq w" "0 \<le> aw_seq w"
    "sorted_wrt (<) (map rc_seq (kept @ pend))" "aw_batch w = [] \<longrightarrow> \<not> aw_written w"
    "aw_synced w \<le> length (aw_file w)" "aw_fsync w = ''always'' \<longrightarrow> aw_synced w = length (aw_file w)"
  using assms unfolding log_ok_def by blast

lemma drain_split:
  "drain xs = (b, q) \<Longrightarrow> filter (\<lambda>x. \<not> is_sentinel x) xs = b @ filter (\<lambda>x. \<not> is_sentinel x) q"
  by (induction xs arbitrary: b q) (auto split: if_splits prod.splits)

lemma blob_items: "map (\<lambda>x. (fst x, fst (snd x))) xs = map (item_of dumps) rs \<Longrightarrow> blob xs = concat (map (record_bytes dumps) rs)"
proof -
  assume "map (\<lambda>x. (fst x, fst (snd x))) xs = map (item_of dumps) rs"
  then have "map snd (map (\<lambda>x. (fst x, fst (snd x))) xs) = map snd (map (item_of dumps) rs)" by simp
  then show ?thesis by (simp add: blob_def item_of_def comp_def)
qed

lemma seqs_items: "map (\<lambda>x. (fst x, fst (snd x))) xs = map (item_of dumps) rs \<Longrightarrow> fst ` set xs = rc_seq ` set rs"
proof -
  assume "map (\<lambda>x. (fst x, fst (snd x))) xs = map (item_of dumps) rs"
  then have "map fst (map (\<lambda>x. (fst x, fst (snd x))) xs) = map fst (map (item_of dumps) rs)" by simp
  then have "map fst xs = map rc_seq rs" by (simp add: item_of_def comp_def)
  then show ?thesis by (metis list.set_map)
qed

lemma record_bytes_nonempty: "record_bytes dumps r \<noteq> []"
  using length_record_bytes [of dumps r] by (auto simp: AOF_HEADER_SIZE_def)

lemma log_ok_opened: "opened_log dumps loads s \<Longrightarrow> log_ok dumps loads s"
proof (induction rule: opened_log.induct)
  case (1 rs n fsync)
  then show ?case
    using log_okI [of rs "[]" dumps loads]
    by (simp add: split_at_def waiting_def start_writer_def attach_existing_seq_def new_writer_def)
qed

lemma log_ok_append:
  assumes ok: "log_ok dumps loads (rs, w)" and w: "\<not> aw_closed w"
    and r: "r = \<lparr>rc_seq = aw_seq w + 1, rc_op = op, rc_meta = JObj meta, rc_payload = pl, rc_timestamp = ts\<rparr>"
    and v: "valid_record dumps loads r"
  shows "log_ok dumps loads (rs @ [r], snd (aof_append dumps op meta pl ts w))"
proof -
  obtain kept pend where rs: "rs = kept @ pend" and sp: "split_at dumps kept pend w"
    and inv: "\<forall>r \<in> set (kept @ pend). valid_record dumps loads r \<and> rc_seq r \<le> aw_seq w" "0 \<le> aw_seq w"
      "sorted_wrt (<) (map rc_seq (kept @ pend))" "aw_batch w = [] \<longrightarrow> \<not> aw_written w"
      "aw_synced w \<le> length (aw_file w)" "aw_fsync w = ''always'' \<longrightarrow> aw_synced w = length (aw_file w)"
    using ok by (rule log_okE)
  let ?w = "snd (aof_append dumps op meta pl ts w)"
  have enc: "encode_record dumps (aw_seq w + 1) op meta pl ts = Inr (record_bytes dumps r)"
    using encode_record_eq [OF v] by (simp add: r record_dict_def)
  have eq: "?w = w\<lparr>aw_seq := aw_seq w + 1,
      aw_waiters := if aw_fsync w = ''always'' then dset (aw_seq w + 1) False (aw_waiters w) else aw_waiters w,
      aw_queue := aw_queue w @ [(aw_seq w + 1, record_bytes dumps r, aw_fsync w = ''always'')]\<rparr>"
    using w enc by (simp add: aof_append_def Let_def)
  have "\<not> is_sentinel (aw_seq w + 1, record_bytes dumps r, a)" for a
    by (simp add: is_sentinel_def record_bytes_nonempty)
  then have wait: "waiting ?w = waiting w @ [(aw_seq w + 1, record_bytes dumps r, aw_fsync w = ''always'')]"
    by (simp add: waiting_def eq)
  have seq: "rc_seq r = aw_seq w + 1" by (simp add: r)
  have "split_at dumps kept (pend @ [r]) ?w"
    unfolding split_at_def wait
    using sp inv(1) by (auto simp: split_at_def eq seq item_of_def)
  then have "log_ok dumps loads (kept @ (pend @ [r]), ?w)"
  proof (rule log_okI [rotated -1])
    have late: "\<forall>r \<in> set (kept @ pend). rc_seq r < aw_seq w + 1" using inv(1) by fastforce
    show "\<forall>r \<in> set (kept @ pend @ [r]). valid_record dumps loads r \<and> rc_seq r \<le> aw_seq ?w"
      using inv(1) v late by (force simp: eq seq)
    show "sorted_wrt (<) (map rc_seq (kept @ pend @ [r]))"
      using inv(3) late by (auto simp: sorted_wrt_append seq)
  qed (use inv(2,4-6) in \<open>auto simp: eq\<close>)
  then show ?thesis by (simp add: rs)
qed

lemma log_ok_append_closed:
  "log_ok dumps loads (rs, w) \<Longrightarrow> aw_closed w \<Longrightarrow> log_ok dumps loads (rs, snd (aof_append dumps op meta pl ts w))"
  by (simp add: aof_append_def)

text \<open>A step that leaves the file and the records that wait where they are.\<close>

lemma log_ok_frame:
  assumes "log_ok dumps loads (rs, w)" "aw_seq w \<le> aw_seq w'" "aw_fsync w' = aw_fsync w" "aw_file w' = aw_file w"
    "waiting w' = waiting w" "aw_synced w' = aw_synced w \<or> aw_synced w' = length (aw_file w)"
    "aw_batch w' = [] \<longrightarrow> \<not> aw_written w'" "aw_written w' \<longrightarrow> aw_written w \<and> aw_batch w' = aw_batch w"
    "\<And>r kept pend. rs = kept @ pend \<Longrightarrow> split_at dumps kept pend w \<Longrightarrow> r \<in> set pend \<Longrightarrow> aw_fsync w = ''always'' \<Longrightarrow>
       map_of (aw_waiters w) (rc_seq r) = Some False \<Longrightarrow> map_of (aw_waiters w') (rc_seq r) = Some False"
  shows "log_ok dumps loads (rs, w')"
proof -
  obtain kept pend where rs: "rs = kept @ pend" and sp: "split_at dumps kept pend w"
    and inv: "\<forall>r \<in> set (kept @ pend). valid_record dumps loads r \<and> rc_seq r \<le> aw_seq w" "0 \<le> aw_seq w"
      "sorted_wrt (<) (map rc_seq (kept @ pend))" "aw_batch w = [] \<longrightarrow> \<not> aw_written w"
      "aw_synced w \<le> length (aw_file w)" "aw_fsync w = ''always'' \<longrightarrow> aw_synced w = length (aw_file w)"
    using assms(1) by (rule log_okE)
  have old: "aw_file w = concat (map (record_bytes dumps) kept)"
    "map (\<lambda>x. (fst x, fst (snd x))) (waiting w) = map (item_of dumps) pend"
    "aw_written w \<longrightarrow> fst ` set (aw_batch w) \<subseteq> rc_seq ` set kept"
    "aw_fsync w = ''always'' \<longrightarrow> (\<forall>r \<in> set pend. map_of (aw_waiters w) (rc_seq r) = Some False)"
    using sp unfolding split_at_def by blast+
  have "map_of (aw_waiters w') (rc_seq r) = Some False" if "r \<in> set pend" "aw_fsync w = ''always''" for r
    using assms(9) [OF rs sp that] old(4) that by blast
  moreover have "aw_written w' \<longrightarrow> fst ` set (aw_batch w') \<subseteq> rc_seq ` set kept"
  proof
    assume "aw_written w'"
    then have "aw_written w" "aw_batch w' = aw_batch w" using assms(8) by blast+
    then show "fst ` set (aw_batch w') \<subseteq> rc_seq ` set kept" using old(3) by simp
  qed
  ultimately have "split_at dumps kept pend w'"
    unfolding split_at_def assms(3-5) using old(1,2) by blast
  then show ?thesis
    unfolding rs
  proof (rule log_okI [rotated -1])
    show "\<forall>r \<in> set (kept @ pend). valid_record dumps loads r \<and> rc_seq r \<le> aw_seq w'"
      using inv(1) assms(2) by (meson order_trans)
    show "aw_fsync w' = ''always'' \<longrightarrow> aw_synced w' = length (aw_file w')"
      using inv(6) assms(3,4,6) by metis
    show "aw_synced w' \<le> length (aw_file w')" using inv(5) assms(4,6) by (elim disjE) simp_all
  qed (use inv(2,3) assms(2,7) in simp_all)
qed

lemma log_ok_append_fails:
  assumes "log_ok dumps loads (rs, w)" "fst (aof_append dumps op meta pl ts w) = Inl err"
  shows "log_ok dumps loads (rs, snd (aof_append dumps op meta pl ts w))"
proof -
  have eq: "snd (aof_append dumps op meta pl ts w) = w\<lparr>aw_seq := aw_seq w + 1\<rparr>"
    using assms(2) by (auto simp: aof_append_def Let_def split: if_splits sum.splits)
  show ?thesis
    unfolding eq by (rule log_ok_frame [OF assms(1)]) (use assms(1) in \<open>simp_all add: waiting_def log_ok_def\<close>)
qed

lemma log_ok_wait:
  assumes "log_ok dumps loads (rs, w)" "may_return n w"
  shows "log_ok dumps loads (rs, forget_waiter n w)"
proof (cases "aw_fsync w = ''always''")
  case True
  have n: "map_of (aw_waiters w) n \<noteq> Some False" using assms(2) True by (auto simp: may_return_def)
  show ?thesis
    by (rule log_ok_frame [OF assms(1)])
       (use assms(1) n True in \<open>auto simp: forget_waiter_def waiting_def log_ok_def\<close>)
qed (use assms in \<open>simp add: forget_waiter_def\<close>)

lemma log_ok_take_batch:
  assumes "log_ok dumps loads (rs, w)" "aw_batch w = []"
  shows "log_ok dumps loads (rs, take_batch w)"
proof -
  have nw: "\<not> aw_written w" using assms by (simp add: log_ok_def)
  have "waiting (take_batch w) = waiting w"
    using assms(2) drain_split
    by (auto simp: take_batch_def waiting_def split: list.split prod.split)
  then show ?thesis
    by (intro log_ok_frame [OF assms(1)])
       (use nw assms(2) in \<open>auto simp: take_batch_def split: list.split prod.split\<close>)
qed

lemma log_ok_finish:
  assumes "log_ok dumps loads (rs, w)" "aw_written w"
  shows "log_ok dumps loads (rs, finish_batch w)"
proof (rule log_ok_frame [OF assms(1)])
  fix r kept pend
  assume rs: "rs = kept @ pend" and sp: "split_at dumps kept pend w" and r: "r \<in> set pend"
    and p: "map_of (aw_waiters w) (rc_seq r) = Some False"
  have "sorted_wrt (<) (map rc_seq (kept @ pend))" using assms(1) rs by (simp add: log_ok_def)
  then have "rc_seq r \<notin> rc_seq ` set kept" using r by (fastforce simp: sorted_wrt_append)
  then have new: "rc_seq r \<notin> fst ` set (aw_batch w)" using sp assms(2) by (auto simp: split_at_def)
  have "map_of (fold complete_waiter xs ws) k = map_of ws k" if "k \<notin> fst ` set xs" for k xs ws
    using that by (induction xs arbitrary: ws) (auto simp: complete_waiter_def)
  then show "map_of (aw_waiters (finish_batch w)) (rc_seq r) = Some False"
    using new p by (simp add: finish_batch_def)
qed (use assms(2) in \<open>simp_all add: finish_batch_def waiting_def\<close>)

lemma log_ok_stop:
  assumes "log_ok dumps loads (rs, w)"
  shows "log_ok dumps loads (rs, stop_writer w)" "log_ok dumps loads (rs, close_file w)"
  by (rule log_ok_frame [OF assms]; use assms in \<open>simp add: stop_writer_def close_file_def waiting_def is_sentinel_def log_ok_def\<close>)+

lemma log_ok_write:
  assumes ok: "log_ok dumps loads (rs, w)" and b: "aw_batch w \<noteq> []" "\<not> aw_written w"
  shows "log_ok dumps loads (rs, write_batch now w)"
proof -
  obtain kept pend where rs: "rs = kept @ pend" and sp: "split_at dumps kept pend w"
    and inv: "\<forall>r \<in> set (kept @ pend). valid_record dumps loads r \<and> rc_seq r \<le> aw_seq w" "0 \<le> aw_seq w"
      "sorted_wrt (<) (map rc_seq (kept @ pend))" "aw_batch w = [] \<longrightarrow> \<not> aw_written w"
      "aw_synced w \<le> length (aw_file w)" "aw_fsync w = ''always'' \<longrightarrow> aw_synced w = length (aw_file w)"
    using ok by (rule log_okE)
  let ?p = "\<lambda>x :: aof_item. (fst x, fst (snd x))" and ?w = "write_batch now w" and ?n = "length (aw_batch w)"
  let ?new = "take ?n pend" and ?rest = "drop ?n pend"
  have "map ?p (aw_batch w) @ map ?p (filter (\<lambda>x. \<not> is_sentinel x) (aw_queue w)) = map (item_of dumps) pend"
    using sp b(2) by (simp add: split_at_def waiting_def)
  then have parts: "map ?p (aw_batch w) = map (item_of dumps) ?new"
    "map ?p (filter (\<lambda>x. \<not> is_sentinel x) (aw_queue w)) = map (item_of dumps) ?rest"
    by (simp_all add: append_eq_conv_conj take_map drop_map)
  have w: "aw_file ?w = aw_file w @ blob (aw_batch w)" "aw_batch ?w = aw_batch w" "aw_queue ?w = aw_queue w"
    "aw_written ?w" "aw_seq ?w = aw_seq w" "aw_fsync ?w = aw_fsync w" "aw_waiters ?w = aw_waiters w"
    "aw_synced ?w = aw_synced w \<or> aw_synced ?w = length (aw_file ?w)"
    "aw_fsync w = ''always'' \<longrightarrow> aw_synced ?w = length (aw_file ?w)"
    by (simp_all add: write_batch_def write_bytes_def Let_def)
  have "split_at dumps (kept @ ?new) ?rest ?w"
    unfolding split_at_def
  proof (intro conjI impI ballI)
    show "aw_file ?w = concat (map (record_bytes dumps) (kept @ ?new))"
      using sp w(1) blob_items [OF parts(1)] by (simp add: split_at_def)
    show "map ?p (waiting ?w) = map (item_of dumps) ?rest" using parts(2) w(3,4) by (simp add: waiting_def)
    show "fst ` set (aw_batch ?w) \<subseteq> rc_seq ` set (kept @ ?new)" using seqs_items [OF parts(1)] w(2) by auto
    show "map_of (aw_waiters ?w) (rc_seq r) = Some False" if "aw_fsync ?w = ''always''" "r \<in> set ?rest" for r
      using sp that w(6,7) in_set_dropD [OF that(2)] by (simp add: split_at_def)
  qed
  moreover have "rs = (kept @ ?new) @ ?rest" using rs by simp
  moreover have "(kept @ ?new) @ ?rest = kept @ pend" by simp
  ultimately show ?thesis
    using log_okI [of "kept @ ?new" ?rest dumps loads ?w] inv b(1) w by auto
qed

lemma log_ok_step: "aof_step dumps loads s s' \<Longrightarrow> log_ok dumps loads s \<Longrightarrow> log_ok dumps loads s'"
  by (induction rule: aof_step.induct)
     (simp_all add: log_ok_append log_ok_append_fails log_ok_append_closed log_ok_wait log_ok_take_batch log_ok_write
       log_ok_finish log_ok_stop)

interpretation log: step_invariant "opened_log dumps loads" "aof_step dumps loads" "log_ok dumps loads"
  by unfold_locales (auto intro: log_ok_opened log_ok_step)

abbreviation reachable_log ::
  "((string \<times> json) list \<Rightarrow> bytes) \<Rightarrow> (bytes \<Rightarrow> json option) \<Rightarrow> aof_record list \<times> aof_writer \<Rightarrow> bool" where
  "reachable_log dumps loads \<equiv> reach (opened_log dumps loads) (aof_step dumps loads)"

section \<open>Durability\<close>

text \<open>What a crash leaves is a first part of the appended bytes, with everything that was synced; \<open>read_aof\<close>
  takes the records that are complete in it.\<close>

lemma crash_cut:
  assumes ok: "log_ok dumps loads (rs, w)" and crash: "crash_leaves w data"
  obtains lost n where "concat (map (record_bytes dumps) rs) = data @ lost" "n \<le> length rs"
    "read_records loads data 0 [] = (take n rs, length (concat (map (record_bytes dumps) (take n rs))))"
    "\<forall>k \<le> length rs. length (concat (map (record_bytes dumps) (take k rs))) \<le> length data \<longleftrightarrow> k \<le> n"
proof -
  obtain kept pend where rs: "rs = kept @ pend" and sp: "split_at dumps kept pend w"
    and valid: "\<forall>r \<in> set (kept @ pend). valid_record dumps loads r \<and> rc_seq r \<le> aw_seq w"
    using ok by (rule log_okE)
  let ?bytes = "\<lambda>rs. concat (map (record_bytes dumps) rs)"
  have written: "aw_file w = ?bytes kept" and wait: "blob (waiting w) = ?bytes pend"
    using sp blob_items by (simp_all add: split_at_def)
  have "prefix (aw_file w @ (if aw_written w then [] else blob (aw_batch w))) (?bytes rs)"
    unfolding rs using written wait [symmetric] by (auto simp: waiting_def blob_def split: if_splits)
  then have "prefix data (?bytes rs)" using crash prefix_order.trans unfolding crash_leaves_def by blast
  then obtain lost where cut: "?bytes rs = data @ lost" by (auto simp: prefix_def)
  have "\<forall>r \<in> set rs. valid_record dumps loads r" using valid rs by blast
  from read_records_cut [OF this cut, of 0 "[]"] show ?thesis
    using that [OF cut] by (auto simp only: append_Nil add_0)
qed

text \<open>C26. What is acknowledged as durable survives a crash: in whatever state the writer is, the file a
  crash leaves is read back as a first part of the appended records, in order, without gaps or damage;
  that part includes every record that was synced as a whole, and, with \<open>fsync = always\<close>, every record up
  to one for which \<open>wait_durable\<close> may return.\<close>

theorem acknowledged_records_survive:
  assumes "reachable_log dumps loads (rs, w)" "crash_leaves w data"
  shows "\<exists>n \<le> length rs. fst (read_aof loads (Some data)) = take n rs \<and>
    (\<forall>k \<le> length rs. length (concat (map (record_bytes dumps) (take k rs))) \<le> aw_synced w \<longrightarrow> k \<le> n) \<and>
    (aw_fsync w = ''always'' \<longrightarrow>
       (\<forall>r \<in> set rs. may_return (rc_seq r) w \<longrightarrow>
          (\<forall>r' \<in> set rs. rc_seq r' \<le> rc_seq r \<longrightarrow> r' \<in> set (take n rs))))"
proof -
  have ok: "log_ok dumps loads (rs, w)" by (rule log.reach_safe [OF assms(1)])
  obtain kept pend where rs: "rs = kept @ pend" and sp: "split_at dumps kept pend w"
    and inv: "\<forall>r \<in> set (kept @ pend). valid_record dumps loads r \<and> rc_seq r \<le> aw_seq w" "0 \<le> aw_seq w"
      "sorted_wrt (<) (map rc_seq (kept @ pend))" "aw_batch w = [] \<longrightarrow> \<not> aw_written w"
      "aw_synced w \<le> length (aw_file w)" "aw_fsync w = ''always'' \<longrightarrow> aw_synced w = length (aw_file w)"
    using ok by (rule log_okE)
  let ?bytes = "\<lambda>rs. concat (map (record_bytes dumps) rs)"
  have written: "aw_file w = ?bytes kept" using sp by (simp add: split_at_def)
  obtain n where n: "n \<le> length rs" "read_records loads data 0 [] = (take n rs, length (?bytes (take n rs)))"
    "\<forall>k \<le> length rs. length (?bytes (take k rs)) \<le> length data \<longleftrightarrow> k \<le> n"
    by (rule crash_cut [OF ok assms(2)]) (rule that)
  have synced: "aw_synced w \<le> length data" using assms(2) by (simp add: crash_leaves_def)
  show ?thesis
  proof (intro exI [of _ n] conjI impI allI ballI)
    show "fst (read_aof loads (Some data)) = take n rs" using n(2) by (simp add: read_aof_def)
    show "k \<le> n" if "k \<le> length rs" "length (?bytes (take k rs)) \<le> aw_synced w" for k
      using that synced n(3) by (meson order_trans)
    fix r r' assume always: "aw_fsync w = ''always''" and r: "r \<in> set rs" "may_return (rc_seq r) w"
      and r': "r' \<in> set rs" "rc_seq r' \<le> rc_seq r"
    have "r \<notin> set pend" using sp always r(2) by (auto simp: split_at_def may_return_def)
    then have "r \<in> set kept" using r(1) rs by auto
    then have "r' \<in> set kept" using inv(3) r' rs by (fastforce simp: sorted_wrt_append)
    moreover have "length kept \<le> n"
      using n(3) [rule_format, of "length kept"] synced always inv(6) written rs by simp
    ultimately show "r' \<in> set (take n rs)" unfolding rs by (simp add: take_append)
  qed (use n(1) in simp)
qed

text \<open>Both records of the log are acknowledged; the file is read back whole.\<close>

definition demo_writer :: "string \<Rightarrow> aof_writer" where
  "demo_writer fsync =
     start_writer (concat (map (record_bytes demo_dumps) demo_log)) (attach_existing_seq 2 (new_writer fsync))"

lemma demo_writer_reachable: "reachable_log demo_dumps demo_loads (demo_log, demo_writer fsync)"
  unfolding demo_writer_def
  by (rule reach.start, rule opened_log.intros) (use demo_log_valid in \<open>simp_all add: demo_log_def\<close>)

theorem acknowledged_records_survive_witness:
  "fst (read_aof demo_loads (Some (concat (map (record_bytes demo_dumps) demo_log)))) = demo_log"
proof -
  let ?w = "demo_writer ''always''"
  have w: "aw_file ?w = concat (map (record_bytes demo_dumps) demo_log)"
    "aw_synced ?w = length (concat (map (record_bytes demo_dumps) demo_log))"
    by (simp_all add: demo_writer_def start_writer_def)
  have "crash_leaves ?w (aw_file ?w)"
    by (simp add: crash_leaves_def demo_writer_def start_writer_def attach_existing_seq_def new_writer_def blob_def)
  from acknowledged_records_survive [OF demo_writer_reachable this] obtain n where
    "fst (read_aof demo_loads (Some (aw_file ?w))) = take n demo_log"
    "\<forall>k \<le> length demo_log. length (concat (map (record_bytes demo_dumps) (take k demo_log))) \<le> aw_synced ?w \<longrightarrow> k \<le> n"
    by (elim exE conjE)
  then show ?thesis using w by simp
qed

section \<open>Idle with everysec\<close>

text \<open>With \<open>fsync = everysec\<close> a write syncs only when the last sync is a second old, and nothing but a write or the
  end syncs the file: the last batch of a burst stays unsynced for as long as nothing else is appended.\<close>

lemma only_writes_sync:
  assumes "aof_step dumps loads (rs, w) (rs', w')" "aw_running w" "aw_batch w = [] \<or> aw_written w"
  shows "aw_synced w' = aw_synced w" "aw_file w' = aw_file w"
  using assms
  by (cases rule: aof_step.cases;
      auto simp: aof_append_def Let_def forget_waiter_def take_batch_def finish_batch_def stop_writer_def
        split: sum.splits list.splits prod.splits if_splits)+

lemma burst_stays_unsynced:
  assumes "aw_fsync w = ''everysec''" "now < aw_last_fsync w + 1"
  shows "aw_synced (write_batch now w) = aw_synced w" "aw_file (write_batch now w) = aw_file w @ blob (aw_batch w)"
  using assms by (simp_all add: write_batch_def write_bytes_def)

end
