(* ===== verification/Recovery.thy ===== *)
theory Recovery
  imports Server Aof
begin

text \<open>
  \<open>persistence/recovery.py\<close>: what a starting broker makes of the snapshot and the append-only file that
  an earlier one has left, and the way \<open>broker/lifecycle.py\<close> goes on from there.

  The operations of the queue and routing engines are those of the other theories with
  \<open>persist=False\<close>; an exception leaves the state as far as the replay has come. The file is its bytes,
  \<open>None\<close> when it does not exist; a loaded snapshot is its sequence number and its state
  (\<open>Snapshot_File\<close> reads it from the bytes).
\<close>

section \<open>The metadata of a record\<close>

text \<open>\<open>meta[k]\<close> for a name. A name that is not a string counts as a \<open>TypeError\<close>; the journal never
  writes one.\<close>

definition meta_item :: "string \<Rightarrow> json \<Rightarrow> py_error + string" where
  "meta_item k meta =
     (case meta of
        JObj d \<Rightarrow>
          (case map_of d k of
             None \<Rightarrow> Inl (KeyError k)
           | Some v \<Rightarrow> (case as_str v of None \<Rightarrow> Inl (TypeError k) | Some s \<Rightarrow> Inr s))
      | _ \<Rightarrow> Inl (TypeError ''string indices must be integers''))"

text \<open>\<open>k in meta\<close>.\<close>

definition meta_has :: "string \<Rightarrow> json \<Rightarrow> py_error + bool" where
  "meta_has k meta =
     (case meta of
        JObj d \<Rightarrow> Inr (k \<in> dkeys d)
      | JList xs \<Rightarrow> Inr (JStr k \<in> set xs)
      | JStr s \<Rightarrow> Inr (sublist k s)
      | _ \<Rightarrow> Inl (TypeError ''argument is not iterable''))"

text \<open>\<open>meta.get(k, default)\<close>; a value of another JSON type is read as if it were missing.\<close>

definition bool_or :: "bool \<Rightarrow> string \<Rightarrow> dict \<Rightarrow> bool" where
  "bool_or d k m = (case map_of m k of None \<Rightarrow> d | Some v \<Rightarrow> truthy v)"

definition get_or :: "(json \<Rightarrow> 'a option) \<Rightarrow> 'a \<Rightarrow> string \<Rightarrow> dict \<Rightarrow> 'a" where
  "get_or conv d k m = (case conv (jget k m) of None \<Rightarrow> d | Some v \<Rightarrow> v)"

section \<open>Replaying a record\<close>

type_synonym core = "routing \<times> engine"
type_synonym replay_step = "core \<Rightarrow> (py_error + unit) \<times> core"

definition with_item :: "string \<Rightarrow> json \<Rightarrow> (string \<Rightarrow> replay_step) \<Rightarrow> replay_step" where
  "with_item k meta f s = (case meta_item k meta of Inl err \<Rightarrow> (Inl err, s) | Inr x \<Rightarrow> f x s)"

definition replay_queue_declare :: "dict \<Rightarrow> string \<Rightarrow> replay_step" where
  "replay_queue_declare m n s =
     (case s of (r, e) \<Rightarrow>
        (Inr (),
         on_queue_declared n False
           (r, declare_queue n (bool_or True ''durable'' m) (as_int (jget ''max_length'' m))
                 (as_time (jget ''visibility_timeout'' m)) (as_int (jget ''max_attempts'' m))
                 (bool_or True ''dead_letter'' m) False e)))"

definition replay_exchange_declare :: "dict \<Rightarrow> string \<Rightarrow> replay_step" where
  "replay_exchange_declare m n s =
     (case declare_exchange n (get_or as_str ''direct'' ''type'' m) (bool_or True ''durable'' m) False s of
        (Inl err, s') \<Rightarrow> (Inl err, s') | (Inr _, s') \<Rightarrow> (Inr (), s'))"

definition replay_bind :: "dict \<Rightarrow> json \<Rightarrow> string \<Rightarrow> replay_step" where
  "replay_bind m meta n s =
     (case s of (r, e) \<Rightarrow>
        let e1 = (if get_queue n e = None then declare_queue n True None None None True False e else e) in
        with_item ''exchange'' meta
          (\<lambda>x s. (Inr (), snd (bind_queue x n (get_or as_str '''' ''routing_key'' m) False s))) (r, e1))"

definition replay_unbind :: "dict \<Rightarrow> json \<Rightarrow> string \<Rightarrow> replay_step" where
  "replay_unbind m meta x =
     with_item ''queue'' meta (\<lambda>n s. (Inr (), snd (unbind_queue x n (get_or as_str '''' ''routing_key'' m) False s)))"

definition published_message :: "dict \<Rightarrow> bytes \<Rightarrow> engine \<Rightarrow> string \<Rightarrow> string \<Rightarrow> message" where
  "published_message m pl e n k =
     \<lparr>msg_id = k, msg_queue = n, payload = pl, created_at = get_or as_time 0 ''created_at'' m,
      attempts = get_or as_int 0 ''attempts'' m,
      max_attempts = get_or as_int (default_max_attempts e) ''max_attempts'' m,
      priority = get_or as_int 0 ''priority'' m, headers = jget ''headers'' m,
      available_at = as_time (jget ''available_at'' m), exchange = get_or as_str '''' ''exchange'' m,
      routing_key = get_or as_str '''' ''routing_key'' m\<rparr>"

text \<open>A message whose id is known is skipped; a queue that is full drops the message with a warning.\<close>

definition replay_message :: "dict \<Rightarrow> bytes \<Rightarrow> string \<Rightarrow> string \<Rightarrow> replay_step" where
  "replay_message m pl n k s =
     (case s of (r, e) \<Rightarrow>
        (Inr (),
         if k \<in> dkeys (by_id e) then s else (r, snd (enqueue (published_message m pl e n k) False e))))"

definition replay_publish :: "dict \<Rightarrow> json \<Rightarrow> bytes \<Rightarrow> string \<Rightarrow> replay_step" where
  "replay_publish m meta pl n s =
     with_item ''id'' meta (replay_message m pl n)
       (if get_queue n (snd s) = None
        then on_queue_declared n False (fst s, declare_queue n True None None None True False (snd s))
        else s)"

definition replay_requeue :: "json \<Rightarrow> replay_step" where
  "replay_requeue meta s =
     (case meta_has ''from'' meta of
        Inl err \<Rightarrow> (Inl err, s)
      | Inr False \<Rightarrow> (Inr (), s)
      | Inr True \<Rightarrow>
          (case meta_has ''to'' meta of
             Inl err \<Rightarrow> (Inl err, s)
           | Inr False \<Rightarrow> (Inr (), s)
           | Inr True \<Rightarrow>
               with_item ''to'' meta
                 (\<lambda>t. with_item ''id'' meta (\<lambda>k (r, e). (Inr (), r, snd (dlq_requeue t k False e)))) s))"

text \<open>Metadata that is not an object raises a \<open>TypeError\<close> where it is used.\<close>

definition apply_record :: "aof_record \<Rightarrow> replay_step" where
  "apply_record rec =
     (let meta = rc_meta rec; m = record_dict rec; op = rc_op rec in
      if op = ''QUEUE_DECLARE'' then with_item ''name'' meta (replay_queue_declare m)
      else if op = ''QUEUE_DELETE'' then
        with_item ''name'' meta (\<lambda>n (r, e). (Inr (), r, snd (delete_queue n False e)))
      else if op = ''EXCHANGE_DECLARE'' then with_item ''name'' meta (replay_exchange_declare m)
      else if op = ''EXCHANGE_DELETE'' then
        with_item ''name'' meta (\<lambda>n s. (Inr (), snd (delete_exchange n False s)))
      else if op = ''BIND'' then with_item ''queue'' meta (replay_bind m meta)
      else if op = ''UNBIND'' then with_item ''exchange'' meta (replay_unbind m meta)
      else if op = ''MESSAGE_PUBLISH'' then with_item ''queue'' meta (replay_publish m meta (rc_payload rec))
      else if op = ''MESSAGE_ACK'' then
        with_item ''id'' meta (\<lambda>k (r, e). (Inr (), r, snd (ack k False e)))
      else if op = ''MESSAGE_NACK'' then
        with_item ''id'' meta (\<lambda>k (r, e). (Inr (), r, snd (nack k (bool_or True ''requeue'' m) False e)))
      else if op = ''MESSAGE_REQUEUE'' then replay_requeue meta
      else (\<lambda>s. (Inr (), s)))"

section \<open>Recovery\<close>

text \<open>The loop over the records: those the snapshot covers are skipped.\<close>

fun replay :: "int \<Rightarrow> aof_record list \<Rightarrow> int \<Rightarrow> core \<Rightarrow> (py_error + int) \<times> core" where
  "replay snap_seq [] last_seq s = (Inr last_seq, s)"
| "replay snap_seq (rec # recs) last_seq s =
     (if rc_seq rec \<le> snap_seq then replay snap_seq recs last_seq s
      else
        (case apply_record rec s of
           (Inl err, s') \<Rightarrow> (Inl err, s')
         | (Inr _, s') \<Rightarrow> replay snap_seq recs (rc_seq rec) s'))"

definition load_snapshot :: "(int \<times> runtime_snap) option \<Rightarrow> broker \<Rightarrow> (py_error + int) \<times> broker" where
  "load_snapshot snap b =
     (case snap of
        None \<Rightarrow> (Inr 0, b)
      | Some (n, st) \<Rightarrow>
          (case restore_snapshot st b of (Inl err, b') \<Rightarrow> (Inl err, b') | (Inr _, b') \<Rightarrow> (Inr n, b')))"

definition recover_into ::
  "(bytes \<Rightarrow> json option) \<Rightarrow> (int \<times> runtime_snap) option \<Rightarrow> bytes option \<Rightarrow> broker \<Rightarrow>
   (py_error + int) \<times> bytes option \<times> broker" where
  "recover_into loads snap file b =
     (case load_snapshot snap b of
        (Inl err, b1) \<Rightarrow> (Inl err, file, b1)
      | (Inr snap_seq, b1) \<Rightarrow>
          (case read_aof loads file of
             (records, keep) \<Rightarrow>
               let file' = map_option (take keep) file in
               (case with_routing (replay snap_seq records snap_seq) b1 of
                  (Inl err, b2) \<Rightarrow> (Inl err, file', b2)
                | (Inr last_seq, b2) \<Rightarrow> (Inr last_seq, file', snd (with_engine (tick None) b2)))))"

section \<open>Nothing is in flight\<close>

definition idle :: "engine \<Rightarrow> bool" where
  "idle e \<longleftrightarrow> visibility_heap e = [] \<and> (\<forall>n q. get_queue n e = Some q \<longrightarrow> inflight q = [])"

text \<open>A stretch of the recovery on an idle engine leaves it idle and writes nothing to the log.\<close>

definition quiet :: "engine \<Rightarrow> engine \<Rightarrow> bool" where
  "quiet e e' \<longleftrightarrow> (idle e \<longrightarrow> idle e' \<and> journal e' = journal e)"

lemma quiet_refl [simp]: "quiet e e"
  by (simp add: quiet_def)

lemma quiet_trans: "quiet e e1 \<Longrightarrow> quiet e1 e2 \<Longrightarrow> quiet e e2"
  by (simp add: quiet_def)

lemma quietI: "quiet e x \<Longrightarrow> (idle x \<Longrightarrow> idle y) \<Longrightarrow> journal y = journal x \<Longrightarrow> quiet e y"
  unfolding quiet_def by metis

lemma idleI: "visibility_heap e = [] \<Longrightarrow> (\<And>n q. get_queue n e = Some q \<Longrightarrow> inflight q = []) \<Longrightarrow> idle e"
  unfolding idle_def by blast

lemma idle_heap: "idle e \<Longrightarrow> visibility_heap e = []"
  unfolding idle_def by blast

lemma idle_queue: "idle e \<Longrightarrow> get_queue n e = Some q \<Longrightarrow> inflight q = []"
  unfolding idle_def by blast

lemma quiet_frame:
  assumes "quiet e x" "queues y = queues x" "visibility_heap y = visibility_heap x" "journal y = journal x"
  shows "quiet e y"
proof (rule quietI [OF assms(1) _ assms(4)])
  show "idle x \<Longrightarrow> idle y" unfolding idle_def assms(2,3) .
qed

lemma quiet_upd_queue:
  assumes "quiet e x" and f: "\<And>q. inflight (f q) = inflight q"
  shows "quiet e (upd_queue n f x)"
proof (rule quietI [OF assms(1)])
  assume x: "idle x"
  show "idle (upd_queue n f x)"
  proof (rule idleI)
    fix n' q' assume "get_queue n' (upd_queue n f x) = Some q'"
    then obtain q where "get_queue n' x = Some q" "q' = (if n' = n then f q else q)"
      by (cases "n' = n") auto
    then show "inflight q' = []" using idle_queue [OF x] f by simp
  qed (simp add: idle_heap [OF x])
qed simp

lemma quiet_new_queue:
  assumes "quiet e x" and q: "inflight q = []"
  shows "quiet e (x\<lparr>queues := dset n q (queues x)\<rparr>)"
proof (rule quietI [OF assms(1)])
  assume x: "idle x"
  show "idle (x\<lparr>queues := dset n q (queues x)\<rparr>)"
  proof (rule idleI)
    fix n' q' assume "get_queue n' (x\<lparr>queues := dset n q (queues x)\<rparr>) = Some q'"
    then have "q' = q \<or> get_queue n' x = Some q'" by (cases "n' = n") simp_all
    then show "inflight q' = []" using idle_queue [OF x] q by blast
  qed (simp add: idle_heap [OF x])
qed simp

lemma quiet_drop_queue: "quiet e x \<Longrightarrow> quiet e (x\<lparr>queues := ddel n (queues x)\<rparr>)"
proof (erule quietI)
  assume x: "idle x"
  show "idle (x\<lparr>queues := ddel n (queues x)\<rparr>)"
  proof (rule idleI)
    fix n' q' assume "get_queue n' (x\<lparr>queues := ddel n (queues x)\<rparr>) = Some q'"
    then have "get_queue n' x = Some q'" by (cases "n' = n") simp_all
    then show "inflight q' = []" by (rule idle_queue [OF x])
  qed (simp add: idle_heap [OF x])
qed simp

lemma quiet_small:
  "quiet e x \<Longrightarrow> quiet e (snd (read_clock x))"
  "quiet e x \<Longrightarrow> quiet e (journal_append False op meta pl x)"
  "quiet e x \<Longrightarrow> quiet e (index_id k n x)"
  "quiet e x \<Longrightarrow> quiet e (unindex_id k x)"
  by (rule quiet_frame; simp add: read_clock_def journal_append_def index_id_def unindex_id_def)+

lemma quiet_fields:
  "quiet e x \<Longrightarrow> quiet e (set_message n m x)"
  "quiet e x \<Longrightarrow> quiet e (del_message n k x)"
  "quiet e x \<Longrightarrow> quiet e (upd_stats n g x)"
  "quiet e x \<Longrightarrow> quiet e (drop_ready n k x)"
  unfolding set_message_def del_message_def upd_stats_def drop_ready_def
  by (erule quiet_upd_queue; simp)+

lemma quiet_push_ready: "quiet e x \<Longrightarrow> quiet e (push_ready n m x)"
  unfolding push_ready_def next_seq_def prod.case
  by (rule quiet_upd_queue, erule quiet_frame) simp_all

lemma quiet_push_delayed: "quiet e x \<Longrightarrow> quiet e (push_delayed n t k x)"
proof -
  assume "quiet e x"
  then have "quiet e (upd_queue n (\<lambda>q. q\<lparr>delayed_ids := insert k (delayed_ids q)\<rparr>) x)" by (rule quiet_upd_queue) simp
  then show ?thesis by (rule quiet_frame) (simp_all add: push_delayed_def next_seq_def)
qed

lemmas quiet_intros = quiet_refl quiet_small quiet_fields quiet_push_ready quiet_push_delayed

lemma quiet_unindex_all: "quiet e x \<Longrightarrow> quiet e (unindex_all ms x)"
  by (induction ms arbitrary: x) (simp_all add: unindex_all_def quiet_small)

lemma quiet_declare_queue: "quiet e (declare_queue n dur ml vt ma dl False e)"
proof -
  have gen: "quiet e (declare_queue n dur ml vt ma dl p x)" if "quiet e x" "\<not> p" for n dur ml vt ma dl p x
    using that
  proof (induction n dur ml vt ma dl p x rule: declare_queue.induct)
    case (1 n dur ml vt ma dl p x)
    show ?case
    proof (cases "get_queue n x")
      case None
      have "quiet e (x\<lparr>queues := dset n (new_queue (declared_spec n dur ml vt ma dl x)) (queues x)\<rparr>)"
        using "1.prems"(1) by (rule quiet_new_queue) (simp add: new_queue_def)
      then show ?thesis using None "1.IH" [OF None refl refl] "1.prems"(2)
        by (subst declare_queue.simps) (simp add: Let_def quiet_small)
    qed (use "1.prems" in \<open>subst declare_queue.simps, simp\<close>)
  qed
  show ?thesis by (rule gen) simp_all
qed

lemma quiet_delete_queue: "quiet e (snd (delete_queue n False e))"
proof -
  have gen: "quiet e (snd (delete_queue n p x))" if "quiet e x" "\<not> p" for n p x
    using that
  proof (induction n p x rule: delete_queue.induct)
    case (1 n p x)
    show ?case
    proof (cases "get_queue n x")
      case (Some q)
      have "quiet e (unindex_all (messages q) (x\<lparr>queues := ddel n (queues x)\<rparr>))"
        by (intro quiet_unindex_all quiet_drop_queue "1.prems")
      then show ?thesis using Some "1.IH" [OF Some refl refl] "1.prems"(2)
        by (subst delete_queue.simps) (simp add: Let_def quiet_small)
    qed (use "1.prems" in \<open>subst delete_queue.simps, simp\<close>)
  qed
  show ?thesis by (rule gen) simp_all
qed

lemma quiet_enqueue:
  assumes "quiet e x"
  shows "quiet e (snd (enqueue m False x))"
proof (cases "fst (enqueue m False x) = EnqOK")
  case True
  obtain q where q: "get_queue (msg_queue m) x = Some q" "\<not> over_limit q"
    using True by (auto simp: enqueue_result split: option.splits if_splits)
  show ?thesis
    unfolding enqueue_def Let_def q(1) option.case if_not_P [OF q(2)] case_prod_beta snd_conv
    by (rule quiet_small(2)) (simp add: quiet_intros assms)
qed (simp add: enqueue_failed assms)

lemma quiet_take_dead_letter: "quiet e x \<Longrightarrow> quiet e (take_dead_letter d k x)"
  unfolding take_dead_letter_def by (rule quiet_upd_queue) (simp_all add: quiet_intros)

lemma quiet_dlq_requeue: "quiet e (snd (dlq_requeue n k False e))"
proof -
  let ?org = "origin_queue n" and ?d = "dlq_name (origin_queue n)"
  show ?thesis
  proof (cases "\<exists>dq oq m. get_queue ?d e = Some dq \<and> get_queue ?org e = Some oq \<and> map_of (messages dq) k = Some m")
    case False
    then show ?thesis by (auto simp: dlq_requeue_def Let_def split: option.split)
  next
    case True
    then obtain dq oq m where q: "get_queue ?d e = Some dq" "get_queue ?org e = Some oq" "map_of (messages dq) k = Some m"
      by (elim exE conjE)
    let ?m1 = "m\<lparr>msg_queue := ?org, attempts := 0, available_at := None\<rparr>"
    obtain res e3 where enq: "enqueue ?m1 False (take_dead_letter ?d k e) = (res, e3)" by (cases "enqueue ?m1 False (take_dead_letter ?d k e)") blast
    have e3: "quiet e e3"
      using quiet_enqueue [OF quiet_take_dead_letter [OF quiet_refl], of e ?m1 ?d k] enq by simp
    have "quiet e (upd_queue ?d (\<lambda>q. q\<lparr>messages := dset k m2 (messages q)\<rparr>) e3)" for m2
      by (rule quiet_upd_queue [OF e3]) simp
    then have put_back: "quiet e (push_ready ?d m2 (index_id k ?d (upd_queue ?d (\<lambda>q. q\<lparr>messages := dset k m2 (messages q)\<rparr>) e3)))" for m2
      by (intro quiet_push_ready quiet_small(3))
    show ?thesis
      unfolding dlq_requeue_def Let_def q option.case prod.case enq
      by (cases res) (simp_all add: put_back quiet_small(2) e3)
  qed
qed

lemma ack_idle: "idle e \<Longrightarrow> snd (ack k persist e) = e"
  by (auto simp: ack_def idle_def split: option.split)

lemma nack_idle: "idle e \<Longrightarrow> snd (nack k requeue persist e) = e"
  by (auto simp: nack_def idle_def split: option.split)

lemma quiet_release_each: "quiet e x \<Longrightarrow> quiet e (snd (release_each due x))"
proof (induction due arbitrary: x)
  case (Cons d due)
  obtain n k where d: "d = (n, k)" by fastforce
  have e1: "quiet e (upd_queue n (\<lambda>q. q\<lparr>delayed_ids := delayed_ids q - {k}\<rparr>) x)"
    using Cons.prems by (rule quiet_upd_queue) simp
  have e2: "quiet e (push_ready n m (set_message n m (upd_queue n (\<lambda>q. q\<lparr>delayed_ids := delayed_ids q - {k}\<rparr>) x)))" for m
    by (intro quiet_intros e1)
  show ?case
    unfolding d release_each.simps Let_def case_prod_beta
    using Cons.IH [OF Cons.prems] Cons.IH [OF e1] Cons.IH [OF e2] by (simp split: option.split)
qed simp

lemma timeout_idle: "idle e \<Longrightarrow> timeout_inflight now e = (0, e)"
  by (subst timeout_inflight.simps) (simp add: idle_def heappeek_def)

lemma quiet_tick: "quiet e (snd (tick None e))"
proof -
  have "quiet e (snd (release_delayed t (snd (read_clock e))))" for t
  proof -
    have "quiet e ((snd (read_clock e))\<lparr>delayed := h\<rparr>)" for h
      by (rule quiet_frame [OF quiet_small(1) [OF quiet_refl]]) simp_all
    then show ?thesis by (simp add: release_delayed_def case_prod_beta quiet_release_each)
  qed
  then show ?thesis
    by (auto simp: quiet_def tick_def case_prod_beta timeout_idle)
qed

section \<open>Loading the snapshot\<close>

lemma restore_message_rest:
  "visibility_heap (restore_message n ms e) = visibility_heap e" "journal (restore_message n ms e) = journal e"
  by (simp_all add: restore_message_def Let_def case_prod_beta push_ready_def next_seq_def set_message_def
      index_id_def read_clock_def split: message_state.split option.split)

lemma restore_queue_rest:
  "visibility_heap (restore_queue qs e) = visibility_heap e" "journal (restore_queue qs e) = journal e"
proof -
  have "visibility_heap (fold (restore_message n) ms e) = visibility_heap e" "journal (fold (restore_message n) ms e) = journal e"
    for n ms e by (induction ms arbitrary: e) (simp_all add: restore_message_rest)
  then show "visibility_heap (restore_queue qs e) = visibility_heap e" "journal (restore_queue qs e) = journal e"
    by (simp_all add: restore_queue_def Let_def)
qed

lemma restore_state_rest:
  "visibility_heap (restore_state st e) = []" "journal (restore_state st e) = journal e"
proof -
  have "visibility_heap (fold restore_queue qss e) = visibility_heap e" "journal (fold restore_queue qss e) = journal e"
    for qss e by (induction qss arbitrary: e) (simp_all add: restore_queue_rest)
  then show "visibility_heap (restore_state st e) = []" "journal (restore_state st e) = journal e"
    by (simp_all add: restore_state_def)
qed

lemma idle_restore_state:
  assumes "engine_inv e" "snap_ok st"
  shows "idle (restore_state st e)"
proof (rule idleI)
  fix n q assume q: "get_queue n (restore_state st e) = Some q"
  then have "n \<in> set (map fst (queues (restore_state st e)))" by (simp add: dkeys_iff)
  then obtain qs where "qs \<in> set (es_queues st)" "n = spec_name (qs_spec qs)"
    unfolding restore_state_describes(2) [OF assms] snap_names_def by auto
  then have "describes qs q" using restore_state_describes(4) [OF assms] q by fastforce
  then show "inflight q = []" by (simp add: describes_def)
qed (rule restore_state_rest)

text \<open>With \<open>persist=False\<close> the routing operations leave the engine as it is.\<close>

lemma routing_engine:
  "snd (snd (declare_exchange n ty dur False (r, e))) = e"
  "snd (snd (delete_exchange n False (r, e))) = e"
  "snd (snd (bind_queue x n k False (r, e))) = e"
  "snd (snd (unbind_queue x n k False (r, e))) = e"
  "snd (on_queue_declared n False (r, e)) = e"
  by (auto simp: declare_exchange_def delete_exchange_def bind_queue_def unbind_queue_def on_queue_declared_def
      journal_append_def Let_def split: option.split sum.split)

definition core_ok :: "core \<Rightarrow> bool" where
  "core_ok s \<longleftrightarrow> routing_ok (fst s) \<and> engine_inv (snd s)"

lemma core_ok_step: "routing_step s s' \<Longrightarrow> core_ok s \<Longrightarrow> core_ok s'"
  using routing.step_safe [of s s'] by (simp add: core_ok_def)

lemma routing_restore_keeps:
  assumes "engine_inv e"
  shows "core_ok (snd (routing_restore st (r, e)))" "snd (snd (routing_restore st (r, e))) = e"
proof -
  have one: "core_ok (snd (restore_exchanges xs (r, e))) \<and> snd (snd (restore_exchanges xs (r, e))) = e" if "core_ok (r, e)" for xs r
    using that
  proof (induction xs arbitrary: r)
    case (Cons x xs)
    obtain res r' e' where d: "declare_exchange (ex_name x) (ex_type x) (ex_durable x) False (r, e) = (res, r', e')"
      by (cases "declare_exchange (ex_name x) (ex_type x) (ex_durable x) False (r, e)") blast
    have "e' = e" using routing_engine(1) [of "ex_name x" "ex_type x" "ex_durable x" r e] d by simp
    moreover have "core_ok (r', e')"
      using core_ok_step [OF declare_exchange_step Cons.prems, of "ex_name x" "ex_type x" "ex_durable x" False] d by simp
    ultimately show ?case using Cons.IH d by (simp split: sum.split)
  qed simp
  have two: "core_ok (fold restore_binding bs (r, e)) \<and> snd (fold restore_binding bs (r, e)) = e" if "core_ok (r, e)" for bs r
    using that
  proof (induction bs arbitrary: r)
    case (Cons b bs)
    obtain r' e' where b: "restore_binding b (r, e) = (r', e')" by (cases "restore_binding b (r, e)") blast
    have "e' = e" using routing_engine(3) [of "b_exchange b" "b_queue b" "b_key b" r e] b by (simp add: restore_binding_def)
    moreover have "core_ok (r', e')"
      using core_ok_step [OF bind_step Cons.prems, of "b_exchange b" "b_queue b" "b_key b" False] b by (simp add: restore_binding_def)
    ultimately show ?case using Cons.IH b by simp
  qed simp
  have "core_ok (new_routing, e)" using assms by (simp add: core_ok_def routing_ok_new)
  from one [OF this, of "rs_exchanges st"]
  obtain res r1 where ex: "restore_exchanges (rs_exchanges st) (new_routing, e) = (res, r1, e)" "core_ok (r1, e)"
    by (cases "restore_exchanges (rs_exchanges st) (new_routing, e)") auto
  show "core_ok (snd (routing_restore st (r, e)))" "snd (snd (routing_restore st (r, e))) = e"
    using ex(1,2) two [OF ex(2)] by (cases res; simp add: routing_restore_def)+
qed

section \<open>Replaying the log\<close>

text \<open>What every replayed record keeps.\<close>

definition keeps_core :: "replay_step \<Rightarrow> bool" where
  "keeps_core f \<longleftrightarrow> (\<forall>s. core_ok s \<longrightarrow> core_ok (snd (f s)) \<and> quiet (snd s) (snd (snd (f s))))"

lemma keeps_coreI:
  "(\<And>r e. core_ok (r, e) \<Longrightarrow> core_ok (snd (f (r, e))) \<and> quiet e (snd (snd (f (r, e))))) \<Longrightarrow> keeps_core f"
  unfolding keeps_core_def by (metis prod.collapse)

lemma keeps_coreD:
  "keeps_core f \<Longrightarrow> core_ok s \<Longrightarrow> core_ok (snd (f s)) \<and> quiet (snd s) (snd (snd (f s)))"
  unfolding keeps_core_def by blast

lemma keeps_with_item: "(\<And>x. keeps_core (f x)) \<Longrightarrow> keeps_core (with_item k meta f)"
  by (simp add: keeps_core_def with_item_def split: sum.split)

lemma keeps_engine:
  assumes "\<And>e. engine_step e (f e)" "\<And>e. quiet e (f e)"
  shows "keeps_core (\<lambda>(r, e). (Inr (), r, f e))"
  using assms(2) core_ok_step [OF engine_steps [OF assms(1)]] by (intro keeps_coreI) simp

lemma declared_core:
  assumes "core_ok (r, e)"
  shows "core_ok (on_queue_declared n False (r, declare_queue n dur ml vt ma dl False e)) \<and>
    quiet e (snd (on_queue_declared n False (r, declare_queue n dur ml vt ma dl False e)))"
proof -
  have "core_ok (r, declare_queue n dur ml vt ma dl False e)"
    by (rule core_ok_step [OF engine_steps [OF declare_step] assms])
  from core_ok_step [OF bind_step this] show ?thesis
    by (simp add: on_queue_declared_def routing_engine quiet_declare_queue)
qed

lemma keeps_replay_bind: "keeps_core (replay_bind m meta n)"
proof (rule keeps_coreI)
  fix r e assume "core_ok (r, e)"
  then have decl: "core_ok (r, declare_queue n True None None None True False e)"
    by (rule core_ok_step [OF engine_steps [OF declare_step]])
  define e1 where "e1 = (if get_queue n e = None then declare_queue n True None None None True False e else e)"
  have e1: "core_ok (r, e1)" "quiet e e1"
    using \<open>core_ok (r, e)\<close> decl by (simp_all add: e1_def quiet_declare_queue)
  have "keeps_core (\<lambda>s. (Inr (), snd (bind_queue x n k False s)))" for x k
    using core_ok_step [OF bind_step] by (intro keeps_coreI) (simp add: routing_engine)
  then have "keeps_core (with_item ''exchange'' meta (\<lambda>x s. (Inr (), snd (bind_queue x n k False s))))" for k
    by (rule keeps_with_item)
  from keeps_coreD [OF this e1(1)] quiet_trans [OF e1(2)]
  show "core_ok (snd (replay_bind m meta n (r, e))) \<and> quiet e (snd (snd (replay_bind m meta n (r, e))))"
    by (simp add: replay_bind_def Let_def flip: e1_def)
qed

lemma keeps_replay_publish: "keeps_core (replay_publish m meta pl n)"
proof (rule keeps_coreI)
  fix r e assume ok: "core_ok (r, e)"
  define s1 where "s1 = (if get_queue n e = None
    then on_queue_declared n False (r, declare_queue n True None None None True False e) else (r, e))"
  have s1: "core_ok s1" "quiet e (snd s1)"
    using ok declared_core [OF ok, of n True None None None True] by (simp_all add: s1_def)
  have "keeps_core (replay_message m pl n k)" for k
  proof (rule keeps_coreI)
    fix r e assume ok: "core_ok (r, e)"
    show "core_ok (snd (replay_message m pl n k (r, e))) \<and> quiet e (snd (snd (replay_message m pl n k (r, e))))"
      using ok core_ok_step [OF engine_steps [OF enqueue_step] ok] by (simp add: replay_message_def quiet_enqueue)
  qed
  then have "keeps_core (with_item ''id'' meta (replay_message m pl n))" by (rule keeps_with_item)
  from keeps_coreD [OF this s1(1)] quiet_trans [OF s1(2)]
  show "core_ok (snd (replay_publish m meta pl n (r, e))) \<and> quiet e (snd (snd (replay_publish m meta pl n (r, e))))"
    unfolding replay_publish_def fst_conv snd_conv s1_def [symmetric] by blast
qed

lemma quiet_settle: "quiet e (snd (ack k False e))" "quiet e (snd (nack k rq False e))"
  by (simp_all add: quiet_def ack_idle nack_idle)

lemma keeps_apply_record: "keeps_core (apply_record rec)"
proof -
  have decl: "keeps_core (replay_queue_declare m n)" for m n
    using declared_core by (intro keeps_coreI) (simp add: replay_queue_declare_def)
  have del: "keeps_core (\<lambda>(r, e). (Inr (), r, snd (delete_queue n False e)))" for n
    by (rule keeps_engine [OF delete_step quiet_delete_queue])
  have xdecl: "keeps_core (replay_exchange_declare m n)" for m n
  proof (rule keeps_coreI)
    fix r e assume "core_ok (r, e)"
    from core_ok_step [OF declare_exchange_step this, of n "get_or as_str ''direct'' ''type'' m" "bool_or True ''durable'' m" False]
    show "core_ok (snd (replay_exchange_declare m n (r, e))) \<and> quiet e (snd (snd (replay_exchange_declare m n (r, e))))"
      using routing_engine(1) [of n "get_or as_str ''direct'' ''type'' m" "bool_or True ''durable'' m" r e]
      by (simp add: replay_exchange_declare_def case_prod_beta split: sum.split)
  qed
  have xdel: "keeps_core (\<lambda>s. (Inr (), snd (delete_exchange n False s)))" for n
    using core_ok_step [OF delete_exchange_step] by (intro keeps_coreI) (simp add: routing_engine)
  have unbind: "keeps_core (replay_unbind m meta x)" for m meta x
    unfolding replay_unbind_def using core_ok_step [OF unbind_step]
    by (intro keeps_with_item keeps_coreI) (simp add: routing_engine)
  have ack: "keeps_core (\<lambda>(r, e). (Inr (), r, snd (ack k False e)))" for k
    by (rule keeps_engine [OF ack_step quiet_settle(1)])
  have nack: "keeps_core (\<lambda>(r, e). (Inr (), r, snd (nack k rq False e)))" for k rq
    by (rule keeps_engine [OF nack_step quiet_settle(2)])
  have rqu: "keeps_core (\<lambda>(r, e). (Inr (), r, snd (dlq_requeue t k False e)))" for t k
    by (rule keeps_engine [OF dlq_requeue_step quiet_dlq_requeue])
  have unknown: "keeps_core (Pair (Inr ()))" by (rule keeps_coreI) simp
  have "keeps_core (with_item ''to'' (rc_meta rec) (\<lambda>t. with_item ''id'' (rc_meta rec)
      (\<lambda>k (r, e). (Inr (), r, snd (dlq_requeue t k False e)))))"
    by (intro keeps_with_item rqu)
  then have requeue: "keeps_core (replay_requeue (rc_meta rec))"
    by (simp add: keeps_core_def replay_requeue_def split: sum.split bool.split)
  show ?thesis
    unfolding apply_record_def Let_def
    by (simp add: keeps_with_item decl del xdecl xdel keeps_replay_bind unbind keeps_replay_publish ack nack requeue)
       (use unknown in blast)
qed

lemma keeps_replay: "core_ok s \<Longrightarrow> core_ok (snd (replay n recs last_seq s)) \<and> quiet (snd s) (snd (snd (replay n recs last_seq s)))"
proof (induction recs arbitrary: last_seq s)
  case (Cons rec recs)
  note one = keeps_coreD [OF keeps_apply_record Cons.prems, of rec]
  obtain res s' where r: "apply_record rec s = (res, s')" by (cases "apply_record rec s") blast
  have s': "core_ok s'" "quiet (snd s) (snd s')" using one r by simp_all
  show ?case
    using Cons.IH [OF Cons.prems] Cons.IH [OF s'(1)] quiet_trans [OF s'(2)] s'
    by (simp add: r split: sum.split)
qed simp

section \<open>The start of a broker\<close>

text \<open>\<open>Broker.start\<close>: recover, go on numbering where the log ends, open it for appending, listen. The
  task that writes snapshots from time to time is not part of the model.\<close>

definition start_broker ::
  "(bytes \<Rightarrow> json option) \<Rightarrow> string \<Rightarrow> int \<Rightarrow> int \<Rightarrow> int \<Rightarrow> (int \<times> runtime_snap) option \<Rightarrow> bytes option \<Rightarrow> broker \<Rightarrow>
   py_error + server \<times> aof_writer" where
  "start_broker loads fsync max_connections max_frame outbound snap file b =
     (case recover_into loads snap file b of
        (Inl err, file', b') \<Rightarrow> Inl err
      | (Inr last_seq, file', b') \<Rightarrow>
          Inr (start_server (new_server b' max_connections max_frame outbound (fsync = ''always'')),
               start_writer (case file' of None \<Rightarrow> [] | Some bs \<Rightarrow> bs)
                 (attach_existing_seq last_seq (new_writer fsync))))"

lemma with_routing_core:
  "with_routing f b = (case f (br_routing b, br_engine b) of (r, s) \<Rightarrow> (r, b\<lparr>br_routing := fst s, br_engine := snd s\<rparr>))"
  by (simp add: with_routing_def case_prod_beta)

definition core_of :: "broker \<Rightarrow> core" where
  "core_of b = (br_routing b, br_engine b)"

text \<open>What the recovery leaves of the rest of the broker.\<close>

definition same_rest :: "broker \<Rightarrow> broker \<Rightarrow> bool" where
  "same_rest b b' \<longleftrightarrow>
     br_config b' = br_config b \<and> br_consumers b' = br_consumers b \<and> br_pubsub b' = br_pubsub b \<and>
     br_metrics b' = br_metrics b \<and> br_net b' = br_net b \<and> br_last_slow b' = br_last_slow b"

lemma broker_inv_core: "same_rest b b' \<Longrightarrow> broker_inv b \<Longrightarrow> core_ok (core_of b') \<Longrightarrow> broker_inv b'"
  by (simp add: same_rest_def broker_inv_def core_ok_def core_of_def)

lemma load_snapshot_keeps:
  assumes "broker_inv b" "idle (br_engine b)" "\<forall>n st. snap = Some (n, st) \<longrightarrow> snap_ok (sn_queues st)"
    "load_snapshot snap b = (res, b')"
  shows "core_ok (core_of b') \<and> idle (br_engine b') \<and> journal (br_engine b') = journal (br_engine b) \<and> same_rest b b'"
proof (cases snap)
  case None
  then have "b' = b" using assms(4) by (simp add: load_snapshot_def)
  then show ?thesis using assms(1,2) by (simp add: core_ok_def core_of_def broker_inv_parts same_rest_def)
next
  case (Some p)
  obtain n st where p: "p = (n, st)" by (cases p)
  let ?e = "restore_state (sn_queues st) (br_engine b)"
  have ok: "snap_ok (sn_queues st)" using assms(3) Some p by blast
  have inv: "engine_inv (br_engine b)" using assms(1) by (rule broker_inv_parts)
  have e: "engine_inv ?e" "idle ?e" "journal ?e = journal (br_engine b)"
    using restore_state_describes(1) [OF inv ok] idle_restore_state [OF inv ok] restore_state_rest(2) by blast+
  obtain r1 rt e1 where rr: "routing_restore (sn_routing st) (br_routing b, ?e) = (r1, rt, e1)"
    by (cases "routing_restore (sn_routing st) (br_routing b, ?e)") blast
  have rt: "core_ok (rt, e1)" "e1 = ?e"
    using routing_restore_keeps [OF e(1), of "sn_routing st" "br_routing b"] rr by simp_all
  have "b' = b\<lparr>br_engine := ?e, br_routing := rt\<rparr>"
    using assms(4) rr rt(2) unfolding Some p load_snapshot_def restore_snapshot_def with_routing_core
    by (auto split: sum.splits)
  then show ?thesis using rt e by (simp add: core_of_def same_rest_def)
qed

lemma same_rest_trans: "same_rest a b \<Longrightarrow> same_rest b c \<Longrightarrow> same_rest a c"
  by (simp add: same_rest_def)

lemma same_rest_eq: "same_rest b b' \<Longrightarrow> b' = b\<lparr>br_routing := br_routing b', br_engine := br_engine b'\<rparr>"
  by (rule broker.equality) (simp_all add: same_rest_def)

lemma recover_into_keeps:
  assumes "broker_inv b" "idle (br_engine b)" "\<forall>n st. snap = Some (n, st) \<longrightarrow> snap_ok (sn_queues st)"
    "recover_into loads snap file b = (res, file', b')"
  shows "broker_inv b'" "idle (br_engine b')" "journal (br_engine b') = journal (br_engine b)" "same_rest b b'"
proof -
  obtain res1 b1 where l: "load_snapshot snap b = (res1, b1)" by (cases "load_snapshot snap b")
  note one = load_snapshot_keeps [OF assms(1-3) l]
  have b1: "core_ok (core_of b1)" "idle (br_engine b1)" "journal (br_engine b1) = journal (br_engine b)" "same_rest b b1"
    using one by blast+
  have "core_ok (core_of b') \<and> idle (br_engine b') \<and> journal (br_engine b') = journal (br_engine b) \<and> same_rest b b'"
  proof (cases res1)
    case (Inl err)
    then have "b' = b1" using assms(4) by (simp add: recover_into_def l)
    then show ?thesis using b1 by simp
  next
    case (Inr n)
    obtain recs keep where aof: "read_aof loads file = (recs, keep)" by (cases "read_aof loads file")
    obtain res2 r2 e2 where rp: "replay n recs n (br_routing b1, br_engine b1) = (res2, r2, e2)"
      by (cases "replay n recs n (br_routing b1, br_engine b1)") blast
    define b2 where "b2 = b1\<lparr>br_routing := r2, br_engine := e2\<rparr>"
    have k: "core_ok (r2, e2)" "quiet (br_engine b1) e2"
      using keeps_replay [of "(br_routing b1, br_engine b1)" n recs n] b1(1) rp by (simp_all add: core_of_def)
    have b2: "core_ok (core_of b2)" "idle (br_engine b2)" "journal (br_engine b2) = journal (br_engine b)" "same_rest b1 b2"
      using k b1(2,3) by (simp_all add: b2_def core_of_def quiet_def same_rest_def)
    have run: "with_routing (replay n recs n) b1 = (res2, b2)" by (simp add: with_routing_def rp b2_def)
    let ?b3 = "snd (with_engine (tick None) b2)"
    have e3: "br_engine ?b3 = snd (tick None (br_engine b2))" "br_routing ?b3 = br_routing b2" "same_rest b2 ?b3"
      by (simp_all add: with_engine_def case_prod_beta same_rest_def)
    have "engine_inv (br_engine b2)" using b2(1) by (simp add: core_ok_def core_of_def)
    then have "engine_inv (br_engine ?b3)" unfolding e3(1) by (rule einv_tick)
    then have b3: "core_ok (core_of ?b3)" "idle (br_engine ?b3)" "journal (br_engine ?b3) = journal (br_engine b)"
      using b2 e3 quiet_tick [of "br_engine b2"] by (simp_all add: core_ok_def core_of_def quiet_def)
    have "b' = b2 \<or> b' = ?b3"
      using assms(4) by (auto simp: recover_into_def l Inr aof run Let_def split: sum.splits)
    then show ?thesis
      using b2(1-3) b3 same_rest_trans [OF b1(4) b2(4)] same_rest_trans [OF same_rest_trans [OF b1(4) b2(4)] e3(3)] by metis
  qed
  then show "broker_inv b'" "idle (br_engine b')" "journal (br_engine b') = journal (br_engine b)" "same_rest b b'"
    using broker_inv_core [of b b'] assms(1) by blast+
qed

text \<open>A broker that recovers is in order, whatever bytes the log holds: every component satisfies its
  invariant - also when the replay raises -, no message is in flight, nothing is written to the log, and
  consumers, channels, connections and counters are untouched.\<close>

theorem recovered_broker_in_order:
  assumes "broker_inv b" "idle (br_engine b)" "\<forall>n st. snap = Some (n, st) \<longrightarrow> snap_ok (sn_queues st)"
  shows "case recover_into loads snap file b of
    (res, file', b') \<Rightarrow>
      broker_inv b' \<and> (\<forall>n q. get_queue n (br_engine b') = Some q \<longrightarrow> inflight q = []) \<and>
      visibility_heap (br_engine b') = [] \<and> journal (br_engine b') = journal (br_engine b) \<and>
      b' = b\<lparr>br_routing := br_routing b', br_engine := br_engine b'\<rparr>"
proof -
  obtain res file' b' where r: "recover_into loads snap file b = (res, file', b')"
    by (cases "recover_into loads snap file b") blast
  note keeps = recover_into_keeps [OF assms r]
  show ?thesis
    unfolding r prod.case using keeps(1,3) idle_heap [OF keeps(2)] idle_queue [OF keeps(2)] same_rest_eq [OF keeps(4)]
    by blast
qed

section \<open>Crash and restart\<close>

lemma replay_last:
  assumes "replay n recs l s = (Inr last_seq, s')" "n \<le> l" "sorted_wrt (<) (map rc_seq recs)"
    "\<forall>r \<in> set recs. n < rc_seq r \<longrightarrow> l \<le> rc_seq r"
  shows "l \<le> last_seq \<and> (\<forall>r \<in> set recs. rc_seq r \<le> last_seq)"
  using assms
proof (induction recs arbitrary: l s)
  case (Cons rec recs)
  show ?case
  proof (cases "rc_seq rec \<le> n")
    case True
    then show ?thesis using Cons.IH [of l s] Cons.prems by force
  next
    case False
    obtain u s1 where a: "apply_record rec s = (Inr u, s1)"
      using Cons.prems(1) False by (auto split: prod.splits sum.splits)
    have "replay n recs (rc_seq rec) s1 = (Inr last_seq, s')" using Cons.prems(1) False a by simp
    then have "rc_seq rec \<le> last_seq \<and> (\<forall>r \<in> set recs. rc_seq r \<le> last_seq)"
      using Cons.prems(3) False by (intro Cons.IH) (auto simp: less_imp_le)
    moreover have "l \<le> rc_seq rec" using Cons.prems(4) False by simp
    ultimately show ?thesis by auto
  qed
qed simp

text \<open>A start on the file that any crash of any running log leaves: if it does not raise, it gives a fresh
  server around a broker in order, and a log writer that has exactly the complete records in its file, numbers
  on from the last of them and from the snapshot, and so is as a newly opened log.\<close>

lemma restart_after_crash:
  assumes "log_ok dumps loads (rs, w)" "crash_leaves w data" "broker_inv b" "idle (br_engine b)"
    "br_net b = []" "mt_connections (br_metrics b) = 0"
    "\<forall>m st. snap = Some (m, st) \<longrightarrow> 0 \<le> m \<and> snap_ok (sn_queues st)"
    "start_broker loads fsync max_connections max_frame outbound snap (Some data) b = Inr (sv, w')"
  shows "opened_log dumps loads (fst (read_aof loads (Some data)), w')"
    "set (fst (read_aof loads (Some data))) \<subseteq> set rs"
    "w' = start_writer (concat (map (record_bytes dumps) (fst (read_aof loads (Some data)))))
       (attach_existing_seq (aw_seq w') (new_writer fsync))"
    "\<forall>m st. snap = Some (m, st) \<longrightarrow> m \<le> aw_seq w'"
    "\<exists>b'. sv = start_server (new_server b' max_connections max_frame outbound (fsync = ''always'')) \<and>
       broker_inv b' \<and> br_net b' = [] \<and> mt_connections (br_metrics b') = 0 \<and>
       journal (br_engine b') = journal (br_engine b)"
proof -
  note ok = assms(1)
  let ?bytes = "\<lambda>rs. concat (map (record_bytes dumps) rs)"
  obtain lost n where cut: "?bytes rs = data @ lost" "n \<le> length rs"
    "read_records loads data 0 [] = (take n rs, length (?bytes (take n rs)))"
    "\<forall>k \<le> length rs. length (?bytes (take k rs)) \<le> length data \<longleftrightarrow> k \<le> n"
    by (rule crash_cut [OF ok assms(2)])
  have aof: "read_aof loads (Some data) = (take n rs, length (?bytes (take n rs)))" using cut(3) by (simp add: read_aof_def)
  have "?bytes rs = ?bytes (take n rs) @ ?bytes (drop n rs)" by (metis append_take_drop_id concat_append map_append)
  then have "take (length (?bytes (take n rs))) (data @ lost) = ?bytes (take n rs)" using cut(1) by simp
  moreover have "length (?bytes (take n rs)) \<le> length data" using cut(2,4) by simp
  ultimately have keep: "take (length (?bytes (take n rs))) data = ?bytes (take n rs)" by simp
  obtain last_seq file' b' where r: "recover_into loads snap (Some data) b = (Inr last_seq, file', b')"
    using assms(8) by (auto simp: start_broker_def split: prod.splits sum.splits)
  have sv: "sv = start_server (new_server b' max_connections max_frame outbound (fsync = ''always''))"
    and w': "w' = start_writer (case file' of None \<Rightarrow> [] | Some bs \<Rightarrow> bs) (attach_existing_seq last_seq (new_writer fsync))"
    using assms(8) r by (simp_all add: start_broker_def)
  have snap: "\<forall>n st. snap = Some (n, st) \<longrightarrow> snap_ok (sn_queues st)" using assms(7) by auto
  note keeps = recover_into_keeps [OF assms(3,4) snap r]
  obtain s b1 where l: "load_snapshot snap b = (Inr s, b1)"
    using r by (auto simp: recover_into_def split: prod.splits sum.splits)
  have s: "0 \<le> s" "\<forall>m st. snap = Some (m, st) \<longrightarrow> m = s"
    using l assms(7) by (cases snap; auto simp: load_snapshot_def split: prod.splits sum.splits)+
  obtain s2 b2 where rp: "with_routing (replay s (take n rs) s) b1 = (Inr last_seq, b2)" and file': "file' = Some (?bytes (take n rs))"
    using r keep by (auto simp: recover_into_def l aof Let_def split: prod.splits sum.splits)
  obtain s3 where rp': "replay s (take n rs) s (br_routing b1, br_engine b1) = (Inr last_seq, s3)"
    using rp by (auto simp: with_routing_def split: prod.splits)
  have sorted: "sorted_wrt (<) (map rc_seq (take n rs))"
    using ok unfolding log_ok_def take_map [symmetric] by (simp add: sorted_wrt_take)
  have last: "s \<le> last_seq \<and> (\<forall>r \<in> set (take n rs). rc_seq r \<le> last_seq)"
    by (rule replay_last [OF rp' order_refl sorted]) simp
  have valid: "\<forall>r \<in> set (take n rs). valid_record dumps loads r"
    using ok by (auto simp: log_ok_def dest: in_set_takeD)
  have seq: "aw_seq w' = last_seq"
    by (simp add: w' start_writer_def attach_existing_seq_def new_writer_def)
  have aof': "fst (read_aof loads (Some data)) = take n rs" by (simp add: aof)
  show "opened_log dumps loads (fst (read_aof loads (Some data)), w')"
    unfolding aof' w' file' option.case using valid last s(1) sorted by (intro opened_log.intros) auto
  show "set (fst (read_aof loads (Some data))) \<subseteq> set rs" unfolding aof' by (rule set_take_subset)
  show "w' = start_writer (concat (map (record_bytes dumps) (fst (read_aof loads (Some data)))))
      (attach_existing_seq (aw_seq w') (new_writer fsync))"
    unfolding aof' seq by (simp add: w' file')
  show "\<forall>m st. snap = Some (m, st) \<longrightarrow> m \<le> aw_seq w'" using s(2) last seq by auto
  have "br_net b' = []" "mt_connections (br_metrics b') = 0"
    using keeps(4) assms(5,6) by (simp_all add: same_rest_def)
  then show "\<exists>b'. sv = start_server (new_server b' max_connections max_frame outbound (fsync = ''always'')) \<and>
      broker_inv b' \<and> br_net b' = [] \<and> mt_connections (br_metrics b') = 0 \<and>
      journal (br_engine b') = journal (br_engine b)"
    using sv keeps(1,3) by blast
qed

definition demo_start :: broker where
  "demo_start = (demo_broker [])\<lparr>br_engine := new_engine 30 3 None ''fixed'' 1 10 (\<lambda>_. 0)\<rparr>"

lemma demo_start_ok:
  "broker_inv demo_start" "idle (br_engine demo_start)" "br_net demo_start = []"
  "mt_connections (br_metrics demo_start) = 0"
proof -
  have "broker_inv (demo_broker [])" by (rule demo_broker_inv) (simp add: net_ok_def dict_ok_def)
  then show "broker_inv demo_start" by (simp add: demo_start_def broker_inv_update einv_new_engine)
qed (simp_all add: demo_start_def idle_def new_engine_def demo_broker_def new_metrics_def)

theorem recovered_broker_in_order_witness:
  "broker_inv (snd (snd (recover_into demo_loads None (Some [1, 2, 3]) demo_start)))"
  using recovered_broker_in_order [OF demo_start_ok(1,2), of None demo_loads "Some [1, 2, 3]"]
  by (simp add: case_prod_beta)

end
