(* ===== verification/Replay.thy ===== *)
theory Replay
  imports Recovery
begin

text \<open>
  The log as a protocol between the running broker and the recovering one: what the operations of
  \<open>core/queue.py\<close> and \<open>core/routing.py\<close> append to the journal, and what \<open>apply_record\<close> makes of it.
\<close>

section \<open>Journal entries as records\<close>

text \<open>The record \<open>AOFWriter.append\<close> makes of a journal entry.\<close>

definition log_record :: "int \<Rightarrow> 64 word \<Rightarrow> journal_entry \<Rightarrow> aof_record" where
  "log_record n ts j =
     \<lparr>rc_seq = n, rc_op = j_op j, rc_meta = JObj (j_meta j), rc_payload = j_payload j, rc_timestamp = ts\<rparr>"

definition replays :: "journal_entry \<Rightarrow> bool" where
  "replays j \<longleftrightarrow> (\<forall>n ts s. fst (apply_record (log_record n ts j) s) = Inr ())"

text \<open>The journal goes on from \<open>js\<close>, and its entries are of this kind.\<close>

definition grown :: "journal_entry list \<Rightarrow> journal_entry list \<Rightarrow> bool" where
  "grown js l \<longleftrightarrow> prefix js l \<and> list_all replays l"

abbreviation logged :: "journal_entry list \<Rightarrow> engine \<Rightarrow> bool" where
  "logged js e \<equiv> grown js (journal e)"

lemmas replay_defs = replays_def log_record_def apply_record_def record_dict_def with_item_def meta_item_def

lemma replays_queue:
  "replays \<lparr>j_op = ''QUEUE_DECLARE'', j_meta = (''name'', JStr n) # m, j_payload = pl\<rparr>"
  "replays \<lparr>j_op = ''QUEUE_DELETE'', j_meta = [(''name'', JStr n)], j_payload = pl\<rparr>"
  by (simp_all add: replay_defs replay_queue_declare_def case_prod_beta)

lemma replays_exchange:
  "ty \<in> {''direct'', ''fanout''} \<Longrightarrow>
   replays \<lparr>j_op = ''EXCHANGE_DECLARE'', j_meta = [(''name'', JStr n), (''type'', JStr ty), (''durable'', JBool d)], j_payload = pl\<rparr>"
  "replays \<lparr>j_op = ''EXCHANGE_DELETE'', j_meta = [(''name'', JStr n)], j_payload = pl\<rparr>"
  by (auto simp: replay_defs replay_exchange_declare_def declare_exchange_def new_exchange_def get_or_def jget_def
      bool_or_def case_prod_beta split: option.split)

lemma replays_bind:
  "replays \<lparr>j_op = ''BIND'', j_meta = bind_meta x q k, j_payload = pl\<rparr>"
  "replays \<lparr>j_op = ''UNBIND'', j_meta = bind_meta x q k, j_payload = pl\<rparr>"
  by (simp_all add: replay_defs bind_meta_def replay_bind_def replay_unbind_def Let_def case_prod_beta)

lemma replays_publish: "replays \<lparr>j_op = ''MESSAGE_PUBLISH'', j_meta = publish_meta m, j_payload = pl\<rparr>"
  by (simp add: replay_defs publish_meta_def replay_publish_def replay_message_def case_prod_beta Let_def)

lemma replays_settled:
  "replays \<lparr>j_op = ''MESSAGE_ACK'', j_meta = (''id'', JStr k) # m, j_payload = pl\<rparr>"
  "replays \<lparr>j_op = ''MESSAGE_NACK'', j_meta = (''id'', JStr k) # m, j_payload = pl\<rparr>"
  "replays \<lparr>j_op = ''MESSAGE_DEAD'', j_meta = m, j_payload = pl\<rparr>"
  by (simp_all add: replay_defs case_prod_beta)

lemma replays_requeue:
  "replays \<lparr>j_op = ''MESSAGE_REQUEUE'', j_meta = [(''id'', JStr k), (''queue'', JStr q), (''available_at'', a), (''attempts'', b)], j_payload = pl\<rparr>"
  "replays \<lparr>j_op = ''MESSAGE_REQUEUE'', j_meta = [(''id'', JStr k), (''from'', JStr d), (''to'', JStr t)], j_payload = pl\<rparr>"
  by (simp_all add: replay_defs replay_requeue_def meta_has_def case_prod_beta)

lemmas replays_entries = replays_queue replays_exchange replays_bind replays_publish replays_settled replays_requeue

section \<open>What the operations append\<close>

lemma logged_append:
  "logged js e \<Longrightarrow> replays \<lparr>j_op = op, j_meta = m, j_payload = pl\<rparr> \<Longrightarrow> logged js (journal_append p op m pl e)"
  by (auto simp: journal_append_def grown_def)

lemma journal_frame [simp]:
  "journal (set_message n m e) = journal e" "journal (del_message n k e) = journal e"
  "journal (del_inflight n k e) = journal e" "journal (index_id k n e) = journal e"
  "journal (unindex_id k e) = journal e" "journal (upd_stats n f e) = journal e"
  "journal (push_ready n m e) = journal e" "journal (push_delayed n t k e) = journal e"
  "journal (snd (read_clock e)) = journal e" "journal (drop_ready n k e) = journal e"
  "journal (remember_ack k e) = journal e" "journal (take_dead_letter n k e) = journal e"
  by (simp_all add: set_message_def del_message_def del_inflight_def index_id_def unindex_id_def upd_stats_def
      push_ready_def push_delayed_def next_seq_def read_clock_def drop_ready_def remember_ack_def take_dead_letter_def Let_def)

lemma journal_unindex_all [simp]: "journal (unindex_all ms e) = journal e"
  by (induction ms arbitrary: e) (simp_all add: unindex_all_def)

lemma logged_declare_queue: "logged js e \<Longrightarrow> logged js (declare_queue n dur ml vt ma dl p e)"
proof (induction n dur ml vt ma dl p e rule: declare_queue.induct)
  case (1 n dur ml vt ma dl p e)
  show ?case
  proof (cases "get_queue n e")
    case None
    then show ?thesis using "1.IH" [OF None refl refl] "1.prems"
      by (subst declare_queue.simps) (simp add: Let_def logged_append replays_queue)
  qed (use "1.prems" in \<open>subst declare_queue.simps, simp\<close>)
qed

lemma logged_delete_queue: "logged js e \<Longrightarrow> logged js (snd (delete_queue n p e))"
proof (induction n p e rule: delete_queue.induct)
  case (1 n p e)
  show ?case
  proof (cases "get_queue n e")
    case (Some q)
    then show ?thesis using "1.IH" [OF Some refl refl] "1.prems"
      by (subst delete_queue.simps) (simp add: Let_def logged_append replays_queue)
  qed (use "1.prems" in \<open>subst delete_queue.simps, simp\<close>)
qed

lemma logged_enqueue: "logged js e \<Longrightarrow> logged js (snd (enqueue m p e))"
proof (cases "fst (enqueue m p e) = EnqOK")
  case True
  obtain q where q: "get_queue (msg_queue m) e = Some q" "\<not> over_limit q"
    using True by (auto simp: enqueue_result split: option.splits if_splits)
  show "logged js (snd (enqueue m p e))" if "logged js e"
    unfolding enqueue_def Let_def q(1) option.case if_not_P [OF q(2)] case_prod_beta snd_conv
    by (rule logged_append) (simp_all add: that replays_publish)
qed (simp add: enqueue_failed)

lemma logged_reserve: "logged js e \<Longrightarrow> logged js (snd (reserve n c e))"
  by (simp add: reserve_def case_prod_beta Let_def next_seq_def split: option.split)

lemma logged_ack: "logged js e \<Longrightarrow> logged js (snd (ack k p e))"
  by (simp add: ack_def Let_def logged_append replays_settled split: option.split)

lemma logged_move_to_dlq: "logged js e \<Longrightarrow> logged js (move_to_dlq n m p e)"
  by (simp add: move_to_dlq_def Let_def logged_append replays_settled logged_declare_queue)

lemma logged_retry_or_dead: "logged js e \<Longrightarrow> logged js (retry_or_dead n m p e)"
  by (simp add: retry_or_dead_def Let_def case_prod_beta logged_append replays_requeue logged_move_to_dlq)

lemma logged_nack: "logged js e \<Longrightarrow> logged js (snd (nack k rq p e))"
  by (simp add: nack_def Let_def logged_append replays_settled logged_move_to_dlq logged_retry_or_dead split: option.split)

lemma logged_recover_records: "logged js e \<Longrightarrow> logged js (snd (recover_records n recs p e))"
  by (induction recs arbitrary: e) (simp_all add: Let_def case_prod_beta logged_retry_or_dead split: option.split)

lemma logged_recover_queues: "logged js e \<Longrightarrow> logged js (snd (recover_queues len ns c p cnt e))"
proof (induction ns arbitrary: cnt e)
  case (Cons n ns)
  then show ?case
    by (subst recover_queues.simps) (simp add: case_prod_beta logged_recover_records split: option.split)
qed (subst recover_queues.simps, simp)

lemma logged_release_each: "logged js e \<Longrightarrow> logged js (snd (release_each due e))"
proof (induction due arbitrary: e)
  case (Cons d due)
  obtain n k where "d = (n, k)" by fastforce
  then show ?case using Cons by (simp add: Let_def case_prod_beta split: option.split)
qed simp

lemma logged_timeout_inflight: "logged js e \<Longrightarrow> logged js (snd (timeout_inflight now e))"
proof (induction "length (visibility_heap e)" arbitrary: e rule: less_induct)
  case less
  have IH: "logged js (snd (timeout_inflight now e'))"
    if "heappop (visibility_heap e) = Some (x, h)" "visibility_heap e' = h" "logged js e'" for e' x h
    using less.hyps [of e'] length_heappop that by blast
  show ?case
  proof (cases rule: timeout_cases [of now e])
    case idle
    then show ?thesis using less.prems by simp
  next
    case (stale t s n k h)
    then show ?thesis using IH [OF stale(1), of "e\<lparr>visibility_heap := h\<rparr>"] less.prems by simp
  next
    case (orphan t s n k h q r)
    then show ?thesis using IH [OF orphan(1), of "del_inflight n k (e\<lparr>visibility_heap := h\<rparr>)"] less.prems
      by (simp add: del_inflight_def)
  next
    case (fails t s n k h q r m)
    let ?e = "retry_or_dead n m True (del_inflight n k (e\<lparr>visibility_heap := h\<rparr>))"
    have "logged js ?e" using less.prems by (intro logged_retry_or_dead) simp
    then have "logged js (snd (timeout_inflight now ?e))" by (intro IH [OF fails(1)]) (simp_all add: del_inflight_def)
    then show ?thesis using fails(7) by (simp add: case_prod_beta)
  qed
qed

lemma logged_tick: "logged js e \<Longrightarrow> logged js (snd (tick now e))"
  by (simp add: tick_def release_delayed_def case_prod_beta logged_timeout_inflight logged_release_each split: option.split)

lemma logged_dlq_requeue: "logged js e \<Longrightarrow> logged js (snd (dlq_requeue n k p e))"
proof -
  let ?org = "origin_queue n" and ?d = "dlq_name (origin_queue n)"
  assume e: "logged js e"
  show ?thesis
  proof (cases "\<exists>dq oq m. get_queue ?d e = Some dq \<and> get_queue ?org e = Some oq \<and> map_of (messages dq) k = Some m")
    case False
    then show ?thesis using e by (auto simp: dlq_requeue_def Let_def split: option.split)
  next
    case True
    then obtain dq oq m where q: "get_queue ?d e = Some dq" "get_queue ?org e = Some oq" "map_of (messages dq) k = Some m"
      by (elim exE conjE)
    let ?m1 = "m\<lparr>msg_queue := ?org, attempts := 0, available_at := None\<rparr>"
    obtain res e3 where enq: "enqueue ?m1 False (take_dead_letter ?d k e) = (res, e3)"
      by (cases "enqueue ?m1 False (take_dead_letter ?d k e)") blast
    have "logged js e3" using logged_enqueue [of js "take_dead_letter ?d k e" ?m1 False] enq e by simp
    then show ?thesis
      unfolding dlq_requeue_def Let_def q option.case prod.case enq
      by (cases res) (simp_all add: logged_append replays_requeue)
  qed
qed

lemma logged_engine_step: "engine_step e e' \<Longrightarrow> logged js e \<Longrightarrow> logged js e'"
  by (induction rule: engine_step.induct)
     (simp_all add: logged_declare_queue logged_delete_queue logged_enqueue logged_reserve logged_ack logged_nack
       recover_consumer_def logged_recover_queues logged_tick logged_dlq_requeue restore_state_rest)

lemma logged_publish_loop:
  "logged js e \<Longrightarrow> logged js (snd (publish_loop pb cnt mk p ts i routed last_id e))"
proof (induction ts arbitrary: i routed last_id e)
  case (Cons t ts)
  obtain res e1 where r: "enqueue (publication_message pb cnt mk i t) p e = (res, e1)"
    by (cases "enqueue (publication_message pb cnt mk i t) p e") blast
  have "logged js e1" using logged_enqueue [OF Cons.prems, of "publication_message pb cnt mk i t" p] r by simp
  then show ?case using Cons.IH r by (cases res) (simp_all add: Let_def)
qed simp

lemma logged_bind_queue: "logged js e \<Longrightarrow> logged js (snd (snd (bind_queue x q k p (r, e))))"
  by (simp add: bind_queue_def logged_append replays_bind)

lemma logged_publish: "logged js e \<Longrightarrow> logged js (snd (snd (publish pl exch key queue ma prio hdrs mid mk p (r, e))))"
proof -
  assume e: "logged js e"
  define s1 where "s1 = (if (nonempty queue \<and> \<not> nonempty exch) \<and> get_queue (the queue) e = None
     then on_queue_declared (the queue) p (r, declare_queue (the queue) True None None None True p e) else (r, e))"
  have "logged js (snd s1)"
    using e logged_bind_queue [OF logged_declare_queue [OF e]] by (simp add: s1_def on_queue_declared_def)
  moreover obtain r1 e1 where "s1 = (r1, e1)" by (cases s1)
  ultimately show ?thesis
    unfolding publish_def Let_def snd_conv fst_conv s1_def [symmetric]
    by (simp add: case_prod_beta logged_publish_loop)
qed

lemma logged_routing_step: "routing_step s s' \<Longrightarrow> logged js (snd s) \<Longrightarrow> logged js (snd s')"
proof (induction rule: routing_step.induct)
  case (declare_exchange_step s n ty dur p)
  then show ?case
    by (cases s) (auto simp: declare_exchange_def new_exchange_def logged_append replays_exchange(1) split: option.split)
next
  case (delete_exchange_step s n p)
  then show ?case by (cases s) (simp add: delete_exchange_def logged_append replays_exchange(2))
next
  case (bind_step s x q k p)
  then show ?case by (cases s) (simp add: logged_bind_queue)
next
  case (unbind_step s x q k p)
  then show ?case by (cases s) (simp add: unbind_queue_def Let_def logged_append replays_bind)
next
  case (publish_step s pl exch key queue ma prio hdrs mid mk p)
  then show ?case by (cases s) (simp add: logged_publish)
next
  case (engine_steps e e' r)
  then show ?case by (simp add: logged_engine_step)
qed

interpretation journal: step_invariant fresh_routing routing_step "\<lambda>s. logged [] (snd s)"
proof unfold_locales
  show "logged [] (snd s)" if "fresh_routing s" for s
    using that by (auto elim!: fresh_routing.cases fresh_engine.cases simp: new_engine_def grown_def)
  show "logged [] (snd s')" if "routing_step s s'" "logged [] (snd s)" for s s'
    using that by (rule logged_routing_step)
qed

section \<open>Properties\<close>

lemma replay_total:
  assumes "\<forall>rec \<in> set recs. \<exists>j n ts. replays j \<and> rec = log_record n ts j"
  shows "fst (replay m recs l s) = Inr (last (l # map rc_seq (filter (\<lambda>rec. m < rc_seq rec) recs)))"
  using assms
proof (induction recs arbitrary: l s)
  case (Cons rec recs)
  obtain s' where "m < rc_seq rec \<Longrightarrow> apply_record rec s = (Inr (), s')"
    using Cons.prems unfolding replays_def by (metis list.set_intros(1) prod.collapse)
  then show ?case using Cons.IH Cons.prems by (cases "m < rc_seq rec") auto
qed simp

text \<open>The log is well typed for its reader: whatever the two engines have done, every entry they have
  written has the metadata that \<open>apply_record\<close> asks for, so no record of the log makes a recovery raise,
  in whatever state it is replayed, and the recovery ends with the last sequence number of the log.\<close>

theorem log_replays:
  assumes "reachable_routing (r, e)"
    "\<forall>rec \<in> set recs. \<exists>j n ts. j \<in> set (journal e) \<and> rec = log_record n ts j"
  shows "fst (replay m recs l s) = Inr (last (l # map rc_seq (filter (\<lambda>rec. m < rc_seq rec) recs)))"
proof (rule replay_total)
  have "list_all replays (journal e)" using journal.reach_safe [OF assms(1)] by (simp add: grown_def)
  then show "\<forall>rec \<in> set recs. \<exists>j n ts. replays j \<and> rec = log_record n ts j"
    using assms(2) unfolding list_all_iff by metis
qed

theorem log_replays_witness:
  "\<exists>n. fst (replay 0 (map (log_record 1 0) (journal demo_ready)) 0 (new_routing, demo_empty)) = Inr n"
proof -
  obtain r where r: "reachable_routing (r, demo_ready)" using demo_routing_reachable by blast
  have "\<forall>rec \<in> set (map (log_record 1 0) (journal demo_ready)). \<exists>j n ts. j \<in> set (journal demo_ready) \<and> rec = log_record n ts j"
    by auto
  from log_replays [OF r this, of 0 0 "(new_routing, demo_empty)"] show ?thesis by blast
qed

lemma published_message_meta:
  "published_message (publish_meta m) (payload m) e (msg_queue m) (msg_id m) = m"
  by (cases m) (simp add: published_message_def publish_meta_def get_or_def jget_def json_time_def split: option.split)

lemma apply_publish:
  assumes "get_queue (msg_queue m) e \<noteq> None" "msg_id m \<notin> dkeys (by_id e)"
  shows "apply_record (log_record n ts \<lparr>j_op = ''MESSAGE_PUBLISH'', j_meta = publish_meta m, j_payload = payload m\<rparr>) (r, e) =
    (Inr (), r, snd (enqueue m False e))"
proof -
  have items: "meta_item ''queue'' (JObj (publish_meta m)) = Inr (msg_queue m)"
    "meta_item ''id'' (JObj (publish_meta m)) = Inr (msg_id m)"
    by (simp_all add: meta_item_def publish_meta_def)
  have "apply_record (log_record n ts \<lparr>j_op = ''MESSAGE_PUBLISH'', j_meta = publish_meta m, j_payload = payload m\<rparr>) (r, e) =
      replay_publish (publish_meta m) (JObj (publish_meta m)) (payload m) (msg_queue m) (r, e)"
    by (simp add: apply_record_def log_record_def record_dict_def with_item_def items Let_def)
  then show ?thesis using assms
    by (simp add: replay_publish_def with_item_def items replay_message_def published_message_meta dkeys_iff)
qed

text \<open>C27. A publication survives in the log: the entry that a successful publication has journalled,
  replayed into any engine that has the queue, below its limit, and not yet the id, stores exactly the
  message the publication has stored - id, payload, attempts, priority, headers, exchange, routing key and
  time, and the availability time when it lies after the time of the replay; one that has passed is dropped.\<close>

theorem replayed_publication:
  assumes "enqueue m True e = (EnqOK, e')" "get_queue (msg_queue m) f = Some g" "\<not> over_limit g"
    "msg_id m \<notin> dkeys (by_id f)"
  shows "\<exists>j q m' f' g'. journal e' = journal e @ [j] \<and>
    get_queue (msg_queue m) e' = Some q \<and> map_of (messages q) (msg_id m) = Some m' \<and>
    (\<forall>n ts r. apply_record (log_record n ts j) (r, f) = (Inr (), r, f')) \<and>
    get_queue (msg_queue m) f' = Some g' \<and>
    map_of (messages g') (msg_id m) =
      Some (if \<exists>t. available_at m' = Some t \<and> clock f (clock_ix f) < t then m' else m'\<lparr>available_at := None\<rparr>) \<and>
    (\<forall>k. k \<noteq> msg_id m \<longrightarrow> map_of (messages g') k = map_of (messages g) k)"
proof -
  obtain q where q: "get_queue (msg_queue m) e = Some q" "\<not> over_limit q"
    using assms(1) enqueue_result [of m True e] by (auto split: option.splits if_splits)
  define m' where "m' = (if \<exists>t. available_at m = Some t \<and> clock e (clock_ix e) < t then m else m\<lparr>available_at := None\<rparr>)"
  define j where "j = \<lparr>j_op = ''MESSAGE_PUBLISH'', j_meta = publish_meta m', j_payload = payload m'\<rparr>"
  have m': "msg_queue m' = msg_queue m" "msg_id m' = msg_id m" "payload m' = payload m" by (simp_all add: m'_def)
  have e': "e' = snd (enqueue m True e)" using assms(1) by simp
  have stored: "\<exists>q'. get_queue (msg_queue m) e' = Some q' \<and> map_of (messages q') (msg_id m) = Some m'"
    unfolding e' enqueue_effect(1) [OF q] m'_def by simp
  have jr: "journal e' = journal e @ [j]"
    unfolding e' enqueue_effect(4) [OF q] j_def m'_def by simp
  have g: "get_queue (msg_queue m') f = Some g" using assms(2) m' by simp
  have "\<forall>n ts r. apply_record (log_record n ts j) (r, f) = (Inr (), r, snd (enqueue m' False f))"
    unfolding j_def using apply_publish [where m = m' and e = f] assms(4) g m' by simp
  moreover have "\<exists>g' m2. get_queue (msg_queue m) (snd (enqueue m' False f)) = Some g' \<and>
      messages g' = dset (msg_id m) m2 (messages g) \<and>
      m2 = (if \<exists>t. available_at m' = Some t \<and> clock f (clock_ix f) < t then m' else m'\<lparr>available_at := None\<rparr>)"
    using enqueue_effect(1) [OF g assms(3), of False] m' by auto
  ultimately show ?thesis using stored jr by fastforce
qed

theorem replayed_publication_witness:
  "\<exists>j f' g'. apply_record (log_record 1 0 j) (new_routing, demo_declared) = (Inr (), new_routing, f') \<and>
     get_queue ''jobs'' f' = Some g' \<and> ''z'' \<in> dkeys (messages g')"
proof -
  have m: "msg_queue (demo_message ''z'' 7) = ''jobs''" "msg_id (demo_message ''z'' 7) = ''z''" by (simp_all add: demo_message_def)
  have "fst (enqueue (demo_message ''z'' 7) True demo_ready) = EnqOK" by code_simp
  then obtain e' where e: "enqueue (demo_message ''z'' 7) True demo_ready = (EnqOK, e')" by (metis fst_conv prod.collapse)
  have "get_queue ''jobs'' demo_declared \<noteq> None" by code_simp
  then have g: "get_queue (msg_queue (demo_message ''z'' 7)) demo_declared = Some (demo_jobs demo_declared)" using m by auto
  have lim: "\<not> over_limit (demo_jobs demo_declared)" by code_simp
  have "by_id demo_declared = []" by (simp add: demo_declared_def demo_empty_def new_engine_def)
  then have new: "msg_id (demo_message ''z'' 7) \<notin> dkeys (by_id demo_declared)" by simp
  obtain j q m' f' g' where "\<forall>n ts r. apply_record (log_record n ts j) (r, demo_declared) = (Inr (), r, f')"
    "get_queue ''jobs'' f' = Some g'"
    "map_of (messages g') ''z'' = Some (if \<exists>t. available_at m' = Some t \<and> clock demo_declared (clock_ix demo_declared) < t
       then m' else m'\<lparr>available_at := None\<rparr>)"
    using replayed_publication [OF e g lim new] unfolding m by (elim exE conjE)
  moreover from this(3) have "''z'' \<in> dkeys (messages g')" unfolding dkeys_iff by auto
  ultimately show ?thesis by blast
qed

definition settles :: "aof_record \<Rightarrow> bool" where
  "settles rec \<longleftrightarrow> rc_op rec \<in> {''MESSAGE_ACK'', ''MESSAGE_NACK'', ''MESSAGE_DEAD''}"

lemma apply_settles:
  assumes "settles rec" "idle (snd s)" "rc_op rec = ''MESSAGE_DEAD'' \<or> (\<exists>k. meta_item ''id'' (rc_meta rec) = Inr k)"
  shows "apply_record rec s = (Inr (), s)"
  using assms by (cases s) (auto simp: settles_def apply_record_def with_item_def ack_idle nack_idle)

text \<open>C28. What the replay makes of settlements: nothing. During a recovery no message is in flight, so the
  records of acknowledgements and rejections, like those of dead letters, change nothing; the recovered state
  is the one of the log without them.\<close>

theorem replay_ignores_settlements:
  assumes "core_ok s" "idle (snd s)"
    "\<forall>rec \<in> set recs. settles rec \<longrightarrow> rc_op rec = ''MESSAGE_DEAD'' \<or> (\<exists>k. meta_item ''id'' (rc_meta rec) = Inr k)"
  shows "snd (replay m recs l s) = snd (replay m (filter (\<lambda>rec. \<not> settles rec) recs) l' s)"
  using assms
proof (induction recs arbitrary: l l' s)
  case (Cons rec recs)
  show ?case
  proof (cases "settles rec")
    case True
    then show ?thesis using Cons apply_settles [OF True Cons.prems(2)] by simp
  next
    case False
    obtain res s' where a: "apply_record rec s = (res, s')" by (cases "apply_record rec s")
    have "core_ok s'" "idle (snd s')"
      using keeps_coreD [OF keeps_apply_record Cons.prems(1), of rec] Cons.prems(2) by (simp_all add: a quiet_def)
    then show ?thesis using Cons False by (simp add: a split: sum.split)
  qed
qed simp

text \<open>The log of a queue that holds one message at a time: \<open>a\<close> is published, delivered and acknowledged,
  then \<open>b\<close> is published.\<close>

definition demo_small :: engine where
  "demo_small = declare_queue ''jobs'' True (Some 1) None None True True demo_empty"

definition demo_small_used :: engine where
  "demo_small_used = snd (reserve ''jobs'' ''c1'' (snd (enqueue (demo_message ''a'' 0) True demo_small)))"

definition demo_limited :: engine where
  "demo_limited = snd (enqueue (demo_message ''b'' 0) True (snd (ack ''a'' True demo_small_used)))"

definition demo_limited_log :: "aof_record list" where
  "demo_limited_log = map (log_record 1 0) (journal demo_limited)"

theorem replay_ignores_settlements_witness:
  "snd (replay 0 demo_limited_log 0 (new_routing, demo_empty)) =
     snd (replay 0 (filter (\<lambda>rec. \<not> settles rec) demo_limited_log) 0 (new_routing, demo_empty))"
proof (rule replay_ignores_settlements)
  show "core_ok (new_routing, demo_empty)"
    by (simp add: core_ok_def routing_ok_new demo_empty_def einv_new_engine)
  show "idle (snd (new_routing, demo_empty))" by (simp add: idle_def demo_empty_def new_engine_def)
  have "list_all (\<lambda>rec. \<not> settles rec \<or> rc_op rec = ''MESSAGE_DEAD'' \<or> (case meta_item ''id'' (rc_meta rec) of Inl _ \<Rightarrow> False | Inr _ \<Rightarrow> True)) demo_limited_log"
    by code_simp
  then show "\<forall>rec \<in> set demo_limited_log. settles rec \<longrightarrow> rc_op rec = ''MESSAGE_DEAD'' \<or> (\<exists>k. meta_item ''id'' (rc_meta rec) = Inr k)"
    unfolding list_all_iff by (metis old.sum.simps(5) sum.exhaust)
qed

text \<open>The entries of a publication and of an acknowledgement.\<close>

definition publish_entry :: "message \<Rightarrow> journal_entry" where
  "publish_entry m = \<lparr>j_op = ''MESSAGE_PUBLISH'', j_meta = publish_meta m, j_payload = payload m\<rparr>"

definition ack_entry :: "string \<Rightarrow> string \<Rightarrow> journal_entry" where
  "ack_entry k n = \<lparr>j_op = ''MESSAGE_ACK'', j_meta = [(''id'', JStr k), (''queue'', JStr n)], j_payload = []\<rparr>"

text \<open>The running broker: \<open>a\<close> is published, delivered and acknowledged, and \<open>b\<close> is published.\<close>

lemma journal_of_use:
  assumes "enqueue a True e = (EnqOK, e1)" "reserve n c e1 = (Some m, e2)" "ack (msg_id a) True e2 = (AckOK, e3)"
    "enqueue b True e3 = (EnqOK, e4)" "msg_queue a = n" "msg_queue b = n" "msg_id a \<noteq> msg_id b" "available_at a = None"
  shows "\<exists>b' q. msg_queue b' = n \<and> msg_id b' = msg_id b \<and>
    journal e4 = journal e @ [publish_entry a, ack_entry (msg_id a) n, publish_entry b'] \<and>
    get_queue n e4 = Some q \<and> msg_id a \<notin> dkeys (messages q) \<and> msg_id b \<in> dkeys (messages q)"
proof -
  obtain qe where qe: "get_queue (msg_queue a) e = Some qe" "\<not> over_limit qe"
    using assms(1) enqueue_result [of a True e] by (auto split: option.splits if_splits)
  have a: "(if \<exists>t. available_at a = Some t \<and> clock x (clock_ix x) < t then a else a\<lparr>available_at := None\<rparr>) = a" for x :: engine
    using assms(8) by (cases a) simp
  have e1: "e1 = snd (enqueue a True e)" using assms(1) by simp
  have one: "journal e1 = journal e @ [publish_entry a]" "map_of (by_id e1) (msg_id a) = Some n"
    unfolding e1 enqueue_effect(3,4) [OF qe] a publish_entry_def using assms(5) by simp_all
  have two: "journal e2 = journal e1" "by_id e2 = by_id e1"
    using assms(2) by (auto simp: reserve_def case_prod_beta Let_def next_seq_def upd_stats_def read_clock_def split: option.splits)
  obtain q3 where three: "journal e3 = journal e2 @ [ack_entry (msg_id a) n]" "get_queue n e3 = Some q3" "msg_id a \<notin> dkeys (messages q3)"
  proof (rule ack_okD [OF assms(3)])
    fix n' q r
    assume q: "map_of (by_id e2) (msg_id a) = Some n'" "msg_id a \<notin> set (recent_acks e2)" "get_queue n' e2 = Some q"
      "map_of (inflight q) (msg_id a) = Some r"
      "get_queue n' e3 = Some (q\<lparr>messages := ddel (msg_id a) (messages q), inflight := ddel (msg_id a) (inflight q),
         stats := (stats q)\<lparr>acked := Suc (acked (stats q))\<rparr>\<rparr>)"
    have n': "n' = n" using q(1) one(2) two(2) by simp
    have "journal e3 = journal e2 @ [ack_entry (msg_id a) n]"
      using assms(3) q(1-4) by (auto simp: ack_def Let_def ack_entry_def n' journal_append_def)
    then show thesis using that [of "q\<lparr>messages := ddel (msg_id a) (messages q), inflight := ddel (msg_id a) (inflight q),
         stats := (stats q)\<lparr>acked := Suc (acked (stats q))\<rparr>\<rparr>"] q(5) n' by (simp add: dkeys_iff)
  qed
  have over3: "\<not> over_limit q3" "get_queue (msg_queue b) e3 = Some q3"
    using assms(4,6) three(2) enqueue_result [of b True e3] by (auto split: option.splits if_splits)
  define b' where "b' = (if \<exists>t. available_at b = Some t \<and> clock e3 (clock_ix e3) < t then b else b\<lparr>available_at := None\<rparr>)"
  have b': "msg_queue b' = n" "msg_id b' = msg_id b" "payload b' = payload b" using assms(6) by (simp_all add: b'_def)
  have e4: "e4 = snd (enqueue b True e3)" using assms(4) by simp
  have "journal e4 = journal e3 @ [publish_entry b']"
    unfolding e4 enqueue_effect(4) [OF over3(2,1)] publish_entry_def b'(3) b'_def by simp
  moreover have "\<exists>q. get_queue n e4 = Some q \<and> msg_id a \<notin> dkeys (messages q) \<and> msg_id b \<in> dkeys (messages q)"
    using enqueue_effect(1) [OF over3(2,1), of True] three(3) assms(6,7) unfolding e4 dkeys_iff by auto
  ultimately show ?thesis using b'(1,2) one(1) two(1) three(1) by (intro exI [of _ b']) auto
qed

text \<open>The recovering broker: \<open>a\<close> comes back and fills the queue.\<close>

lemma replay_fills_queue:
  assumes "core_ok (r, f)" "idle f" "get_queue n f = Some g" "max_length (spec g) = Some (int (depth g) + 1)"
    and "msg_queue a = n" "msg_queue b = n" "msg_id a \<noteq> msg_id b" "available_at a = None"
    and "msg_id a \<notin> dkeys (by_id f)" "msg_id b \<notin> dkeys (by_id f)"
  shows "\<exists>f1 g1. get_queue n f1 = Some g1 \<and> messages g1 = dset (msg_id a) a (messages g) \<and>
    (\<forall>k t. apply_record (log_record k t (publish_entry a)) (r, f) = (Inr (), r, f1) \<and>
       apply_record (log_record k t (ack_entry (msg_id a) n)) (r, f1) = (Inr (), r, f1) \<and>
       apply_record (log_record k t (publish_entry b)) (r, f1) = (Inr (), r, f1))"
proof -
  have over: "\<not> over_limit g" using assms(4) by (simp add: over_limit_def)
  have gf: "get_queue (msg_queue a) f = Some g" using assms(3,5) by simp
  have same: "a\<lparr>available_at := None\<rparr> = a" using assms(8) by (cases a) simp
  define f1 where "f1 = snd (enqueue a False f)"
  have ra: "apply_record (log_record k t (publish_entry a)) (r, f) = (Inr (), r, f1)" for k t
    unfolding publish_entry_def f1_def by (rule apply_publish) (use assms(3,5,9) in simp_all)
  have f1: "idle f1"
    using keeps_coreD [OF keeps_apply_record assms(1), of "log_record 0 0 (publish_entry a)"] assms(2) by (simp add: ra quiet_def)
  obtain g1 where g1: "get_queue n f1 = Some g1" "messages g1 = dset (msg_id a) a (messages g)" "over_limit g1"
    using enqueue_effect(1) [OF gf over, of False] assms(4,5,8)
    by (auto simp: same f1_def over_limit_def depth_def ready_count_def inflight_count_def delayed_count_def)
  have rk: "apply_record (log_record k t (ack_entry (msg_id a) n)) (r, f1) = (Inr (), r, f1)" for k t
    by (rule apply_settles) (use f1 in \<open>simp_all add: settles_def log_record_def ack_entry_def meta_item_def\<close>)
  have "by_id f1 = dset (msg_id a) (msg_queue a) (by_id f)" unfolding f1_def by (rule enqueue_effect(3) [OF gf over])
  then have new: "msg_id b \<notin> dkeys (by_id f1)" using assms(7,10) by (auto simp: dkeys_iff simp del: image_iff)
  have "fst (enqueue b False f1) \<noteq> EnqOK" using g1(1,3) assms(6) by (simp add: enqueue_result)
  then have "snd (enqueue b False f1) = f1" by (rule enqueue_failed)
  moreover have "apply_record (log_record k t (publish_entry b)) (r, f1) = (Inr (), r, snd (enqueue b False f1))" for k t
    unfolding publish_entry_def by (rule apply_publish) (use g1(1) assms(6) new in simp_all)
  ultimately show ?thesis using g1(1,2) ra rk by auto
qed

text \<open>C29. A crash can destroy a message that was published durably and never delivered. In a queue whose limit
  has room for one more message, \<open>a\<close> is published, delivered and acknowledged, and \<open>b\<close> is published; \<open>b\<close> is then
  stored and \<open>a\<close> is not. The replay of the three records these operations have journalled, into any idle
  engine where the queue has room for one message, succeeds and stores \<open>a\<close>, which takes the place of \<open>b\<close>: \<open>b\<close> is
  dropped.\<close>

theorem acknowledged_message_crowds_out:
  assumes "enqueue a True e = (EnqOK, e1)" "reserve n c e1 = (Some m, e2)" "ack (msg_id a) True e2 = (AckOK, e3)"
    "enqueue b True e3 = (EnqOK, e4)" "msg_queue a = n" "msg_queue b = n" "msg_id a \<noteq> msg_id b" "available_at a = None"
    and "core_ok (r, f)" "idle f" "get_queue n f = Some g" "max_length (spec g) = Some (int (depth g) + 1)"
    "msg_id a \<notin> dkeys (by_id f)" "msg_id b \<notin> dkeys (by_id f)" "msg_id b \<notin> dkeys (messages g)" "m0 < n1" "m0 < n2" "m0 < n3"
  shows "\<exists>ja jk jb q f' g'. journal e4 = journal e @ [ja, jk, jb] \<and>
    get_queue n e4 = Some q \<and> msg_id a \<notin> dkeys (messages q) \<and> msg_id b \<in> dkeys (messages q) \<and>
    replay m0 [log_record n1 t1 ja, log_record n2 t2 jk, log_record n3 t3 jb] l (r, f) = (Inr n3, r, f') \<and>
    get_queue n f' = Some g' \<and> msg_id a \<in> dkeys (messages g') \<and> msg_id b \<notin> dkeys (messages g')"
proof -
  obtain b' q where b': "msg_queue b' = n" "msg_id b' = msg_id b"
    "journal e4 = journal e @ [publish_entry a, ack_entry (msg_id a) n, publish_entry b']"
    and q: "get_queue n e4 = Some q" "msg_id a \<notin> dkeys (messages q)" "msg_id b \<in> dkeys (messages q)"
    using journal_of_use [OF assms(1-8)] by blast
  have "msg_id a \<noteq> msg_id b'" "msg_id b' \<notin> dkeys (by_id f)" using b'(2) assms(7,14) by simp_all
  then obtain f1 g1 where g1: "get_queue n f1 = Some g1" "messages g1 = dset (msg_id a) a (messages g)"
    and steps: "\<And>k t. apply_record (log_record k t (publish_entry a)) (r, f) = (Inr (), r, f1)"
      "\<And>k t. apply_record (log_record k t (ack_entry (msg_id a) n)) (r, f1) = (Inr (), r, f1)"
      "\<And>k t. apply_record (log_record k t (publish_entry b')) (r, f1) = (Inr (), r, f1)"
    using replay_fills_queue [OF assms(9-12,5) b'(1) _ assms(8,13)] by blast
  have "rc_seq (log_record n t j) = n" for n t j by (simp add: log_record_def)
  then have "replay m0 [log_record n1 t1 (publish_entry a), log_record n2 t2 (ack_entry (msg_id a) n),
      log_record n3 t3 (publish_entry b')] l (r, f) = (Inr n3, r, f1)"
    using assms(16-18) steps by simp
  moreover have "msg_id a \<in> dkeys (messages g1)" "msg_id b \<notin> dkeys (messages g1)"
    using g1(2) assms(7,15) by (auto simp: dkeys_iff simp del: image_iff)
  ultimately show ?thesis using b'(3) q g1(1) by blast
qed

theorem acknowledged_message_crowds_out_witness:
  "\<exists>ja jk jb f' g'. journal demo_limited = journal demo_small @ [ja, jk, jb] \<and>
     replay 0 [log_record 1 0 ja, log_record 2 0 jk, log_record 3 0 jb] 0 (new_routing, demo_small) = (Inr 3, new_routing, f') \<and>
     get_queue ''jobs'' f' = Some g' \<and> ''a'' \<in> dkeys (messages g') \<and> ''b'' \<notin> dkeys (messages g')"
proof -
  let ?a = "demo_message ''a'' 0" and ?b = "demo_message ''b'' 0"
  have msgs: "msg_id ?a = ''a''" "msg_id ?b = ''b''" "msg_queue ?a = ''jobs''" "msg_queue ?b = ''jobs''" "available_at ?a = None"
    by (simp_all add: demo_message_def)
  have "fst (enqueue ?a True demo_small) = EnqOK" by code_simp
  then have one: "enqueue ?a True demo_small = (EnqOK, snd (enqueue ?a True demo_small))" by (simp add: prod_eq_iff)
  have "fst (reserve ''jobs'' ''c1'' (snd (enqueue ?a True demo_small))) = Some ?a" by code_simp
  then have two: "reserve ''jobs'' ''c1'' (snd (enqueue ?a True demo_small)) = (Some ?a, demo_small_used)"
    by (simp add: demo_small_used_def prod_eq_iff)
  have "fst (ack ''a'' True demo_small_used) = AckOK" by code_simp
  then have three: "ack (msg_id ?a) True demo_small_used = (AckOK, snd (ack ''a'' True demo_small_used))"
    by (simp add: msgs prod_eq_iff)
  have "fst (enqueue ?b True (snd (ack ''a'' True demo_small_used))) = EnqOK" by code_simp
  then have four: "enqueue ?b True (snd (ack ''a'' True demo_small_used)) = (EnqOK, demo_limited)"
    by (simp add: demo_limited_def prod_eq_iff)
  have "core_ok (new_routing, demo_small)"
    by (simp add: core_ok_def routing_ok_new demo_small_def demo_empty_def einv_new_engine einv_declare_queue)
  moreover have "visibility_heap demo_small = [] \<and> list_all (\<lambda>(n, q). inflight q = []) (queues demo_small)" by code_simp
  then have "idle demo_small" unfolding idle_def list_all_iff by (auto dest: map_of_SomeD)
  moreover have "get_queue ''jobs'' demo_small \<noteq> None" by code_simp
  then have "get_queue ''jobs'' demo_small = Some (demo_jobs demo_small)" by auto
  moreover have "max_length (spec (demo_jobs demo_small)) = Some (int (depth (demo_jobs demo_small)) + 1)" by code_simp
  moreover have "by_id demo_small = [] \<and> messages (demo_jobs demo_small) = []" by code_simp
  ultimately show ?thesis
    using acknowledged_message_crowds_out [OF one two three four msgs(3,4) _ msgs(5), of new_routing demo_small "demo_jobs demo_small" 0 1 2 3 0 0 0 0]
    by (simp add: msgs del: replay.simps) blast
qed

end
