(* ===== verification/Evolution.thy ===== *)
theory Evolution
  imports Replay
begin

text \<open>
  What the broker does to its two engines. The server, the handler and the consumer manager reach the
  queues, exchanges and bindings only through the operations of \<open>core/queue.py\<close> and \<open>core/routing.py\<close>:
  each step of the server is a series of such operations (\<open>server_steps_advance\<close>). Whatever these operations keep,
  the running broker therefore keeps, the form of the log included. For the commands of a client the last section
  says which operations these are: \<open>asked\<close> reads them off the request, \<open>perform\<close> is their effect, and what \<open>handle\<close>
  does besides is deliveries.
\<close>

section \<open>Steps of the two engines\<close>

inductive core_step :: "core \<Rightarrow> core \<Rightarrow> bool" where
  operation: "routing_step s s' \<Longrightarrow> core_step s s'"
| clock_read: "core_step (r, e) (r, snd (read_clock e))"

definition advances :: "broker \<Rightarrow> broker \<Rightarrow> bool" where
  "advances b b' \<longleftrightarrow> core_step\<^sup>*\<^sup>* (core_of b) (core_of b')"

lemma advances_same: "br_routing b' = br_routing b \<Longrightarrow> br_engine b' = br_engine b \<Longrightarrow> advances b b'"
  by (simp add: advances_def core_of_def)

lemma advances_refl [simp]: "advances b b"
  by (rule advances_same) simp_all

lemma advances_trans: "advances a b \<Longrightarrow> advances b c \<Longrightarrow> advances a c"
  unfolding advances_def by (rule rtranclp_trans)

lemma advances_update [simp]:
  "advances a (b\<lparr>br_consumers := cm\<rparr>) = advances a b" "advances a (b\<lparr>br_pubsub := ps\<rparr>) = advances a b"
  "advances a (b\<lparr>br_net := net\<rparr>) = advances a b" "advances a (b\<lparr>br_metrics := mt\<rparr>) = advances a b"
  "advances a (b\<lparr>br_last_slow := sl\<rparr>) = advances a b"
  by (simp_all add: advances_def core_of_def)

lemma advances_routing:
  "routing_step (core_of b) (r, e) \<Longrightarrow> advances a b \<Longrightarrow> advances a (b\<lparr>br_routing := r, br_engine := e\<rparr>)"
  by (auto simp: advances_def core_of_def intro: rtranclp.rtrancl_into_rtrancl operation)

lemma advances_with_routing:
  "(\<And>s. routing_step s (snd (f s))) \<Longrightarrow> advances a b \<Longrightarrow> advances a (snd (with_routing f b))"
  unfolding with_routing_core core_of_def [symmetric] case_prod_beta snd_conv
  by (rule advances_routing) simp_all

text \<open>Operations of the queue engine alone.\<close>

abbreviation works :: "engine \<Rightarrow> engine \<Rightarrow> bool" where
  "works \<equiv> engine_step\<^sup>*\<^sup>*"

lemma works_core: "works e e' \<Longrightarrow> core_step\<^sup>*\<^sup>* (r, e) (r, e')"
  by (induction rule: rtranclp_induct) (auto intro: rtranclp.rtrancl_into_rtrancl operation engine_steps)

lemma advances_engine: "works (br_engine b) e \<Longrightarrow> advances a b \<Longrightarrow> advances a (b\<lparr>br_engine := e\<rparr>)"
  unfolding advances_def by (auto simp: core_of_def intro: rtranclp_trans works_core)

lemma advances_with_engine: "(\<And>e. works e (snd (f e))) \<Longrightarrow> advances a b \<Longrightarrow> advances a (snd (with_engine f b))"
  by (simp add: with_engine_def case_prod_beta advances_engine)

lemma advances_with_consumers:
  "(\<And>cm e. works e (snd (snd (f (cm, e))))) \<Longrightarrow> advances a b \<Longrightarrow> advances a (snd (with_consumers f b))"
proof -
  assume w: "\<And>cm e. works e (snd (snd (f (cm, e))))" and a: "advances a b"
  have "advances a (b\<lparr>br_engine := snd (snd (f (br_consumers b, br_engine b)))\<rparr>)"
    using w a by (rule advances_engine)
  then show ?thesis by (simp add: with_consumers_def case_prod_beta advances_def core_of_def)
qed

section \<open>The consumer manager\<close>

lemma works_fold: "(\<And>x e. works e (f x e)) \<Longrightarrow> works e (fold f xs e)"
  by (induction xs arbitrary: e) (auto intro: rtranclp_trans)

lemma works_consumer_fields:
  assumes "\<And>q. \<exists>cs i. f q = q\<lparr>consumer_ids := cs, rr_index := i\<rparr>"
  shows "works e (upd_queue n f e)"
proof (cases "get_queue n e")
  case None
  then show ?thesis by (simp add: upd_queue_None)
next
  case (Some q)
  obtain cs i where "f q = q\<lparr>consumer_ids := cs, rr_index := i\<rparr>" using assms by blast
  then have "upd_queue n f e = upd_queue n (\<lambda>q. q\<lparr>consumer_ids := cs, rr_index := i\<rparr>) e"
    using Some by (simp add: upd_queue_def)
  then show ?thesis using attach_step by (metis r_into_rtranclp)
qed

lemma consumer_fields:
  "q\<lparr>consumer_ids := cs\<rparr> = q\<lparr>consumer_ids := cs, rr_index := rr_index q\<rparr>"
  "q\<lparr>rr_index := i\<rparr> = q\<lparr>consumer_ids := consumer_ids q, rr_index := i\<rparr>"
  "q = q\<lparr>consumer_ids := consumer_ids q, rr_index := rr_index q\<rparr>"
  by simp_all

lemma works_attach: "works e (attach_consumer c n e)" "works e (detach_consumer c n e)" "works e (turn n i e)"
proof -
  have "works e (declare_queue n True None None None True True e)" using declare_step by blast
  moreover have "works f (upd_queue n (\<lambda>q. if c \<in> set (consumer_ids q) then q else q\<lparr>consumer_ids := consumer_ids q @ [c]\<rparr>) f)" for f
    by (rule works_consumer_fields) (metis consumer_fields(1,3))
  ultimately show "works e (attach_consumer c n e)" unfolding attach_consumer_def by (rule rtranclp_trans)
  show "works e (detach_consumer c n e)" unfolding detach_consumer_def
    by (rule works_consumer_fields) (metis consumer_fields(1))
  show "works e (turn n i e)" unfolding turn_def by (rule works_consumer_fields) (metis consumer_fields(2))
qed

lemma works_register: "works e (snd (snd (register c conn qs p tag (cm, e))))"
  by (simp add: register_def Let_def case_prod_beta works_fold works_attach)

lemma works_cancel: "works e (snd (snd (cancel_consumer c r (cm, e))))"
proof (cases "map_of (consumers cm) c")
  case (Some con)
  let ?e = "fold (detach_consumer c) (con_queues con) e"
  have d: "works e ?e" by (intro works_fold works_attach)
  have "works e (snd (recover_consumer c True ?e))" using recover_step by (rule rtranclp.rtrancl_into_rtrancl [OF d])
  then show ?thesis using Some d by (auto simp: cancel_consumer_def Let_def split: prod.split sum.split)
qed (simp add: cancel_consumer_def)

lemma works_cancel_each: "works (snd s) (snd (snd (cancel_each cs n s)))"
proof (induction cs arbitrary: n s)
  case (Cons c cs)
  obtain x s1 where r: "cancel_consumer c True s = (x, s1)" by (cases "cancel_consumer c True s") blast
  have one: "works (snd s) (snd s1)" using works_cancel [of "snd s" c True "fst s"] r by simp
  then have "works (snd s) (snd (snd (cancel_each cs n' s1)))" for n' using Cons.IH by (rule rtranclp_trans)
  then show ?case using one r by (cases x) simp_all
qed simp

lemma works_deliver_to: "works e (snd (snd (deliver_to qn c (cm, e))))"
  using reserve_step [of e qn c] by (auto simp: deliver_to_def Let_def case_prod_beta split: option.split)

lemma works_try_loop: "works e (snd (snd (try_loop i cids qn (cm, e))))"
proof (induction i arbitrary: e)
  case (Suc i)
  have t: "works e (turn qn 1 e)" by (rule works_attach)
  show ?case
    using rtranclp_trans [OF t Suc.IH] rtranclp_trans [OF t works_deliver_to] by (simp add: Let_def split: option.split)
qed simp

lemma works_try_reserve: "works e (snd (snd (try_reserve qn (cm, e))))"
  by (simp add: try_reserve_def works_try_loop split: option.split)

lemma works_steps:
  "works e (snd (delete_queue n p e))" "works e (snd (enqueue m p e))" "works e (snd (ack k p e))"
  "works e (snd (nack k rq p e))" "works e (snd (tick now e))" "works e (snd (dlq_requeue n k p e))"
  by (blast intro: engine_step.intros)+

section \<open>Commands\<close>

lemma advances_pump_queue: "advances a b \<Longrightarrow> advances a (pump_queue qn b)"
proof (rule pump_queue_keeps [where P = "advances a"])
  show "advances a b \<Longrightarrow> advances a (snd (with_consumers (try_reserve qn) b))" for b
    by (rule advances_with_consumers [OF works_try_reserve])
  show "advances a b \<Longrightarrow> advances a (take_back c m b)" for c m b
    by (simp add: take_back_def Let_def advances_with_engine works_steps)
qed simp_all

lemma advances_pump_all: "advances a b \<Longrightarrow> advances a (pump_all qns b)"
  unfolding pump_all_def by (induction qns arbitrary: b) (simp_all add: advances_pump_queue)

definition moves :: "command \<Rightarrow> bool" where
  "moves f \<longleftrightarrow> (\<forall>ou rid meta pl cx b. advances b (snd (snd (f ou rid meta pl (cx, b)))))"

lemma movesI: "(\<And>ou rid meta pl cx b. advances b (snd (snd (f ou rid meta pl (cx, b))))) \<Longrightarrow> moves f"
  unfolding moves_def by blast

lemma moves_reports:
  "moves cmd_ping" "moves cmd_auth" "moves cmd_info" "moves cmd_queue_info" "moves cmd_list_queues"
  "moves cmd_dlq_info" "moves cmd_stats" "moves cmd_list_channels" "moves cmd_list_consumers"
proof -
  show "moves cmd_ping" "moves cmd_auth" "moves cmd_info" "moves cmd_queue_info" "moves cmd_list_queues" "moves cmd_dlq_info"
    by (rule movesI, simp add: cmd_ping_def cmd_auth_def cmd_info_def cmd_queue_info_def cmd_list_queues_def
        cmd_dlq_info_def Let_def split: option.split sum.split)+
  show "moves cmd_stats" "moves cmd_list_channels"
    by (rule movesI, simp add: cmd_stats_def broker_stats_def cmd_list_channels_def Let_def case_prod_beta)+
  have "advances b (snd (with_engine read_clock b))" for b
    using clock_read by (auto simp: advances_def core_of_def with_engine_def case_prod_beta)
  then show "moves cmd_list_consumers"
    by (intro movesI) (simp add: cmd_list_consumers_def list_consumers_report_def Let_def case_prod_beta)
qed

lemma moves_routing: "moves cmd_declare_exchange" "moves cmd_delete_exchange" "moves cmd_bind" "moves cmd_unbind"
proof -
  note steps = advances_with_routing [OF declare_exchange_step] advances_with_routing [OF delete_exchange_step]
    advances_with_routing [OF bind_step] advances_with_routing [OF unbind_step]
  show "moves cmd_declare_exchange"
    by (rule movesI) (simp add: cmd_declare_exchange_def Let_def case_prod_beta steps split: sum.split py_error.split)
  show "moves cmd_delete_exchange" "moves cmd_bind" "moves cmd_unbind"
    by (rule movesI, simp add: cmd_delete_exchange_def cmd_bind_def cmd_unbind_def case_prod_beta steps split: bool.split)+
qed

lemma advances_declare:
  assumes "on_queue_declared n p (br_routing b, declare_queue n dur ml vt ma dl q (br_engine b)) = (rt, e)" "advances a b"
  shows "advances a (b\<lparr>br_routing := rt, br_engine := e\<rparr>)"
proof -
  let ?b = "b\<lparr>br_engine := declare_queue n dur ml vt ma dl q (br_engine b)\<rparr>"
  have "advances a ?b" using assms(2) by (rule advances_engine [rotated]) (use declare_step in blast)
  moreover have "routing_step (core_of ?b) (rt, e)"
    using bind_step [of "core_of ?b" DEFAULT_EXCHANGE n n p] assms(1) by (simp add: on_queue_declared_def core_of_def)
  ultimately have "advances a (?b\<lparr>br_routing := rt, br_engine := e\<rparr>)" by (rule advances_routing [rotated])
  then show ?thesis by simp
qed

lemma advances_declare_missing: "advances a b \<Longrightarrow> advances a (declare_missing n b)"
  by (auto simp: declare_missing_def advances_declare split: prod.split)

lemma moves_queues: "moves cmd_declare_queue" "moves cmd_delete_queue" "moves cmd_dlq_requeue"
proof -
  show "moves cmd_declare_queue"
    by (rule movesI) (auto simp: cmd_declare_queue_def Let_def advances_declare split: prod.split)
  show "moves cmd_delete_queue"
    by (rule movesI) (simp add: cmd_delete_queue_def case_prod_beta advances_with_engine works_steps split: bool.split)
  show "moves cmd_dlq_requeue"
    by (rule movesI)
       (simp add: cmd_dlq_requeue_def Let_def case_prod_beta advances_pump_queue advances_with_engine works_steps split: bool.split)
qed

lemma moves_publish: "moves cmd_publish"
  by (rule movesI)
     (simp add: cmd_publish_def case_prod_beta advances_pump_all advances_with_routing [OF publish_step] split: sum.split)

lemma advances_register: "advances a b \<Longrightarrow> advances a (snd (with_consumers (register c conn qs p tag) b))"
  by (rule advances_with_consumers [OF works_register])

lemma moves_consume: "moves cmd_consume" "moves cmd_get" "moves cmd_cancel" "moves cmd_qos"
proof -
  have "advances a (fold declare_missing qns b)" if "advances a b" for a b qns
    using that by (induction qns arbitrary: b) (simp_all add: advances_declare_missing)
  then show "moves cmd_consume"
    by (intro movesI) (simp add: cmd_consume_def Let_def advances_register advances_pump_all split: sum.split)
  have "advances b (ensure_getter c conn qn p b)" for c conn qn p b
    by (simp add: ensure_getter_def advances_register set_consumer_prefetch_def split: option.split)
  then show "moves cmd_get"
    by (intro movesI)
       (simp add: cmd_get_def Let_def case_prod_beta advances_with_consumers [OF works_try_reserve] split: sum.split option.split)
  show "moves cmd_cancel"
    by (rule movesI)
       (simp add: cmd_cancel_def Let_def case_prod_beta advances_with_consumers [OF works_cancel] split: sum.split bool.split)
  show "moves cmd_qos"
    by (rule movesI)
       (simp add: cmd_qos_def set_connection_prefetch_def Let_def case_prod_beta split: sum.split bool.split)
qed

lemma moves_settle: "moves cmd_ack" "moves cmd_nack"
proof -
  have "advances a b \<Longrightarrow> advances a (settle_consumer who b)" for a b who
    by (simp add: settle_consumer_def Let_def advances_pump_all split: option.split)
  then show "moves cmd_ack" "moves cmd_nack"
    by (auto intro!: movesI simp: cmd_ack_def cmd_nack_def Let_def case_prod_beta advances_with_engine works_steps
        split: ack_result.split nack_result.split)
qed

lemma moves_channels: "moves cmd_subscribe" "moves cmd_unsubscribe" "moves cmd_publish_channel"
  by (rule movesI, simp add: cmd_subscribe_def cmd_unsubscribe_def cmd_publish_channel_def Let_def case_prod_beta)+

lemmas moves_commands = moves_reports moves_routing moves_queues moves_publish moves_consume moves_settle moves_channels

lemma advances_handle: "advances b (snd (snd (handle ou rid meta pl (cx, b))))"
proof -
  have "moves f" if "map_of commands c = Some f" for c f
    using map_of_SomeD [OF that] by (auto simp: commands_def moves_commands)
  then have "advances b (snd (snd (f ou rid meta pl (cx, b))))" if "map_of commands c = Some f" for c f
    using that unfolding moves_def by blast
  then show ?thesis by (simp add: handle_def Let_def case_prod_beta split: option.split sum.split)
qed

section \<open>The server\<close>

text \<open>The parts of a server step that are not commands.\<close>

lemma server_core [simp]:
  "core_of (sv_broker (upd_session i f sv)) = core_of (sv_broker sv)"
  "core_of (sv_broker (set_phase i p sv)) = core_of (sv_broker sv)"
  "core_of (sv_broker (put_conn i c sv)) = core_of (sv_broker sv)"
  "core_of (sv_broker (start_server sv)) = core_of (sv_broker sv)"
  "core_of (sv_broker (on_connection i sv)) = core_of (sv_broker sv)"
  "core_of (sv_broker (loop_top i sv)) = core_of (sv_broker sv)"
  by (simp_all add: upd_session_def set_phase_def put_conn_def set_broker_def start_server_def on_connection_def
      loop_top_def core_of_def Let_def split: option.split)

lemma core_own_try_send [simp]: "core_of (sv_broker (snd (own_try_send i f sv))) = core_of (sv_broker sv)"
  by (simp add: own_try_send_def case_prod_beta split: option.split)

lemma core_set_broker [simp]: "core_of (sv_broker (set_broker b sv)) = core_of b"
  by (simp add: set_broker_def)

lemma core_update [simp]:
  "core_of (b\<lparr>br_metrics := mt\<rparr>) = core_of b" "core_of (b\<lparr>br_net := net\<rparr>) = core_of b"
  "core_of (b\<lparr>br_last_slow := sl\<rparr>) = core_of b" "core_of (b\<lparr>br_pubsub := ps\<rparr>) = core_of b"
  by (simp_all add: core_of_def)

lemma core_disconnect_slow [simp]: "core_of (sv_broker (fold disconnect_slow xs sv)) = core_of (sv_broker sv)"
proof (induction xs arbitrary: sv)
  case (Cons x xs)
  have "core_of (sv_broker (disconnect_slow x sv)) = core_of (sv_broker sv)"
    by (simp add: disconnect_slow_def split: option.split)
  then show ?case using Cons.IH by simp
qed simp

lemma core_write_one [simp]: "core_of (sv_broker (write_one dumps i sv)) = core_of (sv_broker sv)"
  by (simp add: write_one_def Let_def split: option.split list.split)

lemma advances_on_frame: "advances (sv_broker sv) (sv_broker (on_frame loads ou i f rest s sv))"
proof -
  have "core_step\<^sup>*\<^sup>* (core_of (sv_broker sv)) (core_of (snd (snd (handle ou rid meta pl (cx, sv_broker sv)))))"
    for rid meta pl cx using advances_handle by (simp add: advances_def)
  then show ?thesis
    by (simp add: on_frame_def advances_def case_prod_beta split: sum.split bool.split)
qed

lemma advances_drop: "advances (sv_broker sv) (sv_broker (snd (drop_connection order order' i sv)))"
proof -
  have "works e (snd (snd (disconnect_connection order' i (cm, e))))" for cm e
    using works_cancel_each [of "(cm, e)"] by (simp add: disconnect_connection_def)
  then have "advances (sv_broker sv) (snd (with_consumers (disconnect_connection order' i)
      ((sv_broker sv)\<lparr>br_net := ddel i (br_net (sv_broker sv)), br_pubsub := disconnect order i (br_pubsub (sv_broker sv))\<rparr>)))"
    by (rule advances_with_consumers) simp
  then show ?thesis
    by (auto simp: drop_connection_def advances_def Let_def split: option.split sum.split prod.split)
qed

lemma advances_ticker: "advances (sv_broker sv) (sv_broker (ticker_round sv))"
  by (simp add: ticker_round_def Let_def set_broker_def advances_pump_all advances_with_engine works_steps)

lemma core_stop_end: "core_of (sv_broker (stop_end sv)) = core_of (sv_broker sv)"
proof -
  have "core_of (sv_broker (fold (\<lambda>(i, c). upd_session i (g c)) xs sv)) = core_of (sv_broker sv)" for g xs
    by (induction xs arbitrary: sv) (simp_all add: case_prod_beta)
  then show ?thesis by (simp add: stop_end_def Let_def)
qed

lemma server_steps_advance:
  "server_step loads dumps sv sv' \<Longrightarrow> core_step\<^sup>*\<^sup>* (core_of (sv_broker sv)) (core_of (sv_broker sv'))"
proof (induction rule: server_step.induct)
  case (data sv i s bs)
  show ?case by (simp add: on_data_def Let_def split: sum.split prod.split)
next
  case (frame sv i s f rest ou)
  show ?case using advances_on_frame by (simp add: advances_def)
next
  case (leaving i sv order order')
  show ?case using advances_drop [of sv order order' i] by (simp add: advances_def leave_def case_prod_beta)
next
  case (drop_task i sv order order')
  show ?case using advances_drop [of sv order order' i] by (simp add: advances_def)
next
  case (ticking sv)
  show ?case using advances_ticker by (simp add: advances_def)
qed (simp_all add: after_wait_def speak_def stop_begin_def core_stop_end Let_def)

section \<open>What a command does\<close>

text \<open>The operations of the two engines, as requests for them: the abstract commands. Each of them is journalled.\<close>

datatype operation =
    Declares string "int option" "time option" "int option"
  | Declares_missing string
  | Deletes string
  | Declares_exchange string string
  | Deletes_exchange string
  | Binds string string string
  | Unbinds string string string
  | Publishes bytes "string option" string "string option" "int option" int json "string option" "nat \<Rightarrow> string \<times> time"
  | Acks string
  | Nacks string bool
  | Requeues string string
  | Attaches string string
  | Detaches string string
  | Recovers string
  | Reads_clock








text \<open>A delivery: the turn of the consumers of a queue goes on, a message is reserved for a consumer of its queue,
  and a reserved message that could not be sent is requeued at once.\<close>

inductive delivery :: "engine \<Rightarrow> engine \<Rightarrow> bool" where
  turned: "delivery e (turn n 1 e)"
| handed: "get_queue n e = Some q \<Longrightarrow> c \<in> set (consumer_ids q) \<Longrightarrow> delivery e (snd (reserve n c e))"
| refused: "get_queue n e = Some q \<Longrightarrow> c \<in> set (consumer_ids q) \<Longrightarrow> reserve n c e = (Some m, e1) \<Longrightarrow>
    delivery e (snd (nack (msg_id m) True True e1))"

definition delivers :: "core \<Rightarrow> core \<Rightarrow> bool" where
  "delivers s s' \<longleftrightarrow> fst s' = fst s \<and> delivery\<^sup>*\<^sup>* (snd s) (snd s')"

lemma delivers_refl [simp]: "delivers s s"
  by (simp add: delivers_def)




lemma core_consumers [simp]: "core_of (b\<lparr>br_consumers := cm\<rparr>) = core_of b"
  by (simp add: core_of_def)























end
