(* ===== verification/SnapshotFile.thy ===== *)
theory SnapshotFile
  imports Recovery
begin

text \<open>
  \<open>persistence/snapshot.py\<close>: the file that holds a snapshot, and the recovery from it.

  \<open>runtime.snapshot()\<close> is a \<open>runtime_snap\<close>. Before it is written, the payloads are taken out of the messages
  and replaced by their indices; what remains, with the sequence number, is what \<open>json.dumps\<close> writes and
  \<open>json.loads\<close> reads: the parameters \<open>dumps\<close> and \<open>loads\<close>, the latter \<open>None\<close> for an exception. The time of
  creation is the 64 bits of a float that nobody reads. A file is its bytes, \<open>None\<close> when it does not exist.
\<close>

section \<open>The state without its payloads\<close>

text \<open>A message whose payload is elsewhere has the payload \<open>[]\<close> here.\<close>

record file_message =
  fm_snap :: message_snap
  fm_index :: "int option"

record file_queue =
  fq_spec :: queue_spec
  fq_messages :: "file_message list"
  fq_stats :: stats_snap

record file_state =
  fs_queues :: "file_queue list"
  fs_seq :: int
  fs_routing :: routing_snap

definition set_payload :: "bytes \<Rightarrow> message_snap \<Rightarrow> message_snap" where
  "set_payload p x = x\<lparr>ms_message := (ms_message x)\<lparr>payload := p\<rparr>\<rparr>"

text \<open>\<open>_extract\<close>, for the messages of one queue and then for all queues.\<close>

fun extract_messages :: "message_snap list \<Rightarrow> bytes list \<Rightarrow> file_message list \<times> bytes list" where
  "extract_messages [] payloads = ([], payloads)"
| "extract_messages (x # xs) payloads =
     (case extract_messages xs (payloads @ [payload (ms_message x)]) of
        (fms, payloads') \<Rightarrow>
          (\<lparr>fm_snap = set_payload [] x, fm_index = Some (int (length payloads))\<rparr> # fms, payloads'))"

fun extract_queues :: "queue_snap list \<Rightarrow> bytes list \<Rightarrow> file_queue list \<times> bytes list" where
  "extract_queues [] payloads = ([], payloads)"
| "extract_queues (q # qs) payloads =
     (case extract_messages (qs_messages q) payloads of
        (fms, payloads1) \<Rightarrow>
          (case extract_queues qs payloads1 of
             (fqs, payloads2) \<Rightarrow>
               (\<lparr>fq_spec = qs_spec q, fq_messages = fms, fq_stats = qs_stats q\<rparr> # fqs, payloads2)))"

definition file_state_of :: "runtime_snap \<Rightarrow> file_state" where
  "file_state_of st =
     \<lparr>fs_queues = fst (extract_queues (es_queues (sn_queues st)) []), fs_seq = es_seq (sn_queues st),
      fs_routing = sn_routing st\<rparr>"

section \<open>Writing\<close>

definition SNAP_MAGIC :: bytes where
  "SNAP_MAGIC = [0x4F, 0x53, 0x4E, 0x50]"

definition SNAP_VERSION :: int where "SNAP_VERSION = 1"

definition SNAP_HEADER_SIZE :: nat where "SNAP_HEADER_SIZE = 33"

definition snap_widths :: "nat list" where
  "snap_widths = [1, 8, 8, 4, 4, 4]"

fun pack_payloads :: "bytes list \<Rightarrow> py_error + bytes" where
  "pack_payloads [] = Inr []"
| "pack_payloads (p # ps) =
     (case pack_fields [(4, int (length p))] of
        Inl err \<Rightarrow> Inl err
      | Inr len \<Rightarrow> (case pack_payloads ps of Inl err \<Rightarrow> Inl err | Inr rest \<Rightarrow> Inr (len @ p @ rest)))"

definition snapshot_bytes ::
  "(int \<Rightarrow> file_state \<Rightarrow> bytes) \<Rightarrow> 64 word \<Rightarrow> int \<Rightarrow> runtime_snap \<Rightarrow> py_error + bytes" where
  "snapshot_bytes dumps created aof_seq st =
     (let meta = dumps aof_seq (file_state_of st) in
      case pack_payloads (snd (extract_queues (es_queues (sn_queues st)) [])) of
        Inl err \<Rightarrow> Inl err
      | Inr packed \<Rightarrow>
          (case pack_fields (zip snap_widths [SNAP_VERSION, uint created, aof_seq, int (length meta),
                                              int (length packed), uint (crc32 (meta @ packed))]) of
             Inl err \<Rightarrow> Inl err
           | Inr header \<Rightarrow> Inr (SNAP_MAGIC @ header @ meta @ packed)))"

text \<open>The files \<open>snapshot.dat\<close> and \<open>snapshot.dat.tmp\<close> while \<open>write_snapshot\<close> runs: the bytes go to the second
  one, as far as the file system has come, and \<open>os.replace\<close> swaps it in at once.\<close>

definition write_states :: "bytes option \<Rightarrow> bytes \<Rightarrow> (bytes option \<times> bytes option) list" where
  "write_states old data = map (\<lambda>k. (old, Some (take k data))) [0..<Suc (length data)] @ [(Some data, None)]"

section \<open>Reading\<close>

function read_payloads :: "bytes \<Rightarrow> bytes list" where
  "read_payloads packed =
     (if length packed < 4 then []
      else
        (let n = unbe (take 4 packed); rest = drop 4 packed
         in take n rest # read_payloads (drop n rest)))"
  by pat_completeness auto
termination by (relation "measure length") auto

declare read_payloads.simps [simp del]

definition fill_message :: "bytes list \<Rightarrow> file_message \<Rightarrow> message_snap" where
  "fill_message payloads x =
     (case fm_index x of
        None \<Rightarrow> fm_snap x
      | Some i \<Rightarrow> if 0 \<le> i \<and> i < int (length payloads) then set_payload (payloads ! nat i) (fm_snap x) else fm_snap x)"

definition fill_queue :: "bytes list \<Rightarrow> file_queue \<Rightarrow> queue_snap" where
  "fill_queue payloads q =
     \<lparr>qs_spec = fq_spec q, qs_messages = map (fill_message payloads) (fq_messages q), qs_stats = fq_stats q\<rparr>"

definition fill_state :: "bytes list \<Rightarrow> file_state \<Rightarrow> runtime_snap" where
  "fill_state payloads fs =
     \<lparr>sn_queues = \<lparr>es_queues = map (fill_queue payloads) (fs_queues fs), es_seq = fs_seq fs\<rparr>,
      sn_routing = fs_routing fs\<rparr>"

definition read_snapshot ::
  "(bytes \<Rightarrow> (int \<times> file_state) option) \<Rightarrow> bytes option \<Rightarrow> py_error + (int \<times> runtime_snap) option" where
  "read_snapshot loads file =
     (case file of
        None \<Rightarrow> Inr None
      | Some data \<Rightarrow>
          if length data < SNAP_HEADER_SIZE then Inr None
          else
            (case unpack_fields snap_widths (drop 4 (take SNAP_HEADER_SIZE data)) of
               [ver, created, aof_seq, ml, bl, crc] \<Rightarrow>
                 if take 4 data \<noteq> SNAP_MAGIC \<or> ver \<noteq> SNAP_VERSION then Inr None
                 else
                   (let body = take (nat ml + nat bl) (drop SNAP_HEADER_SIZE data) in
                    if length body \<noteq> nat ml + nat bl then Inr None
                    else if uint (crc32 body) \<noteq> crc then Inr None
                    else
                      (case loads (take (nat ml) body) of
                         None \<Rightarrow> Inl (ValueError ''json'')
                       | Some (n, fs) \<Rightarrow> Inr (Some (n, fill_state (read_payloads (drop (nat ml) body)) fs))))))"

section \<open>Recovery from the directory\<close>

definition recover_directory ::
  "(bytes \<Rightarrow> json option) \<Rightarrow> (bytes \<Rightarrow> (int \<times> file_state) option) \<Rightarrow> bytes option \<Rightarrow> bytes option \<Rightarrow> broker \<Rightarrow>
   (py_error + int) \<times> bytes option \<times> broker" where
  "recover_directory loads sloads snap_file aof_file b =
     (case read_snapshot sloads snap_file of
        Inl err \<Rightarrow> (Inl err, aof_file, b)
      | Inr snap \<Rightarrow> recover_into loads snap aof_file b)"

section \<open>The file as a codec\<close>

lemma pack_payloads_ok:
  "pack_payloads ps = Inr packed \<Longrightarrow> read_payloads packed = ps"
proof (induction ps arbitrary: packed)
  case Nil
  then show ?case by (simp add: read_payloads.simps)
next
  case (Cons p ps)
  have small: "length p < 256 ^ 4"
    using Cons.prems by (auto simp: pack_fields.simps split: if_splits)
  then obtain rest where rest: "pack_payloads ps = Inr rest" "packed = be 4 (length p) @ p @ rest"
    using Cons.prems by (auto split: if_splits sum.splits)
  have "unbe (take 4 packed) = length p" using small by (simp add: rest(2))
  then show ?case using Cons.IH [OF rest(1)] by (subst read_payloads.simps) (simp add: rest(2) Let_def)
qed

lemma extract_messages_grows:
  "extract_messages xs ps = (fms, ps') \<Longrightarrow> \<exists>new. ps' = ps @ new"
  by (induction xs arbitrary: ps fms ps') (fastforce split: prod.splits)+

lemma extract_queues_grows:
  "extract_queues qs ps = (fqs, ps') \<Longrightarrow> \<exists>new. ps' = ps @ new"
proof (induction qs arbitrary: ps fqs ps')
  case (Cons q qs)
  obtain fms ps1 fqs1 where e: "extract_messages (qs_messages q) ps = (fms, ps1)" "extract_queues qs ps1 = (fqs1, ps')"
    using Cons.prems by (auto split: prod.splits)
  show ?case using extract_messages_grows [OF e(1)] Cons.IH [OF e(2)] by auto
qed simp

lemma set_payload_back: "set_payload (payload (ms_message x)) (set_payload [] x) = x"
  by (simp add: set_payload_def)

lemma fill_extracted:
  "extract_messages xs ps = (fms, ps') \<Longrightarrow> map (fill_message (ps' @ rest)) fms = xs"
proof (induction xs arbitrary: ps fms ps')
  case (Cons x xs)
  obtain fms1 where e: "extract_messages xs (ps @ [payload (ms_message x)]) = (fms1, ps')"
    and fms: "fms = \<lparr>fm_snap = set_payload [] x, fm_index = Some (int (length ps))\<rparr> # fms1"
    using Cons.prems by (auto split: prod.splits)
  obtain new where "ps' = (ps @ [payload (ms_message x)]) @ new" using extract_messages_grows [OF e] by blast
  then have "length ps < length (ps' @ rest)" "(ps' @ rest) ! length ps = payload (ms_message x)"
    by (simp_all add: nth_append)
  then show ?case using Cons.IH [OF e] by (simp add: fms fill_message_def set_payload_back)
qed simp

lemma fill_extracted_queues:
  "extract_queues qs ps = (fqs, ps') \<Longrightarrow> map (fill_queue (ps' @ rest)) fqs = qs"
proof (induction qs arbitrary: ps fqs ps')
  case (Cons q qs)
  obtain fms ps1 fqs1 where e: "extract_messages (qs_messages q) ps = (fms, ps1)" "extract_queues qs ps1 = (fqs1, ps')"
    and fqs: "fqs = \<lparr>fq_spec = qs_spec q, fq_messages = fms, fq_stats = qs_stats q\<rparr> # fqs1"
    using Cons.prems by (auto split: prod.splits)
  obtain new where "ps' = ps1 @ new" using extract_queues_grows [OF e(2)] by blast
  then have "map (fill_message (ps' @ rest)) fms = qs_messages q"
    using fill_extracted [OF e(1), of "new @ rest"] by simp
  then show ?case using Cons.IH [OF e(2)] by (simp add: fqs fill_queue_def)
qed simp

lemma fill_file_state:
  "fill_state (snd (extract_queues (es_queues (sn_queues st)) [])) (file_state_of st) = st"
proof -
  obtain fqs ps where e: "extract_queues (es_queues (sn_queues st)) [] = (fqs, ps)"
    by (cases "extract_queues (es_queues (sn_queues st)) []")
  show ?thesis using fill_extracted_queues [OF e, of "[]"] by (simp add: fill_state_def file_state_of_def e)
qed

lemma snapshot_bytes_parts:
  assumes "snapshot_bytes dumps created n st = Inr data"
  obtains meta packed header where "meta = dumps n (file_state_of st)"
    "pack_payloads (snd (extract_queues (es_queues (sn_queues st)) [])) = Inr packed"
    "data = SNAP_MAGIC @ header @ meta @ packed" "length header = 29"
    "unpack_fields snap_widths header =
       [SNAP_VERSION, uint created, n, int (length meta), int (length packed), uint (crc32 (meta @ packed))]"
proof -
  let ?meta = "dumps n (file_state_of st)"
  obtain packed where p: "pack_payloads (snd (extract_queues (es_queues (sn_queues st)) [])) = Inr packed"
    using assms by (auto simp: snapshot_bytes_def Let_def split: sum.splits)
  let ?vals = "[SNAP_VERSION, uint created, n, int (length ?meta), int (length packed), uint (crc32 (?meta @ packed))]"
  let ?fs = "zip snap_widths ?vals"
  obtain header where h: "pack_fields ?fs = Inr header" and data: "data = SNAP_MAGIC @ header @ ?meta @ packed"
    using assms p by (auto simp: snapshot_bytes_def Let_def split: sum.splits)
  have ok: "fields_ok ?fs" using h pack_fields_error [of ?fs] by auto
  have header: "header = concat (map (\<lambda>(n, v). be n (nat v)) ?fs)" using h pack_fields_ok [OF ok] by simp
  have "length header = 29" unfolding header length_packed by (simp add: snap_widths_def)
  moreover have "unpack_fields snap_widths header = ?vals"
    using unpack_packed [OF ok, of "[]"] unfolding header by (simp add: snap_widths_def)
  ultimately show ?thesis using that [OF refl p data] by blast
qed

lemma read_snapshot_bytes:
  assumes "length header = 29"
    "unpack_fields snap_widths header = [SNAP_VERSION, ts, n, int (length meta), int (length packed), uint (crc32 (meta @ packed))]"
    "body = take k (meta @ packed)"
  shows "read_snapshot loads (Some (SNAP_MAGIC @ header @ body)) =
    (if k < length (meta @ packed) then Inr None
     else (case loads meta of
             None \<Rightarrow> Inl (ValueError ''json'')
           | Some (m, fs) \<Rightarrow> Inr (Some (m, fill_state (read_payloads packed) fs))))"
proof -
  have sizes: "length SNAP_MAGIC = 4" "SNAP_HEADER_SIZE = 33" by (simp_all add: SNAP_MAGIC_def SNAP_HEADER_SIZE_def)
  have parts: "take 4 (SNAP_MAGIC @ header @ body) = SNAP_MAGIC"
    "drop 4 (take SNAP_HEADER_SIZE (SNAP_MAGIC @ header @ body)) = header"
    "drop SNAP_HEADER_SIZE (SNAP_MAGIC @ header @ body) = body"
    "\<not> length (SNAP_MAGIC @ header @ body) < SNAP_HEADER_SIZE"
    using sizes assms(1) by simp_all
  have len: "length body = min k (length (meta @ packed))" using assms(3) by simp
  then have all: "take (length meta + length packed) body = body" by simp
  show ?thesis
  proof (cases "k < length (meta @ packed)")
    case True
    then have "length body \<noteq> length meta + length packed" using len by simp
    then show ?thesis using True
      unfolding read_snapshot_def option.case parts if_not_P [OF parts(4)] assms(2) list.case Let_def nat_int all by simp
  next
    case False
    then have body: "body = meta @ packed" using assms(3) by simp
    have whole: "take (length meta + length packed) (meta @ packed) = meta @ packed"
      "take (length meta) (meta @ packed) = meta" "drop (length meta) (meta @ packed) = packed" by simp_all
    show ?thesis
      unfolding body read_snapshot_def option.case parts [unfolded body] if_not_P [OF parts(4) [unfolded body]]
        assms(2) list.case Let_def nat_int whole if_not_P [OF False]
      by simp
  qed
qed

lemma read_written:
  assumes "snapshot_bytes dumps created n st = Inr data"
    "loads (dumps n (file_state_of st)) = Some (n, file_state_of st)"
  shows "read_snapshot loads (Some data) = Inr (Some (n, st))"
proof -
  obtain meta packed header where p: "meta = dumps n (file_state_of st)"
    "pack_payloads (snd (extract_queues (es_queues (sn_queues st)) [])) = Inr packed"
    "data = SNAP_MAGIC @ header @ meta @ packed" "length header = 29"
    "unpack_fields snap_widths header =
       [SNAP_VERSION, uint created, n, int (length meta), int (length packed), uint (crc32 (meta @ packed))]"
    by (rule snapshot_bytes_parts [OF assms(1)])
  show ?thesis
    using read_snapshot_bytes [OF p(4,5), of "meta @ packed" "length (meta @ packed)" loads] assms(2)
      pack_payloads_ok [OF p(2)] fill_file_state [of st]
    by (simp add: p(1,3))
qed

section \<open>The snapshot file\<close>

text \<open>C30. The snapshot file brings the state back: what \<open>write_snapshot\<close> writes, \<open>read_snapshot\<close> reads as
  the same sequence number and the same state, every message with its own payload; a file that was cut off
  anywhere is ignored; and whenever the broker dies while it writes, the next one reads either the old
  snapshot or the new one.\<close>

theorem snapshot_file_roundtrip:
  assumes "snapshot_bytes dumps created n st = Inr data"
    "loads (dumps n (file_state_of st)) = Some (n, file_state_of st)"
  shows "read_snapshot loads (Some data) = Inr (Some (n, st)) \<and>
    (\<forall>k < length data. read_snapshot loads (Some (take k data)) = Inr None) \<and>
    (\<forall>(file, tmp) \<in> set (write_states old data). read_snapshot loads file \<in> {read_snapshot loads old, Inr (Some (n, st))})"
proof -
  obtain meta packed header where p: "meta = dumps n (file_state_of st)"
    "pack_payloads (snd (extract_queues (es_queues (sn_queues st)) [])) = Inr packed"
    "data = SNAP_MAGIC @ header @ meta @ packed" "length header = 29"
    "unpack_fields snap_widths header =
       [SNAP_VERSION, uint created, n, int (length meta), int (length packed), uint (crc32 (meta @ packed))]"
    by (rule snapshot_bytes_parts [OF assms(1)])
  have whole: "read_snapshot loads (Some data) = Inr (Some (n, st))"
    by (rule read_written [where dumps = dumps and created = created]) (use assms in simp_all)
  have "read_snapshot loads (Some (take k data)) = Inr None" if "k < length data" for k
  proof (cases "k < SNAP_HEADER_SIZE")
    case True
    then have "length (take k data) < SNAP_HEADER_SIZE" by simp
    then show ?thesis unfolding read_snapshot_def option.case by (rule if_P)
  next
    case False
    have head: "length (SNAP_MAGIC @ header) = 33" using p(4) by (simp add: SNAP_MAGIC_def)
    have "take k ((SNAP_MAGIC @ header) @ meta @ packed) = (SNAP_MAGIC @ header) @ take (k - 33) (meta @ packed)"
      using False head unfolding take_append [of k "SNAP_MAGIC @ header"] by (simp add: SNAP_HEADER_SIZE_def)
    then have "take k data = SNAP_MAGIC @ header @ take (k - 33) (meta @ packed)" unfolding p(3) append_assoc .
    moreover have "k - 33 < length (meta @ packed)"
      using that False p(4) by (simp add: p(3) SNAP_HEADER_SIZE_def SNAP_MAGIC_def)
    ultimately show ?thesis using read_snapshot_bytes [OF p(4,5) refl, where k = "k - 33" and loads = loads] by simp
  qed
  then show ?thesis using whole by (auto simp: write_states_def)
qed

definition demo_snap :: runtime_snap where
  "demo_snap =
     \<lparr>sn_queues = \<lparr>es_queues =
         [\<lparr>qs_spec = \<lparr>spec_name = ''jobs'', durable = True, max_length = None, visibility_timeout = 30,
                     spec_max_attempts = 3, dead_letter = False\<rparr>,
           qs_messages = [\<lparr>ms_message = demo_message ''a'' 0, ms_state = READY\<rparr>],
           qs_stats = \<lparr>ss_published = 1, ss_delivered = 0, ss_acked = 0, ss_nacked = 0, ss_retried = 0, ss_dead = 0\<rparr>\<rparr>],
         es_seq = 1\<rparr>,
      sn_routing = \<lparr>rs_exchanges = [], rs_bindings = []\<rparr>\<rparr>"

lemma snapshot_bytes_total:
  assumes "pack_payloads (snd (extract_queues (es_queues (sn_queues st)) [])) = Inr packed"
    "length (dumps n (file_state_of st)) < 256 ^ 4" "length packed < 256 ^ 4" "0 \<le> n" "n < 256 ^ 8"
  shows "\<exists>data. snapshot_bytes dumps created n st = Inr data"
proof -
  have crc: "uint (crc32 bs) < 256 ^ 4" for bs using uint_lt2p [of "crc32 bs"] by simp
  have created: "uint created < 256 ^ 8" using uint_lt2p [of created] by simp
  let ?fs = "zip snap_widths [SNAP_VERSION, uint created, n, int (length (dumps n (file_state_of st))), int (length packed),
    uint (crc32 (dumps n (file_state_of st) @ packed))]"
  have "fields_ok ?fs" using assms(2-5) crc created by (simp add: fields_ok_def snap_widths_def SNAP_VERSION_def)
  from pack_fields_ok [OF this] show ?thesis
    unfolding snapshot_bytes_def Let_def assms(1) sum.case by simp
qed

theorem snapshot_file_roundtrip_witness:
  "\<exists>data. read_snapshot (\<lambda>_. Some (7, file_state_of demo_snap)) (Some data) = Inr (Some (7, demo_snap)) \<and>
     read_snapshot (\<lambda>_. Some (7, file_state_of demo_snap)) (Some (take 5 data)) = Inr None"
proof -
  have "pack_payloads (snd (extract_queues (es_queues (sn_queues demo_snap)) [])) = Inr [0, 0, 0, 1, 1]" by code_simp
  then obtain data where d: "snapshot_bytes (\<lambda>_ _. [0x7B]) 0 7 demo_snap = Inr data"
    using snapshot_bytes_total [where st = demo_snap and dumps = "\<lambda>_ _. [0x7B]" and n = 7] by fastforce
  obtain meta packed header where "data = SNAP_MAGIC @ header @ meta @ packed" "length header = 29"
    by (rule snapshot_bytes_parts [OF d])
  then have "5 < length data" by simp
  then show ?thesis
    using snapshot_file_roundtrip [OF d, of "\<lambda>_. Some (7, file_state_of demo_snap)"] by blast
qed

section \<open>A clean restart\<close>

definition same_message :: "string \<times> message \<Rightarrow> string \<times> message \<Rightarrow> bool" where
  "same_message p p' \<longleftrightarrow> fst p' = fst p \<and> (snd p' = snd p \<or> snd p' = (snd p)\<lparr>available_at := None\<rparr>)"

text \<open>What the release of due messages leaves of a queue.\<close>

definition same_queue :: "dqueue \<Rightarrow> dqueue \<Rightarrow> bool" where
  "same_queue q q' \<longleftrightarrow> spec q' = spec q \<and> stats q' = stats q \<and> list_all2 same_message (messages q) (messages q')"

lemma same_message_refl [simp]: "same_message p p"
  by (simp add: same_message_def)

lemma same_message_trans: "same_message a b \<Longrightarrow> same_message b c \<Longrightarrow> same_message a c"
  by (auto simp: same_message_def)

lemma same_queue_refl [simp]: "same_queue q q"
  by (simp add: same_queue_def list_all2_same)

lemma same_queue_trans: "same_queue a b \<Longrightarrow> same_queue b c \<Longrightarrow> same_queue a c"
  using list_all2_trans [of same_message same_message same_message "messages a" "messages b" "messages c"] same_message_trans
  by (auto simp: same_queue_def)

lemma same_messages_dset:
  "dict_ok d \<Longrightarrow> map_of d k = Some m \<Longrightarrow> list_all2 same_message d (dset k (m\<lparr>available_at := None\<rparr>) d)"
proof (induction d)
  case (Cons p d)
  then show ?case by (cases p) (auto simp: same_message_def dict_ok_def list_all2_same)
qed simp

definition named :: "dqueue \<Rightarrow> bool" where
  "named q \<longleftrightarrow> dict_ok (messages q) \<and> (\<forall>(k, m) \<in> set (messages q). msg_id m = k)"

lemma named_same:
  assumes "same_queue q q'" "named q"
  shows "named q'"
proof -
  have keys: "map fst d' = map fst d \<and> ((\<forall>(k, m) \<in> set d. msg_id m = k) \<longrightarrow> (\<forall>(k, m) \<in> set d'. msg_id m = k))"
    if "list_all2 same_message d d'" for d d'
    using that by (induction rule: list_all2_induct) (auto simp: same_message_def)
  have "list_all2 same_message (messages q) (messages q')" using assms(1) by (simp add: same_queue_def)
  from keys [OF this] show ?thesis using assms(2) by (simp add: named_def dict_ok_def)
qed

definition queues_stay :: "engine \<Rightarrow> engine \<Rightarrow> bool" where
  "queues_stay e e' \<longleftrightarrow>
     map fst (queues e') = map fst (queues e) \<and>
     (\<forall>n q. get_queue n e = Some q \<longrightarrow> (\<exists>q'. get_queue n e' = Some q' \<and> same_queue q q'))"

lemma queues_stay_refl: "queues e' = queues e \<Longrightarrow> queues_stay e e'"
  by (auto simp: queues_stay_def)

lemma queues_stay_trans: "queues_stay a b \<Longrightarrow> queues_stay b c \<Longrightarrow> queues_stay a c"
  unfolding queues_stay_def by (metis same_queue_trans)

lemma queues_stay_upd_queue:
  assumes "\<And>q. get_queue n e = Some q \<Longrightarrow> same_queue q (f q)"
  shows "queues_stay e (upd_queue n f e)"
proof -
  have "map fst (queues (upd_queue n f e)) = map fst (queues e)"
    by (auto simp: upd_queue_def map_fst_dset dkeys_iff split: option.split)
  then show ?thesis using assms by (auto simp: queues_stay_def)
qed

definition all_named :: "engine \<Rightarrow> bool" where
  "all_named e \<longleftrightarrow> (\<forall>n q. get_queue n e = Some q \<longrightarrow> named q)"

lemma all_named_kept:
  assumes "queues_stay e e'" "all_named e"
  shows "all_named e'"
proof -
  have "named q'" if q': "get_queue n e' = Some q'" for n q'
  proof -
    have "n \<in> dkeys (queues e)" using q' assms(1) unfolding queues_stay_def by (metis dkeys_iff list.set_map option.distinct(1))
    then obtain q where "get_queue n e = Some q" by (auto simp: dkeys_iff)
    then show ?thesis using assms q' named_same unfolding queues_stay_def all_named_def by (metis option.inject)
  qed
  then show ?thesis by (simp add: all_named_def)
qed

lemma release_each_queues_stay: "all_named e \<Longrightarrow> queues_stay e (snd (release_each due e))"
proof (induction due arbitrary: e)
  case (Cons d due)
  obtain n k where d: "d = (n, k)" by (cases d)
  let ?e1 = "upd_queue n (\<lambda>q. q\<lparr>delayed_ids := delayed_ids q - {k}\<rparr>) e"
  have e1: "queues_stay e ?e1" by (rule queues_stay_upd_queue) (simp add: same_queue_def list_all2_same)
  have e2: "queues_stay e (push_ready n (m\<lparr>available_at := None\<rparr>) (set_message n (m\<lparr>available_at := None\<rparr>) ?e1))"
    if q: "get_queue n e = Some q" and m: "map_of (messages q) k = Some m" for q m
  proof -
    have named: "named q" using Cons.prems q by (simp add: all_named_def)
    then have id: "msg_id m = k" using map_of_in_set [OF m] by (auto simp: named_def)
    have "queues_stay ?e1 (set_message n (m\<lparr>available_at := None\<rparr>) ?e1)"
      unfolding set_message_def
    proof (rule queues_stay_upd_queue)
      fix q1 assume "get_queue n ?e1 = Some q1"
      then have "messages q1 = messages q" using q by auto
      then show "same_queue q1 (q1\<lparr>messages := dset (msg_id (m\<lparr>available_at := None\<rparr>)) (m\<lparr>available_at := None\<rparr>) (messages q1)\<rparr>)"
        using same_messages_dset [OF _ m] named id by (simp add: same_queue_def named_def)
    qed
    moreover have "queues_stay x (push_ready n m' x)" for m' x
    proof -
      have "queues_stay x (snd (next_seq x))" by (rule queues_stay_refl) (simp add: next_seq_def)
      moreover have "queues_stay y (upd_queue n (\<lambda>q. q\<lparr>ready := f q\<rparr>) y)" for y f
        by (rule queues_stay_upd_queue) (simp add: same_queue_def list_all2_same)
      ultimately show ?thesis unfolding push_ready_def case_prod_beta by (rule queues_stay_trans)
    qed
    ultimately show ?thesis using queues_stay_trans e1 by blast
  qed
  note ih = queues_stay_trans [OF _ Cons.IH [OF all_named_kept [OF _ Cons.prems]]]
  show ?case
    unfolding d release_each.simps Let_def case_prod_beta
    using Cons.IH [OF Cons.prems] ih [OF e1 e1] ih [OF e2 e2] by (simp split: option.split)
qed (simp add: queues_stay_refl)

lemma tick_queues_stay:
  assumes "idle e" "all_named e"
  shows "queues_stay e (snd (tick None e))"
proof -
  obtain t e0 where c: "read_clock e = (t, e0)" by (cases "read_clock e")
  obtain due h where p: "pop_due t (\<lambda>_. True) (delayed e0) = (due, h)" by (cases "pop_due t (\<lambda>_. True) (delayed e0)")
  let ?e1 = "e0\<lparr>delayed := h\<rparr>"
  have q: "queues ?e1 = queues e" using c by (auto simp: read_clock_def)
  then have one: "queues_stay e ?e1" by (rule queues_stay_refl)
  have two: "queues_stay ?e1 (snd (release_each due ?e1))"
    by (rule release_each_queues_stay) (use assms(2) q in \<open>simp add: all_named_def\<close>)
  have "visibility_heap (snd (tick None e)) = [] \<and> snd (tick None e) = snd (release_each due ?e1)"
  proof -
    have "quiet e ?e1" using c by (intro quiet_frame [OF quiet_refl]) (auto simp: read_clock_def)
    then have "idle (snd (release_each due ?e1))"
      using quiet_release_each assms(1) by (auto simp: quiet_def)
    then show ?thesis
      by (simp add: tick_def c release_delayed_def p case_prod_beta timeout_idle idle_heap)
  qed
  then show ?thesis using queues_stay_trans [OF one two] by simp
qed

lemma replay_covered: "\<forall>rec \<in> set recs. rc_seq rec \<le> n \<Longrightarrow> replay n recs l s = (Inr l, s)"
  by (induction recs) simp_all

lemma restored_queue:
  assumes "engine_inv e" "engine_inv f" "get_queue nm e = Some q"
  shows "\<exists>q'. get_queue nm (restore_state (snapshot_state e) f) = Some q' \<and> spec q' = spec q \<and>
    counters (stats q') = counters (stats q) \<and> inflight q' = [] \<and> messages q' = messages q"
proof -
  have ok: "queue_ok (seq e) nm q" using assms(1,3) by (rule einv_queue)
  have "snapshot_queue q \<in> set (es_queues (snapshot_state e))"
    using map_of_in_set [OF assms(3)] by (force simp: snapshot_state_def)
  then obtain q' where "get_queue (spec_name (qs_spec (snapshot_queue q))) (restore_state (snapshot_state e) f) = Some q'"
    "describes (snapshot_queue q) q'"
    using restore_state_describes(4) [OF assms(2) snap_ok_snapshot(1) [OF assms(1)]] by blast
  then show ?thesis
    using ok snapshot_queue_messages(1) [OF ok]
    by (auto simp: describes_def queue_ok_def snapshot_queue_def counters_def)
qed

lemma all_named_inv: "engine_inv e \<Longrightarrow> all_named e"
proof -
  assume e: "engine_inv e"
  have "named q" if q: "get_queue n e = Some q" for n q
  proof -
    have ok: "queue_ok (seq e) n q" using e q by (rule einv_queue)
    then have d: "dict_ok (messages q)" by (simp add: queue_ok_def)
    have "msg_id m = k" if "(k, m) \<in> set (messages q)" for k m
      using ok in_set_map_of [OF d that] by (auto simp: queue_ok_def)
    then show ?thesis using d by (auto simp: named_def)
  qed
  then show ?thesis by (simp add: all_named_def)
qed

text \<open>A clean stop loses nothing: when the last thing a broker did was to write its snapshot, with a
  sequence number that covers its log, a broker that recovers from the files has the same exchanges, the
  same queues with the same specifications and counters, the bindings of these queues, and in each queue
  exactly the same messages in the same order, up to availability times that have passed; none is in flight.\<close>

theorem clean_restart_keeps_messages:
  assumes "broker_inv b" "set (order (bindings (br_routing b))) = bindings (br_routing b)"
    "snapshot_bytes dumps created n (runtime_snapshot order b) = Inr data"
    "sloads (dumps n (file_state_of (runtime_snapshot order b))) = Some (n, file_state_of (runtime_snapshot order b))"
    "\<forall>rec \<in> set (fst (read_aof loads aof_file)). rc_seq rec \<le> n"
    "broker_inv b0" "idle (br_engine b0)"
  shows "\<exists>file' b'. recover_directory loads sloads (Some data) aof_file b0 = (Inr n, file', b') \<and>
    map fst (queues (br_engine b')) = map fst (queues (br_engine b)) \<and>
    exchanges (br_routing b') = exchanges (br_routing b) \<and>
    bindings (br_routing b') = {x \<in> bindings (br_routing b). get_queue (b_queue x) (br_engine b) \<noteq> None} \<and>
    (\<forall>nm q. get_queue nm (br_engine b) = Some q \<longrightarrow>
       (\<exists>q'. get_queue nm (br_engine b') = Some q' \<and> spec q' = spec q \<and> counters (stats q') = counters (stats q) \<and>
          inflight q' = [] \<and> list_all2 same_message (messages q) (messages q')))"
proof -
  note inv = broker_inv_parts(1,2) [OF assms(1)]
  let ?st = "runtime_snapshot order b" and ?e = "restore_state (snapshot_state (br_engine b)) (br_engine b0)"
  have snap: "snap_ok (snapshot_state (br_engine b))" by (rule snap_ok_snapshot(1) [OF inv(1)])
  have inv0: "engine_inv (br_engine b0)" using assms(6) by (rule broker_inv_parts)
  have e: "engine_inv ?e" "idle ?e" by (rule restore_state_describes(1) [OF inv0 snap], rule idle_restore_state [OF inv0 snap])
  have names: "map fst (queues ?e) = map fst (queues (br_engine b))"
    using restore_state_describes(2) [OF inv0 snap] snap_ok_snapshot(2) [OF inv(1)] by simp
  then have known: "get_queue nm ?e \<noteq> None \<longleftrightarrow> get_queue nm (br_engine b) \<noteq> None" for nm
    by (metis dkeys_iff list.set_map)
  define rt where "rt = (br_routing b)\<lparr>bindings := {x \<in> bindings (br_routing b). get_queue (b_queue x) ?e \<noteq> None}\<rparr>"
  have rr: "routing_restore (sn_routing ?st) (br_routing b0, ?e) = (Inr (), rt, ?e)"
    using routing_restore_ok [where r = "br_routing b" and order = order, OF inv(2) assms(2)] by (simp add: runtime_snapshot_def rt_def)
  define b1 where "b1 = b0\<lparr>br_engine := ?e, br_routing := rt\<rparr>"
  have load: "load_snapshot (Some (n, ?st)) b0 = (Inr n, b1)"
    using rr by (simp add: load_snapshot_def restore_snapshot_def with_routing_def b1_def runtime_snapshot_def)
  obtain recs keep where aof: "read_aof loads aof_file = (recs, keep)" by (cases "read_aof loads aof_file")
  then have "with_routing (replay n recs n) b1 = (Inr n, b1)"
    using assms(5) by (simp add: with_routing_def replay_covered)
  then have run: "recover_directory loads sloads (Some data) aof_file b0 =
      (Inr n, map_option (take keep) aof_file, snd (with_engine (tick None) b1))"
    using read_written [where dumps = dumps and loads = sloads, OF assms(3,4)]
    by (simp add: recover_directory_def recover_into_def load aof)
  let ?b' = "snd (with_engine (tick None) b1)"
  have b': "br_engine ?b' = snd (tick None ?e)" "br_routing ?b' = rt"
    by (simp_all add: with_engine_def case_prod_beta b1_def)
  have tick: "queues_stay ?e (snd (tick None ?e))" by (rule tick_queues_stay [OF e(2) all_named_inv [OF e(1)]])
  have still: "idle (snd (tick None ?e))" using quiet_tick e(2) by (simp add: quiet_def)
  have each: "\<exists>q'. get_queue nm (br_engine ?b') = Some q' \<and> spec q' = spec q \<and> counters (stats q') = counters (stats q) \<and>
      inflight q' = [] \<and> list_all2 same_message (messages q) (messages q')"
    if q: "get_queue nm (br_engine b) = Some q" for nm q
  proof -
    obtain q1 where q1: "get_queue nm ?e = Some q1" "spec q1 = spec q" "counters (stats q1) = counters (stats q)" "messages q1 = messages q"
      using restored_queue [OF inv(1) inv0 q] by blast
    then obtain q' where "get_queue nm (snd (tick None ?e)) = Some q'" "same_queue q1 q'"
      using tick unfolding queues_stay_def by blast
    then show ?thesis using q1 idle_queue [OF still] by (auto simp: b' same_queue_def)
  qed
  have same: "map fst (queues (br_engine ?b')) = map fst (queues (br_engine b))"
    using tick names by (simp add: b' queues_stay_def)
  have tables: "exchanges (br_routing ?b') = exchanges (br_routing b)"
    "bindings (br_routing ?b') = {x \<in> bindings (br_routing b). get_queue (b_queue x) (br_engine b) \<noteq> None}"
    unfolding b'(2) using known by (simp_all add: rt_def)
  show ?thesis
    by (rule exI [of _ "map_option (take keep) aof_file"], rule exI [of _ ?b'], intro conjI allI impI)
       (rule run same tables each, assumption?)+
qed

theorem clean_restart_keeps_messages_witness:
  "\<exists>data file' b'. recover_directory (\<lambda>_. None)
       (\<lambda>_. Some (7, file_state_of (runtime_snapshot (\<lambda>_. []) (demo_broker [])))) (Some data) None demo_start =
         (Inr 7, file', b') \<and>
     map fst (queues (br_engine b')) = map fst (queues demo_ready)"
proof -
  let ?st = "runtime_snapshot (\<lambda>_. []) (demo_broker [])"
  have "pack_payloads (snd (extract_queues (es_queues (sn_queues ?st)) [])) = Inr [0, 0, 0, 1, 1, 0, 0, 0, 1, 1]"
    by code_simp
  then obtain data where d: "snapshot_bytes (\<lambda>_ _. [0x7B]) 0 7 ?st = Inr data"
    using snapshot_bytes_total [where st = ?st and dumps = "\<lambda>_ _. [0x7B]" and n = 7] by fastforce
  have inv: "broker_inv (demo_broker [])" by (rule demo_broker_inv) (simp add: net_ok_def dict_ok_def)
  have ord: "set ((\<lambda>_. []) (bindings (br_routing (demo_broker [])))) = bindings (br_routing (demo_broker []))"
    by (simp add: demo_broker_def new_routing_def)
  have "\<forall>rec \<in> set (fst (read_aof (\<lambda>_. None) None)). rc_seq rec \<le> 7" by (simp add: read_aof_def)
  from clean_restart_keeps_messages [where sloads = "\<lambda>_. Some (7, file_state_of ?st)", OF inv ord d refl this demo_start_ok(1,2)]
  obtain file' b' where "recover_directory (\<lambda>_. None) (\<lambda>_. Some (7, file_state_of ?st)) (Some data) None demo_start = (Inr 7, file', b')"
    "map fst (queues (br_engine b')) = map fst (queues (br_engine (demo_broker [])))"
    by (elim exE conjE)
  then show ?thesis by (intro exI conjI) (simp_all add: demo_broker_def)
qed

end
