(* ===== verification/Lifecycle.thy ===== *)
theory Lifecycle
  imports Evolution SnapshotFile
begin

text \<open>
  \<open>broker/lifecycle.py\<close>: the broker as a process, over any number of lifetimes. A process is the server,
  the writer of its log, the snapshot file and the stage of the shutdown; the log is fed with the journal
  entries of the engines. A restart, after a crash or a clean stop, recovers from the files that are left.
\<close>

section \<open>Start\<close>

text \<open>\<open>BrokerRuntime.__init__\<close>. The two clocks are those of the queue engine and of the consumer manager.\<close>

definition new_runtime ::
  "config \<Rightarrow> time \<Rightarrow> int \<Rightarrow> int option \<Rightarrow> string \<Rightarrow> real \<Rightarrow> nat \<Rightarrow> (nat \<Rightarrow> time) \<Rightarrow> (nat \<Rightarrow> time) \<Rightarrow> int \<Rightarrow> time \<Rightarrow> broker" where
  "new_runtime cf vt ma ml backoff base_delay limit clk cclk buffer now =
     \<lparr>br_config = cf, br_engine = new_engine vt ma ml backoff base_delay limit clk, br_routing = new_routing,
      br_consumers = new_manager cclk, br_pubsub = new_pubsub buffer, br_metrics = new_metrics now,
      br_net = [], br_last_slow = []\<rparr>"

inductive fresh_runtime :: "broker \<Rightarrow> bool" where
  "fresh_runtime (new_runtime cf vt ma ml backoff base_delay limit clk cclk buffer now)"

text \<open>\<open>Broker.start\<close> on a data directory.\<close>

definition start_directory ::
  "(bytes \<Rightarrow> json option) \<Rightarrow> (bytes \<Rightarrow> (int \<times> file_state) option) \<Rightarrow> string \<Rightarrow> int \<Rightarrow> int \<Rightarrow> int \<Rightarrow>
   bytes option \<Rightarrow> bytes option \<Rightarrow> broker \<Rightarrow> py_error + server \<times> aof_writer" where
  "start_directory loads sloads fsync max_connections max_frame outbound snap_file aof_file b =
     (case read_snapshot sloads snap_file of
        Inl err \<Rightarrow> Inl err
      | Inr snap \<Rightarrow> start_broker loads fsync max_connections max_frame outbound snap aof_file b)"

section \<open>The process\<close>

datatype stage = Serving | Stopping | Server_stopped | Flushing | Down

text \<open>\<open>pc_records\<close> are the records in the log or on their way to it; \<open>pc_base\<close> is the number the log was
  attached with: the journal entry \<open>i\<close> of this lifetime has the number \<open>pc_base + 1 + i\<close>.\<close>

record process =
  pc_server :: server
  pc_log :: aof_writer
  pc_records :: "aof_record list"
  pc_base :: int
  pc_snapshot :: "bytes option"
  pc_stage :: stage

definition journal_of :: "server \<Rightarrow> journal_entry list" where
  "journal_of sv = journal (br_engine (sv_broker sv))"

text \<open>The engines call \<open>journal.append\<close>, which is \<open>AOFWriter.append\<close>, for each entry, at some time.\<close>

fun append_entries ::
  "(dict \<Rightarrow> bytes) \<Rightarrow> (journal_entry \<times> 64 word) list \<Rightarrow> aof_record list \<times> aof_writer \<Rightarrow> aof_record list \<times> aof_writer" where
  "append_entries dumps [] s = s"
| "append_entries dumps ((j, ts) # js) (rs, w) =
     append_entries dumps js
       (if aw_closed w then rs else rs @ [log_record (aw_seq w + 1) ts j],
        snd (aof_append dumps (j_op j) (j_meta j) (j_payload j) ts w))"

text \<open>Each record can be encoded, and the JSON library reads its metadata back.\<close>

fun encodable :: "(dict \<Rightarrow> bytes) \<Rightarrow> (bytes \<Rightarrow> json option) \<Rightarrow> (journal_entry \<times> 64 word) list \<Rightarrow> int \<Rightarrow> bool" where
  "encodable dumps loads [] n = True"
| "encodable dumps loads ((j, ts) # js) n =
     (valid_record dumps loads (log_record (n + 1) ts j) \<and> encodable dumps loads js (n + 1))"

text \<open>\<open>Broker.start\<close> and \<open>Broker.shutdown\<close>, the latter cut at its awaits.\<close>

definition started :: "server \<Rightarrow> aof_writer \<Rightarrow> aof_record list \<Rightarrow> bytes option \<Rightarrow> process" where
  "started sv w rs snap =
     \<lparr>pc_server = sv, pc_log = w, pc_records = rs, pc_base = aw_seq w, pc_snapshot = snap, pc_stage = Serving\<rparr>"

definition shutdown_begin :: "process \<Rightarrow> process" where
  "shutdown_begin p =
     (if pc_stage p = Serving then p\<lparr>pc_server := stop_begin (pc_server p), pc_stage := Stopping\<rparr> else p)"

definition shutdown_server :: "process \<Rightarrow> process" where
  "shutdown_server p = p\<lparr>pc_server := stop_end (pc_server p), pc_stage := Server_stopped\<rparr>"

definition shutdown_flush :: "process \<Rightarrow> process" where
  "shutdown_flush p = p\<lparr>pc_log := stop_writer (pc_log p), pc_stage := Flushing\<rparr>"

text \<open>A round of \<open>_snapshot_loop\<close>: a snapshot that cannot be written (\<open>None\<close>) leaves the old file.\<close>

definition snapshot_round :: "bytes option \<Rightarrow> process \<Rightarrow> process" where
  "snapshot_round data p = (case data of None \<Rightarrow> p | Some bs \<Rightarrow> p\<lparr>pc_snapshot := Some bs\<rparr>)"

text \<open>The end of \<open>flush_and_stop\<close> and the last snapshot, which may be configured away or fail.\<close>

definition shutdown_end :: "bytes option \<Rightarrow> process \<Rightarrow> process" where
  "shutdown_end data p = (snapshot_round data (p\<lparr>pc_log := close_file (pc_log p)\<rparr>))\<lparr>pc_stage := Down\<rparr>"

text \<open>\<open>_write_snapshot\<close>: the bytes of a snapshot of the broker as it is, covering the log up to now; the JSON
  library reads its state back.\<close>

definition snapshot_of ::
  "(int \<Rightarrow> file_state \<Rightarrow> bytes) \<Rightarrow> (bytes \<Rightarrow> (int \<times> file_state) option) \<Rightarrow> process \<Rightarrow> bytes \<Rightarrow> bool" where
  "snapshot_of sdumps sloads p data \<longleftrightarrow>
     (\<exists>created order. let n = aw_seq (pc_log p); b = sv_broker (pc_server p); st = runtime_snapshot order b in
        set (order (bindings (br_routing b))) = bindings (br_routing b) \<and>
        snapshot_bytes sdumps created n st = Inr data \<and>
        sloads (sdumps n (file_state_of st)) = Some (n, file_state_of st))"

text \<open>\<open>wait_durable\<close> has returned, or would, for every entry of this lifetime that the server takes as synced.\<close>

definition waits_for_log :: "process \<Rightarrow> server \<Rightarrow> bool" where
  "waits_for_log p sv \<longleftrightarrow>
     (\<forall>k < sv_durable sv. pc_base p + 1 + int k \<le> aw_seq (pc_log p) \<longrightarrow> may_return (pc_base p + 1 + int k) (pc_log p))"

text \<open>The steps of a process. The codecs of the wire, of the log and of the snapshot file are parameters.
  The writer task and the server run until the process is down; a crash may come at any time. The journal entries
  of a serving step are taken to be encodable (\<open>encodable\<close>: their metadata and payload fit the fields of a record and
  \<open>json\<close> reads back what it wrote); with one that is not, \<open>aof.append\<close> would raise inside the command, after its
  effect on the queues, and no step of the model describes that.\<close>

inductive process_step ::
  "(bytes \<Rightarrow> json option) \<Rightarrow> (dict \<Rightarrow> bytes) \<Rightarrow> (bytes \<Rightarrow> json option) \<Rightarrow> (dict \<Rightarrow> bytes) \<Rightarrow>
   (bytes \<Rightarrow> (int \<times> file_state) option) \<Rightarrow> (int \<Rightarrow> file_state \<Rightarrow> bytes) \<Rightarrow> process \<Rightarrow> process \<Rightarrow> bool"
  for wloads :: "bytes \<Rightarrow> json option" and wdumps :: "dict \<Rightarrow> bytes" and loads :: "bytes \<Rightarrow> json option"
    and dumps :: "dict \<Rightarrow> bytes" and sloads :: "bytes \<Rightarrow> (int \<times> file_state) option"
    and sdumps :: "int \<Rightarrow> file_state \<Rightarrow> bytes" where
  serves: "pc_stage p \<noteq> Down \<Longrightarrow> server_step wloads wdumps (pc_server p) sv \<Longrightarrow>
    sv_halted sv = sv_halted (pc_server p) \<Longrightarrow> waits_for_log p sv \<Longrightarrow>
    map fst js = drop (length (journal_of (pc_server p))) (journal_of sv) \<Longrightarrow>
    aw_closed (pc_log p) \<or> encodable dumps loads js (aw_seq (pc_log p)) \<Longrightarrow>
    append_entries dumps js (pc_records p, pc_log p) = (rs, w) \<Longrightarrow>
    process_step wloads wdumps loads dumps sloads sdumps p (p\<lparr>pc_server := sv, pc_log := w, pc_records := rs\<rparr>)"
| writes_log: "pc_stage p \<noteq> Down \<Longrightarrow>
    w = forget_waiter n (pc_log p) \<and> may_return n (pc_log p) \<or>
    w = take_batch (pc_log p) \<and> aw_running (pc_log p) \<and> aw_batch (pc_log p) = [] \<or>
    w = write_batch now (pc_log p) \<and> aw_batch (pc_log p) \<noteq> [] \<and> \<not> aw_written (pc_log p) \<or>
    w = finish_batch (pc_log p) \<and> aw_batch (pc_log p) \<noteq> [] \<and> aw_written (pc_log p) \<Longrightarrow>
    process_step wloads wdumps loads dumps sloads sdumps p (p\<lparr>pc_log := w\<rparr>)"
| snapshots: "pc_stage p = Serving \<or> pc_stage p = Stopping \<Longrightarrow>
    data = None \<or> (\<exists>bs. data = Some bs \<and> snapshot_of sdumps sloads p bs) \<Longrightarrow>
    process_step wloads wdumps loads dumps sloads sdumps p (snapshot_round data p)"
| asked_to_stop: "process_step wloads wdumps loads dumps sloads sdumps p (shutdown_begin p)"
| server_gone: "pc_stage p = Stopping \<Longrightarrow>
    process_step wloads wdumps loads dumps sloads sdumps p (shutdown_server p)"
| flushing: "pc_stage p = Server_stopped \<Longrightarrow>
    process_step wloads wdumps loads dumps sloads sdumps p (shutdown_flush p)"
| down: "pc_stage p = Flushing \<Longrightarrow> \<not> aw_running (pc_log p) \<Longrightarrow>
    data = None \<or> (\<exists>bs. data = Some bs \<and> snapshot_of sdumps sloads p bs) \<Longrightarrow>
    process_step wloads wdumps loads dumps sloads sdumps p (shutdown_end data p)"
| restarts: "crash_leaves (pc_log p) data \<Longrightarrow> fresh_runtime b \<Longrightarrow>
    start_directory loads sloads fsync max_connections max_frame outbound (pc_snapshot p) (Some data) b = Inr (sv, w) \<Longrightarrow>
    process_step wloads wdumps loads dumps sloads sdumps p
      (started sv w (fst (read_aof loads (Some data))) (pc_snapshot p))"

text \<open>The first start, on an empty directory.\<close>

inductive first_start ::
  "(bytes \<Rightarrow> json option) \<Rightarrow> (bytes \<Rightarrow> (int \<times> file_state) option) \<Rightarrow> process \<Rightarrow> bool"
  for loads :: "bytes \<Rightarrow> json option" and sloads :: "bytes \<Rightarrow> (int \<times> file_state) option" where
  "fresh_runtime b \<Longrightarrow>
   start_directory loads sloads fsync max_connections max_frame outbound None None b = Inr (sv, w) \<Longrightarrow>
   first_start loads sloads (started sv w [] None)"

section \<open>The server in its process\<close>

lemma logged_core: "core_step\<^sup>*\<^sup>* s s' \<Longrightarrow> logged js (snd s) \<Longrightarrow> logged js (snd s')"
proof (induction rule: rtranclp_induct)
  case (step s' s'')
  show ?case using step.hyps(2) step.IH [OF step.prems]
    by (cases rule: core_step.cases) (auto dest: logged_routing_step)
qed

lemma journal_of_core: "journal_of sv = journal (snd (core_of (sv_broker sv)))"
  by (simp add: journal_of_def core_of_def)

lemma journal_grows:
  assumes "server_step wloads wdumps sv sv'" "list_all replays (journal_of sv)"
  shows "prefix (journal_of sv) (journal_of sv')" "list_all replays (journal_of sv')"
proof -
  have "logged (journal_of sv) (snd (core_of (sv_broker sv)))"
    using assms(2) by (simp add: grown_def journal_of_core)
  from logged_core [OF server_steps_advance [OF assms(1)] this]
  show "prefix (journal_of sv) (journal_of sv')" "list_all replays (journal_of sv')"
    by (simp_all add: grown_def journal_of_core)
qed

text \<open>What the server keeps about the log: whether replies wait for it, and how far it is synced.\<close>

definition sync_of :: "server \<Rightarrow> bool \<times> nat" where
  "sync_of sv = (sv_sync sv, sv_durable sv)"

lemma sync_of_frame [simp]:
  "sync_of (set_broker b sv) = sync_of sv" "sync_of (upd_session i f sv) = sync_of sv"
  "sync_of (set_phase i p sv) = sync_of sv" "sync_of (put_conn i c sv) = sync_of sv"
  "sync_of (start_server sv) = sync_of sv" "sync_of (on_connection i sv) = sync_of sv"
  "sync_of (loop_top i sv) = sync_of sv" "sync_of (sv\<lparr>sv_drops := ds\<rparr>) = sync_of sv"
  "sync_of (sv\<lparr>sv_wire := ws\<rparr>) = sync_of sv"
  by (simp_all add: sync_of_def set_broker_def upd_session_def set_phase_def put_conn_def start_server_def
      on_connection_def loop_top_def Let_def split: option.split)

lemma sync_of_sends [simp]:
  "sync_of (snd (own_try_send i f sv)) = sync_of sv" "sync_of (write_one dumps i sv) = sync_of sv"
  "sync_of (disconnect_slow i sv) = sync_of sv" "sync_of (ticker_round sv) = sync_of sv"
  "sync_of (snd (drop_connection order order' i sv)) = sync_of sv"
  by (simp_all add: own_try_send_def write_one_def disconnect_slow_def ticker_round_def drop_connection_def case_prod_beta
      Let_def split: option.split list.split sum.split prod.split)

lemma sync_of_fold [simp]:
  "sync_of (fold disconnect_slow xs sv) = sync_of sv"
  "sync_of (fold (\<lambda>(i, c). upd_session i (g c)) ys sv) = sync_of sv"
  by (induction xs arbitrary: sv, simp_all) (induction ys arbitrary: sv, simp_all add: case_prod_beta)

lemma sync_of_stop [simp]: "sync_of (stop_begin sv) = sync_of sv" "sync_of (stop_end sv) = sync_of sv"
  by (simp_all add: stop_begin_def stop_end_def Let_def) (simp add: sync_of_def set_broker_def)

lemma sync_of_step:
  "server_step loads dumps sv sv' \<Longrightarrow>
   sync_of sv' = sync_of sv \<or>
   sv_sync sv' = sv_sync sv \<and> sv_durable sv' \<le> length (journal_of sv) \<and> journal_of sv' = journal_of sv"
proof (induction rule: server_step.induct)
  case (data sv i s bs)
  show ?case by (simp add: on_data_def Let_def split: sum.split prod.split)
next
  case (frame sv i s f rest ou)
  show ?case by (simp add: on_frame_def case_prod_beta split: sum.split bool.split)
next
  case (synced sv n)
  then show ?case by (simp add: sync_of_def journal_of_def)
qed (simp_all add: after_wait_def speak_def leave_def case_prod_beta Let_def)

section \<open>The log of a process\<close>

text \<open>A record is secured when the synced part of the file holds it whole, after all earlier ones.\<close>

definition secured :: "(dict \<Rightarrow> bytes) \<Rightarrow> aof_record \<Rightarrow> aof_record list \<times> aof_writer \<Rightarrow> bool" where
  "secured dumps r s \<longleftrightarrow>
     (\<exists>k \<le> length (fst s). r \<in> set (take k (fst s)) \<and>
        length (concat (map (record_bytes dumps) (take k (fst s)))) \<le> aw_synced (snd s))"

text \<open>What every step of the writer leaves: nothing synced is undone, no record is taken back.\<close>

definition log_grows :: "aof_record list \<times> aof_writer \<Rightarrow> aof_record list \<times> aof_writer \<Rightarrow> bool" where
  "log_grows s s' \<longleftrightarrow>
     prefix (fst s) (fst s') \<and> aw_synced (snd s) \<le> aw_synced (snd s') \<and> aw_fsync (snd s') = aw_fsync (snd s) \<and>
     aw_seq (snd s) \<le> aw_seq (snd s')"

lemma log_grows_refl: "log_grows s s"
  by (simp add: log_grows_def)

lemma log_grows_trans: "log_grows a b \<Longrightarrow> log_grows b c \<Longrightarrow> log_grows a c"
  by (auto simp: log_grows_def intro: prefix_order.trans)

lemma secured_grows: "secured dumps r s \<Longrightarrow> log_grows s s' \<Longrightarrow> secured dumps r s'"
proof -
  assume "secured dumps r s" "log_grows s s'"
  then obtain k new where k: "k \<le> length (fst s)" "r \<in> set (take k (fst s))" "fst s' = fst s @ new"
    "length (concat (map (record_bytes dumps) (take k (fst s)))) \<le> aw_synced (snd s')"
    unfolding secured_def log_grows_def prefix_def by (meson order_trans)
  then show ?thesis unfolding secured_def by (intro exI [of _ k]) simp
qed

lemma secured_kept:
  assumes "log_ok dumps loads (rs, w)" "aw_fsync w = ''always''" "r \<in> set rs" "may_return (rc_seq r) w"
  shows "secured dumps r (rs, w)"
proof -
  obtain kept pend where rs: "rs = kept @ pend" and sp: "split_at dumps kept pend w"
    and inv: "\<forall>r \<in> set (kept @ pend). valid_record dumps loads r \<and> rc_seq r \<le> aw_seq w" "0 \<le> aw_seq w"
      "sorted_wrt (<) (map rc_seq (kept @ pend))" "aw_batch w = [] \<longrightarrow> \<not> aw_written w"
      "aw_synced w \<le> length (aw_file w)" "aw_fsync w = ''always'' \<longrightarrow> aw_synced w = length (aw_file w)"
    using assms(1) by (rule log_okE)
  have "r \<notin> set pend" using sp assms(2,4) by (auto simp: split_at_def may_return_def)
  then have "r \<in> set (take (length kept) rs)" using assms(3) rs by simp
  moreover have "length (concat (map (record_bytes dumps) (take (length kept) rs))) \<le> aw_synced w"
    using sp inv(6) assms(2) rs by (simp add: split_at_def)
  ultimately show ?thesis unfolding secured_def using rs by (intro exI [of _ "length kept"]) simp
qed

text \<open>The file a crash leaves has the secured records, and they are secured again when it is opened.\<close>

lemma secured_crash:
  assumes "log_ok dumps loads (rs, w)" "crash_leaves w data" "secured dumps r (rs, w)"
  shows "r \<in> set (fst (read_aof loads (Some data)))"
    "aw_synced w' = length (concat (map (record_bytes dumps) (fst (read_aof loads (Some data))))) \<Longrightarrow>
     secured dumps r (fst (read_aof loads (Some data)), w')"
proof -
  let ?bytes = "\<lambda>rs. concat (map (record_bytes dumps) rs)"
  obtain n where n: "n \<le> length rs" "read_records loads data 0 [] = (take n rs, length (?bytes (take n rs)))"
    "\<forall>k \<le> length rs. length (?bytes (take k rs)) \<le> length data \<longleftrightarrow> k \<le> n"
    by (rule crash_cut [OF assms(1,2)]) (rule that)
  have aof: "fst (read_aof loads (Some data)) = take n rs" using n(2) by (simp add: read_aof_def)
  obtain k where k: "k \<le> length rs" "r \<in> set (take k rs)" "length (?bytes (take k rs)) \<le> aw_synced w"
    using assms(3) by (auto simp: secured_def)
  have "length (?bytes (take k rs)) \<le> length data" using k(3) assms(2) by (simp add: crash_leaves_def)
  then have "k \<le> n" using n(3) k(1) by blast
  then show r: "r \<in> set (fst (read_aof loads (Some data)))"
    using k(2) set_take_subset_set_take [of k n rs] unfolding aof by blast
  have all: "secured dumps r (rs', w')" if "aw_synced w' = length (?bytes rs')" "r \<in> set rs'" for rs'
    unfolding secured_def using that by (intro exI [of _ "length rs'"]) simp
  show "secured dumps r (fst (read_aof loads (Some data)), w')"
    if "aw_synced w' = length (?bytes (fst (read_aof loads (Some data))))"
    using that r by (rule all)
qed

lemma log_grows_step:
  "aof_step dumps loads s s' \<Longrightarrow> log_ok dumps loads s \<Longrightarrow> log_grows s s'"
proof (induction rule: aof_step.induct)
  case (append_ok w r op meta pl ts rs)
  then show ?case by (simp add: log_grows_def aof_append_def Let_def split: sum.split)
next
  case (append_fails op meta pl ts w err rs)
  then show ?case by (auto simp: log_grows_def aof_append_def Let_def split: sum.split)
next
  case (append_closed w rs op meta pl ts)
  then show ?case by (simp add: log_grows_def aof_append_def)
next
  case (batch_taken w rs)
  show ?case by (simp add: log_grows_def take_batch_def case_prod_beta split: list.split)
next
  case (batch_written w rs now)
  then have "aw_synced w \<le> length (aw_file w)" by (simp add: log_ok_def)
  then show ?case by (simp add: log_grows_def write_batch_def write_bytes_def Let_def)
next
  case (file_closed w rs)
  then show ?case by (simp add: log_grows_def close_file_def log_ok_def)
qed (simp_all add: log_grows_def forget_waiter_def finish_batch_def stop_writer_def)

text \<open>The queue of the writer: its sentinel comes last, and only once the log is closed for appending.\<close>

definition plain_queue :: "aof_item list \<Rightarrow> bool" where
  "plain_queue xs \<longleftrightarrow> list_all (\<lambda>x. \<not> is_sentinel x) xs"

definition writer_flow :: "aof_writer \<Rightarrow> bool" where
  "writer_flow w \<longleftrightarrow>
     (if aw_running w then
        (if aw_closed w then \<exists>xs s. aw_queue w = xs @ [s] \<and> plain_queue xs \<and> is_sentinel s else plain_queue (aw_queue w))
      else aw_closed w \<and> aw_queue w = [] \<and> aw_batch w = [])"

lemma drain_plain: "plain_queue xs \<Longrightarrow> drain xs = (xs, [])" "plain_queue xs \<Longrightarrow> is_sentinel s \<Longrightarrow> drain (xs @ [s]) = (xs, [s])"
  by (induction xs) (simp_all add: plain_queue_def)

lemma flow_take_batch: "writer_flow w \<Longrightarrow> aw_running w \<Longrightarrow> aw_batch w = [] \<Longrightarrow> writer_flow (take_batch w)"
proof (cases "aw_closed w")
  case True
  assume "writer_flow w" "aw_running w" "aw_batch w = []"
  then obtain xs s where q: "aw_queue w = xs @ [s]" "plain_queue xs" "is_sentinel s" using True by (auto simp: writer_flow_def)
  then show ?thesis
    using True \<open>aw_running w\<close> \<open>aw_batch w = []\<close> drain_plain(2) [of "tl xs" s]
    by (cases xs) (auto simp: take_batch_def writer_flow_def plain_queue_def)
next
  case False
  assume "writer_flow w" "aw_running w" "aw_batch w = []"
  then have "plain_queue (aw_queue w)" using False by (simp add: writer_flow_def)
  then show ?thesis
    using False \<open>aw_running w\<close> drain_plain(1) [of "tl (aw_queue w)"] \<open>writer_flow w\<close>
    by (cases "aw_queue w") (auto simp: take_batch_def writer_flow_def plain_queue_def)
qed

lemma flow_frame:
  "aw_queue w' = aw_queue w \<Longrightarrow> aw_running w' = aw_running w \<Longrightarrow> aw_closed w' = aw_closed w \<Longrightarrow>
   aw_batch w = [] \<longrightarrow> aw_batch w' = [] \<Longrightarrow> writer_flow w \<Longrightarrow> writer_flow w'"
  unfolding writer_flow_def by (auto simp del: split_paired_Ex)

lemma flow_stop: "writer_flow w \<Longrightarrow> \<not> aw_closed w \<Longrightarrow> writer_flow (stop_writer w)"
  by (auto simp: writer_flow_def stop_writer_def is_sentinel_def split: if_splits)

text \<open>Once the writer task has ended, every record is in the file.\<close>

lemma flow_ended:
  assumes "log_ok dumps loads (rs, w)" "writer_flow w" "\<not> aw_running w"
  shows "aw_file w = concat (map (record_bytes dumps) rs)"
proof -
  obtain kept pend where rs: "rs = kept @ pend" and sp: "split_at dumps kept pend w"
    using assms(1) by (rule log_okE)
  have "waiting w = []" using assms(2,3) by (simp add: writer_flow_def waiting_def)
  then have "pend = []" using sp by (simp add: split_at_def)
  then show ?thesis using sp rs by (simp add: split_at_def)
qed

lemma append_entry:
  assumes "log_ok dumps loads (rs, w)" "writer_flow w" "\<not> aw_closed w"
    "valid_record dumps loads (log_record (aw_seq w + 1) ts j)"
    "w' = snd (aof_append dumps (j_op j) (j_meta j) (j_payload j) ts w)"
  shows "log_ok dumps loads (rs @ [log_record (aw_seq w + 1) ts j], w')" "aw_seq w' = aw_seq w + 1" "\<not> aw_closed w'"
    "writer_flow w'" "log_grows (rs, w) (rs @ [log_record (aw_seq w + 1) ts j], w')"
proof -
  let ?r = "log_record (aw_seq w + 1) ts j"
  have enc: "encode_record dumps (aw_seq w + 1) (j_op j) (j_meta j) (j_payload j) ts = Inr (record_bytes dumps ?r)"
    using encode_record_eq [OF assms(4)] by (simp add: log_record_def record_dict_def)
  have eq: "w' = w\<lparr>aw_seq := aw_seq w + 1,
      aw_waiters := if aw_fsync w = ''always'' then dset (aw_seq w + 1) False (aw_waiters w) else aw_waiters w,
      aw_queue := aw_queue w @ [(aw_seq w + 1, record_bytes dumps ?r, aw_fsync w = ''always'')]\<rparr>"
    using assms(3) enc by (simp add: assms(5) aof_append_def Let_def)
  show "log_ok dumps loads (rs @ [?r], w')"
    unfolding assms(5) by (rule log_ok_append [OF assms(1,3) _ assms(4)]) (simp add: log_record_def)
  show "aw_seq w' = aw_seq w + 1" "\<not> aw_closed w'" using assms(3) by (simp_all add: eq)
  show "writer_flow w'"
    using assms(2,3) unfolding writer_flow_def plain_queue_def
    by (auto simp: eq is_sentinel_def record_bytes_nonempty split: if_splits)
  show "log_grows (rs, w) (rs @ [?r], w')" by (simp add: log_grows_def eq)
qed

lemma append_entries_ok:
  assumes "append_entries dumps js (rs, w) = (rs', w')" "log_ok dumps loads (rs, w)" "writer_flow w" "\<not> aw_closed w"
    "encodable dumps loads js (aw_seq w)"
  shows "log_ok dumps loads (rs', w') \<and> log_grows (rs, w) (rs', w') \<and> writer_flow w' \<and> \<not> aw_closed w' \<and>
    aw_seq w' = aw_seq w + int (length js) \<and>
    (\<forall>i < length js. log_record (aw_seq w + 1 + int i) (snd (js ! i)) (fst (js ! i)) \<in> set rs') \<and>
    (\<forall>r \<in> set rs'. r \<in> set rs \<or> (\<exists>j n ts. j \<in> set (map fst js) \<and> r = log_record n ts j))"
  using assms
proof (induction js arbitrary: rs w)
  case Nil
  then show ?case by (simp add: log_grows_refl)
next
  case (Cons x js)
  obtain j ts where x: "x = (j, ts)" by (cases x)
  let ?r = "log_record (aw_seq w + 1) ts j" and ?w = "snd (aof_append dumps (j_op j) (j_meta j) (j_payload j) ts w)"
  have valid: "valid_record dumps loads ?r" using Cons.prems(5) x by simp
  note one = append_entry [OF Cons.prems(2-4) valid refl]
  have run: "append_entries dumps js (rs @ [?r], ?w) = (rs', w')" using Cons.prems(1,4) x by simp
  have enc: "encodable dumps loads js (aw_seq ?w)" using Cons.prems(5) x one(2) by (simp add: add.commute)
  note ih = Cons.IH [OF run one(1,4,3) enc]
  have rest: "log_record (aw_seq w + 1 + int i) (snd ((x # js) ! i)) (fst ((x # js) ! i)) \<in> set rs'" if "i < length (x # js)" for i
  proof (cases i)
    case 0
    have "prefix (rs @ [?r]) rs'" using ih by (simp add: log_grows_def)
    then show ?thesis using 0 x by (auto simp: prefix_def)
  next
    case (Suc k)
    then have "log_record (aw_seq ?w + 1 + int k) (snd (js ! k)) (fst (js ! k)) \<in> set rs'" using ih that by simp
    then show ?thesis using Suc one(2) by (simp add: algebra_simps)
  qed
  have origin: "r \<in> set rs \<or> (\<exists>j n ts. j \<in> set (map fst (x # js)) \<and> r = log_record n ts j)" if "r \<in> set rs'" for r
  proof -
    have "r \<in> set (rs @ [?r]) \<or> (\<exists>j n ts. j \<in> set (map fst js) \<and> r = log_record n ts j)" using ih that by blast
    then show ?thesis using x by auto
  qed
  have "aw_seq w' = aw_seq w + int (length (x # js))" using ih one(2) by simp
  moreover have "log_grows (rs, w) (rs', w')" using ih one(5) log_grows_trans by blast
  ultimately show ?case using ih rest origin by blast
qed

lemma append_entries_closed: "aw_closed w \<Longrightarrow> append_entries dumps js (rs, w) = (rs, w)"
  by (induction js) (auto simp: aof_append_def)

section \<open>The invariant of a process\<close>

definition replayable :: "aof_record \<Rightarrow> bool" where
  "replayable r \<longleftrightarrow> (\<exists>j n ts. replays j \<and> r = log_record n ts j)"

text \<open>There is no snapshot file, or one that is ignored, or one of a broker in order, not newer than the log.\<close>

definition snapshot_ok :: "(bytes \<Rightarrow> (int \<times> file_state) option) \<Rightarrow> int \<Rightarrow> bytes option \<Rightarrow> bool" where
  "snapshot_ok sloads n file \<longleftrightarrow>
     (\<exists>snap. read_snapshot sloads file = Inr snap \<and>
        (\<forall>m st. snap = Some (m, st) \<longrightarrow>
           0 \<le> m \<and> m \<le> n \<and> snap_ok (sn_queues st) \<and> (\<forall>s. fst (routing_restore (sn_routing st) s) = Inr ())))"

text \<open>The log has the journal entries of this lifetime, under consecutive numbers, until it is closed; the
  entries the server takes as synced are.\<close>

definition mirrors :: "(dict \<Rightarrow> bytes) \<Rightarrow> process \<Rightarrow> bool" where
  "mirrors dumps p \<longleftrightarrow>
     (let js = journal_of (pc_server p); w = pc_log p; rs = pc_records p; base = pc_base p in
        sv_sync (pc_server p) = (aw_fsync w = ''always'') \<and> sv_durable (pc_server p) \<le> length js \<and>
        aw_seq w \<le> base + int (length js) \<and> (\<not> aw_closed w \<longrightarrow> aw_seq w = base + int (length js)) \<and>
        (\<forall>k < length js. base + 1 + int k \<le> aw_seq w \<longrightarrow> (\<exists>ts. log_record (base + 1 + int k) ts (js ! k) \<in> set rs)) \<and>
        (sv_sync (pc_server p) \<longrightarrow>
           (\<forall>k < sv_durable (pc_server p). \<forall>r \<in> set rs. rc_seq r = base + 1 + int k \<longrightarrow> secured dumps r (rs, w))))"

definition process_ok ::
  "(bytes \<Rightarrow> json option) \<Rightarrow> (dict \<Rightarrow> bytes) \<Rightarrow> (bytes \<Rightarrow> (int \<times> file_state) option) \<Rightarrow> process \<Rightarrow> bool" where
  "process_ok loads dumps sloads p \<longleftrightarrow>
     server_ok (pc_server p) \<and> log_ok dumps loads (pc_records p, pc_log p) \<and> writer_flow (pc_log p) \<and>
     (aw_closed (pc_log p) \<longleftrightarrow> pc_stage p = Flushing \<or> pc_stage p = Down) \<and>
     (pc_stage p = Down \<longrightarrow> \<not> aw_running (pc_log p) \<and> aw_synced (pc_log p) = length (aw_file (pc_log p))) \<and>
     list_all replays (journal_of (pc_server p)) \<and> (\<forall>r \<in> set (pc_records p). replayable r) \<and>
     snapshot_ok sloads (aw_seq (pc_log p)) (pc_snapshot p) \<and> mirrors dumps p"

lemma process_okD:
  assumes "process_ok loads dumps sloads p"
  shows "server_ok (pc_server p)" "log_ok dumps loads (pc_records p, pc_log p)" "writer_flow (pc_log p)"
    "aw_closed (pc_log p) \<longleftrightarrow> pc_stage p = Flushing \<or> pc_stage p = Down"
    "pc_stage p = Down \<Longrightarrow> \<not> aw_running (pc_log p) \<and> aw_synced (pc_log p) = length (aw_file (pc_log p))"
    "list_all replays (journal_of (pc_server p))" "\<forall>r \<in> set (pc_records p). replayable r"
    "snapshot_ok sloads (aw_seq (pc_log p)) (pc_snapshot p)" "mirrors dumps p"
  using assms by (simp_all add: process_ok_def)

lemma snapshot_ok_mono: "snapshot_ok sloads n file \<Longrightarrow> n \<le> n' \<Longrightarrow> snapshot_ok sloads n' file"
  unfolding snapshot_ok_def by (elim exE conjE, intro exI conjI, assumption) auto

lemma same_seq:
  assumes "log_ok dumps loads (rs, w)" "r \<in> set rs" "r' \<in> set rs" "rc_seq r = rc_seq r'"
  shows "r = r'"
proof -
  have "sorted_wrt (<) (map rc_seq rs)" using assms(1) by (simp add: log_ok_def)
  then have "distinct (map rc_seq rs)" by (simp add: strict_sorted_iff)
  then show ?thesis using assms(2-4) by (simp add: distinct_map inj_on_def)
qed

lemma mirrors_serves:
  assumes ok: "process_ok loads dumps sloads p" and step: "server_step wloads wdumps (pc_server p) sv"
    and waits: "waits_for_log p sv" and js: "map fst js = drop (length (journal_of (pc_server p))) (journal_of sv)"
    and grows: "prefix (journal_of (pc_server p)) (journal_of sv)" "log_grows (pc_records p, pc_log p) (rs, w)"
    and log: "log_ok dumps loads (rs, w)"
    and new: "aw_closed (pc_log p) \<and> rs = pc_records p \<and> w = pc_log p \<or>
      \<not> aw_closed (pc_log p) \<and> \<not> aw_closed w \<and> aw_seq w = aw_seq (pc_log p) + int (length js) \<and>
      (\<forall>i < length js. log_record (aw_seq (pc_log p) + 1 + int i) (snd (js ! i)) (fst (js ! i)) \<in> set rs)"
  shows "mirrors dumps (p\<lparr>pc_server := sv, pc_log := w, pc_records := rs\<rparr>)"
proof -
  let ?old = "journal_of (pc_server p)" and ?base = "pc_base p"
  have m: "sv_sync (pc_server p) = (aw_fsync (pc_log p) = ''always'')" "sv_durable (pc_server p) \<le> length ?old"
    "\<not> aw_closed (pc_log p) \<Longrightarrow> aw_seq (pc_log p) = ?base + int (length ?old)"
    "\<And>k. k < length ?old \<Longrightarrow> ?base + 1 + int k \<le> aw_seq (pc_log p) \<Longrightarrow>
       \<exists>ts. log_record (?base + 1 + int k) ts (?old ! k) \<in> set (pc_records p)"
    "aw_seq (pc_log p) \<le> ?base + int (length ?old)"
    using process_okD(9) [OF ok] by (simp_all add: mirrors_def Let_def)
  obtain more where j: "journal_of sv = ?old @ more" using grows(1) by (auto simp: prefix_def)
  have more: "more = map fst js" using js j by simp
  have sub: "set (pc_records p) \<subseteq> set rs" using grows(2) by (auto simp: log_grows_def prefix_def)
  have sync: "sv_sync sv = sv_sync (pc_server p)" "sv_durable sv \<le> length ?old"
    using sync_of_step [OF step] m(2) by (auto simp: sync_of_def)
  have entries: "\<exists>ts. log_record (?base + 1 + int k) ts (journal_of sv ! k) \<in> set rs"
    if k: "k < length (journal_of sv)" "?base + 1 + int k \<le> aw_seq w" for k
  proof (cases "k < length ?old \<and> ?base + 1 + int k \<le> aw_seq (pc_log p)")
    case True
    then show ?thesis using m(4) [of k] sub by (auto simp: j nth_append)
  next
    case False
    have c: "\<not> aw_closed (pc_log p)"
    proof
      assume "aw_closed (pc_log p)"
      then have "w = pc_log p" using new by blast
      then show False using False k(2) m(5) by auto
    qed
    then have n: "length ?old \<le> k" using False m(3) by auto
    have i: "k - length ?old < length js" using k(1) n by (simp add: j more less_diff_conv2)
    then have "log_record (aw_seq (pc_log p) + 1 + int (k - length ?old)) (snd (js ! (k - length ?old))) (fst (js ! (k - length ?old))) \<in> set rs"
      using new c by blast
    moreover have "journal_of sv ! k = fst (js ! (k - length ?old))" using n i by (simp add: j more nth_append)
    moreover have "aw_seq (pc_log p) + 1 + int (k - length ?old) = ?base + 1 + int k" using m(3) [OF c] n by simp
    ultimately show ?thesis by auto
  qed
  have old: "r \<in> set (pc_records p)" if r: "r \<in> set rs" "rc_seq r = ?base + 1 + int k" "k < sv_durable sv" for r k
  proof (cases "aw_closed (pc_log p)")
    case True
    then show ?thesis using new r(1) by simp
  next
    case False
    then obtain ts where e: "log_record (?base + 1 + int k) ts (?old ! k) \<in> set (pc_records p)"
      using m(3) m(4) [of k] r(3) sync(2) by auto
    then have "log_record (?base + 1 + int k) ts (?old ! k) = r"
      using sub r(1,2) by (intro same_seq [OF log]) (auto simp: log_record_def)
    then show ?thesis using e by simp
  qed
  have safe: "secured dumps r (rs, w)"
    if r: "sv_sync sv" "k < sv_durable sv" "r \<in> set rs" "rc_seq r = ?base + 1 + int k" for r k
  proof -
    have in_old: "r \<in> set (pc_records p)" using old r by blast
    then have "rc_seq r \<le> aw_seq (pc_log p)" using process_okD(2) [OF ok] by (simp add: log_ok_def)
    then have "may_return (rc_seq r) (pc_log p)" using waits r(2,4) by (simp add: waits_for_log_def)
    then have "secured dumps r (pc_records p, pc_log p)"
      using secured_kept [OF process_okD(2) [OF ok]] in_old r(1) sync(1) m(1) by blast
    then show ?thesis using grows(2) by (rule secured_grows)
  qed
  have "aw_seq w \<le> ?base + int (length (journal_of sv))"
    "\<not> aw_closed w \<Longrightarrow> aw_seq w = ?base + int (length (journal_of sv))"
    using new m(3,5) by (auto simp: j more)
  moreover have "aw_fsync w = aw_fsync (pc_log p)" using grows(2) by (simp add: log_grows_def)
  moreover have "sv_durable sv \<le> length (journal_of sv)" using sync(2) j by simp
  ultimately show ?thesis
    unfolding mirrors_def Let_def using sync(1) m(1) entries safe by simp
qed

lemma mirrors_log:
  assumes "mirrors dumps p" "log_grows (pc_records p, pc_log p) (pc_records p, w)" "aw_seq w = aw_seq (pc_log p)"
    "aw_closed (pc_log p) \<Longrightarrow> aw_closed w"
  shows "mirrors dumps (p\<lparr>pc_log := w\<rparr>)"
proof -
  have "aw_fsync w = aw_fsync (pc_log p)" using assms(2) by (simp add: log_grows_def)
  then show ?thesis
    using assms(1,3,4) secured_grows [OF _ assms(2)] unfolding mirrors_def Let_def by auto
qed

lemma mirrors_server:
  "mirrors dumps p \<Longrightarrow> journal_of sv = journal_of (pc_server p) \<Longrightarrow> sync_of sv = sync_of (pc_server p) \<Longrightarrow>
   mirrors dumps (p\<lparr>pc_server := sv\<rparr>)"
  by (simp add: mirrors_def sync_of_def)

lemma mirrors_frame [simp]:
  "mirrors dumps (p\<lparr>pc_stage := st\<rparr>) = mirrors dumps p" "mirrors dumps (p\<lparr>pc_snapshot := x\<rparr>) = mirrors dumps p"
  by (simp_all add: mirrors_def)

lemma process_ok_serves:
  assumes ok: "process_ok loads dumps sloads p" and step: "server_step wloads wdumps (pc_server p) sv"
    and waits: "waits_for_log p sv" and js: "map fst js = drop (length (journal_of (pc_server p))) (journal_of sv)"
    and enc: "aw_closed (pc_log p) \<or> encodable dumps loads js (aw_seq (pc_log p))"
    and run: "append_entries dumps js (pc_records p, pc_log p) = (rs, w)"
  shows "process_ok loads dumps sloads (p\<lparr>pc_server := sv, pc_log := w, pc_records := rs\<rparr>)"
proof -
  let ?p = "p\<lparr>pc_server := sv, pc_log := w, pc_records := rs\<rparr>"
  note parts = process_okD [OF ok]
  have j: "prefix (journal_of (pc_server p)) (journal_of sv)" "list_all replays (journal_of sv)"
    using journal_grows [OF step parts(6)] by blast+
  have "set (map fst js) \<subseteq> set (journal_of sv)" unfolding js by (rule set_drop_subset)
  then have new: "replays j" if "j \<in> set (map fst js)" for j using that j(2) by (auto simp: list_all_iff)
  have log: "log_ok dumps loads (rs, w) \<and> log_grows (pc_records p, pc_log p) (rs, w) \<and> writer_flow w \<and>
      aw_closed w = aw_closed (pc_log p) \<and> (\<forall>r \<in> set rs. replayable r) \<and> mirrors dumps ?p"
  proof (cases "aw_closed (pc_log p)")
    case True
    then have "rs = pc_records p" "w = pc_log p" using run append_entries_closed by simp_all
    then show ?thesis
      using True parts log_grows_refl mirrors_serves [OF ok step waits js j(1), of rs w] by simp
  next
    case False
    then have "encodable dumps loads js (aw_seq (pc_log p))" using enc by simp
    note a = append_entries_ok [OF run parts(2,3) False this]
    have "replayable r" if "r \<in> set rs" for r
      using a that parts(7) new unfolding replayable_def by blast
    then show ?thesis using a False mirrors_serves [OF ok step waits js j(1), of rs w] by simp
  qed
  then have "aw_seq (pc_log p) \<le> aw_seq w" "pc_stage p = Down \<Longrightarrow> w = pc_log p"
    using parts(4) run append_entries_closed by (auto simp: log_grows_def)
  then show ?thesis
    using log parts(4,5) server_ok_step [OF step parts(1)] j(2) snapshot_ok_mono [OF parts(8)]
    by (simp add: process_ok_def)
qed

lemma process_ok_log:
  assumes ok: "process_ok loads dumps sloads p" and step: "aof_step dumps loads (pc_records p, pc_log p) (pc_records p, w)"
    and w: "writer_flow w" "aw_seq w = aw_seq (pc_log p)" "aw_closed (pc_log p) \<Longrightarrow> aw_closed w"
    and st: "aw_closed w \<longleftrightarrow> st = Flushing \<or> st = Down"
    "st = Down \<Longrightarrow> \<not> aw_running w \<and> aw_synced w = length (aw_file w)"
  shows "process_ok loads dumps sloads (p\<lparr>pc_log := w, pc_stage := st\<rparr>)"
proof -
  note parts = process_okD [OF ok]
  have "log_grows (pc_records p, pc_log p) (pc_records p, w)" using log_grows_step [OF step parts(2)] .
  from mirrors_log [OF parts(9) this w(2,3)] show ?thesis
    using parts log_ok_step [OF step parts(2)] w(1,2) st by (simp add: process_ok_def)
qed

lemma log_task_frame:
  "aw_seq (forget_waiter n w) = aw_seq w" "aw_closed (forget_waiter n w) = aw_closed w"
  "aw_seq (take_batch w) = aw_seq w" "aw_closed (take_batch w) = aw_closed w"
  "aw_seq (write_batch now w) = aw_seq w" "aw_closed (write_batch now w) = aw_closed w"
  "aw_seq (finish_batch w) = aw_seq w" "aw_closed (finish_batch w) = aw_closed w"
  by (simp_all add: forget_waiter_def take_batch_def write_batch_def write_bytes_def finish_batch_def Let_def
      case_prod_beta split: list.split)

lemma process_ok_writes:
  assumes ok: "process_ok loads dumps sloads p" and up: "pc_stage p \<noteq> Down"
    and w: "w = forget_waiter n (pc_log p) \<and> may_return n (pc_log p) \<or>
      w = take_batch (pc_log p) \<and> aw_running (pc_log p) \<and> aw_batch (pc_log p) = [] \<or>
      w = write_batch now (pc_log p) \<and> aw_batch (pc_log p) \<noteq> [] \<and> \<not> aw_written (pc_log p) \<or>
      w = finish_batch (pc_log p) \<and> aw_batch (pc_log p) \<noteq> [] \<and> aw_written (pc_log p)"
  shows "process_ok loads dumps sloads (p\<lparr>pc_log := w\<rparr>)"
proof -
  note parts = process_okD [OF ok]
  have step: "aof_step dumps loads (pc_records p, pc_log p) (pc_records p, w)"
    using w by (auto intro: aof_step.intros)
  have "writer_flow w"
    using w
  proof (elim disjE conjE)
    assume "w = take_batch (pc_log p)" "aw_running (pc_log p)" "aw_batch (pc_log p) = []"
    then show ?thesis using flow_take_batch [OF parts(3)] by simp
  qed (simp_all add: flow_frame [OF _ _ _ _ parts(3)] forget_waiter_def write_batch_def write_bytes_def finish_batch_def Let_def)
  moreover have "aw_seq w = aw_seq (pc_log p)" "aw_closed w = aw_closed (pc_log p)"
    using w by (auto simp: log_task_frame)
  ultimately have "process_ok loads dumps sloads (p\<lparr>pc_log := w, pc_stage := pc_stage p\<rparr>)"
    using parts(4) up by (intro process_ok_log [OF ok step]) auto
  then show ?thesis by simp
qed

lemma process_ok_server:
  assumes "process_ok loads dumps sloads p" "server_ok sv" "journal_of sv = journal_of (pc_server p)"
    "sync_of sv = sync_of (pc_server p)" "pc_stage p \<noteq> Flushing" "pc_stage p \<noteq> Down" "st \<noteq> Flushing" "st \<noteq> Down"
  shows "process_ok loads dumps sloads (p\<lparr>pc_server := sv, pc_stage := st\<rparr>)"
proof -
  note parts = process_okD [OF assms(1)]
  from mirrors_server [OF parts(9) assms(3,4)] show ?thesis
    using parts assms(2-8) by (simp add: process_ok_def)
qed

lemma process_ok_shutdown:
  assumes ok: "process_ok loads dumps sloads p"
  shows "process_ok loads dumps sloads (shutdown_begin p)"
    "pc_stage p = Stopping \<Longrightarrow> process_ok loads dumps sloads (shutdown_server p)"
    "pc_stage p = Server_stopped \<Longrightarrow> process_ok loads dumps sloads (shutdown_flush p)"
proof -
  note parts = process_okD [OF ok]
  have j: "journal_of (stop_begin sv) = journal_of sv" "journal_of (stop_end sv) = journal_of sv" for sv
    by (simp_all add: journal_of_core core_stop_end) (simp add: stop_begin_def Let_def)
  show "process_ok loads dumps sloads (shutdown_begin p)"
    using ok process_ok_server [OF ok server_ok_stop_begin [OF parts(1)] j(1), of Stopping]
    by (simp add: shutdown_begin_def)
  show "pc_stage p = Stopping \<Longrightarrow> process_ok loads dumps sloads (shutdown_server p)"
    using process_ok_server [OF ok server_ok_stop_end [OF parts(1)] j(2), of Server_stopped]
    by (simp add: shutdown_server_def)
  show "process_ok loads dumps sloads (shutdown_flush p)" if "pc_stage p = Server_stopped"
  proof -
    have "writer_flow (stop_writer (pc_log p))" using parts(3,4) that by (intro flow_stop) simp_all
    moreover have "aw_seq (stop_writer (pc_log p)) = aw_seq (pc_log p)" "aw_closed (stop_writer (pc_log p))"
      by (simp_all add: stop_writer_def)
    ultimately show ?thesis unfolding shutdown_flush_def by (intro process_ok_log [OF ok stop_asked]) simp_all
  qed
qed

lemma snapshot_of_ok:
  assumes ok: "process_ok loads dumps sloads p" and snap: "snapshot_of sdumps sloads p data"
  shows "snapshot_ok sloads (aw_seq (pc_log p)) (Some data)"
proof -
  note parts = process_okD [OF ok]
  let ?b = "sv_broker (pc_server p)" and ?n = "aw_seq (pc_log p)"
  obtain created order where o: "set (order (bindings (br_routing ?b))) = bindings (br_routing ?b)"
    and w: "snapshot_bytes sdumps created ?n (runtime_snapshot order ?b) = Inr data"
    and l: "sloads (sdumps ?n (file_state_of (runtime_snapshot order ?b))) = Some (?n, file_state_of (runtime_snapshot order ?b))"
    using snap unfolding snapshot_of_def Let_def by blast
  have inv: "broker_inv ?b" using parts(1) by (rule server_ok_parts)
  have "snap_ok (sn_queues (runtime_snapshot order ?b))"
    using snap_ok_snapshot(1) [OF broker_inv_parts(1) [OF inv]] by (simp add: runtime_snapshot_def)
  moreover have "fst (routing_restore (sn_routing (runtime_snapshot order ?b)) s) = Inr ()" for s
    using routing_restore_ok [where r = "br_routing ?b" and order = order, OF broker_inv_parts(2) [OF inv] o]
    by (cases s) (simp add: runtime_snapshot_def)
  moreover have "0 \<le> ?n" using parts(2) by (simp add: log_ok_def)
  ultimately show ?thesis
    unfolding snapshot_ok_def using read_written [where dumps = sdumps and loads = sloads, OF w l] by auto
qed

lemma process_ok_snapshot:
  "process_ok loads dumps sloads p \<Longrightarrow> snapshot_ok sloads (aw_seq (pc_log p)) file \<Longrightarrow>
   process_ok loads dumps sloads (p\<lparr>pc_snapshot := file\<rparr>)"
  by (simp add: process_ok_def)

lemma process_ok_down:
  assumes ok: "process_ok loads dumps sloads p" and st: "pc_stage p = Flushing" "\<not> aw_running (pc_log p)"
    and data: "data = None \<or> (\<exists>bs. data = Some bs \<and> snapshot_of sdumps sloads p bs)"
  shows "process_ok loads dumps sloads (shutdown_end data p)"
proof -
  note parts = process_okD [OF ok]
  let ?w = "close_file (pc_log p)"
  have w: "aw_seq ?w = aw_seq (pc_log p)" "aw_closed ?w" "writer_flow ?w" "\<not> aw_running ?w" "aw_synced ?w = length (aw_file ?w)"
    using parts(3,4) st flow_frame [OF _ _ _ _ parts(3), of ?w] by (simp_all add: close_file_def)
  have "process_ok loads dumps sloads (p\<lparr>pc_log := ?w, pc_stage := Down\<rparr>)"
    by (rule process_ok_log [OF ok file_closed [OF st(2)]]) (use w in simp_all)
  then have "process_ok loads dumps sloads (snapshot_round data (p\<lparr>pc_log := ?w, pc_stage := Down\<rparr>))"
    using data snapshot_of_ok [OF ok] w(1) by (auto simp: snapshot_round_def intro!: process_ok_snapshot)
  moreover have "snapshot_round data (p\<lparr>pc_log := ?w, pc_stage := Down\<rparr>) = shutdown_end data p"
    by (simp add: shutdown_end_def snapshot_round_def split: option.split)
  ultimately show ?thesis by simp
qed

section \<open>Restarts\<close>

lemma fresh_runtime_ok:
  assumes "fresh_runtime b"
  shows "broker_inv b" "idle (br_engine b)" "br_net b = []" "mt_connections (br_metrics b) = 0" "journal (br_engine b) = []"
proof -
  obtain cf vt ma ml backoff base_delay limit clk cclk buffer now where
    b: "b = new_runtime cf vt ma ml backoff base_delay limit clk cclk buffer now"
    using assms by (elim fresh_runtime.cases)
  show "broker_inv b"
    by (simp add: b new_runtime_def broker_inv_def einv_new_engine routing_ok_new pubsub_ok_new
        manager_ok_def new_manager_def dict_ok_def net_ok_def)
  show "idle (br_engine b)" "br_net b = []" "mt_connections (br_metrics b) = 0" "journal (br_engine b) = []"
    by (simp_all add: b new_runtime_def idle_def new_metrics_def new_engine_def)
qed

lemma process_ok_started:
  assumes log: "log_ok dumps loads (rs, w)" "crash_leaves w data" and replay: "\<forall>r \<in> set rs. replayable r"
    and fresh: "fresh_runtime b" and snap: "snapshot_ok sloads n file"
    and start: "start_directory loads sloads fsync max_connections max_frame outbound file (Some data) b = Inr (sv, w')"
  shows "process_ok loads dumps sloads (started sv w' (fst (read_aof loads (Some data))) file)"
proof -
  note new = fresh_runtime_ok [OF fresh]
  obtain sn where sn: "read_snapshot sloads file = Inr sn"
    "\<forall>m st. sn = Some (m, st) \<longrightarrow>
       0 \<le> m \<and> m \<le> n \<and> snap_ok (sn_queues st) \<and> (\<forall>s. fst (routing_restore (sn_routing st) s) = Inr ())"
    using snap unfolding snapshot_ok_def by blast
  then have good: "\<forall>m st. sn = Some (m, st) \<longrightarrow> 0 \<le> m \<and> snap_ok (sn_queues st)" by blast
  have run: "start_broker loads fsync max_connections max_frame outbound sn (Some data) b = Inr (sv, w')"
    using start sn(1) by (simp add: start_directory_def)
  note restart = restart_after_crash [OF log new(1-4) good run]
  let ?rs = "fst (read_aof loads (Some data))"
  obtain b' where b': "sv = start_server (new_server b' max_connections max_frame outbound (fsync = ''always''))"
    "broker_inv b'" "br_net b' = []" "mt_connections (br_metrics b') = 0" "journal (br_engine b') = []"
    using restart(5) new(5) by auto
  have "fresh_server (new_server b' max_connections max_frame outbound (fsync = ''always''))"
    using b'(2-4) by (rule fresh_server.intros)
  then have "server_ok sv" unfolding b'(1) by (intro server_ok_start server_ok_fresh)
  moreover have "log_ok dumps loads (?rs, w')" using restart(1) by (rule log_ok_opened)
  moreover have w: "aw_running w'" "\<not> aw_closed w'" "aw_queue w' = []" "aw_fsync w' = fsync"
    by (subst restart(3), simp add: start_writer_def attach_existing_seq_def new_writer_def)+
  then have "writer_flow w'" by (simp add: writer_flow_def plain_queue_def)
  moreover have "journal_of sv = []" "sync_of sv = (fsync = ''always'', 0)"
    using b'(5) by (simp_all add: b'(1) journal_of_def sync_of_def start_server_def new_server_def)
  moreover have "snapshot_ok sloads (aw_seq w') file" unfolding snapshot_ok_def using sn restart(4) by auto
  moreover have "\<forall>r \<in> set ?rs. replayable r" using restart(2) replay by blast
  ultimately show ?thesis
    using w by (simp add: process_ok_def started_def mirrors_def sync_of_def)
qed

text \<open>The first start is as a restart on an empty log.\<close>

lemma read_empty_aof: "read_aof loads (Some []) = ([], 0)" "read_aof loads None = ([], 0)"
  by (simp_all add: read_aof_def read_records.simps)

lemma start_on_empty:
  "start_directory loads sloads fsync mc mf ob snap None b = start_directory loads sloads fsync mc mf ob snap (Some []) b"
  by (simp add: start_directory_def start_broker_def recover_into_def read_empty_aof Let_def
      split: sum.split prod.split)

lemma process_ok_first: "first_start loads sloads p \<Longrightarrow> process_ok loads dumps sloads p"
proof (induction rule: first_start.induct)
  case (1 b fsync max_connections max_frame outbound sv w)
  let ?w = "start_writer [] (attach_existing_seq 0 (new_writer fsync))"
  have "opened_log dumps loads ([], ?w)" using opened_log.intros [of "[]" dumps loads 0 fsync] by simp
  then have "log_ok dumps loads ([], ?w)" by (rule log_ok_opened)
  moreover have "crash_leaves ?w []"
    by (simp add: crash_leaves_def start_writer_def attach_existing_seq_def new_writer_def)
  moreover have "snapshot_ok sloads 0 None" by (simp add: snapshot_ok_def read_snapshot_def)
  ultimately show ?case
    using process_ok_started [of dumps loads "[]" ?w "[]" b sloads 0 None] 1 start_on_empty [of loads sloads fsync]
    by (simp add: read_empty_aof)
qed

lemma process_ok_step:
  "process_step wloads wdumps loads dumps sloads sdumps p p' \<Longrightarrow> process_ok loads dumps sloads p \<Longrightarrow>
   process_ok loads dumps sloads p'"
proof (induction rule: process_step.induct)
  case (serves p sv js rs w)
  then show ?case by (intro process_ok_serves)
next
  case (writes_log p w n now)
  show ?case by (rule process_ok_writes [OF writes_log.prems writes_log.hyps])
next
  case (snapshots p data)
  then show ?case using process_ok_snapshot snapshot_of_ok by (auto simp: snapshot_round_def)
next
  case (restarts p data b fsync max_connections max_frame outbound sv w)
  note parts = process_okD [OF restarts.prems]
  show ?case by (rule process_ok_started [OF parts(2) restarts.hyps(1) parts(7) restarts.hyps(2) parts(8) restarts.hyps(3)])
qed (simp_all add: process_ok_shutdown process_ok_down)

interpretation process: step_invariant "first_start loads sloads"
  "process_step wloads wdumps loads dumps sloads sdumps" "process_ok loads dumps sloads"
  by unfold_locales (auto intro: process_ok_first process_ok_step)

abbreviation reachable_process ::
  "(bytes \<Rightarrow> json option) \<Rightarrow> (dict \<Rightarrow> bytes) \<Rightarrow> (bytes \<Rightarrow> json option) \<Rightarrow> (dict \<Rightarrow> bytes) \<Rightarrow>
   (bytes \<Rightarrow> (int \<times> file_state) option) \<Rightarrow> (int \<Rightarrow> file_state \<Rightarrow> bytes) \<Rightarrow> process \<Rightarrow> bool" where
  "reachable_process wloads wdumps loads dumps sloads sdumps \<equiv>
     reach (first_start loads sloads) (process_step wloads wdumps loads dumps sloads sdumps)"

end
