(* ===== verification/Lifetimes.thy ===== *)
theory Lifetimes
  imports Lifecycle
begin

text \<open>
  What holds over all the lifetimes of a broker on one data directory: every start succeeds and gives a
  server in order, what was acknowledged as synced is never lost, a clean stop keeps every message.
\<close>

section \<open>Properties\<close>

lemma started_directory:
  assumes "snapshot_ok sloads n file" "\<forall>r \<in> set (fst (read_aof loads aof_file)). replayable r"
  shows "\<exists>sv w. start_directory loads sloads fsync max_connections max_frame outbound file aof_file b = Inr (sv, w)"
proof -
  obtain sn where sn: "read_snapshot sloads file = Inr sn"
    "\<forall>m st. sn = Some (m, st) \<longrightarrow> (\<forall>s. fst (routing_restore (sn_routing st) s) = Inr ())"
    using assms(1) unfolding snapshot_ok_def by blast
  obtain m b1 where l: "load_snapshot sn b = (Inr m, b1)"
  proof (cases sn)
    case None
    then show ?thesis using that by (simp add: load_snapshot_def)
  next
    case (Some x)
    obtain m st where x: "x = (m, st)" by (cases x)
    let ?e = "restore_state (sn_queues st) (br_engine b)"
    obtain s where "routing_restore (sn_routing st) (br_routing b, ?e) = (Inr (), s)"
      using sn(2) Some x by (metis prod.collapse)
    then have "\<exists>b1. restore_snapshot st b = (Inr (), b1)"
      by (simp add: restore_snapshot_def with_routing_core)
    then show ?thesis using that Some x by (auto simp: load_snapshot_def)
  qed
  obtain recs keep where aof: "read_aof loads aof_file = (recs, keep)" by (cases "read_aof loads aof_file")
  have "\<forall>rec \<in> set recs. \<exists>j n ts. replays j \<and> rec = log_record n ts j"
    using assms(2) aof by (simp add: replayable_def)
  from replay_total [OF this] obtain k s where "replay m recs m (br_routing b1, br_engine b1) = (Inr k, s)"
    by (metis prod.collapse)
  then show ?thesis
    using sn(1) l aof
    by (simp add: start_directory_def start_broker_def recover_into_def with_routing_core case_prod_beta Let_def)
qed

lemma crash_records:
  assumes "log_ok dumps loads (rs, w)" "crash_leaves w data"
  shows "\<exists>n \<le> length rs. fst (read_aof loads (Some data)) = take n rs"
proof -
  obtain n where "n \<le> length rs" "read_records loads data 0 [] = (take n rs, length (concat (map (record_bytes dumps) (take n rs))))"
    by (rule crash_cut [OF assms]) (rule that)
  then show ?thesis by (auto simp: read_aof_def)
qed

text \<open>C19. Over all its lifetimes a broker stays in order: after any number of starts, crashes and clean
  stops the server satisfies its invariant, the records of the log have ascending numbers, not above the
  writer's, whatever a crash leaves of the file is read back as a first part of these records, and once the
  process has shut down every record is in the file, and synced.\<close>

theorem lifetimes_in_order:
  assumes "reachable_process wloads wdumps loads dumps sloads sdumps p"
  shows "server_ok (pc_server p) \<and> sorted_wrt (<) (map rc_seq (pc_records p)) \<and>
    (\<forall>r \<in> set (pc_records p). rc_seq r \<le> aw_seq (pc_log p)) \<and>
    (\<forall>data. crash_leaves (pc_log p) data \<longrightarrow>
       (\<exists>n \<le> length (pc_records p). fst (read_aof loads (Some data)) = take n (pc_records p))) \<and>
    (pc_stage p = Down \<longrightarrow> aw_file (pc_log p) = concat (map (record_bytes dumps) (pc_records p)) \<and>
       aw_synced (pc_log p) = length (aw_file (pc_log p)))"
proof -
  have ok: "process_ok loads dumps sloads p" by (rule process.reach_safe [OF assms])
  note parts = process_okD [OF ok]
  have "sorted_wrt (<) (map rc_seq (pc_records p))" "\<forall>r \<in> set (pc_records p). rc_seq r \<le> aw_seq (pc_log p)"
    using parts(2) by (simp_all add: log_ok_def)
  moreover have "aw_file (pc_log p) = concat (map (record_bytes dumps) (pc_records p))" if "pc_stage p = Down"
    using parts(5) [OF that] flow_ended [OF parts(2,3)] by blast
  ultimately show ?thesis using parts(1,5) crash_records [OF parts(2)] by blast
qed

text \<open>C6. A broker can always be started again: whatever it has done, in this and in earlier lifetimes, and
  whatever a crash leaves of its log, a start on its data directory succeeds - no snapshot and no record of
  the log makes the recovery raise -, and gives a process that serves.\<close>

theorem broker_always_restarts:
  assumes "reachable_process wloads wdumps loads dumps sloads sdumps p" "crash_leaves (pc_log p) data" "fresh_runtime b"
  shows "\<exists>sv w. start_directory loads sloads fsync max_connections max_frame outbound (pc_snapshot p) (Some data) b = Inr (sv, w) \<and>
    process_step wloads wdumps loads dumps sloads sdumps p
      (started sv w (fst (read_aof loads (Some data))) (pc_snapshot p))"
proof -
  have ok: "process_ok loads dumps sloads p" by (rule process.reach_safe [OF assms(1)])
  note parts = process_okD [OF ok]
  obtain n where "fst (read_aof loads (Some data)) = take n (pc_records p)"
    using crash_records [OF parts(2) assms(2)] by blast
  then have "\<forall>r \<in> set (fst (read_aof loads (Some data))). replayable r" using parts(7) by (auto dest: in_set_takeD)
  from started_directory [OF parts(8) this] obtain sv w where
    "start_directory loads sloads fsync max_connections max_frame outbound (pc_snapshot p) (Some data) b = Inr (sv, w)"
    by blast
  then show ?thesis using restarts [OF assms(2,3)] by blast
qed

lemma secured_step:
  assumes "process_step wloads wdumps loads dumps sloads sdumps p p'" "process_ok loads dumps sloads p"
    "secured dumps r (pc_records p, pc_log p)"
  shows "secured dumps r (pc_records p', pc_log p')"
  using assms
proof (induction rule: process_step.induct)
  case (serves p sv js rs w)
  note parts = process_okD [OF serves.prems(1)]
  have "log_grows (pc_records p, pc_log p) (rs, w)"
  proof (cases "aw_closed (pc_log p)")
    case True
    then show ?thesis using serves.hyps(7) append_entries_closed [OF True] log_grows_refl by simp
  next
    case False
    then show ?thesis using append_entries_ok [OF serves.hyps(7) parts(2,3) False] serves.hyps(6) by blast
  qed
  then show ?case using secured_grows [OF serves.prems(2)] by simp
next
  case (writes_log p w n now)
  have "aof_step dumps loads (pc_records p, pc_log p) (pc_records p, w)"
    using writes_log.hyps(2) by (auto intro: aof_step.intros)
  from log_grows_step [OF this process_okD(2) [OF writes_log.prems(1)]] show ?case
    using secured_grows [OF writes_log.prems(2)] by simp
next
  case (flushing p)
  have "log_grows (pc_records p, pc_log p) (pc_records p, stop_writer (pc_log p))"
    by (rule log_grows_step [OF stop_asked process_okD(2) [OF flushing.prems(1)]])
  then show ?case using secured_grows [OF flushing.prems(2)] by (simp add: shutdown_flush_def)
next
  case (down p data)
  have "log_grows (pc_records p, pc_log p) (pc_records p, close_file (pc_log p))"
    by (rule log_grows_step [OF file_closed [OF down.hyps(2)] process_okD(2) [OF down.prems(1)]])
  then show ?case using secured_grows [OF down.prems(2)] by (simp add: shutdown_end_def snapshot_round_def split: option.split)
next
  case (restarts p data b fsync max_connections max_frame outbound sv w)
  note parts = process_okD [OF restarts.prems(1)] and new = fresh_runtime_ok [OF restarts.hyps(2)]
  obtain sn where sn: "read_snapshot sloads (pc_snapshot p) = Inr sn"
    "\<forall>m st. sn = Some (m, st) \<longrightarrow> 0 \<le> m \<and> snap_ok (sn_queues st)"
    using parts(8) unfolding snapshot_ok_def by blast
  have "start_broker loads fsync max_connections max_frame outbound sn (Some data) b = Inr (sv, w)"
    using restarts.hyps(3) sn(1) by (simp add: start_directory_def)
  note opened = restart_after_crash(3) [OF parts(2) restarts.hyps(1) new(1-4) sn(2) this]
  have "aw_synced w = length (concat (map (record_bytes dumps) (fst (read_aof loads (Some data)))))"
    using arg_cong [OF opened, of aw_synced] by (simp add: start_writer_def)
  from secured_crash(2) [OF parts(2) restarts.hyps(1) restarts.prems(2) this] show ?case by (simp add: started_def)
qed (simp_all add: shutdown_begin_def shutdown_server_def snapshot_round_def split: option.split)

lemma secured_run:
  assumes "(process_step wloads wdumps loads dumps sloads sdumps)\<^sup>*\<^sup>* p p'" "process_ok loads dumps sloads p"
    "secured dumps r (pc_records p, pc_log p)"
  shows "secured dumps r (pc_records p', pc_log p')"
  using assms(1)
proof (induction rule: rtranclp_induct)
  case (step q q')
  have "process_ok loads dumps sloads q" by (rule process.run_safe [OF step.hyps(1) assms(2)])
  then show ?case using secured_step [OF step.hyps(2)] step.IH by blast
qed (rule assms(3))

lemma synced_entry:
  assumes "mirrors dumps p" "k < sv_durable (pc_server p)" "\<not> aw_closed (pc_log p)"
  shows "\<exists>ts. log_record (pc_base p + 1 + int k) ts (journal_of (pc_server p) ! k) \<in> set (pc_records p)"
    "r \<in> set (pc_records p) \<Longrightarrow> aw_fsync (pc_log p) = ''always'' \<Longrightarrow> rc_seq r = pc_base p + 1 + int k \<Longrightarrow>
     secured dumps r (pc_records p, pc_log p)"
proof -
  have m: "sv_durable (pc_server p) \<le> length (journal_of (pc_server p))"
    "aw_seq (pc_log p) = pc_base p + int (length (journal_of (pc_server p)))"
    "\<And>k. k < length (journal_of (pc_server p)) \<Longrightarrow> pc_base p + 1 + int k \<le> aw_seq (pc_log p) \<Longrightarrow>
       \<exists>ts. log_record (pc_base p + 1 + int k) ts (journal_of (pc_server p) ! k) \<in> set (pc_records p)"
    using assms(1,3) by (simp_all add: mirrors_def Let_def)
  show "\<exists>ts. log_record (pc_base p + 1 + int k) ts (journal_of (pc_server p) ! k) \<in> set (pc_records p)"
    using m(1,2) assms(2) by (intro m(3)) simp_all
  show "secured dumps r (pc_records p, pc_log p)"
    if "r \<in> set (pc_records p)" "aw_fsync (pc_log p) = ''always''" "rc_seq r = pc_base p + 1 + int k"
    using assms(1,2) that by (simp add: mirrors_def Let_def)
qed

text \<open>C5. What a client was made to wait for is never lost: with \<open>fsync = always\<close>, the record of every
  journal entry up to which the server takes the log as synced - a session goes on to its next command only
  when the entries of the last one are - is in the log after any crash, not only now but at any later time,
  through any number of further crashes, restarts and clean stops, under whatever configuration.\<close>

theorem synced_entries_survive:
  assumes "reachable_process wloads wdumps loads dumps sloads sdumps p" "aw_fsync (pc_log p) = ''always''"
    "k < sv_durable (pc_server p)" "\<not> aw_closed (pc_log p)"
    "(process_step wloads wdumps loads dumps sloads sdumps)\<^sup>*\<^sup>* p p'" "crash_leaves (pc_log p') data"
  shows "\<exists>ts. log_record (pc_base p + 1 + int k) ts (journal_of (pc_server p) ! k) \<in> set (fst (read_aof loads (Some data)))"
proof -
  have ok: "process_ok loads dumps sloads p" by (rule process.reach_safe [OF assms(1)])
  then have "process_ok loads dumps sloads p'" by (rule process.run_safe [OF assms(5)])
  note later = process_okD(2) [OF this]
  note m = process_okD(9) [OF ok]
  obtain ts where r: "log_record (pc_base p + 1 + int k) ts (journal_of (pc_server p) ! k) \<in> set (pc_records p)"
    using synced_entry(1) [OF m assms(3,4)] by blast
  let ?r = "log_record (pc_base p + 1 + int k) ts (journal_of (pc_server p) ! k)"
  have "secured dumps ?r (pc_records p, pc_log p)"
    using synced_entry(2) [OF m assms(3,4) r assms(2)] by (simp add: log_record_def)
  from secured_run [OF assms(5) ok this] have "secured dumps ?r (pc_records p', pc_log p')" .
  then show ?thesis using secured_crash(1) [OF later assms(6)] by blast
qed

section \<open>A life of a process\<close>

text \<open>A broker starts on an empty directory, a connection declares an exchange, the record is written and
  synced, and the server takes note. The codecs are constant: each of them is used for one value.\<close>

definition demo_runtime :: broker where
  "demo_runtime =
     new_runtime (demo_config\<lparr>cf_auth_enabled := False\<rparr>) 30 3 None ''fixed'' 1 10 (\<lambda>_. 0) (\<lambda>_. 0) 1000 0"

definition demo_request :: dict where
  "demo_request = [(''cmd'', JStr ''DECLARE_EXCHANGE''), (''name'', JStr ''events''), (''type'', JStr ''fanout'')]"

definition demo_entry :: journal_entry where
  "demo_entry =
     \<lparr>j_op = ''EXCHANGE_DECLARE'',
      j_meta = [(''name'', JStr ''events''), (''type'', JStr ''fanout''), (''durable'', JBool True)], j_payload = []\<rparr>"

abbreviation demo_wire_loads :: "bytes \<Rightarrow> json option" where "demo_wire_loads \<equiv> \<lambda>_. Some (JObj demo_request)"
abbreviation demo_log_dumps :: "dict \<Rightarrow> bytes" where "demo_log_dumps \<equiv> \<lambda>_. [0x7B]"
abbreviation demo_log_loads :: "bytes \<Rightarrow> json option" where "demo_log_loads \<equiv> \<lambda>_. Some (JObj (j_meta demo_entry))"

definition demo_opened :: aof_writer where
  "demo_opened = start_writer [] (attach_existing_seq 0 (new_writer ''always''))"

definition demo_serving :: server where
  "demo_serving =
     start_server (new_server (snd (with_engine (tick None) demo_runtime)) 10 1000 10 True)"

definition demo_reading :: server where
  "demo_reading = loop_top ''x'' (on_connection ''x'' demo_serving)"

definition demo_session :: session where
  "demo_session =
     \<lparr>ss_ctx = new_context ''x'', ss_reader = new_reader 1000, ss_phase = Reading, ss_conn = None\<rparr>"

definition demo_received :: server where
  "demo_received =
     upd_session ''x'' (\<lambda>s. s\<lparr>ss_reader := new_reader 1000, ss_phase := Handling [demo_ping]\<rparr>)
       (set_broker ((sv_broker demo_reading)\<lparr>br_metrics := add_received 33 (br_metrics (sv_broker demo_reading))\<rparr>) demo_reading)"

definition demo_outside :: outside where
  "demo_outside = \<lparr>ou_message = \<lambda>_. (''m'', 0), ou_consumer = ''c'', ou_now = 0, ou_aof_size = 0, ou_snap_size = 0\<rparr>"

definition demo_handled :: server where
  "demo_handled =
     on_frame demo_wire_loads demo_outside ''x'' demo_ping []
       (demo_session\<lparr>ss_phase := Handling [demo_ping]\<rparr>) demo_received"

definition demo_record :: aof_record where
  "demo_record = log_record 1 0 demo_entry"

definition demo_appended :: aof_writer where
  "demo_appended =
     demo_opened\<lparr>aw_seq := 1, aw_waiters := [(1, False)], aw_queue := [(1, record_bytes demo_log_dumps demo_record, True)]\<rparr>"

definition demo_synced :: aof_writer where
  "demo_synced = finish_batch (write_batch 5 (take_batch demo_appended))"

definition demo_process :: process where
  "demo_process =
     \<lparr>pc_server = demo_handled\<lparr>sv_durable := 1\<rparr>, pc_log = demo_synced, pc_records = [demo_record], pc_base = 0,
      pc_snapshot = None, pc_stage = Serving\<rparr>"

lemma serves_quietly:
  assumes "pc_stage p \<noteq> Down" "server_step wloads wdumps (pc_server p) sv" "sv_halted sv = sv_halted (pc_server p)"
    "waits_for_log p sv" "journal_of sv = journal_of (pc_server p)"
  shows "process_step wloads wdumps loads dumps sloads sdumps p (p\<lparr>pc_server := sv\<rparr>)"
  using serves [where p = p and sv = sv and js = "[]" and rs = "pc_records p" and w = "pc_log p", OF assms(1-4)] assms(5)
  by simp

lemma demo_journal:
  "journal_of demo_serving = []" "journal_of (on_connection ''x'' demo_serving) = []" "journal_of demo_reading = []"
  "journal_of demo_received = []" "journal_of demo_handled = [demo_entry]"
  by code_simp+

lemma demo_flags:
  "sv_halted demo_serving = False" "sv_halted (on_connection ''x'' demo_serving) = False" "sv_halted demo_reading = False"
  "sv_halted demo_received = False" "sv_halted demo_handled = False"
  "sv_durable demo_serving = 0" "sv_durable (on_connection ''x'' demo_serving) = 0" "sv_durable demo_reading = 0"
  "sv_durable demo_received = 0" "sv_durable demo_handled = 0"
  by code_simp+

lemma demo_sessions:
  "map_of (sv_sessions demo_reading) ''x'' = Some demo_session"
  "map_of (sv_sessions demo_received) ''x'' = Some (demo_session\<lparr>ss_phase := Handling [demo_ping]\<rparr>)"
  "phase_of ''x'' (on_connection ''x'' demo_serving) = Some At_top"
  "sv_sessions demo_serving = []" "br_net (sv_broker demo_serving) = []"
  by code_simp+

lemma demo_first: "first_start loads sloads (started demo_serving demo_opened [] None)"
proof (rule first_start.intros)
  show "fresh_runtime demo_runtime" unfolding demo_runtime_def by (rule fresh_runtime.intros)
  show "start_directory loads sloads ''always'' 10 1000 10 None None demo_runtime = Inr (demo_serving, demo_opened)"
    by (simp add: start_directory_def read_snapshot_def start_broker_def recover_into_def load_snapshot_def read_empty_aof
        with_routing_def demo_serving_def demo_opened_def Let_def)
qed

lemma demo_steps:
  "server_step wloads wdumps demo_serving (on_connection ''x'' demo_serving)"
  "server_step wloads wdumps (on_connection ''x'' demo_serving) demo_reading"
  "server_step wloads wdumps demo_reading demo_received"
  "server_step demo_wire_loads wdumps demo_received demo_handled"
  "server_step wloads wdumps demo_handled (demo_handled\<lparr>sv_durable := 1\<rparr>)"
proof -
  show "server_step wloads wdumps demo_serving (on_connection ''x'' demo_serving)"
    by (rule connect) (simp_all add: demo_sessions)
  show "server_step wloads wdumps (on_connection ''x'' demo_serving) demo_reading"
    unfolding demo_reading_def by (rule at_top) (rule demo_sessions)
  have "valid_frame 1000 demo_ping" using demo_ping_valid by (simp add: valid_frame_def)
  then have "feed (frame_bytes demo_ping @ []) (on_buffer 1000 []) = (Inr [demo_ping], on_buffer 1000 [])"
    using wire.go_written [where xs = "[demo_ping]" and mx = 1000 and s = "[]" and r = "[]"] wire.go_none
    by (simp add: feed_open frame_dec_wait try_one_short HEADER_SIZE_def)
  then have feed: "feed (frame_bytes demo_ping) (new_reader 1000) = (Inr [demo_ping], new_reader 1000)"
    by (simp add: new_reader_def)
  have "frame_bytes demo_ping \<noteq> []" using demo_ping_length by auto
  then have "on_data ''x'' (frame_bytes demo_ping) demo_session demo_reading = demo_received"
    unfolding on_data_def demo_received_def by (simp add: demo_flags demo_session_def feed demo_ping_length Let_def)
  then show "server_step wloads wdumps demo_reading demo_received"
    using data [of demo_reading "''x''" demo_session wloads wdumps "frame_bytes demo_ping"] demo_sessions(1)
    by (simp add: demo_session_def)
  show "server_step demo_wire_loads wdumps demo_received demo_handled"
    unfolding demo_handled_def by (rule server_step.frame [OF demo_sessions(2)]) simp
  show "server_step wloads wdumps demo_handled (demo_handled\<lparr>sv_durable := 1\<rparr>)"
    by (rule synced) (simp_all add: demo_flags demo_journal(5) flip: journal_of_def)
qed

lemma demo_valid: "valid_record demo_log_dumps demo_log_loads demo_record"
  by (simp add: demo_record_def log_record_def demo_entry_def valid_record_def OP_BY_NAME_def)

lemma demo_append:
  "append_entries demo_log_dumps [(demo_entry, 0)] ([], demo_opened) = ([demo_record], demo_appended)"
proof -
  have e: "encode_record demo_log_dumps 1 (j_op demo_entry) (j_meta demo_entry) (j_payload demo_entry) 0 =
      Inr (record_bytes demo_log_dumps demo_record)"
    using encode_record_eq [OF demo_valid] by (simp add: demo_record_def log_record_def record_dict_def)
  have w: "aw_seq demo_opened = 0" "\<not> aw_closed demo_opened" "aw_fsync demo_opened = ''always''" "aw_queue demo_opened = []"
    "aw_waiters demo_opened = []"
    by (simp_all add: demo_opened_def start_writer_def attach_existing_seq_def new_writer_def)
  then have "snd (aof_append demo_log_dumps (j_op demo_entry) (j_meta demo_entry) (j_payload demo_entry) 0 demo_opened) = demo_appended"
    using e by (simp add: aof_append_def demo_appended_def)
  then show ?thesis using w by (simp add: demo_record_def)
qed

lemma demo_writing:
  "aw_running demo_appended" "aw_batch demo_appended = []" "aw_batch (take_batch demo_appended) \<noteq> []"
  "\<not> aw_written (take_batch demo_appended)" "aw_written (write_batch 5 (take_batch demo_appended))"
  "aw_batch (write_batch 5 (take_batch demo_appended)) \<noteq> []"
  "aw_fsync demo_synced = ''always''" "\<not> aw_closed demo_synced" "map_of (aw_waiters demo_synced) 1 = Some True"
  "aw_queue demo_synced = []" "aw_running demo_synced" "aw_batch demo_synced = []" "aw_seq demo_synced = 1"
  by (simp_all add: demo_synced_def demo_appended_def demo_opened_def start_writer_def attach_existing_seq_def new_writer_def
      take_batch_def write_batch_def write_bytes_def finish_batch_def is_sentinel_def record_bytes_nonempty complete_waiter_def Let_def)

lemma demo_reachable_process:
  "reachable_process demo_wire_loads wdumps demo_log_loads demo_log_dumps sloads sdumps demo_process"
proof -
  let ?step = "process_step demo_wire_loads wdumps demo_log_loads demo_log_dumps sloads sdumps"
  let ?p = "\<lambda>sv w rs. \<lparr>pc_server = sv, pc_log = w, pc_records = rs, pc_base = 0, pc_snapshot = None, pc_stage = Serving\<rparr>"
  let ?w1 = "take_batch demo_appended"
  have quiet: "?step (?p sv demo_opened []) (?p sv' demo_opened [])"
    if "server_step demo_wire_loads wdumps sv sv'" "sv_halted sv' = sv_halted sv" "sv_durable sv' = 0" "journal_of sv' = journal_of sv"
    for sv sv'
    using serves_quietly [of "?p sv demo_opened []" demo_wire_loads wdumps sv'] that by (simp add: waits_for_log_def)
  have writes: "?step (?p sv w rs) (?p sv w' rs)"
    if "w' = take_batch w \<and> aw_running w \<and> aw_batch w = [] \<or> w' = write_batch 5 w \<and> aw_batch w \<noteq> [] \<and> \<not> aw_written w \<or>
      w' = finish_batch w \<and> aw_batch w \<noteq> [] \<and> aw_written w" for sv w w' rs
    using writes_log [where p = "?p sv w rs" and w = w' and now = 5] that by auto
  have "started demo_serving demo_opened [] None = ?p demo_serving demo_opened []"
    by (simp add: started_def demo_opened_def start_writer_def attach_existing_seq_def new_writer_def)
  then have "reachable_process demo_wire_loads wdumps demo_log_loads demo_log_dumps sloads sdumps (?p demo_serving demo_opened [])"
    using reach.start demo_first by metis
  moreover have "?step (?p demo_serving demo_opened []) (?p (on_connection ''x'' demo_serving) demo_opened [])"
    by (rule quiet [OF demo_steps(1)]) (simp_all add: demo_flags demo_journal)
  moreover have "?step (?p (on_connection ''x'' demo_serving) demo_opened []) (?p demo_reading demo_opened [])"
    by (rule quiet [OF demo_steps(2)]) (simp_all add: demo_flags demo_journal)
  moreover have "?step (?p demo_reading demo_opened []) (?p demo_received demo_opened [])"
    by (rule quiet [OF demo_steps(3)]) (simp_all add: demo_flags demo_journal)
  moreover have "?step (?p demo_received demo_opened []) (?p demo_handled demo_appended [demo_record])"
  proof -
    have seq: "aw_seq demo_opened = 0"
      by (simp add: demo_opened_def start_writer_def attach_existing_seq_def new_writer_def)
    show ?thesis
      using serves [where p = "?p demo_received demo_opened []" and js = "[(demo_entry, 0)]" and sv = demo_handled
          and rs = "[demo_record]" and w = demo_appended and dumps = demo_log_dumps and loads = demo_log_loads
          and wloads = demo_wire_loads]
        demo_append demo_steps(4) demo_valid
      by (simp add: waits_for_log_def demo_record_def seq demo_flags demo_journal)
  qed
  moreover have "?step (?p demo_handled demo_appended [demo_record]) (?p demo_handled ?w1 [demo_record])"
    by (rule writes) (simp add: demo_writing)
  moreover have "?step (?p demo_handled ?w1 [demo_record]) (?p demo_handled (write_batch 5 ?w1) [demo_record])"
    by (rule writes) (simp add: demo_writing)
  moreover have "?step (?p demo_handled (write_batch 5 ?w1) [demo_record]) (?p demo_handled demo_synced [demo_record])"
    unfolding demo_synced_def by (rule writes) (simp add: demo_writing)
  moreover have "?step (?p demo_handled demo_synced [demo_record]) demo_process"
    using serves_quietly [of "?p demo_handled demo_synced [demo_record]" demo_wire_loads wdumps "demo_handled\<lparr>sv_durable := 1\<rparr>"]
      demo_steps(5)
    by (simp add: demo_process_def waits_for_log_def demo_writing may_return_def journal_of_def)
  ultimately show ?thesis by (meson reach.after)
qed

section \<open>A clean stop\<close>

lemma recovered_directory:
  assumes "recover_directory loads sloads snap_file aof_file b = (Inr n, file', b')"
  shows "\<exists>sv w. start_directory loads sloads fsync max_connections max_frame outbound snap_file aof_file b = Inr (sv, w) \<and>
    sv_broker sv = b'"
  using assms
  by (auto simp: recover_directory_def start_directory_def start_broker_def start_server_def new_server_def split: sum.splits)

lemma crash_records_old:
  assumes "log_ok dumps loads (rs, w)" "crash_leaves w data" "rec \<in> set (fst (read_aof loads (Some data)))"
  shows "rc_seq rec \<le> aw_seq w"
proof -
  obtain n where "fst (read_aof loads (Some data)) = take n rs" using crash_records [OF assms(1,2)] by blast
  then have "rec \<in> set rs" using assms(3) by (auto dest: in_set_takeD)
  then show ?thesis using assms(1) by (simp add: log_ok_def)
qed

text \<open>C7. A clean stop loses nothing: when a broker that has been told to stop has flushed its log and
  written its last snapshot, a start on its directory succeeds, on whatever is left of the log, and the new
  server has the same exchanges, the same queues with the same specifications and counters, the bindings of
  these queues, and in each queue exactly the same messages in the same order, up to availability times that
  have passed; none is in flight.\<close>

theorem shutdown_keeps_messages:
  assumes "reachable_process wloads wdumps loads dumps sloads sdumps p" "pc_stage p = Flushing" "\<not> aw_running (pc_log p)"
    "snapshot_of sdumps sloads p bs" "crash_leaves (pc_log (shutdown_end (Some bs) p)) data" "fresh_runtime b0"
  shows "\<exists>sv w. start_directory loads sloads fsync max_connections max_frame outbound
        (pc_snapshot (shutdown_end (Some bs) p)) (Some data) b0 = Inr (sv, w) \<and>
    map fst (queues (br_engine (sv_broker sv))) = map fst (queues (br_engine (sv_broker (pc_server p)))) \<and>
    exchanges (br_routing (sv_broker sv)) = exchanges (br_routing (sv_broker (pc_server p))) \<and>
    bindings (br_routing (sv_broker sv)) =
      {x \<in> bindings (br_routing (sv_broker (pc_server p))). get_queue (b_queue x) (br_engine (sv_broker (pc_server p))) \<noteq> None} \<and>
    (\<forall>nm q. get_queue nm (br_engine (sv_broker (pc_server p))) = Some q \<longrightarrow>
       (\<exists>q'. get_queue nm (br_engine (sv_broker sv)) = Some q' \<and> spec q' = spec q \<and> counters (stats q') = counters (stats q) \<and>
          inflight q' = [] \<and> list_all2 same_message (messages q) (messages q')))"
proof -
  have ok: "process_ok loads dumps sloads p" by (rule process.reach_safe [OF assms(1)])
  have "data = data \<and> (Some bs = None \<or> (\<exists>x. Some bs = Some x \<and> snapshot_of sdumps sloads p x))" using assms(4) by simp
  then have "process_ok loads dumps sloads (shutdown_end (Some bs) p)"
    by (intro process_ok_down [OF ok assms(2,3)]) blast
  from crash_records_old [OF process_okD(2) [OF this] assms(5)]
  have old: "\<forall>rec \<in> set (fst (read_aof loads (Some data))). rc_seq rec \<le> aw_seq (pc_log p)"
    by (simp add: shutdown_end_def snapshot_round_def close_file_def)
  have inv: "broker_inv (sv_broker (pc_server p))" using process_okD(1) [OF ok] by (rule server_ok_parts)
  obtain created order where o: "set (order (bindings (br_routing (sv_broker (pc_server p))))) = bindings (br_routing (sv_broker (pc_server p)))"
    and w: "snapshot_bytes sdumps created (aw_seq (pc_log p)) (runtime_snapshot order (sv_broker (pc_server p))) = Inr bs"
    and l: "sloads (sdumps (aw_seq (pc_log p)) (file_state_of (runtime_snapshot order (sv_broker (pc_server p))))) =
      Some (aw_seq (pc_log p), file_state_of (runtime_snapshot order (sv_broker (pc_server p))))"
    using assms(4) unfolding snapshot_of_def Let_def by blast
  from clean_restart_keeps_messages [where loads = loads and dumps = sdumps and sloads = sloads and order = order
      and aof_file = "Some data" and b = "sv_broker (pc_server p)", OF inv o w l old fresh_runtime_ok(1,2) [OF assms(6)]]
  obtain file' b' where r: "recover_directory loads sloads (Some bs) (Some data) b0 = (Inr (aw_seq (pc_log p)), file', b')"
    and same: "map fst (queues (br_engine b')) = map fst (queues (br_engine (sv_broker (pc_server p))))"
      "exchanges (br_routing b') = exchanges (br_routing (sv_broker (pc_server p)))"
      "bindings (br_routing b') = {x \<in> bindings (br_routing (sv_broker (pc_server p))). get_queue (b_queue x) (br_engine (sv_broker (pc_server p))) \<noteq> None}"
      "\<forall>nm q. get_queue nm (br_engine (sv_broker (pc_server p))) = Some q \<longrightarrow>
         (\<exists>q'. get_queue nm (br_engine b') = Some q' \<and> spec q' = spec q \<and> counters (stats q') = counters (stats q) \<and>
            inflight q' = [] \<and> list_all2 same_message (messages q) (messages q'))"
    by (elim exE conjE)
  have last: "pc_snapshot (shutdown_end (Some bs) p) = Some bs" by (simp add: shutdown_end_def snapshot_round_def)
  obtain sv w where "start_directory loads sloads fsync max_connections max_frame outbound (Some bs) (Some data) b0 = Inr (sv, w)"
    "sv_broker sv = b'" using recovered_directory [OF r] by blast
  then show ?thesis unfolding last using same by blast
qed

section \<open>Witnesses\<close>

lemma demo_file: "aw_file demo_synced = record_bytes demo_log_dumps demo_record" "crash_leaves demo_synced (aw_file demo_synced)"
  by (simp_all add: demo_synced_def demo_appended_def demo_opened_def start_writer_def attach_existing_seq_def new_writer_def
      take_batch_def write_batch_def write_bytes_def finish_batch_def is_sentinel_def record_bytes_nonempty blob_def
      crash_leaves_def Let_def)

lemma demo_process_parts [simp]:
  "pc_log demo_process = demo_synced" "pc_base demo_process = 0" "pc_snapshot demo_process = None"
  "pc_records demo_process = [demo_record]" "sv_durable (pc_server demo_process) = 1"
  "journal_of (pc_server demo_process) = [demo_entry]" "pc_stage demo_process = Serving"
  using demo_journal(5) by (simp_all add: demo_process_def journal_of_def)

theorem lifetimes_in_order_witness:
  "server_ok (pc_server demo_process) \<and> rc_seq demo_record \<le> aw_seq demo_synced"
  using lifetimes_in_order [OF demo_reachable_process [where wdumps = "\<lambda>_. []" and sloads = "\<lambda>_. None" and sdumps = "\<lambda>_ _. []"]] by simp

theorem broker_always_restarts_witness:
  "\<exists>sv w. start_directory demo_log_loads (\<lambda>_. None) ''no'' 5 100 5 None (Some (aw_file demo_synced)) demo_runtime = Inr (sv, w)"
proof -
  have "crash_leaves (pc_log demo_process) (aw_file demo_synced)" using demo_file(2) by simp
  moreover have "fresh_runtime demo_runtime" unfolding demo_runtime_def by (rule fresh_runtime.intros)
  ultimately show ?thesis
    using broker_always_restarts [OF demo_reachable_process [where wdumps = "\<lambda>_. []" and sloads = "\<lambda>_. None" and sdumps = "\<lambda>_ _. []"]] by fastforce
qed

theorem synced_entries_survive_witness:
  "\<exists>ts. log_record 1 ts demo_entry \<in> set (fst (read_aof demo_log_loads (Some (aw_file demo_synced))))"
  using synced_entries_survive [OF demo_reachable_process [where wdumps = "\<lambda>_. []" and sloads = "\<lambda>_. None" and sdumps = "\<lambda>_ _. []"], of 0, OF _ _ _ rtranclp.rtrancl_refl]
    demo_file(2) demo_writing(7,8) by simp

text \<open>The broker of the example is told to stop, and its log is flushed.\<close>

definition demo_stopped :: process where
  "demo_stopped =
     (let p = shutdown_flush (shutdown_server (shutdown_begin demo_process)) in p\<lparr>pc_log := take_batch (pc_log p)\<rparr>)"

lemma demo_stopped_parts:
  "pc_stage demo_stopped = Flushing" "\<not> aw_running (pc_log demo_stopped)" "aw_seq (pc_log demo_stopped) = 1"
  "aw_file (pc_log demo_stopped) = aw_file demo_synced" "aw_batch (pc_log demo_stopped) = []"
  using demo_writing
  by (simp_all add: demo_stopped_def shutdown_flush_def shutdown_server_def shutdown_begin_def stop_writer_def take_batch_def
      is_sentinel_def Let_def)

lemma demo_stopped_core: "core_of (sv_broker (pc_server demo_stopped)) = core_of (sv_broker demo_handled)"
  by (simp add: demo_stopped_def shutdown_flush_def shutdown_server_def shutdown_begin_def core_stop_end stop_begin_def
      demo_process_def Let_def)

lemma demo_stopped_reachable:
  "reachable_process demo_wire_loads wdumps demo_log_loads demo_log_dumps sloads sdumps demo_stopped"
proof -
  let ?step = "process_step demo_wire_loads wdumps demo_log_loads demo_log_dumps sloads sdumps"
  let ?p1 = "shutdown_begin demo_process" and ?p2 = "shutdown_server (shutdown_begin demo_process)"
  let ?p3 = "shutdown_flush (shutdown_server (shutdown_begin demo_process))"
  have st: "pc_stage ?p1 = Stopping" "pc_stage ?p2 = Server_stopped" "pc_stage ?p3 = Flushing"
    "aw_running (pc_log ?p3)" "aw_batch (pc_log ?p3) = []"
    using demo_writing by (simp_all add: shutdown_begin_def shutdown_server_def shutdown_flush_def stop_writer_def)
  have one: "?step demo_process ?p1" by (rule asked_to_stop)
  have two: "?step ?p1 ?p2" using st(1) by (rule server_gone)
  have three: "?step ?p2 ?p3" using st(2) by (rule flushing)
  have four: "?step ?p3 demo_stopped"
    unfolding demo_stopped_def Let_def by (rule writes_log) (use st in simp_all)
  show ?thesis
    by (rule reach.after [OF reach.after [OF reach.after [OF reach.after [OF demo_reachable_process one] two] three] four])
qed

lemma runtime_snapshot_core: "core_of b' = core_of b \<Longrightarrow> runtime_snapshot order b' = runtime_snapshot order b"
  by (simp add: core_of_def runtime_snapshot_def)

theorem shutdown_keeps_messages_witness:
  "\<exists>bs sv w. start_directory demo_log_loads
       (\<lambda>_. Some (1, file_state_of (runtime_snapshot (\<lambda>_. []) (sv_broker demo_handled)))) ''no'' 5 100 5
       (Some bs) (Some (aw_file demo_synced)) demo_runtime = Inr (sv, w) \<and>
     exchanges (br_routing (sv_broker sv)) = exchanges (br_routing (sv_broker demo_handled))"
proof -
  let ?st = "runtime_snapshot (\<lambda>_. []) (sv_broker demo_handled)" and ?p = demo_stopped
  let ?sloads = "\<lambda>_ :: bytes. Some (1 :: int, file_state_of ?st)" and ?sdumps = "\<lambda>(_ :: int) (_ :: file_state). [0x7B] :: bytes"
  have core: "br_routing (sv_broker (pc_server ?p)) = br_routing (sv_broker demo_handled)"
    "runtime_snapshot (\<lambda>_. []) (sv_broker (pc_server ?p)) = ?st"
    using demo_stopped_core runtime_snapshot_core [OF demo_stopped_core] by (simp_all only: core_of_def prod.inject)
  have "pack_payloads (snd (extract_queues (es_queues (sn_queues ?st)) [])) = Inr []" by code_simp
  then obtain bs where bs: "snapshot_bytes ?sdumps 0 1 ?st = Inr bs"
    using snapshot_bytes_total [where st = ?st and dumps = ?sdumps and n = 1] by fastforce
  have "bindings (br_routing (sv_broker demo_handled)) = {}" by code_simp
  then have snap: "snapshot_of ?sdumps ?sloads ?p bs"
    unfolding snapshot_of_def Let_def using bs core demo_stopped_parts(3)
    by (intro exI [of _ 0] exI [of _ "\<lambda>_. []"]) simp
  have "crash_leaves (pc_log (shutdown_end (Some bs) ?p)) (aw_file demo_synced)"
    using demo_stopped_parts(4,5) by (simp add: crash_leaves_def shutdown_end_def snapshot_round_def close_file_def blob_def)
  moreover have "fresh_runtime demo_runtime" unfolding demo_runtime_def by (rule fresh_runtime.intros)
  ultimately obtain sv w where "start_directory demo_log_loads ?sloads ''no'' 5 100 5
      (pc_snapshot (shutdown_end (Some bs) ?p)) (Some (aw_file demo_synced)) demo_runtime = Inr (sv, w)"
    "exchanges (br_routing (sv_broker sv)) = exchanges (br_routing (sv_broker (pc_server ?p)))"
    using shutdown_keeps_messages [OF demo_stopped_reachable [where wdumps = "\<lambda>_. []"] demo_stopped_parts(1,2) snap] by blast
  then show ?thesis unfolding core(1) by (auto simp: shutdown_end_def snapshot_round_def)
qed

end
