(* ===== verification/Replies.thy ===== *)
theory Replies
  imports Access
begin

text \<open>
  What a client may rely on in a reply: the error codes of \<open>protocol/errors.py\<close> and the shape of every
  reply of the handler.
\<close>

section \<open>Shapes\<close>

definition ERROR_CODES :: "string list" where
  "ERROR_CODES =
     [''OK'', ''INVALID_COMMAND'', ''INVALID_FRAME'', ''NOT_FOUND'', ''QUEUE_FULL'', ''ALREADY_EXISTS'', ''NOT_BOUND'',
      ''NOT_CONSUMER'', ''UNKNOWN_DELIVERY'', ''PREFETCH_LIMIT'', ''ALREADY_ACKED'', ''SLOW_CONSUMER'',
      ''FRAME_TOO_LARGE'', ''UNAUTHORIZED'', ''FORBIDDEN'', ''INTERNAL_ERROR'']"

text \<open>A reply to the request \<open>rid\<close>: success, or a failure with one of the codes and a message.\<close>

definition succeeds :: "int \<Rightarrow> out_frame \<Rightarrow> bool" where
  "succeeds rid f \<longleftrightarrow>
     of_type f = FRAME_RESPONSE \<and> of_request f = rid \<and> map_of (of_meta f) ''ok'' = Some (JBool True)"

definition fails :: "int \<Rightarrow> out_frame \<Rightarrow> bool" where
  "fails rid f \<longleftrightarrow>
     of_type f = FRAME_RESPONSE \<and> of_request f = rid \<and> map_of (of_meta f) ''ok'' = Some (JBool False) \<and>
     (\<exists>code \<in> set ERROR_CODES - {''OK''}. map_of (of_meta f) ''code'' = Some (JStr code)) \<and>
     (\<exists>msg. msg \<noteq> [] \<and> map_of (of_meta f) ''message'' = Some (JStr msg)) \<and> of_payload f = []"

lemma dict_merge_other: "k \<notin> dkeys extra \<Longrightarrow> map_of (dict_merge base extra) k = map_of base k"
  by (induction extra arbitrary: base) (auto simp: dict_merge_def)

lemma succeeds_ok: "''ok'' \<notin> dkeys extra \<Longrightarrow> succeeds rid (ok_reply rid extra pl)"
  by (simp add: succeeds_def ok_reply_def response_meta_def dict_merge_other)

lemma fails_err:
  assumes "code \<in> set ERROR_CODES" "code \<noteq> ''OK''"
  shows "fails rid (err_reply rid code msg)"
proof -
  have "code \<noteq> []" using assms(1) by (auto simp: ERROR_CODES_def)
  then show ?thesis using assms
    by (auto simp: fails_def err_reply_def response_meta_def dict_merge_def or_else_def Let_def split: option.split)
qed

section \<open>Commands\<close>

definition replies :: "int \<Rightarrow> py_error + out_frame \<Rightarrow> bool" where
  "replies rid r \<longleftrightarrow> (case r of Inl err \<Rightarrow> True | Inr f \<Rightarrow> succeeds rid f \<or> fails rid f)"

definition answers :: "command \<Rightarrow> bool" where
  "answers f \<longleftrightarrow> (\<forall>ou rid meta pl s. replies rid (fst (f ou rid meta pl s)))"

lemma replies_intros:
  "replies rid (Inl err)"
  "''ok'' \<notin> dkeys extra \<Longrightarrow> replies rid (Inr (ok_reply rid extra pl))"
  "code \<in> set ERROR_CODES \<Longrightarrow> code \<noteq> ''OK'' \<Longrightarrow> replies rid (Inr (err_reply rid code msg))"
  by (simp_all add: replies_def succeeds_ok fails_err)

lemma known_code:
  "''INVALID_COMMAND'' \<in> set ERROR_CODES" "''NOT_FOUND'' \<in> set ERROR_CODES" "''QUEUE_FULL'' \<in> set ERROR_CODES"
  "''NOT_CONSUMER'' \<in> set ERROR_CODES" "''UNKNOWN_DELIVERY'' \<in> set ERROR_CODES" "''ALREADY_ACKED'' \<in> set ERROR_CODES"
  "''UNAUTHORIZED'' \<in> set ERROR_CODES" "''FORBIDDEN'' \<in> set ERROR_CODES" "''INTERNAL_ERROR'' \<in> set ERROR_CODES"
  by (simp_all add: ERROR_CODES_def)

lemma answersI: "(\<And>ou rid meta pl cx b. replies rid (fst (f ou rid meta pl (cx, b)))) \<Longrightarrow> answers f"
  by (simp add: answers_def)

lemma answers_reports: "answers cmd_ping" "answers cmd_info" "answers cmd_queue_info" "answers cmd_list_queues" "answers cmd_dlq_info"
  by (rule answersI, simp add: cmd_ping_def cmd_info_def cmd_queue_info_def cmd_list_queues_def cmd_dlq_info_def
      replies_intros known_code queue_report_json_def dlq_report_json_def split: option.split)+

lemma answers_stats: "answers cmd_stats"
  by (rule answersI) (simp add: cmd_stats_def broker_stats_def Let_def case_prod_beta replies_intros)

lemma answers_routing:
  "answers cmd_declare_exchange" "answers cmd_delete_exchange" "answers cmd_bind" "answers cmd_unbind"
  "answers cmd_declare_queue" "answers cmd_delete_queue"
  by (rule answersI, simp add: cmd_declare_exchange_def cmd_delete_exchange_def cmd_bind_def cmd_unbind_def
      cmd_declare_queue_def cmd_delete_queue_def Let_def case_prod_beta replies_intros known_code
      split: sum.split py_error.split bool.split)+

lemma answers_messages: "answers cmd_publish" "answers cmd_get" "answers cmd_consume" "answers cmd_cancel" "answers cmd_qos"
  by (rule answersI, simp add: cmd_publish_def cmd_get_def cmd_consume_def cmd_cancel_def cmd_qos_def Let_def
      case_prod_beta replies_intros known_code split: sum.split option.split bool.split)+

lemma answers_settle: "answers cmd_ack" "answers cmd_nack" "answers cmd_dlq_requeue"
  by (rule answersI, simp add: cmd_ack_def cmd_nack_def cmd_dlq_requeue_def Let_def case_prod_beta replies_intros
      known_code split: ack_result.split nack_result.split bool.split)+

lemma answers_channels:
  "answers cmd_subscribe" "answers cmd_unsubscribe" "answers cmd_publish_channel" "answers cmd_list_channels" "answers cmd_list_consumers"
  by (rule answersI, simp add: cmd_subscribe_def cmd_unsubscribe_def cmd_publish_channel_def cmd_list_channels_def
      cmd_list_consumers_def Let_def case_prod_beta replies_intros known_code)+

lemma answers_auth: "answers cmd_auth"
  by (rule answersI) (simp add: cmd_auth_def user_reply_def Let_def replies_intros known_code split: sum.split option.split)

lemmas answers_commands = answers_reports answers_stats answers_routing answers_messages answers_settle
  answers_channels answers_auth

lemma commands_answer: "map_of commands c = Some f \<Longrightarrow> answers f"
  by (drule map_of_SomeD) (auto simp: commands_def answers_commands)

lemma handle_replies:
  "succeeds rid (fst (handle ou rid meta pl (cx, b))) \<or> fails rid (fst (handle ou rid meta pl (cx, b)))"
proof -
  have code: "code = '''' \<or> code = ''UNAUTHORIZED'' \<or> code = ''FORBIDDEN''"
    if "authorize p cmd on = (allowed, code, msg)" for p cmd on allowed code msg
    using that by (auto simp: authorize_def Let_def split: if_splits option.splits)
  obtain allowed code msg where a: "authorize (cx_principal cx) (str_arg ''cmd'' meta) (cf_auth_enabled (br_config b)) = (allowed, code, msg)"
    by (cases "authorize (cx_principal cx) (str_arg ''cmd'' meta) (cf_auth_enabled (br_config b))") blast
  show ?thesis
  proof (cases "map_of commands (lower (str_arg ''cmd'' meta))")
    case None
    then show ?thesis using code [OF a] by (auto simp: handle_def Let_def a fails_err known_code)
  next
    case (Some f)
    obtain res s' where r: "f ou rid meta pl (cx, b) = (res, s')" by (cases "f ou rid meta pl (cx, b)")
    have "replies rid res" using commands_answer [OF Some] r unfolding answers_def by (metis fst_conv)
    then show ?thesis using Some code [OF a] r
      by (cases res) (auto simp: handle_def Let_def a fails_err known_code replies_def)
  qed
qed

text \<open>C31. Every request is answered, and well: whatever a client sends, in whatever state, the reply is a
  response to that request, and it either succeeds or fails with an error code of the protocol, a message
  and no payload; an exception of a command becomes \<open>INTERNAL_ERROR\<close>. (The frame is meant before it is
  encoded.)\<close>

theorem every_reply_well_typed:
  "let reply = fst (handle ou rid meta pl (cx, b)) in succeeds rid reply \<noteq> fails rid reply"
  using handle_replies [of rid ou meta pl cx b] by (auto simp: succeeds_def fails_def Let_def)

end
