(* ===== verification/Client.thy ===== *)
theory Client
  imports Replies
begin

text \<open>
  \<open>client/connection.py\<close> and \<open>client/async_client.py\<close>: the client's side of the protocol. \<open>ProtocolClient\<close>
  numbers its requests, keeps a future for each that waits, and dispatches what the read loop gets;
  \<open>AsyncBroker\<close> builds the requests and takes the replies apart.

  The futures are kept beside \<open>_pending\<close> (which holds the ids of those the read loop may still complete),
  because a request looks at its future after the entry is gone. \<open>cl_sent\<close> is what was written to the
  socket. \<open>json.dumps\<close> and \<open>json.loads\<close> are parameters. The opening of the connection, TLS and the waiting
  itself are asyncio's. A request ends by its reply, its timeout or the end of the connection; that its caller
  cancels the waiting coroutine (which would cancel the future and leave its entry in \<open>_pending\<close> until the reply
  or the close), or that the write or \<open>drain\<close> raises, is not modelled.
\<close>

section \<open>The protocol client\<close>

datatype outcome = Awaited | Replied dict bytes | Broken string string | Cancelled

datatype client_error = BrokerError string string | CancelledError | Raised py_error

record client =
  cl_max_frame :: int
  cl_rid :: int
  cl_pending :: "int list"
  cl_futures :: "(int \<times> outcome) list"
  cl_deliveries :: "(dict \<times> bytes) list"
  cl_pubsub :: "(dict \<times> bytes) list"
  cl_writer :: bool
  cl_closed :: bool
  cl_reading :: bool
  cl_reader :: reader
  cl_sent :: bytes

definition new_client :: "int \<Rightarrow> client" where
  "new_client mx =
     \<lparr>cl_max_frame = mx, cl_rid = 0, cl_pending = [], cl_futures = [], cl_deliveries = [], cl_pubsub = [],
      cl_writer = False, cl_closed = False, cl_reading = False, cl_reader = new_reader mx, cl_sent = []\<rparr>"

definition connected :: "client \<Rightarrow> bool" where
  "connected c \<longleftrightarrow> cl_writer c \<and> \<not> cl_closed c"

text \<open>\<open>connect\<close>, when the connection has been opened; the read loop starts with a reader of its own.\<close>

definition connect_client :: "client \<Rightarrow> client" where
  "connect_client c =
     c\<lparr>cl_writer := True, cl_closed := False, cl_reading := True, cl_reader := new_reader (cl_max_frame c)\<rparr>"

definition complete :: "outcome \<Rightarrow> int \<Rightarrow> client \<Rightarrow> client" where
  "complete x rid c =
     (if map_of (cl_futures c) rid = Some Awaited then c\<lparr>cl_futures := dset rid x (cl_futures c)\<rparr> else c)"

definition complete_all :: "outcome \<Rightarrow> client \<Rightarrow> client" where
  "complete_all x c = (fold (complete x) (cl_pending c) c)\<lparr>cl_pending := []\<rparr>"

text \<open>\<open>request\<close> up to its wait: the entry is made before the frame is encoded.\<close>

definition request_begin ::
  "(dict \<Rightarrow> bytes) \<Rightarrow> string \<Rightarrow> dict \<Rightarrow> bytes \<Rightarrow> client \<Rightarrow> (client_error + int) \<times> client" where
  "request_begin dumps cmd extra pl c =
     (if \<not> cl_writer c then (Inl (BrokerError ''INTERNAL_ERROR'' ''not connected''), c)
      else
        (let rid = cl_rid c + 1;
             c1 = c\<lparr>cl_rid := rid, cl_futures := dset rid Awaited (cl_futures c), cl_pending := cl_pending c @ [rid]\<rparr>
         in case command_frame dumps rid cmd extra pl of
              Inl err \<Rightarrow> (Inl (Raised err), c1)
            | Inr bs \<Rightarrow> (Inr rid, c1\<lparr>cl_sent := cl_sent c1 @ bs\<rparr>)))"

text \<open>The rest of \<open>request\<close>: \<open>None\<close> while the future waits.\<close>

text \<open>\<open>str(v)\<close>, where \<open>other\<close> is what it gives for a value that is no string, and \<open>str(meta.get(k) or d)\<close>.\<close>

definition py_str :: "(json \<Rightarrow> string) \<Rightarrow> json \<Rightarrow> string" where
  "py_str other v = (case v of JStr s \<Rightarrow> s | _ \<Rightarrow> other v)"

definition str_or :: "(json \<Rightarrow> string) \<Rightarrow> string \<Rightarrow> string \<Rightarrow> dict \<Rightarrow> string" where
  "str_or other k d m = (if truthy (jget k m) then py_str other (jget k m) else d)"

definition broker_error :: "string \<Rightarrow> string \<Rightarrow> client_error" where
  "broker_error code msg = BrokerError code (if msg = [] then code else msg)"

definition request_end :: "(json \<Rightarrow> string) \<Rightarrow> int \<Rightarrow> client \<Rightarrow> (client_error + dict \<times> bytes) option" where
  "request_end other rid c =
     (case map_of (cl_futures c) rid of
        Some (Replied meta body) \<Rightarrow>
          Some (if truthy (jget ''ok'' meta) then Inr (meta, body)
                else Inl (broker_error (str_or other ''code'' ''INTERNAL_ERROR'' meta) (str_or other ''message'' [] meta)))
      | Some (Broken code msg) \<Rightarrow> Some (Inl (BrokerError code msg))
      | Some Cancelled \<Rightarrow> Some (Inl CancelledError)
      | _ \<Rightarrow> None)"

text \<open>The timeout of \<open>wait_for\<close> cancels the future.\<close>

definition request_timeout :: "string \<Rightarrow> int \<Rightarrow> client \<Rightarrow> client_error \<times> client" where
  "request_timeout cmd rid c =
     (BrokerError ''INTERNAL_ERROR'' (''timeout waiting for '' @ cmd),
      (complete Cancelled rid c)\<lparr>cl_pending := removeAll rid (cl_pending c)\<rparr>)"

section \<open>The read loop\<close>

definition on_response :: "int \<Rightarrow> dict \<Rightarrow> bytes \<Rightarrow> client \<Rightarrow> client" where
  "on_response rid meta body c =
     (if rid \<in> set (cl_pending c)
      then complete (Replied meta body) rid (c\<lparr>cl_pending := removeAll rid (cl_pending c)\<rparr>) else c)"

definition on_event :: "dict \<Rightarrow> bytes \<Rightarrow> client \<Rightarrow> client" where
  "on_event meta body c =
     (if jget ''event'' meta = JStr ''DELIVER'' then c\<lparr>cl_deliveries := cl_deliveries c @ [(meta, body)]\<rparr>
      else if jget ''event'' meta = JStr ''PUBSUB_MESSAGE'' then c\<lparr>cl_pubsub := cl_pubsub c @ [(meta, body)]\<rparr>
      else c)"

text \<open>One frame; \<open>False\<close> for an exception, which ends the loop.\<close>

definition client_frame :: "(bytes \<Rightarrow> json option) \<Rightarrow> frame \<Rightarrow> client \<Rightarrow> bool \<times> client" where
  "client_frame loads f c =
     (if fr_type f = FRAME_HEARTBEAT
      then (if cl_writer c
            then (case heartbeat_frame (fr_request f) of
                    Inl err \<Rightarrow> (False, c) | Inr bs \<Rightarrow> (True, c\<lparr>cl_sent := cl_sent c @ bs\<rparr>))
            else (True, c))
      else
        (case parse_metadata loads f of
           Inl err \<Rightarrow> (False, c)
         | Inr meta \<Rightarrow>
             (True,
              if fr_type f = FRAME_RESPONSE then on_response (fr_request f) meta (fr_payload f) c
              else if fr_type f = FRAME_EVENT then on_event meta (fr_payload f) c
              else c)))"

fun client_frames :: "(bytes \<Rightarrow> json option) \<Rightarrow> frame list \<Rightarrow> client \<Rightarrow> bool \<times> client" where
  "client_frames loads [] c = (True, c)"
| "client_frames loads (f # fs) c =
     (case client_frame loads f c of (False, c') \<Rightarrow> (False, c') | (True, c') \<Rightarrow> client_frames loads fs c')"

text \<open>The \<open>finally\<close> of the read loop.\<close>

definition reader_ends :: "client \<Rightarrow> client" where
  "reader_ends c = (complete_all (Broken ''INTERNAL_ERROR'' ''connection closed'') c)\<lparr>cl_reading := False\<rparr>"

text \<open>One round of the loop with what \<open>read\<close> has returned; \<open>[]\<close> is the end of the stream.\<close>

definition client_data :: "(bytes \<Rightarrow> json option) \<Rightarrow> bytes \<Rightarrow> client \<Rightarrow> client" where
  "client_data loads data c =
     (if \<not> cl_reading c then c
      else if cl_closed c \<or> data = [] then reader_ends c
      else
        (case feed data (cl_reader c) of
           (Inl exc, r) \<Rightarrow> reader_ends (c\<lparr>cl_reader := r\<rparr>)
         | (Inr fs, r) \<Rightarrow>
             (case client_frames loads fs (c\<lparr>cl_reader := r\<rparr>) of
                (True, c') \<Rightarrow> c' | (False, c') \<Rightarrow> reader_ends c')))"

text \<open>\<open>close\<close>: the read loop, if it runs, is cancelled and runs its \<open>finally\<close>.\<close>

definition close_client :: "client \<Rightarrow> client" where
  "close_client c =
     (let c1 = c\<lparr>cl_closed := True\<rparr>;
          c2 = (if cl_reading c1 then reader_ends c1 else c1)
      in complete_all Cancelled (c2\<lparr>cl_writer := False\<rparr>))"

section \<open>A future is completed once\<close>

text \<open>The steps of a client between two waits; a chunk is what one \<open>read\<close> of the read loop gives.\<close>

inductive client_step :: "(bytes \<Rightarrow> json option) \<Rightarrow> (dict \<Rightarrow> bytes) \<Rightarrow> client \<Rightarrow> client \<Rightarrow> bool"
  for loads :: "bytes \<Rightarrow> json option" and dumps :: "dict \<Rightarrow> bytes" where
  opened: "\<not> cl_reading c \<Longrightarrow> client_step loads dumps c (connect_client c)"
| requested: "client_step loads dumps c (snd (request_begin dumps cmd extra pl c))"
| received: "client_step loads dumps c (client_data loads data c)"
| timed_out: "map_of (cl_futures c) rid = Some Awaited \<Longrightarrow>
    client_step loads dumps c (snd (request_timeout cmd rid c))"
| closed: "client_step loads dumps c (close_client c)"

abbreviation client_run :: "(bytes \<Rightarrow> json option) \<Rightarrow> (dict \<Rightarrow> bytes) \<Rightarrow> client \<Rightarrow> client \<Rightarrow> bool" where
  "client_run loads dumps \<equiv> (client_step loads dumps)\<^sup>*\<^sup>*"

definition client_inv :: "client \<Rightarrow> bool" where
  "client_inv c \<longleftrightarrow>
     0 \<le> cl_rid c \<and>
     (\<forall>rid. map_of (cl_futures c) rid = Some Awaited \<longleftrightarrow> rid \<in> set (cl_pending c)) \<and>
     (\<forall>rid. map_of (cl_futures c) rid \<noteq> None \<longrightarrow> 1 \<le> rid \<and> rid \<le> cl_rid c)"

text \<open>What is settled stays, and ids are not used again.\<close>

definition settled :: "client \<Rightarrow> client \<Rightarrow> bool" where
  "settled c c' \<longleftrightarrow>
     cl_rid c \<le> cl_rid c' \<and>
     (\<forall>rid x. map_of (cl_futures c) rid = Some x \<longrightarrow> x \<noteq> Awaited \<longrightarrow> map_of (cl_futures c') rid = Some x)"

lemma settled_refl: "settled c c"
  by (simp add: settled_def)

lemma settled_trans: "settled a b \<Longrightarrow> settled b c \<Longrightarrow> settled a c"
  unfolding settled_def by (meson order_trans)

abbreviation progress :: "client \<Rightarrow> client \<Rightarrow> bool" where
  "progress c c' \<equiv> client_inv c' \<and> settled c c'"

lemma progress_trans: "progress a b \<Longrightarrow> (client_inv b \<Longrightarrow> progress b c) \<Longrightarrow> progress a c"
  using settled_trans by blast

text \<open>Only the futures, the pending ids and the last id matter.\<close>

lemma progress_cong:
  assumes "client_inv c" "cl_futures c' = cl_futures c" "cl_pending c' = cl_pending c" "cl_rid c' = cl_rid c"
  shows "progress c c'"
  using assms by (simp add: client_inv_def settled_def)

lemma complete_same:
  "cl_pending (complete x rid c) = cl_pending c" "cl_rid (complete x rid c) = cl_rid c"
  "cl_reading (complete x rid c) = cl_reading c" "cl_writer (complete x rid c) = cl_writer c"
  "cl_closed (complete x rid c) = cl_closed c" "cl_reader (complete x rid c) = cl_reader c"
  by (simp_all add: complete_def)

lemma complete_pending: "(complete x rid c)\<lparr>cl_pending := ps\<rparr> = complete x rid (c\<lparr>cl_pending := ps\<rparr>)"
  by (simp add: complete_def)

lemma complete_future:
  "map_of (cl_futures (complete x rid c)) i =
     (if i = rid \<and> map_of (cl_futures c) i = Some Awaited then Some x else map_of (cl_futures c) i)"
  by (auto simp: complete_def map_of_dset)

lemma fold_complete:
  assumes "x \<noteq> Awaited"
  shows "map_of (cl_futures (fold (complete x) ids c)) i =
      (if i \<in> set ids \<and> map_of (cl_futures c) i = Some Awaited then Some x else map_of (cl_futures c) i)"
    and "cl_rid (fold (complete x) ids c) = cl_rid c"
  using assms by (induction ids arbitrary: c) (auto simp: complete_future complete_same)

lemma complete_all_progress:
  assumes "client_inv c" "x \<noteq> Awaited"
  shows "progress c (complete_all x c)"
  using assms fold_complete [OF assms(2), of "cl_pending c" c]
  by (auto simp: complete_all_def client_inv_def settled_def) (metis option.inject)

lemma complete_one_progress:
  assumes "client_inv c" "x \<noteq> Awaited"
  shows "progress c (complete x rid (c\<lparr>cl_pending := removeAll rid (cl_pending c)\<rparr>))"
  using assms by (auto simp: client_inv_def settled_def complete_future complete_same)

lemma reader_ends_progress: "client_inv c \<Longrightarrow> progress c (reader_ends c)"
  using complete_all_progress [of c "Broken ''INTERNAL_ERROR'' ''connection closed''"]
  by (simp add: reader_ends_def client_inv_def settled_def)

lemma close_client_progress:
  assumes "client_inv c"
  shows "progress c (close_client c)"
proof -
  define c1 where "c1 = c\<lparr>cl_closed := True\<rparr>"
  define c2 where "c2 = (if cl_reading c1 then reader_ends c1 else c1)"
  have "progress c c1" using assms by (intro progress_cong) (simp_all add: c1_def)
  then have "progress c c2" using reader_ends_progress [of c1] settled_trans unfolding c2_def by auto
  then have "progress c (c2\<lparr>cl_writer := False\<rparr>)"
    by (rule progress_trans) (rule progress_cong, simp_all)
  then have "progress c (complete_all Cancelled (c2\<lparr>cl_writer := False\<rparr>))"
    by (rule progress_trans) (rule complete_all_progress, simp_all)
  then show ?thesis by (simp only: close_client_def Let_def c1_def c2_def)
qed

lemma request_begin_progress:
  assumes "client_inv c"
  shows "progress c (snd (request_begin dumps cmd extra pl c))"
proof -
  have new: "map_of (cl_futures c) (cl_rid c + 1) = None"
    using assms unfolding client_inv_def by (metis less_add_one not_less)
  then have fresh: "cl_rid c + 1 \<notin> set (cl_pending c)" using assms unfolding client_inv_def by force
  define c1 where "c1 = c\<lparr>cl_rid := cl_rid c + 1, cl_futures := dset (cl_rid c + 1) Awaited (cl_futures c),
    cl_pending := cl_pending c @ [cl_rid c + 1]\<rparr>"
  have "progress c c1"
    using assms new fresh by (auto simp: c1_def client_inv_def settled_def map_of_dset)
  then have sent: "progress c (c1\<lparr>cl_sent := bs\<rparr>)" for bs by (rule progress_trans) (rule progress_cong, simp_all)
  show ?thesis
    using assms settled_refl \<open>progress c c1\<close> sent
    by (simp add: request_begin_def Let_def c1_def [symmetric] split: sum.split)
qed

lemma request_timeout_progress: "client_inv c \<Longrightarrow> progress c (snd (request_timeout cmd rid c))"
  using complete_one_progress [of c Cancelled rid] by (simp add: request_timeout_def complete_pending)

lemma connect_client_progress: "client_inv c \<Longrightarrow> progress c (connect_client c)"
  by (intro progress_cong) (simp_all add: connect_client_def)

lemma on_response_progress: "client_inv c \<Longrightarrow> progress c (on_response rid meta body c)"
  using complete_one_progress [of c "Replied meta body" rid] settled_refl by (simp add: on_response_def)

lemma on_event_progress: "client_inv c \<Longrightarrow> progress c (on_event meta body c)"
  by (intro progress_cong) (simp_all add: on_event_def)

lemma client_frame_progress: "client_inv c \<Longrightarrow> progress c (snd (client_frame loads f c))"
  using on_response_progress on_event_progress settled_refl [of c]
  by (auto simp: client_frame_def progress_cong split: sum.split)

lemma client_frames_progress: "client_inv c \<Longrightarrow> progress c (snd (client_frames loads fs c))"
proof (induction fs arbitrary: c)
  case (Cons f fs)
  obtain ok c' where f: "client_frame loads f c = (ok, c')" by (cases "client_frame loads f c") blast
  have "progress c c'" using client_frame_progress [OF Cons.prems, of loads f] f by simp
  then show ?case using Cons.IH [of c'] settled_trans f by (cases ok) auto
qed (simp add: settled_refl)

lemma client_data_progress:
  assumes "client_inv c"
  shows "progress c (client_data loads data c)"
proof -
  obtain res r where f: "feed data (cl_reader c) = (res, r)" by (cases "feed data (cl_reader c)") blast
  let ?c = "c\<lparr>cl_reader := r\<rparr>"
  have r: "progress c ?c" by (rule progress_cong [OF assms]) simp_all
  have "progress c (reader_ends ?c)" by (rule progress_trans [OF r reader_ends_progress])
  moreover have "progress c (if ok then c' else reader_ends c')" if "client_frames loads fs ?c = (ok, c')" for fs ok c'
  proof -
    have "progress c c'" using progress_trans [OF r client_frames_progress, of loads fs] that by simp
    moreover have "progress c (reader_ends c')" using progress_trans [OF \<open>progress c c'\<close> reader_ends_progress] .
    ultimately show ?thesis by simp
  qed
  ultimately show ?thesis
    using assms settled_refl [of c] reader_ends_progress [OF assms] f
    by (fastforce simp: client_data_def split: sum.split bool.split prod.split)
qed

lemma client_step_progress: "client_step loads dumps c c' \<Longrightarrow> client_inv c \<Longrightarrow> progress c c'"
  by (induction rule: client_step.induct)
     (rule connect_client_progress request_begin_progress client_data_progress request_timeout_progress
        close_client_progress, assumption)+

lemma client_run_progress:
  assumes "client_run loads dumps c c'" "client_inv c"
  shows "progress c c'"
  using assms(1)
proof induction
  case (step c1 c2)
  show ?case using progress_trans [OF step.IH client_step_progress [OF step.hyps(2)]] .
qed (simp add: assms(2) settled_refl)

lemma new_client_inv: "client_inv (new_client mx)"
  by (simp add: client_inv_def new_client_def)

lemma awaited_request_end: "map_of (cl_futures c) rid = Some Awaited \<Longrightarrow> request_end other rid c = None"
  by (simp add: request_end_def)

lemma request_end_settled:
  assumes "settled c c'" "request_end other rid c = Some r"
  shows "request_end other rid c' = Some r"
proof -
  obtain x where "map_of (cl_futures c) rid = Some x" "x \<noteq> Awaited"
    using assms(2) by (auto simp: request_end_def split: option.splits outcome.splits)
  moreover from this have "map_of (cl_futures c') rid = Some x" using assms(1) by (simp add: settled_def)
  ultimately show ?thesis using assms(2) by (simp add: request_end_def)
qed

lemma nobody_awaits: "client_inv c \<Longrightarrow> map_of (cl_futures (reader_ends c)) rid \<noteq> Some Awaited"
  by (simp add: reader_ends_def complete_all_def fold_complete client_inv_def)

lemma request_begin_new:
  assumes "request_begin dumps cmd extra pl c = (Inr rid, c1)"
  shows "rid = cl_rid c + 1" "cl_futures c1 = dset rid Awaited (cl_futures c)"
  using assms by (auto simp: request_begin_def Let_def split: if_splits sum.splits)

text \<open>C32. A request ends once. In every run of a client the requests with a waiting future are exactly those
  the read loop may still complete; how a request has ended, by its response, by an error, by the
  end of the connection or by its timeout, nothing changes any more; a new request gets an id no earlier
  one has had; and when the read loop ends, no request is left waiting.\<close>

theorem requests_complete_once:
  assumes "client_run loads dumps (new_client mx) c" "client_run loads dumps c c'"
  shows "(\<forall>rid. rid \<in> set (cl_pending c) \<longleftrightarrow> map_of (cl_futures c) rid = Some Awaited) \<and>
    (\<forall>rid r. request_end other rid c = Some r \<longrightarrow> request_end other rid c' = Some r) \<and>
    (\<forall>cmd extra pl rid c2. request_begin dumps cmd extra pl c' = (Inr rid, c2) \<longrightarrow>
       map_of (cl_futures c) rid = None \<and> map_of (cl_futures c') rid = None \<and> request_end other rid c2 = None) \<and>
    (\<forall>rid. map_of (cl_futures (reader_ends c')) rid \<noteq> Some Awaited)"
proof -
  have c: "client_inv c" using client_run_progress [OF assms(1) new_client_inv] by blast
  have c': "client_inv c'" "settled c c'" using client_run_progress [OF assms(2) c] by blast+
  have late: "map_of (cl_futures c) i = None" "map_of (cl_futures c') i = None" if "cl_rid c' < i" for i
    using c c' that unfolding client_inv_def settled_def by (meson leD order_trans)+
  have "map_of (cl_futures c) rid = None \<and> map_of (cl_futures c') rid = None \<and> request_end other rid c2 = None"
    if "request_begin dumps cmd extra pl c' = (Inr rid, c2)" for cmd extra pl rid c2
    using request_begin_new [OF that] late [of rid] by (simp add: awaited_request_end map_of_dset)
  then show ?thesis
    using c nobody_awaits [OF c'(1)] request_end_settled [OF c'(2)] by (simp add: client_inv_def)
qed

definition demo_str :: "json \<Rightarrow> string" where
  "demo_str v = []"

definition demo_client :: client where
  "demo_client = snd (request_begin (\<lambda>_. [0x7B]) ''PING'' [] [] (connect_client (new_client 100)))"

lemma demo_client_future: "cl_futures demo_client = [(1, Awaited)]" "cl_pending demo_client = [1]" "cl_rid demo_client = 1"
  by (simp_all add: demo_client_def request_begin_def Let_def connect_client_def new_client_def split: sum.split)

lemma demo_client_run: "client_run loads (\<lambda>_. [0x7B]) (new_client 100) demo_client"
proof -
  have "client_step loads (\<lambda>_. [0x7B]) (new_client 100) (connect_client (new_client 100))"
    by (rule client_step.opened) (simp add: new_client_def)
  then show ?thesis unfolding demo_client_def using client_step.requested by (meson converse_rtranclp_into_rtranclp r_into_rtranclp)
qed

theorem requests_complete_once_witness:
  "request_end demo_str 1 (close_client (reader_ends demo_client)) =
     Some (Inl (BrokerError ''INTERNAL_ERROR'' ''connection closed''))"
proof -
  have "cl_reading demo_client" "\<not> cl_closed demo_client"
    by (simp_all add: demo_client_def request_begin_def Let_def connect_client_def new_client_def split: sum.split)
  then have "client_data loads [] demo_client = reader_ends demo_client" for loads by (simp add: client_data_def)
  then have "client_run loads (\<lambda>_. [0x7B]) (new_client 100) (reader_ends demo_client)" for loads
    using demo_client_run client_step.received by (metis rtranclp.rtrancl_into_rtrancl)
  moreover have "client_run loads (\<lambda>_. [0x7B]) (reader_ends demo_client) (close_client (reader_ends demo_client))" for loads
    using client_step.closed by (rule r_into_rtranclp)
  moreover have "request_end demo_str 1 (reader_ends demo_client) =
      Some (Inl (BrokerError ''INTERNAL_ERROR'' ''connection closed''))"
    by (simp add: reader_ends_def complete_all_def demo_client_future complete_def request_end_def)
  ultimately show ?thesis using requests_complete_once by blast
qed

section \<open>What the server sends is what the client sees\<close>

text \<open>What a frame of the server stands for on the client's side.\<close>

definition on_out :: "out_frame \<Rightarrow> client \<Rightarrow> client" where
  "on_out f c =
     (if of_type f = FRAME_RESPONSE then on_response (of_request f) (of_meta f) (of_payload f) c
      else if of_type f = FRAME_EVENT then on_event (of_meta f) (of_payload f) c
      else c)"

text \<open>A frame whose metadata the JSON library reads back as it was written.\<close>

definition readable :: "(bytes \<Rightarrow> json option) \<Rightarrow> (dict \<Rightarrow> bytes) \<Rightarrow> out_frame \<Rightarrow> bool" where
  "readable loads dumps f \<longleftrightarrow>
     of_type f \<noteq> FRAME_HEARTBEAT \<and> dumps (of_meta f) \<noteq> [] \<and> loads (dumps (of_meta f)) = Some (JObj (of_meta f))"

definition wire_frame :: "(dict \<Rightarrow> bytes) \<Rightarrow> out_frame \<Rightarrow> frame" where
  "wire_frame dumps f =
     \<lparr>fr_type = of_type f, fr_request = of_request f, fr_meta = dumps (of_meta f), fr_payload = of_payload f,
      fr_flags = 0, fr_version = FRAME_VERSION\<rparr>"

lemma encode_out_wire: "encode_out dumps f = encode_frame (wire_frame dumps f)"
  by (simp add: encode_out_def meta_frame_def wire_frame_def)

lemma client_frame_wire:
  "readable loads dumps f \<Longrightarrow> client_frame loads (wire_frame dumps f) c = (True, on_out f c)"
  by (simp add: readable_def client_frame_def wire_frame_def parse_metadata_def loads_meta_def on_out_def)

lemma client_frames_wire:
  "\<forall>f \<in> set fs. readable loads dumps f \<Longrightarrow>
   client_frames loads (map (wire_frame dumps) fs) c = (True, fold on_out fs c)"
  by (induction fs arbitrary: c) (simp_all add: client_frame_wire)

lemma on_out_keeps:
  "cl_reading (on_out f c) = cl_reading c" "cl_closed (on_out f c) = cl_closed c"
  "on_out f (c\<lparr>cl_reader := r\<rparr>) = (on_out f c)\<lparr>cl_reader := r\<rparr>"
  by (simp_all add: on_out_def on_response_def on_event_def complete_def)

lemma fold_on_out_keeps:
  "cl_reading (fold on_out fs c) = cl_reading c" "cl_closed (fold on_out fs c) = cl_closed c"
  "fold on_out fs (c\<lparr>cl_reader := r\<rparr>) = (fold on_out fs c)\<lparr>cl_reader := r\<rparr>"
  by (induction fs arbitrary: c) (simp_all add: on_out_keeps)

lemma client_reads_chunks:
  assumes "cl_reading c" "\<not> cl_closed c" "[] \<notin> set chunks" "\<forall>f \<in> set fs. readable loads dumps f"
    "read_chunks chunks (cl_reader c) = (Inr (map (wire_frame dumps) fs), r)"
  shows "fold (client_data loads) chunks c = (fold on_out fs c)\<lparr>cl_reader := r\<rparr>"
  using assms
proof (induction chunks arbitrary: c fs)
  case Nil
  then show ?case by simp
next
  case (Cons d ds)
  obtain gs r1 where d: "feed d (cl_reader c) = (Inr gs, r1)"
    using Cons.prems(5) by (auto split: prod.splits sum.splits)
  obtain hs where ds: "read_chunks ds r1 = (Inr hs, r)" "map (wire_frame dumps) fs = gs @ hs"
    using Cons.prems(5) d by (auto split: prod.splits sum.splits)
  obtain fs1 fs2 where fs: "fs = fs1 @ fs2" "gs = map (wire_frame dumps) fs1" "hs = map (wire_frame dumps) fs2"
    using ds(2) by (metis append_eq_map_conv)
  have "client_frames loads gs (c\<lparr>cl_reader := r1\<rparr>) = (True, fold on_out fs1 (c\<lparr>cl_reader := r1\<rparr>))"
    unfolding fs(2) using Cons.prems(4) fs(1) by (intro client_frames_wire) simp
  then have "client_data loads d c = (fold on_out fs1 c)\<lparr>cl_reader := r1\<rparr>"
    using Cons.prems(1-3) d by (auto simp: client_data_def fold_on_out_keeps)
  then show ?case
    using Cons.IH [of "(fold on_out fs1 c)\<lparr>cl_reader := r1\<rparr>" fs2] Cons.prems(1-4) ds(1) fs(1,3)
    by (simp add: fold_on_out_keeps)
qed

lemma stream_reaches_client:
  assumes "cl_reading c" "\<not> cl_closed c" "cl_reader c = new_reader mx"
    "map (encode_out dumps) fs = map Inr bss" "\<forall>bs \<in> set bss. int (length bs) \<le> mx"
    "\<forall>f \<in> set fs. readable loads dumps f" "concat chunks = concat bss" "[] \<notin> set chunks"
  shows "fold (client_data loads) chunks c = fold on_out fs c"
proof -
  have "map encode_frame (map (wire_frame dumps) fs) = map Inr bss"
    using assms(4) by (simp add: encode_out_wire [abs_def] comp_def)
  from encoded_frames [OF this] have e: "bss = map frame_bytes (map (wire_frame dumps) fs)"
    "\<forall>f \<in> set (map (wire_frame dumps) fs). fields_fit f" by blast+
  have "\<forall>f \<in> set (map (wire_frame dumps) fs). valid_frame mx f"
    using e assms(5) by (auto simp: valid_frame_def length_frame_bytes wire_frame_def add.assoc)
  moreover have "frame_dec mx [] = Inr None" by (simp add: frame_dec_wait try_one_short HEADER_SIZE_def)
  ultimately have "read_chunks chunks (on_buffer mx []) = (Inr (map (wire_frame dumps) fs), on_buffer mx [])"
    using assms(7) e(1) by (intro read_chunks_frames) simp_all
  then have "fold (client_data loads) chunks c = (fold on_out fs c)\<lparr>cl_reader := cl_reader c\<rparr>"
    using client_reads_chunks [OF assms(1,2,8,6)] assms(3) by (simp add: new_reader_def)
  also have "\<dots> = fold on_out fs (c\<lparr>cl_reader := cl_reader c\<rparr>)" by (simp only: fold_on_out_keeps)
  finally show ?thesis by simp
qed

section \<open>A whole call\<close>

lemma request_begin_okE:
  assumes "request_begin dumps cmd extra pl c = (Inr rid, c1)"
  obtains bs where "command_frame dumps rid cmd extra pl = Inr bs" "cl_sent c1 = cl_sent c @ bs"
    "cl_reading c1 = cl_reading c" "cl_closed c1 = cl_closed c" "cl_reader c1 = cl_reader c"
  using assms by (auto simp: request_begin_def Let_def split: if_splits sum.splits)

lemma events_leave_futures:
  assumes "\<forall>e \<in> set es. of_type e = FRAME_EVENT"
  shows "cl_futures (fold on_out es c) = cl_futures c" "cl_pending (fold on_out es c) = cl_pending c"
    "cl_rid (fold on_out es c) = cl_rid c"
  using assms
  by (induction es arbitrary: c) (auto simp: on_out_def on_event_def FRAME_EVENT_def FRAME_RESPONSE_def)

lemma response_ends_request:
  assumes "client_inv c" "map_of (cl_futures c) rid = Some Awaited" "of_type f = FRAME_RESPONSE" "of_request f = rid"
  shows "map_of (cl_futures (on_out f c)) rid = Some (Replied (of_meta f) (of_payload f))"
proof -
  have "rid \<in> set (cl_pending c)" using assms(1,2) by (simp add: client_inv_def)
  then show ?thesis using assms(2-4) by (simp add: on_out_def on_response_def complete_future)
qed

lemma reply_outcome:
  assumes "succeeds rid f \<or> fails rid f" "map_of (cl_futures c) rid = Some (Replied (of_meta f) (of_payload f))"
  shows "request_end other rid c =
    Some (if succeeds rid f then Inr (of_meta f, of_payload f)
          else Inl (BrokerError (str_arg ''code'' (of_meta f)) (str_arg ''message'' (of_meta f))))"
proof (cases "succeeds rid f")
  case True
  then show ?thesis using assms(2) by (simp add: request_end_def succeeds_def jget_def)
next
  case False
  then have "fails rid f" using assms(1) by blast
  then obtain code msg where f: "map_of (of_meta f) ''ok'' = Some (JBool False)" "code \<noteq> []" "msg \<noteq> []"
    "map_of (of_meta f) ''code'' = Some (JStr code)" "map_of (of_meta f) ''message'' = Some (JStr msg)"
    by (auto simp: fails_def ERROR_CODES_def)
  then show ?thesis using assms(2) False
    by (simp add: request_end_def jget_def str_or_def py_str_def str_arg_def broker_error_def)
qed

text \<open>C33. A call of a client has the effect of the command and brings back its reply: the bytes the client
  writes, in whatever chunks they arrive, are read by the server as one frame with the command and the
  payload; and when the server sends the reply of the handler behind any events, in whatever chunks
  these arrive, the call returns the metadata and the payload of a successful reply and raises
  \<open>BrokerError\<close> with the code and the message of a failed one. (The JSON library must read back the
  objects it has written here, and the frames must be within the size limits.)\<close>

theorem call_returns_reply:
  assumes run: "client_run loads dumps (new_client mx) c" and on: "cl_reading c" "\<not> cl_closed c" "cl_reader c = new_reader mx"
    and begun: "request_begin dumps cmd extra pl c = (Inr rid, c1)"
    and meta: "meta = dict_merge [(''cmd'', JStr cmd)] extra" "dumps meta \<noteq> []" "loads (dumps meta) = Some (JObj meta)"
    and up: "cl_sent c1 = cl_sent c @ concat up" "int (length (concat up)) \<le> smx"
    and reply: "reply = fst (handle ou rid meta pl (cx, b))"
    and events: "\<forall>e \<in> set es. of_type e = FRAME_EVENT"
    and enc: "map (encode_out dumps) (es @ [reply]) = map Inr bss" "\<forall>bs \<in> set bss. int (length bs) \<le> mx"
    and json: "\<forall>f \<in> set (es @ [reply]). readable loads dumps f"
    and down: "concat chunks = concat bss" "[] \<notin> set chunks"
  shows "(\<exists>f. read_chunks up (new_reader smx) = (Inr [f], new_reader smx) \<and> fr_type f = FRAME_COMMAND \<and>
      fr_request f = rid \<and> fr_payload f = pl \<and> parse_metadata loads f = Inr meta) \<and>
    request_end other rid (fold (client_data loads) chunks c1) =
      Some (if succeeds rid reply then Inr (of_meta reply, of_payload reply)
            else Inl (BrokerError (str_arg ''code'' (of_meta reply)) (str_arg ''message'' (of_meta reply))))"
proof
  from request_begin_okE [OF begun] obtain bs where bs: "command_frame dumps rid cmd extra pl = Inr bs"
    "cl_sent c1 = cl_sent c @ bs" and c1: "cl_reading c1 = cl_reading c" "cl_closed c1 = cl_closed c" "cl_reader c1 = cl_reader c" .
  have "bs = concat up" using bs(2) up(1) by simp
  then show "\<exists>f. read_chunks up (new_reader smx) = (Inr [f], new_reader smx) \<and> fr_type f = FRAME_COMMAND \<and>
      fr_request f = rid \<and> fr_payload f = pl \<and> parse_metadata loads f = Inr meta"
    using bs(1) up(2) meta by (intro command_roundtrip [where dumps = dumps and cmd = cmd and extra = extra and bs = bs]) simp_all
  have inv: "client_inv c1"
    using request_begin_progress [of c dumps cmd extra pl] client_run_progress [OF run new_client_inv] begun by simp
  have waits: "map_of (cl_futures c1) rid = Some Awaited" using request_begin_new [OF begun] by simp
  have all: "fold (client_data loads) chunks c1 = on_out reply (fold on_out es c1)"
    using stream_reaches_client [of c1 mx dumps "es @ [reply]" bss loads chunks] on c1 enc json down by simp
  let ?c = "fold on_out es c1"
  have "client_inv ?c" "map_of (cl_futures ?c) rid = Some Awaited"
    using progress_cong [OF inv events_leave_futures [OF events]] waits events_leave_futures(1) [OF events, of c1] by simp_all
  moreover have good: "succeeds rid reply \<or> fails rid reply" unfolding reply by (rule handle_replies)
  ultimately have "map_of (cl_futures (on_out reply ?c)) rid = Some (Replied (of_meta reply) (of_payload reply))"
    by (intro response_ends_request) (auto simp: succeeds_def fails_def)
  then show "request_end other rid (fold (client_data loads) chunks c1) =
      Some (if succeeds rid reply then Inr (of_meta reply, of_payload reply)
            else Inl (BrokerError (str_arg ''code'' (of_meta reply)) (str_arg ''message'' (of_meta reply))))"
    unfolding all by (rule reply_outcome [OF good])
qed

definition demo_dumps :: "dict \<Rightarrow> bytes" where
  "demo_dumps m = (if map_of m ''cmd'' = None then [2] else [1])"

definition demo_loads :: "bytes \<Rightarrow> json option" where
  "demo_loads bs =
     Some (JObj (if bs = [1] then [(''cmd'', JStr ''PING'')] else [(''ok'', JBool True), (''pong'', JBool True)]))"

definition demo_open :: broker where
  "demo_open = (demo_broker [])\<lparr>br_config := demo_config\<lparr>cf_auth_enabled := False\<rparr>\<rparr>"

lemma demo_pong:
  "fst (handle ou 1 [(''cmd'', JStr ''PING'')] [] (new_context ''x'', demo_open)) = ok_reply 1 [(''pong'', JBool True)] []"
proof -
  have "str_arg ''cmd'' [(''cmd'', JStr ''PING'')] = ''PING''" by (simp add: str_arg_def jget_def)
  moreover have "authorize (cx_principal (new_context ''x'')) ''PING'' (cf_auth_enabled (br_config demo_open)) = (True, [], [])"
    by code_simp
  moreover have "lower ''PING'' = ''ping''" by code_simp
  moreover have "map_of commands ''ping'' = Some cmd_ping" by (simp add: commands_def)
  ultimately show ?thesis by (simp add: handle_def cmd_ping_def)
qed

lemma demo_frames:
  assumes "dumps meta = [n]" "0 \<le> rid" "rid < 2 ^ 64" "0 \<le> ty" "ty < 2 ^ 8"
  shows "\<exists>bs. meta_frame dumps ty rid meta [] = Inr bs \<and> length bs = 29"
  using assms by (simp add: meta_frame_def encode_frame_eq fields_fit_def FRAME_VERSION_def length_frame_bytes HEADER_SIZE_def)

theorem call_returns_reply_witness:
  "\<exists>c1 bs. request_begin demo_dumps ''PING'' [] [] (connect_client (new_client 100)) = (Inr 1, c1) \<and>
     request_end demo_str 1 (fold (client_data demo_loads) [take 5 bs, drop 5 bs] c1) =
       Some (Inr ([(''ok'', JBool True), (''pong'', JBool True)], []))"
proof -
  let ?c = "connect_client (new_client 100)" and ?meta = "[(''cmd'', JStr ''PING'')]" and
    ?pong = "[(''ok'', JBool True), (''pong'', JBool True)]"
  let ?reply = "ok_reply 1 [(''pong'', JBool True)] []"
  have meta: "?meta = dict_merge [(''cmd'', JStr ''PING'')] []" by (simp add: dict_merge_def)
  have pong: "of_meta ?reply = ?pong" "of_payload ?reply = []" "of_type ?reply = FRAME_RESPONSE" "of_request ?reply = 1"
    by (simp_all add: ok_reply_def response_meta_def dict_merge_def)
  have c: "cl_reading ?c" "\<not> cl_closed ?c" "cl_reader ?c = new_reader 100" "cl_writer ?c" "cl_sent ?c = []" "cl_rid ?c = 0"
    by (simp_all add: connect_client_def new_client_def)
  have "client_step demo_loads demo_dumps (new_client 100) ?c" by (rule client_step.opened) (simp add: new_client_def)
  then have run: "client_run demo_loads demo_dumps (new_client 100) ?c" by blast
  obtain up where up: "command_frame demo_dumps 1 ''PING'' [] [] = Inr up" "length up = 29"
    using demo_frames [of demo_dumps ?meta 1 1 FRAME_COMMAND] unfolding command_frame_def meta [symmetric]
    by (auto simp: demo_dumps_def FRAME_COMMAND_def)
  obtain bs where bs: "encode_out demo_dumps ?reply = Inr bs" "length bs = 29"
    using demo_frames [of demo_dumps ?pong 2 1 FRAME_RESPONSE] unfolding encode_out_def pong
    by (auto simp: demo_dumps_def FRAME_RESPONSE_def)
  obtain c1 where c1: "request_begin demo_dumps ''PING'' [] [] ?c = (Inr 1, c1)" "cl_sent c1 = up"
    using up(1) c(4-6) by (simp add: request_begin_def Let_def)
  have "readable demo_loads demo_dumps ?reply"
    by (simp add: readable_def pong demo_dumps_def demo_loads_def FRAME_RESPONSE_def FRAME_HEARTBEAT_def)
  then have "request_end demo_str 1 (fold (client_data demo_loads) [take 5 bs, drop 5 bs] c1) =
      Some (if succeeds 1 ?reply then Inr (of_meta ?reply, of_payload ?reply)
            else Inl (BrokerError (str_arg ''code'' (of_meta ?reply)) (str_arg ''message'' (of_meta ?reply))))"
    using up(2) bs c1(2) c(5)
    by (intro conjunct2 [OF call_returns_reply [OF run c(1-3) c1(1) meta, where up = "[up]" and smx = 100 and es = "[]" and
        bss = "[bs]" and b = demo_open and cx = "new_context ''x''" and ou = "ou"]])
       (auto simp: demo_pong demo_dumps_def demo_loads_def)
  then show ?thesis using c1(1) by (auto simp: succeeds_ok pong)
qed

end
