(* ===== verification/AsyncClient.thy ===== *)
theory AsyncClient
  imports Client
begin

text \<open>
  \<open>client/async_client.py\<close>: the calls of \<open>AsyncBroker\<close>. Each call is the command with its arguments and
  payload that goes to \<open>ProtocolClient.request\<close>, and a function that takes the metadata of a successful
  reply apart. \<open>other\<close> is what \<open>str\<close> gives for a value that is no string.
\<close>

section \<open>State and results\<close>

record async_broker =
  ab_token :: "string option"
  ab_username :: "string option"
  ab_password :: "string option"
  ab_consumers :: "(string \<times> string) list"

definition new_async_broker :: "string option \<Rightarrow> string option \<Rightarrow> string option \<Rightarrow> async_broker" where
  "new_async_broker token username password =
     \<lparr>ab_token = token, ab_username = username, ab_password = password, ab_consumers = []\<rparr>"

record received =
  rm_id :: string
  rm_queue :: string
  rm_payload :: bytes
  rm_attempts :: int
  rm_headers :: json
  rm_consumer :: string

record pubsub_event =
  ev_channel :: string
  ev_payload :: bytes

type_synonym call = "string \<times> dict \<times> bytes"

section \<open>Authentication, liveness\<close>

definition auth_call :: "async_broker \<Rightarrow> call option" where
  "auth_call ab =
     (if given (ab_token ab) then Some (''AUTH'', [(''token'', JStr (the (ab_token ab)))], [])
      else if given (ab_username ab)
      then Some (''AUTH'', [(''username'', JStr (the (ab_username ab))), (''password'', JStr (or_else (ab_password ab) []))], [])
      else None)"

definition ping_call :: call where
  "ping_call = (''PING'', [], [])"

definition ping_result :: "dict \<Rightarrow> bool" where
  "ping_result meta = truthy (jget ''pong'' meta)"

section \<open>Publishing\<close>

definition opt_json :: "('a \<Rightarrow> json) \<Rightarrow> 'a option \<Rightarrow> json" where
  "opt_json j x = (case x of None \<Rightarrow> JNull | Some v \<Rightarrow> j v)"

definition publish_extra ::
  "string option \<Rightarrow> string option \<Rightarrow> string \<Rightarrow> dict option \<Rightarrow> int \<Rightarrow> int option \<Rightarrow> dict" where
  "publish_extra queue ex rk hs prio ma =
     (let extra = [(''queue'', opt_json JStr queue), (''exchange'', opt_json JStr ex), (''routing_key'', JStr rk),
                   (''headers'', opt_json JObj hs), (''priority'', JInt prio)];
          extra1 = (case ma of None \<Rightarrow> extra | Some n \<Rightarrow> dset ''max_attempts'' (JInt n) extra);
          extra2 = filter (\<lambda>(k, v). v \<noteq> JNull \<and> v \<noteq> JStr []) extra1
      in if given queue then dset ''queue'' (JStr (the queue)) extra2 else extra2)"

definition publish_call ::
  "bytes \<Rightarrow> string option \<Rightarrow> string option \<Rightarrow> string \<Rightarrow> dict option \<Rightarrow> int \<Rightarrow> int option \<Rightarrow> call" where
  "publish_call pl queue ex rk hs prio ma = (''PUBLISH'', publish_extra queue ex rk hs prio ma, pl)"

definition publish_result :: "(json \<Rightarrow> string) \<Rightarrow> dict \<Rightarrow> string" where
  "publish_result other meta = str_or other ''id'' [] meta"

section \<open>Consuming\<close>

definition received_message :: "(json \<Rightarrow> string) \<Rightarrow> string \<Rightarrow> dict \<Rightarrow> bytes \<Rightarrow> py_error + received" where
  "received_message other queue meta pl =
     (case map_of meta ''message_id'' of
        None \<Rightarrow> Inl (KeyError ''message_id'')
      | Some mid \<Rightarrow>
          (case int_arg ''attempts'' 0 meta of
             Inl err \<Rightarrow> Inl err
           | Inr n \<Rightarrow>
               Inr \<lparr>rm_id = py_str other mid, rm_queue = str_or other ''queue'' queue meta, rm_payload = pl,
                    rm_attempts = n, rm_headers = jget ''headers'' meta, rm_consumer = str_or other ''consumer_id'' [] meta\<rparr>))"

text \<open>\<open>consume\<close>: the request of the first call for a queue, the entry its reply makes, and the wait for a
  delivery (\<open>None\<close> while there is none).\<close>

definition consume_call :: "string \<Rightarrow> int \<Rightarrow> async_broker \<Rightarrow> call option" where
  "consume_call queue prefetch ab =
     (if queue \<in> dkeys (ab_consumers ab) then None
      else Some (''CONSUME'', [(''queue'', JStr queue), (''prefetch'', JInt prefetch)], []))"

definition consume_registered :: "(json \<Rightarrow> string) \<Rightarrow> string \<Rightarrow> dict \<Rightarrow> async_broker \<Rightarrow> py_error + async_broker" where
  "consume_registered other queue meta ab =
     (case map_of meta ''consumer_id'' of
        None \<Rightarrow> Inl (KeyError ''consumer_id'')
      | Some v \<Rightarrow> Inr (ab\<lparr>ab_consumers := dset queue (py_str other v) (ab_consumers ab)\<rparr>))"

definition consume_result :: "(json \<Rightarrow> string) \<Rightarrow> string \<Rightarrow> client \<Rightarrow> (py_error + received) option \<times> client" where
  "consume_result other queue c =
     (case cl_deliveries c of
        [] \<Rightarrow> (None, c)
      | (meta, pl) # ds \<Rightarrow> (Some (received_message other queue meta pl), c\<lparr>cl_deliveries := ds\<rparr>))"

definition get_call :: "string \<Rightarrow> call" where
  "get_call queue = (''GET'', [(''queue'', JStr queue)], [])"

definition get_result :: "(json \<Rightarrow> string) \<Rightarrow> string \<Rightarrow> dict \<Rightarrow> bytes \<Rightarrow> py_error + received option" where
  "get_result other queue meta pl =
     (if truthy (jget ''empty'' meta) then Inr None
      else (case received_message other queue meta pl of Inl err \<Rightarrow> Inl err | Inr m \<Rightarrow> Inr (Some m)))"

definition qos_call :: "int \<Rightarrow> string option \<Rightarrow> call" where
  "qos_call prefetch consumer_id =
     (''QOS'',
      if given consumer_id then [(''prefetch'', JInt prefetch), (''consumer_id'', JStr (the consumer_id))]
      else [(''prefetch'', JInt prefetch)], [])"

definition ack_call :: "string \<Rightarrow> call" where
  "ack_call k = (''ACK'', [(''message_id'', JStr k)], [])"

definition nack_call :: "string \<Rightarrow> bool \<Rightarrow> call" where
  "nack_call k requeue = (''NACK'', [(''message_id'', JStr k), (''requeue'', JBool requeue)], [])"

text \<open>\<open>ReceivedMessage.ack\<close> and \<open>nack\<close>.\<close>

definition received_ack :: "received \<Rightarrow> call" where
  "received_ack m = ack_call (rm_id m)"

definition received_nack :: "received \<Rightarrow> bool \<Rightarrow> call" where
  "received_nack m requeue = nack_call (rm_id m) requeue"

section \<open>Channels\<close>

definition subscribe_call :: "string \<Rightarrow> call" where
  "subscribe_call ch = (''SUBSCRIBE'', [(''channel'', JStr ch)], [])"

definition unsubscribe_call :: "string \<Rightarrow> call" where
  "unsubscribe_call ch = (''UNSUBSCRIBE'', [(''channel'', JStr ch)], [])"

text \<open>The loop of \<open>subscribe\<close> up to its next \<open>yield\<close>; \<open>None\<close> when it waits with the queue empty.\<close>

fun next_event :: "string \<Rightarrow> (dict \<times> bytes) list \<Rightarrow> pubsub_event option \<times> (dict \<times> bytes) list" where
  "next_event ch [] = (None, [])"
| "next_event ch ((meta, pl) # es) =
     (if jget ''channel'' meta = JStr ch then (Some \<lparr>ev_channel = ch, ev_payload = pl\<rparr>, es) else next_event ch es)"

definition subscription_next :: "string \<Rightarrow> client \<Rightarrow> pubsub_event option \<times> client" where
  "subscription_next ch c = (case next_event ch (cl_pubsub c) of (e, es) \<Rightarrow> (e, c\<lparr>cl_pubsub := es\<rparr>))"

definition publish_channel_call :: "string \<Rightarrow> bytes \<Rightarrow> call" where
  "publish_channel_call ch pl = (''PUBLISH_CHANNEL'', [(''channel'', JStr ch)], pl)"

definition publish_channel_result :: "dict \<Rightarrow> py_error + int" where
  "publish_channel_result meta = int_arg ''delivered'' 0 meta"

section \<open>Reports and declarations\<close>

definition stats_call :: call where "stats_call = (''STATS'', [], [])"
definition info_call :: call where "info_call = (''INFO'', [], [])"
definition list_queues_call :: call where "list_queues_call = (''LIST_QUEUES'', [], [])"
definition list_consumers_call :: call where "list_consumers_call = (''LIST_CONSUMERS'', [], [])"
definition list_channels_call :: call where "list_channels_call = (''LIST_CHANNELS'', [], [])"

definition queue_info_call :: "string \<Rightarrow> call" where
  "queue_info_call n = (''QUEUE_INFO'', [(''name'', JStr n)], [])"

definition dlq_info_call :: "string \<Rightarrow> call" where
  "dlq_info_call queue = (''DLQ_INFO'', [(''queue'', JStr queue)], [])"

text \<open>What \<open>stats\<close>, \<open>info\<close>, \<open>queue_info\<close> and \<open>dlq_info\<close> return, and what the lists return
  (\<open>list(meta.get(k) or [])\<close>).\<close>

definition report_result :: "dict \<Rightarrow> dict" where
  "report_result meta = filter (\<lambda>(k, v). k \<noteq> ''ok'') meta"

fun py_list :: "json \<Rightarrow> py_error + json list" where
  "py_list (JList xs) = Inr xs"
| "py_list (JStr s) = Inr (map (\<lambda>ch. JStr [ch]) s)"
| "py_list (JObj d) = Inr (map (\<lambda>(k, v). JStr k) d)"
| "py_list _ = Inl (TypeError ''object is not iterable'')"

definition rows_result :: "string \<Rightarrow> dict \<Rightarrow> py_error + json list" where
  "rows_result k meta = (if truthy (jget k meta) then py_list (jget k meta) else Inr [])"

definition dlq_requeue_call :: "string \<Rightarrow> string \<Rightarrow> call" where
  "dlq_requeue_call queue k = (''DLQ_REQUEUE'', [(''queue'', JStr queue), (''message_id'', JStr k)], [])"

definition declare_queue_call :: "string \<Rightarrow> dict \<Rightarrow> call" where
  "declare_queue_call n kwargs = (''DECLARE_QUEUE'', dict_merge [(''name'', JStr n)] kwargs, [])"

definition declare_exchange_call :: "string \<Rightarrow> string \<Rightarrow> call" where
  "declare_exchange_call n ty = (''DECLARE_EXCHANGE'', [(''name'', JStr n), (''type'', JStr ty)], [])"

definition bind_call :: "string \<Rightarrow> string \<Rightarrow> string \<Rightarrow> call" where
  "bind_call ex queue rk =
     (''BIND'', [(''exchange'', JStr ex), (''queue'', JStr queue), (''routing_key'', JStr rk)], [])"

section \<open>The calls against the handler\<close>

text \<open>The metadata of the request frame of a call.\<close>

definition call_meta :: "call \<Rightarrow> dict" where
  "call_meta k = (case k of (cmd, extra, pl) \<Rightarrow> dict_merge [(''cmd'', JStr cmd)] extra)"

definition call_payload :: "call \<Rightarrow> bytes" where
  "call_payload k = snd (snd k)"

text \<open>An optional name, where the empty one counts as none.\<close>

definition name_arg :: "string option \<Rightarrow> string option" where
  "name_arg x = (if given x then x else None)"

lemma map_of_filter_val:
  "distinct (map fst d) \<Longrightarrow> map_of (filter (\<lambda>(k, v). P v) d) k = (case map_of d k of None \<Rightarrow> None | Some v \<Rightarrow> if P v then Some v else None)"
  by (induction d) (auto split: option.splits dest: map_of_SomeD simp: dom_map_of_conv_image_fst image_iff)

lemma map_of_dict_merge:
  "distinct (map fst extra) \<Longrightarrow> map_of (dict_merge base extra) k = (case map_of extra k of None \<Rightarrow> map_of base k | Some v \<Rightarrow> Some v)"
  by (induction extra arbitrary: base)
     (auto simp: dict_merge_def split: option.splits dest: map_of_SomeD simp: image_iff)

lemma publish_extra_keys: "distinct (map fst (publish_extra queue ex rk hs prio ma))"
  unfolding publish_extra_def Let_def
  by (auto simp: distinct_map_filter split: option.split intro!: distinct_update)

definition publish_fields ::
  "string option \<Rightarrow> string option \<Rightarrow> string \<Rightarrow> dict option \<Rightarrow> int \<Rightarrow> int option \<Rightarrow> string \<Rightarrow> json" where
  "publish_fields queue ex rk hs prio ma k =
     (if k = ''queue'' then opt_json JStr (name_arg queue) else if k = ''exchange'' then opt_json JStr (name_arg ex)
      else if k = ''routing_key'' then (if rk = [] then JNull else JStr rk)
      else if k = ''headers'' then opt_json JObj hs else if k = ''priority'' then JInt prio
      else if k = ''max_attempts'' then opt_json JInt ma else JNull)"

lemma publish_extra_fields: "jget k (publish_extra queue ex rk hs prio ma) = publish_fields queue ex rk hs prio ma k"
proof -
  define extra1 where "extra1 = (let extra = [(''queue'', opt_json JStr queue), (''exchange'', opt_json JStr ex),
      (''routing_key'', JStr rk), (''headers'', opt_json JObj hs), (''priority'', JInt prio)]
    in case ma of None \<Rightarrow> extra | Some n \<Rightarrow> dset ''max_attempts'' (JInt n) extra)"
  define shown where "shown v = (v \<noteq> JNull \<and> v \<noteq> JStr [])" for v
  have d: "distinct (map fst extra1)" by (auto simp: extra1_def Let_def split: option.split intro!: distinct_update)
  have get: "map_of extra1 k = (if k = ''queue'' then Some (opt_json JStr queue) else if k = ''exchange'' then Some (opt_json JStr ex)
      else if k = ''routing_key'' then Some (JStr rk) else if k = ''headers'' then Some (opt_json JObj hs)
      else if k = ''priority'' then Some (JInt prio) else if k = ''max_attempts'' then map_option JInt ma else None)"
    by (cases ma) (simp_all add: extra1_def)
  have extra: "publish_extra queue ex rk hs prio ma =
      (if given queue then dset ''queue'' (JStr (the queue)) (filter (\<lambda>(k, v). shown v) extra1) else filter (\<lambda>(k, v). shown v) extra1)"
    by (simp add: publish_extra_def extra1_def shown_def Let_def)
  have "map_of (publish_extra queue ex rk hs prio ma) k = (case map_of extra1 k of None \<Rightarrow> None | Some v \<Rightarrow> if shown v then Some v else None)"
  proof (cases "given queue \<and> k = ''queue''")
    case True
    then obtain q where "queue = Some q" "q \<noteq> []" by (auto simp: given_def split: option.splits)
    then show ?thesis using True unfolding extra get by (simp add: shown_def opt_json_def)
  next
    case False
    then show ?thesis using map_of_filter_val [OF d, of shown k] by (auto simp: extra)
  qed
  then show ?thesis unfolding get jget_def publish_fields_def
    by (simp add: shown_def opt_json_def name_arg_def given_def split: option.split)
qed

lemma jget_call: "k \<noteq> ''cmd'' \<Longrightarrow> distinct (map fst extra) \<Longrightarrow> jget k (call_meta (cmd, extra, pl)) = jget k extra"
  by (simp add: jget_def call_meta_def map_of_dict_merge split: option.split)

lemma publish_call_fields:
  "k \<noteq> ''cmd'' \<Longrightarrow> jget k (call_meta (publish_call pl queue ex rk hs prio ma)) = publish_fields queue ex rk hs prio ma k"
  by (simp add: publish_call_def jget_call publish_extra_keys publish_extra_fields)

lemma as_opt_json: "as_str (opt_json JStr x) = x" "as_int (opt_json JInt n) = n"
  by (simp_all add: opt_json_def split: option.split)

lemma publish_call_reads:
  "as_str (jget ''queue'' (call_meta (publish_call pl queue ex rk hs prio ma))) = name_arg queue"
  "as_str (jget ''exchange'' (call_meta (publish_call pl queue ex rk hs prio ma))) = name_arg ex"
  "str_arg ''routing_key'' (call_meta (publish_call pl queue ex rk hs prio ma)) = rk"
  "jget ''headers'' (call_meta (publish_call pl queue ex rk hs prio ma)) = opt_json JObj hs"
  "int_arg ''priority'' 0 (call_meta (publish_call pl queue ex rk hs prio ma)) = Inr prio"
  "as_int (jget ''max_attempts'' (call_meta (publish_call pl queue ex rk hs prio ma))) = ma"
  "as_str (jget ''message_id'' (call_meta (publish_call pl queue ex rk hs prio ma))) = None"
  by (simp_all add: publish_call_fields publish_fields_def as_opt_json str_arg_def int_arg_def)

text \<open>C34. \<open>publish\<close> of the client is \<open>publish\<close> of the broker: the handler reads out of the call the queue and the
  exchange (an empty name counts as none), the routing key, the headers, the priority and the attempts
  the caller has given, and nothing else; the caller gets the id of the message as it was routed, and
  an error exactly when the message reached no queue or a full one, and then no consumer is served.\<close>

theorem publish_call_publishes:
  assumes "with_routing (publish pl (name_arg ex) rk (name_arg queue) ma prio (opt_json JObj hs) None (ou_message ou) True) b =
      ((mid, routed, result), b1)"
    "k = publish_call pl queue ex rk hs prio ma" "ok = (result = EnqOK \<and> routed \<noteq> [])"
  shows "\<exists>reply. cmd_publish ou rid (call_meta k) (call_payload k) (cx, b) = (Inr reply, cx, if ok then pump_all routed b1 else b1) \<and>
    (if ok then succeeds rid reply \<and> publish_result other (of_meta reply) = mid else fails rid reply)"
proof -
  have "cmd_publish ou rid (call_meta k) (call_payload k) (cx, b) =
      (if result = EnqQueueFull then (Inr (err_reply rid ''QUEUE_FULL'' ''queue is full''), cx, b1)
       else if result = EnqNotFound \<or> routed = [] then (Inr (err_reply rid ''NOT_FOUND'' ''not bound''), cx, b1)
       else (Inr (ok_reply rid [(''id'', JStr mid), (''routed'', JList (map JStr routed))] []), cx, pump_all routed b1))"
    unfolding assms(2) cmd_publish_def
    by (simp add: publish_call_reads) (simp add: publish_call_def call_payload_def assms(1))
  moreover have "publish_result other (of_meta (ok_reply rid [(''id'', JStr mid), (''routed'', JList (map JStr routed))] [])) = mid"
    by (simp add: publish_result_def str_or_def jget_def ok_reply_def response_meta_def dict_merge_def py_str_def)
  ultimately show ?thesis
    unfolding assms(3) by (cases result) (auto simp: succeeds_ok fails_err known_code)
qed

definition demo_work :: broker where
  "demo_work = declare_missing ''work'' demo_open"

definition demo_outside :: outside where
  "demo_outside = \<lparr>ou_message = \<lambda>_. (''m9'', 5), ou_consumer = ''c9'', ou_now = 5, ou_aof_size = 0, ou_snap_size = 0\<rparr>"

lemma demo_routed:
  "fst (with_routing (publish [1] None [] (Some ''work'') (Some 2) 0 JNull None (ou_message demo_outside) True) demo_work) =
     (''m9'', [''work''], EnqOK)"
  by code_simp

theorem publish_call_publishes_witness:
  "\<exists>reply b'. cmd_publish demo_outside 4 (call_meta (publish_call [1] (Some ''work'') (Some '''') '''' None 0 (Some 2))) [1]
       (new_context ''x'', demo_work) = (Inr reply, new_context ''x'', b') \<and>
     succeeds 4 reply \<and> publish_result demo_str (of_meta reply) = ''m9''"
proof -
  have names: "name_arg (Some '''') = None" "name_arg (Some ''work'') = Some ''work''" "opt_json JObj None = JNull"
    by (simp_all add: name_arg_def given_def opt_json_def)
  obtain b1 where "with_routing (publish [1] (name_arg (Some '''')) [] (name_arg (Some ''work'')) (Some 2) 0 (opt_json JObj None) None
      (ou_message demo_outside) True) demo_work = ((''m9'', [''work''], EnqOK), b1)"
    unfolding names using demo_routed by (metis prod.collapse)
  from publish_call_publishes [OF this refl refl, of 4 "new_context ''x''" demo_str]
  show ?thesis by (auto simp: call_payload_def publish_call_def)
qed

section \<open>Receiving\<close>

text \<open>A message as the consumer that holds it sees it.\<close>

definition as_received :: "consumer \<Rightarrow> message \<Rightarrow> received" where
  "as_received k m =
     \<lparr>rm_id = msg_id m, rm_queue = msg_queue m, rm_payload = payload m, rm_attempts = attempts m,
      rm_headers = headers m, rm_consumer = con_id k\<rparr>"

lemma received_delivery:
  assumes "msg_queue m \<noteq> []"
  shows "received_message other queue (of_meta (deliver_frame k m)) (of_payload (deliver_frame k m)) = Inr (as_received k m)"
  using assms
  by (simp add: received_message_def deliver_frame_def event_out_def dict_merge_def jget_def int_arg_def str_or_def py_str_def as_received_def)

lemma get_call_reads:
  "str_arg ''queue'' (call_meta (get_call q)) = q" "str_arg ''consumer_id'' (call_meta (get_call q)) = []"
  "jget ''prefetch'' (call_meta (get_call q)) = JNull"
  by (simp_all add: get_call_def str_arg_def jget_call) (simp_all add: jget_def)

text \<open>\<open>get\<close> of the client returns what the broker reserves: the consumer the connection has for a
  \<open>GET\<close> on this queue tries to reserve a message, and the caller gets this message, with its id,
  queue, payload, attempts and headers, or \<open>None\<close> when nothing can be reserved.\<close>

theorem get_call_returns_reserved:
  assumes "queue \<noteq> []" "who = ''get-'' @ cx_connection cx @ ''-'' @ queue"
    "with_consumers (try_reserve queue) (ensure_getter who (cx_connection cx) queue (cx_prefetch cx) b) = (x, b')"
    "\<forall>k m. x = Some (k, m) \<longrightarrow> msg_queue m \<noteq> []"
  shows "\<exists>reply. cmd_get ou rid (call_meta (get_call queue)) pl (cx, b) = (Inr reply, cx, b') \<and> succeeds rid reply \<and>
    get_result other queue (of_meta reply) (of_payload reply) = Inr (map_option (\<lambda>(k, m). as_received k m) x)"
proof (cases x)
  case None
  then show ?thesis using assms
    by (simp add: cmd_get_def get_call_reads prefetch_arg_def Let_def succeeds_ok get_result_def)
       (simp add: ok_reply_def response_meta_def dict_merge_def jget_def)
next
  case (Some y)
  obtain k m where y: "y = (k, m)" by (cases y) blast
  then show ?thesis using assms Some
    by (simp add: cmd_get_def get_call_reads prefetch_arg_def Let_def succeeds_ok get_result_def)
       (simp add: ok_reply_def response_meta_def dict_merge_def jget_def received_message_def int_arg_def str_or_def py_str_def
          as_received_def)
qed

text \<open>The results of a sequence of \<open>consume\<close> calls that find their deliveries waiting.\<close>

fun consume_all :: "(json \<Rightarrow> string) \<Rightarrow> string list \<Rightarrow> client \<Rightarrow> (py_error + received) option list \<times> client" where
  "consume_all other [] c = ([], c)"
| "consume_all other (q # qs) c =
     (case consume_result other q c of (r, c1) \<Rightarrow> (case consume_all other qs c1 of (rs, c2) \<Rightarrow> (r # rs, c2)))"

lemma consume_all_Cons:
  "consume_result other q c = (r, c1) \<Longrightarrow> fst (consume_all other (q # qs) c) = r # fst (consume_all other qs c1)"
  by (simp add: split_beta)

lemma deliveries_queued:
  "cl_deliveries (fold on_out (map (\<lambda>(k, m). deliver_frame k m) kms) c) =
     cl_deliveries c @ map (\<lambda>(k, m). (of_meta (deliver_frame k m), of_payload (deliver_frame k m))) kms"
proof (induction kms arbitrary: c)
  case (Cons y kms)
  obtain k m where y: "y = (k, m)" by (cases y) blast
  have "jget ''event'' (of_meta (deliver_frame k m)) = JStr ''DELIVER''" "of_type (deliver_frame k m) = FRAME_EVENT"
    by (simp_all add: deliver_frame_def event_out_def dict_merge_def jget_def)
  then have "cl_deliveries (on_out (deliver_frame k m) c) =
      cl_deliveries c @ [(of_meta (deliver_frame k m), of_payload (deliver_frame k m))]"
    by (simp add: on_out_def on_event_def FRAME_EVENT_def FRAME_RESPONSE_def)
  then show ?case using Cons.IH by (simp add: y)
qed simp

lemma consume_all_queued:
  assumes "cl_deliveries c = map (\<lambda>(k, m). (of_meta (deliver_frame k m), of_payload (deliver_frame k m))) kms"
    "\<forall>(k, m) \<in> set kms. msg_queue m \<noteq> []" "length qs = length kms"
  shows "fst (consume_all other qs c) = map (\<lambda>(k, m). Some (Inr (as_received k m))) kms"
  using assms
proof (induction kms arbitrary: qs c)
  case (Cons y kms)
  obtain k m where y: "y = (k, m)" by (cases y) blast
  obtain q qs' where qs: "qs = q # qs'" using Cons.prems(3) by (cases qs) auto
  have "consume_result other q c = (Some (Inr (as_received k m)),
      c\<lparr>cl_deliveries := map (\<lambda>(k, m). (of_meta (deliver_frame k m), of_payload (deliver_frame k m))) kms\<rparr>)"
    using Cons.prems(1,2) received_delivery [of m] by (simp add: consume_result_def y)
  then show ?case using Cons.IH [of "c\<lparr>cl_deliveries := map (\<lambda>(k, m). (of_meta (deliver_frame k m), of_payload (deliver_frame k m))) kms\<rparr>" qs']
      Cons.prems(2,3) by (simp add: qs y consume_all_Cons del: consume_all.simps(2))
qed simp

text \<open>C35. What the broker pushes is what \<open>consume\<close> returns, once each and in the order in which it was pushed:
  when the \<open>DELIVER\<close> frames of a sequence of deliveries arrive, in whatever chunks, the next calls of
  \<open>consume\<close> return these messages with their ids, queues, payloads, attempts, headers and consumers.
  The queue a call names does not matter once it is registered: it may get a message of another queue.\<close>

theorem consume_returns_deliveries:
  assumes "cl_reading c" "\<not> cl_closed c" "cl_reader c = new_reader mx" "cl_deliveries c = []"
    "fs = map (\<lambda>(k, m). deliver_frame k m) kms" "\<forall>(k, m) \<in> set kms. msg_queue m \<noteq> []"
    "map (encode_out dumps) fs = map Inr bss" "\<forall>bs \<in> set bss. int (length bs) \<le> mx" "\<forall>f \<in> set fs. readable loads dumps f"
    "concat chunks = concat bss" "[] \<notin> set chunks" "length qs = length kms"
  shows "fst (consume_all other qs (fold (client_data loads) chunks c)) = map (\<lambda>(k, m). Some (Inr (as_received k m))) kms"
proof -
  have "fold (client_data loads) chunks c = fold on_out fs c"
    using stream_reaches_client [OF assms(1-3,7-11)] .
  then have "cl_deliveries (fold (client_data loads) chunks c) =
      map (\<lambda>(k, m). (of_meta (deliver_frame k m), of_payload (deliver_frame k m))) kms"
    using deliveries_queued [of kms c] assms(4,5) by simp
  then show ?thesis using assms(6,12) by (rule consume_all_queued)
qed

definition demo_holder :: consumer where
  "demo_holder =
     \<lparr>con_id = ''c1'', con_connection = ''x'', con_queues = [''jobs''], con_qos = \<lparr>prefetch_count = 1, unacked_count = 1\<rparr>,
      connected_at = 0, last_activity = 0, con_tag = [], cancelled = False\<rparr>"

theorem consume_returns_deliveries_witness:
  "\<exists>bs. encode_out (\<lambda>_. [3]) (deliver_frame demo_holder (demo_message ''a'' 0)) = Inr bs \<and>
     fst (consume_all demo_str [''other''] (fold (client_data (\<lambda>_. Some (JObj (of_meta (deliver_frame demo_holder (demo_message ''a'' 0))))))
       [take 7 bs, drop 7 bs] (connect_client (new_client 100)))) =
     [Some (Inr (as_received demo_holder (demo_message ''a'' 0)))]"
proof -
  let ?f = "deliver_frame demo_holder (demo_message ''a'' 0)" and ?c = "connect_client (new_client 100)"
  have f: "of_type ?f = FRAME_EVENT" "of_request ?f = 0" "of_payload ?f = payload (demo_message ''a'' 0)"
    by (simp_all add: deliver_frame_def event_out_def)
  have short: "length (payload (demo_message ''a'' 0)) < 50" "msg_queue (demo_message ''a'' 0) \<noteq> []" by code_simp+
  obtain bs where bs: "encode_out (\<lambda>_. [3]) ?f = Inr bs" "length bs < 100" "10 < length bs"
    using short(1) unfolding encode_out_def f
    by (auto simp: meta_frame_def encode_frame_eq fields_fit_def FRAME_VERSION_def FRAME_EVENT_def length_frame_bytes HEADER_SIZE_def)
  then have "bs \<noteq> []" by auto
  moreover have "readable (\<lambda>_. Some (JObj (of_meta ?f))) (\<lambda>_. [3]) ?f" by (simp add: readable_def f FRAME_EVENT_def FRAME_HEARTBEAT_def)
  moreover have "cl_reading ?c" "\<not> cl_closed ?c" "cl_reader ?c = new_reader 100" "cl_deliveries ?c = []"
    by (simp_all add: connect_client_def new_client_def)
  ultimately show ?thesis
    using consume_returns_deliveries [of ?c 100 "[?f]" "[(demo_holder, demo_message ''a'' 0)]" "\<lambda>_. [3]" "[bs]"
        "\<lambda>_. Some (JObj (of_meta ?f))" "[take 7 bs, drop 7 bs]" "[''other'']" demo_str] bs short(2)
    by (intro exI [of _ bs]) (auto simp del: consume_all.simps)
qed

theorem get_call_returns_reserved_witness:
  "\<exists>k m b' reply. with_consumers (try_reserve ''jobs'') (ensure_getter ''get-x-jobs'' ''x'' ''jobs'' 0 demo_open) = (Some (k, m), b') \<and>
     cmd_get demo_outside 4 (call_meta (get_call ''jobs'')) [] (new_context ''x'', demo_open) = (Inr reply, new_context ''x'', b') \<and>
     get_result demo_str ''jobs'' (of_meta reply) (of_payload reply) = Inr (Some (as_received k m))"
proof -
  have cx: "cx_connection (new_context ''x'') = ''x''" "cx_prefetch (new_context ''x'') = 0" by (simp_all add: new_context_def)
  have e: "map_option (\<lambda>(k, m). msg_queue m) (fst (with_consumers (try_reserve ''jobs'') (ensure_getter ''get-x-jobs'' ''x'' ''jobs'' 0 demo_open)))
      = Some ''jobs''" by code_simp
  then obtain k m b' where r: "with_consumers (try_reserve ''jobs'') (ensure_getter ''get-x-jobs'' ''x'' ''jobs'' 0 demo_open) = (Some (k, m), b')"
    "msg_queue m = ''jobs''"
    by (cases "with_consumers (try_reserve ''jobs'') (ensure_getter ''get-x-jobs'' ''x'' ''jobs'' 0 demo_open)") auto
  show ?thesis
    using get_call_returns_reserved [of "''jobs''" "''get-x-jobs''" "new_context ''x''" demo_open "Some (k, m)" b' demo_outside 4 "[]" demo_str]
      r by (auto simp: cx)
qed

text \<open>A subscription gets the events of its channel in order, and discards every other event in front of
  them: two subscriptions of one client take events away from each other.\<close>

theorem subscription_takes_next:
  assumes "cl_pubsub c = passed @ (meta, pl) # left" "jget ''channel'' meta = JStr ch"
    "\<forall>(m, p) \<in> set passed. jget ''channel'' m \<noteq> JStr ch"
  shows "subscription_next ch c = (Some \<lparr>ev_channel = ch, ev_payload = pl\<rparr>, c\<lparr>cl_pubsub := left\<rparr>)"
proof -
  have "next_event ch (passed @ (meta, pl) # left) = (Some \<lparr>ev_channel = ch, ev_payload = pl\<rparr>, left)"
    using assms(2,3) by (induction passed) auto
  then show ?thesis using assms(1) by (simp add: subscription_next_def)
qed

theorem subscription_takes_next_witness:
  "let c = (new_client 100)\<lparr>cl_pubsub := [([(''channel'', JStr ''a'')], [1]), ([(''channel'', JStr ''b'')], [2])]\<rparr> in
   subscription_next ''b'' c = (Some \<lparr>ev_channel = ''b'', ev_payload = [2]\<rparr>, c\<lparr>cl_pubsub := []\<rparr>) \<and>
   fst (subscription_next ''a'' (snd (subscription_next ''b'' c))) = None"
proof -
  define c where "c = (new_client 100)\<lparr>cl_pubsub := [([(''channel'', JStr ''a'')], [1]), ([(''channel'', JStr ''b'')], [2])]\<rparr>"
  have "subscription_next ''b'' c = (Some \<lparr>ev_channel = ''b'', ev_payload = [2]\<rparr>, c\<lparr>cl_pubsub := []\<rparr>)"
    by (rule subscription_takes_next [where passed = "[([(''channel'', JStr ''a'')], [1])]" and meta = "[(''channel'', JStr ''b'')]"])
       (simp_all add: c_def jget_def)
  then show ?thesis unfolding c_def [symmetric] Let_def by (simp add: subscription_next_def)
qed

end
