(* ===== verification/SyncClient.thy ===== *)
theory SyncClient
  imports AsyncClient
begin

text \<open>
  \<open>client/sync_client.py\<close>: the methods of \<open>AsyncBroker\<close> run on an event loop in a thread of its own, and the
  caller waits for their results. A method that only sends a request is the request followed by its reply,
  here directly against the handler (\<open>Client.call_returns_reply\<close> is why). \<open>consume\<close> may wait for longer
  than its caller does; what becomes of its coroutine then is the second part: the tasks of the event loop are
  steps of their own, and calls, arrivals, replies to \<open>CONSUME\<close>, wake-ups and timeouts interleave with them.
  What \<open>request\<close> gives for a \<open>CONSUME\<close> is an argument of the step in which its coroutine becomes ready.
\<close>

section \<open>Calls\<close>

text \<open>The arguments of \<open>Broker\<close>.\<close>

record broker_args =
  ba_host :: string
  ba_port :: int
  ba_token :: "string option"
  ba_username :: "string option"
  ba_password :: "string option"
  ba_ssl :: bool
  ba_cafile :: json
  ba_certfile :: json
  ba_keyfile :: json
  ba_insecure :: bool
  ba_server_hostname :: "string option"

type_synonym peer = "conn_ctx \<times> broker"

definition ask :: "(json \<Rightarrow> string) \<Rightarrow> outside \<Rightarrow> call \<Rightarrow> peer \<Rightarrow> (client_error + dict \<times> bytes) \<times> peer" where
  "ask other ou k s =
     (case handle ou 1 (call_meta k) (call_payload k) s of
        (reply, s') \<Rightarrow>
          (if truthy (jget ''ok'' (of_meta reply)) then Inr (of_meta reply, of_payload reply)
           else Inl (broker_error (str_or other ''code'' ''INTERNAL_ERROR'' (of_meta reply))
                                  (str_or other ''message'' [] (of_meta reply))), s'))"

text \<open>A method of \<open>AsyncBroker\<close>: its request and the reading of its reply.\<close>

definition call_of :: "(json \<Rightarrow> string) \<Rightarrow> outside \<Rightarrow> call \<Rightarrow> (dict \<Rightarrow> bytes \<Rightarrow> client_error + 'a) \<Rightarrow> peer \<Rightarrow> (client_error + 'a) \<times> peer" where
  "call_of other ou k decode s =
     (case ask other ou k s of (Inl err, s') \<Rightarrow> (Inl err, s') | (Inr (meta, pl), s') \<Rightarrow> (decode meta pl, s'))"

definition raised :: "py_error + 'a \<Rightarrow> client_error + 'a" where
  "raised r = (case r of Inl err \<Rightarrow> Inl (Raised err) | Inr x \<Rightarrow> Inr x)"

definition sync_get :: "(json \<Rightarrow> string) \<Rightarrow> outside \<Rightarrow> string \<Rightarrow> peer \<Rightarrow> (client_error + received option) \<times> peer" where
  "sync_get other ou queue = call_of other ou (get_call queue) (\<lambda>meta pl. raised (get_result other queue meta pl))"

definition sync_publish ::
  "(json \<Rightarrow> string) \<Rightarrow> outside \<Rightarrow> bytes \<Rightarrow> string option \<Rightarrow> string option \<Rightarrow> string \<Rightarrow> dict option \<Rightarrow> int \<Rightarrow> int option \<Rightarrow>
   peer \<Rightarrow> (client_error + string) \<times> peer" where
  "sync_publish other ou pl queue ex rk hs prio ma =
     call_of other ou (publish_call pl queue ex rk hs prio ma) (\<lambda>meta _. Inr (publish_result other meta))"

text \<open>The calls that return nothing.\<close>

definition sync_do :: "(json \<Rightarrow> string) \<Rightarrow> outside \<Rightarrow> call \<Rightarrow> peer \<Rightarrow> (client_error + unit) \<times> peer" where
  "sync_do other ou k = call_of other ou k (\<lambda>_ _. Inr ())"

type_synonym 'a sync = "peer \<Rightarrow> (client_error + 'a) \<times> peer"

definition sync_ack :: "(json \<Rightarrow> string) \<Rightarrow> outside \<Rightarrow> string \<Rightarrow> unit sync" where
  "sync_ack other ou k = sync_do other ou (ack_call k)"

definition sync_nack :: "(json \<Rightarrow> string) \<Rightarrow> outside \<Rightarrow> string \<Rightarrow> bool \<Rightarrow> unit sync" where
  "sync_nack other ou k requeue = sync_do other ou (nack_call k requeue)"

definition sync_qos :: "(json \<Rightarrow> string) \<Rightarrow> outside \<Rightarrow> int \<Rightarrow> string option \<Rightarrow> unit sync" where
  "sync_qos other ou prefetch c = sync_do other ou (qos_call prefetch c)"

definition sync_dlq_requeue :: "(json \<Rightarrow> string) \<Rightarrow> outside \<Rightarrow> string \<Rightarrow> string \<Rightarrow> unit sync" where
  "sync_dlq_requeue other ou queue k = sync_do other ou (dlq_requeue_call queue k)"

definition sync_declare_queue :: "(json \<Rightarrow> string) \<Rightarrow> outside \<Rightarrow> string \<Rightarrow> dict \<Rightarrow> unit sync" where
  "sync_declare_queue other ou n kwargs = sync_do other ou (declare_queue_call n kwargs)"

definition sync_declare_exchange :: "(json \<Rightarrow> string) \<Rightarrow> outside \<Rightarrow> string \<Rightarrow> string \<Rightarrow> unit sync" where
  "sync_declare_exchange other ou n ty = sync_do other ou (declare_exchange_call n ty)"

definition sync_bind :: "(json \<Rightarrow> string) \<Rightarrow> outside \<Rightarrow> string \<Rightarrow> string \<Rightarrow> string \<Rightarrow> unit sync" where
  "sync_bind other ou ex queue rk = sync_do other ou (bind_call ex queue rk)"

text \<open>The calls that read their reply.\<close>

definition sync_ping :: "(json \<Rightarrow> string) \<Rightarrow> outside \<Rightarrow> bool sync" where
  "sync_ping other ou = call_of other ou ping_call (\<lambda>meta _. Inr (ping_result meta))"

definition sync_publish_channel :: "(json \<Rightarrow> string) \<Rightarrow> outside \<Rightarrow> string \<Rightarrow> bytes \<Rightarrow> int sync" where
  "sync_publish_channel other ou ch pl = call_of other ou (publish_channel_call ch pl) (\<lambda>meta _. raised (publish_channel_result meta))"

definition sync_stats :: "(json \<Rightarrow> string) \<Rightarrow> outside \<Rightarrow> dict sync" where
  "sync_stats other ou = call_of other ou stats_call (\<lambda>meta _. Inr (report_result meta))"

definition sync_queue_info :: "(json \<Rightarrow> string) \<Rightarrow> outside \<Rightarrow> string \<Rightarrow> dict sync" where
  "sync_queue_info other ou n = call_of other ou (queue_info_call n) (\<lambda>meta _. Inr (report_result meta))"

definition sync_dlq_info :: "(json \<Rightarrow> string) \<Rightarrow> outside \<Rightarrow> string \<Rightarrow> dict sync" where
  "sync_dlq_info other ou queue = call_of other ou (dlq_info_call queue) (\<lambda>meta _. Inr (report_result meta))"

definition sync_list_queues :: "(json \<Rightarrow> string) \<Rightarrow> outside \<Rightarrow> json list sync" where
  "sync_list_queues other ou = call_of other ou list_queues_call (\<lambda>meta _. raised (rows_result ''queues'' meta))"

definition sync_list_consumers :: "(json \<Rightarrow> string) \<Rightarrow> outside \<Rightarrow> json list sync" where
  "sync_list_consumers other ou = call_of other ou list_consumers_call (\<lambda>meta _. raised (rows_result ''consumers'' meta))"

definition sync_list_channels :: "(json \<Rightarrow> string) \<Rightarrow> outside \<Rightarrow> json list sync" where
  "sync_list_channels other ou = call_of other ou list_channels_call (\<lambda>meta _. raised (rows_result ''channels'' meta))"

section \<open>Waiting for a delivery\<close>

text \<open>The event loop of the thread, as far as \<open>consume\<close> goes: the tasks that are ready, in the order in which
  they run (\<open>sl_ready\<close>), the coroutines that wait for the reply to their \<open>CONSUME\<close> (\<open>sl_requests\<close>) or in
  \<open>deliveries.get()\<close> (\<open>sl_getters\<close>, in the order in which they came to wait), the results of those that have
  ended, and the calls whose callers have timed out. A call is known by its number; with it stands the queue it
  was made for.\<close>

datatype task = Start_consume nat string int | Reply_read nat string "client_error + dict" | Woken nat string

record sync_loop =
  sl_async :: async_broker
  sl_client :: client
  sl_ready :: "task list"
  sl_requests :: "(nat \<times> string \<times> call) list"
  sl_getters :: "(nat \<times> string) list"
  sl_results :: "(nat \<times> (client_error + received)) list"
  sl_gone :: "nat list"
  sl_next :: nat

definition new_loop :: "async_broker \<Rightarrow> client \<Rightarrow> sync_loop" where
  "new_loop ab c =
     \<lparr>sl_async = ab, sl_client = c, sl_ready = [], sl_requests = [], sl_getters = [], sl_results = [], sl_gone = [],
      sl_next = 0\<rparr>"

text \<open>\<open>run_coroutine_threadsafe\<close>: the coroutine will have its first step when the ready tasks before it have run.\<close>

definition call_start :: "string \<Rightarrow> int \<Rightarrow> sync_loop \<Rightarrow> nat \<times> sync_loop" where
  "call_start queue prefetch l =
     (sl_next l, l\<lparr>sl_ready := sl_ready l @ [Start_consume (sl_next l) queue prefetch], sl_next := Suc (sl_next l)\<rparr>)"

text \<open>\<open>await deliveries.get()\<close> from the point where it tests for an item, and the return of \<open>consume\<close>: a coroutine
  that finds no item waits behind those that wait already, also when it has been woken.\<close>

definition take_or_wait :: "(json \<Rightarrow> string) \<Rightarrow> nat \<Rightarrow> string \<Rightarrow> sync_loop \<Rightarrow> sync_loop" where
  "take_or_wait other i queue l =
     (case consume_result other queue (sl_client l) of
        (None, c) \<Rightarrow> l\<lparr>sl_getters := sl_getters l @ [(i, queue)]\<rparr>
      | (Some r, c) \<Rightarrow> l\<lparr>sl_client := c, sl_results := sl_results l @ [(i, raised r)]\<rparr>)"

text \<open>One step of the coroutine of \<open>consume\<close>, up to the next point where it waits: from its start, from the
  reply to its \<open>CONSUME\<close>, and from the wake-up by a delivery.\<close>

fun run_task :: "(json \<Rightarrow> string) \<Rightarrow> task \<Rightarrow> sync_loop \<Rightarrow> sync_loop" where
  "run_task other (Start_consume i queue prefetch) l =
     (case consume_call queue prefetch (sl_async l) of
        None \<Rightarrow> take_or_wait other i queue l
      | Some k \<Rightarrow> l\<lparr>sl_requests := sl_requests l @ [(i, queue, k)]\<rparr>)"
| "run_task other (Reply_read i queue r) l =
     (case r of
        Inl err \<Rightarrow> l\<lparr>sl_results := sl_results l @ [(i, Inl err)]\<rparr>
      | Inr meta \<Rightarrow>
          (case consume_registered other queue meta (sl_async l) of
             Inl err \<Rightarrow> l\<lparr>sl_results := sl_results l @ [(i, Inl (Raised err))]\<rparr>
           | Inr ab \<Rightarrow> take_or_wait other i queue (l\<lparr>sl_async := ab\<rparr>)))"
| "run_task other (Woken i queue) l = take_or_wait other i queue l"

definition run_next :: "(json \<Rightarrow> string) \<Rightarrow> sync_loop \<Rightarrow> sync_loop" where
  "run_next other l = (case sl_ready l of [] \<Rightarrow> l | t # ts \<Rightarrow> run_task other t (l\<lparr>sl_ready := ts\<rparr>))"

text \<open>\<open>request\<close> returns or raises for a coroutine that waits for it.\<close>

definition reply_arrives :: "nat \<Rightarrow> client_error + dict \<Rightarrow> sync_loop \<Rightarrow> sync_loop" where
  "reply_arrives i r l =
     (case map_of (sl_requests l) i of
        None \<Rightarrow> l
      | Some (queue, _) \<Rightarrow>
          l\<lparr>sl_requests := filter (\<lambda>(j, _). j \<noteq> i) (sl_requests l), sl_ready := sl_ready l @ [Reply_read i queue r]\<rparr>)"

text \<open>\<open>deliveries.put\<close> adds the item and makes the first waiting coroutine ready; which task takes the item is
  decided when they run.\<close>

definition wake_next :: "sync_loop \<Rightarrow> sync_loop" where
  "wake_next l =
     (case sl_getters l of
        [] \<Rightarrow> l
      | (i, queue) # gs \<Rightarrow> l\<lparr>sl_getters := gs, sl_ready := sl_ready l @ [Woken i queue]\<rparr>)"

definition event_arrives :: "dict \<times> bytes \<Rightarrow> sync_loop \<Rightarrow> sync_loop" where
  "event_arrives ev l =
     (let l' = l\<lparr>sl_client := on_event (fst ev) (snd ev) (sl_client l)\<rparr>
      in if jget ''event'' (fst ev) = JStr ''DELIVER'' then wake_next l' else l')"

text \<open>\<open>fut.result(timeout)\<close> in the thread of the caller: it raises when the time is over and there is no result,
  and leaves the coroutine as it is.\<close>

definition call_times_out :: "nat \<Rightarrow> sync_loop \<Rightarrow> sync_loop" where
  "call_times_out i l =
     (if i < sl_next l \<and> i \<notin> fst ` set (sl_results l) then l\<lparr>sl_gone := i # sl_gone l\<rparr> else l)"



datatype loop_action =
    Call string int | Run | Reply nat "client_error + dict" | Arrival "dict \<times> bytes" | Time_out nat

fun loop_act :: "(json \<Rightarrow> string) \<Rightarrow> loop_action \<Rightarrow> sync_loop \<Rightarrow> sync_loop" where
  "loop_act other (Call queue prefetch) l = snd (call_start queue prefetch l)"
| "loop_act other Run l = run_next other l"
| "loop_act other (Reply i r) l = reply_arrives i r l"
| "loop_act other (Arrival ev) l = event_arrives ev l"
| "loop_act other (Time_out i) l = call_times_out i l"



section \<open>The invariant of the loop\<close>















section \<open>What a waiting call gets\<close>



















text \<open>Without the first step of the coroutine in front of the next arrival the order is another one: the call takes
  the delivery for which the waiting coroutine has been woken, and this one waits again
  (\<open>consume_overtakes\<close> below).

  The caller of the first \<open>consume\<close> gives up before its delivery arrives, and calls again.\<close>

definition demo_delivery :: "string \<Rightarrow> string \<Rightarrow> dict \<times> bytes" where
  "demo_delivery q k =
     ([(''event'', JStr ''DELIVER''), (''message_id'', JStr k), (''queue'', JStr q), (''attempts'', JInt 1)], [1])"

definition demo_registered :: dict where
  "demo_registered = [(''ok'', JBool True), (''consumer_id'', JStr ''c1'')]"

definition demo_waiting :: sync_loop where
  "demo_waiting = fold (loop_act demo_str)
     [Call ''jobs'' 1, Run, Reply 0 (Inr demo_registered), Run, Time_out 0]
     (new_loop (new_async_broker None None None) (connect_client (new_client 100)))"



lemma consume_overtakes:
  "let l = fold (loop_act demo_str) [Call ''jobs'' 1, Arrival (demo_delivery ''jobs'' ''m1''), Run, Run] demo_waiting in
   map fst (sl_results l) = [1] \<and> sl_getters l = [(0, ''jobs'')] \<and> cl_deliveries (sl_client l) = []"
  by code_simp

end
