(* ===== verification/Kombu.thy ===== *)
theory Kombu
  imports SyncClient
begin

text \<open>
  \<open>kombu_transport/transport.py\<close>: what the Kombu transport does with the broker. Kombu's own virtual channel is
  not modelled: what it hands over (the connection URL, the table of delivered messages) is an
  argument, and the calls of \<open>super()\<close> are left out. The calls to the broker are those of \<open>SyncClient\<close>.
\<close>

section \<open>The connection\<close>

record conn_info =
  ci_hostname :: "string option"
  ci_port :: json
  ci_userid :: "string option"
  ci_password :: "string option"
  ci_ssl :: json

definition json_or :: "json \<Rightarrow> json \<Rightarrow> json" where
  "json_or a b = (if truthy a then a else b)"

definition open_args :: "conn_info \<Rightarrow> py_error + broker_args" where
  "open_args info =
     (let host = or_else (ci_hostname info) ''127.0.0.1'';
          pw = name_arg (ci_password info);
          user = name_arg (ci_userid info);
          token = (if user \<noteq> None \<and> pw = None then user else pw);
          username = (if user \<noteq> None \<and> pw = None then None else user);
          opts = (case ci_ssl info of JObj d \<Rightarrow> d | _ \<Rightarrow> []);
          is_dict = (case ci_ssl info of JObj d \<Rightarrow> True | _ \<Rightarrow> False)
      in case py_int (json_or (ci_port info) (JInt 6380)) of
           Inl err \<Rightarrow> Inl err
         | Inr port \<Rightarrow>
             Inr \<lparr>ba_host = host, ba_port = port,
                  ba_token = (if username = None then token else None),
                  ba_username = username,
                  ba_password = (if username = None then None else ci_password info),
                  ba_ssl = (truthy (ci_ssl info) \<or> is_dict),
                  ba_cafile = json_or (jget ''ca_certs'' opts) (json_or (jget ''cafile'' opts) (JStr [])),
                  ba_certfile = json_or (jget ''certfile'' opts) (JStr []),
                  ba_keyfile = json_or (jget ''keyfile'' opts) (JStr []),
                  ba_insecure = (is_dict \<and> jget ''cert_reqs'' opts = JStr ''CERT_NONE''), ba_server_hostname = None\<rparr>)"

section \<open>Messages\<close>

text \<open>The arguments \<open>_put\<close> gives to \<open>publish\<close>.\<close>

definition put_body :: "(json \<Rightarrow> string) \<Rightarrow> outside \<Rightarrow> bytes \<Rightarrow> string \<Rightarrow> peer \<Rightarrow> (client_error + string) \<times> peer" where
  "put_body other ou pl queue = sync_publish other ou pl (Some queue) None [] None 0 None"


text \<open>\<open>_put\<close>; \<open>dumps\<close> is Kombu's, with the encoding to UTF-8.\<close>

definition kombu_put :: "(dict \<Rightarrow> bytes) \<Rightarrow> (json \<Rightarrow> string) \<Rightarrow> outside \<Rightarrow> string \<Rightarrow> dict \<Rightarrow> peer \<Rightarrow> (client_error + string) \<times> peer" where
  "kombu_put dumps other ou queue message = put_body other ou (dumps message) queue"

definition headers_of :: "dict \<Rightarrow> json" where
  "headers_of d = (case map_of d ''headers'' of None \<Rightarrow> JObj [] | Some v \<Rightarrow> v)"

text \<open>The end of \<open>_get\<close>: \<open>headers = decoded.setdefault("headers", {})\<close>, and the id of the broker goes into it.\<close>

definition tag_message :: "string \<Rightarrow> json \<Rightarrow> py_error + dict" where
  "tag_message mid decoded =
     (case decoded of
        JObj d \<Rightarrow>
          (case headers_of d of
             JObj hs \<Rightarrow> Inr (dset ''headers'' (JObj (dset ''x-oneopen-id'' (JStr mid) hs)) d)
           | _ \<Rightarrow> Inl (TypeError ''object does not support item assignment''))
      | _ \<Rightarrow> Inl (TypeError ''no setdefault''))"

text \<open>\<open>_get\<close>; \<open>None\<close> is \<open>Empty\<close>, and \<open>loads\<close> gives \<open>None\<close> where decoding raises.\<close>

definition kombu_get :: "(bytes \<Rightarrow> json option) \<Rightarrow> (json \<Rightarrow> string) \<Rightarrow> outside \<Rightarrow> string \<Rightarrow> peer \<Rightarrow> (client_error + dict option) \<times> peer" where
  "kombu_get loads other ou queue s =
     (case sync_get other ou queue s of
        (Inl err, s') \<Rightarrow> (Inl err, s')
      | (Inr None, s') \<Rightarrow> (Inr None, s')
      | (Inr (Some got), s') \<Rightarrow>
          (case loads (rm_payload got) of
             None \<Rightarrow> (Inl (Raised (ValueError ''not json'')), s')
           | Some decoded \<Rightarrow>
               (case tag_message (rm_id got) decoded of
                  Inl err \<Rightarrow> (Inl (Raised err), s') | Inr d \<Rightarrow> (Inr (Some d), s'))))"

definition kombu_size :: "(json \<Rightarrow> string) \<Rightarrow> outside \<Rightarrow> string \<Rightarrow> peer \<Rightarrow> (client_error + int) \<times> peer" where
  "kombu_size other ou queue s =
     (case call_of other ou (queue_info_call queue) (\<lambda>meta _. Inr (report_result meta)) s of
        (Inl err, s') \<Rightarrow> (Inr 0, s')
      | (Inr info, s') \<Rightarrow> (raised (int_arg ''ready'' 0 info), s'))"

text \<open>\<open>_purge\<close>, which loops until a \<open>get\<close> finds nothing; \<open>fuel\<close> bounds the rounds, and \<open>None\<close> says that it was
  not enough.\<close>

fun kombu_purge :: "nat \<Rightarrow> (json \<Rightarrow> string) \<Rightarrow> outside \<Rightarrow> string \<Rightarrow> int \<Rightarrow> peer \<Rightarrow> (client_error + int) option \<times> peer" where
  "kombu_purge 0 other ou queue n s = (None, s)"
| "kombu_purge (Suc fuel) other ou queue n s =
     (case sync_get other ou queue s of
        (Inl err, s1) \<Rightarrow> (Some (Inl err), s1)
      | (Inr None, s1) \<Rightarrow> (Some (Inr n), s1)
      | (Inr (Some got), s1) \<Rightarrow>
          (case sync_do other ou (ack_call (rm_id got)) s1 of
             (Inl err, s2) \<Rightarrow> (Some (Inl err), s2)
           | (Inr _, s2) \<Rightarrow> kombu_purge fuel other ou queue (n + 1) s2))"

section \<open>Declarations and settlement\<close>

text \<open>The calls whose exceptions the channel swallows.\<close>

definition exchange_kind :: "string \<Rightarrow> string" where
  "exchange_kind ty = (if ty = ''direct'' \<or> ty = ''fanout'' then ty else ''direct'')"

definition kombu_queue_declare :: "(json \<Rightarrow> string) \<Rightarrow> outside \<Rightarrow> string \<Rightarrow> peer \<Rightarrow> (client_error + unit) \<times> peer" where
  "kombu_queue_declare other ou n = sync_do other ou (declare_queue_call n [])"

definition kombu_exchange_declare :: "(json \<Rightarrow> string) \<Rightarrow> outside \<Rightarrow> string \<Rightarrow> string \<Rightarrow> peer \<Rightarrow> peer" where
  "kombu_exchange_declare other ou n ty s = snd (sync_do other ou (declare_exchange_call n (exchange_kind ty)) s)"

definition kombu_queue_bind :: "(json \<Rightarrow> string) \<Rightarrow> outside \<Rightarrow> string \<Rightarrow> string \<Rightarrow> string \<Rightarrow> peer \<Rightarrow> peer" where
  "kombu_queue_bind other ou queue ex rk s = snd (sync_do other ou (bind_call ex queue rk) s)"

text \<open>\<open>_oneopen_id\<close>: \<open>table\<close> gives the headers of the messages Kombu holds, by delivery tag. The id in a header is
  a string, as \<open>_get\<close> has put it there.\<close>

definition oneopen_id :: "(int \<times> json) list \<Rightarrow> int \<Rightarrow> json" where
  "oneopen_id table tag =
     (case map_of table tag of
        Some (JObj hs) \<Rightarrow> jget ''x-oneopen-id'' hs
      | _ \<Rightarrow> JNull)"

definition kombu_ack :: "(json \<Rightarrow> string) \<Rightarrow> outside \<Rightarrow> (int \<times> json) list \<Rightarrow> int \<Rightarrow> peer \<Rightarrow> peer" where
  "kombu_ack other ou table tag s =
     (case oneopen_id table tag of
        JStr k \<Rightarrow> if k = [] then s else snd (sync_do other ou (ack_call k) s)
      | _ \<Rightarrow> s)"

definition kombu_reject :: "(json \<Rightarrow> string) \<Rightarrow> outside \<Rightarrow> (int \<times> json) list \<Rightarrow> int \<Rightarrow> bool \<Rightarrow> peer \<Rightarrow> peer" where
  "kombu_reject other ou table tag requeue s =
     (case oneopen_id table tag of
        JStr k \<Rightarrow> if k = [] then s else snd (sync_do other ou (nack_call k requeue) s)
      | _ \<Rightarrow> s)"

definition kombu_qos :: "(json \<Rightarrow> string) \<Rightarrow> outside \<Rightarrow> json \<Rightarrow> peer \<Rightarrow> peer" where
  "kombu_qos other ou wanted s =
     (case py_int (json_or wanted (JInt 0)) of
        Inl err \<Rightarrow> s
      | Inr n \<Rightarrow> snd (sync_do other ou (qos_call n None) s))"

section \<open>What the transport relies on\<close>

text \<open>The credentials of a connection URL: a user name with a password authenticates with both, a
  user name or a password alone is sent as a token, and a URL without either does not authenticate.\<close>

lemma url_credentials:
  "case open_args info of
     Inl err \<Rightarrow> True
   | Inr a \<Rightarrow>
       auth_call (new_async_broker (ba_token a) (ba_username a) (ba_password a)) =
         (case (name_arg (ci_userid info), name_arg (ci_password info)) of
            (Some u, Some pw) \<Rightarrow> Some (''AUTH'', [(''username'', JStr u), (''password'', JStr pw)], [])
          | (Some u, None) \<Rightarrow> Some (''AUTH'', [(''token'', JStr u)], [])
          | (None, Some pw) \<Rightarrow> Some (''AUTH'', [(''token'', JStr pw)], [])
          | (None, None) \<Rightarrow> None)"
  by (auto simp: open_args_def Let_def auth_call_def new_async_broker_def name_arg_def given_def or_else_def split: sum.splits option.splits if_splits)

definition demo_two :: peer where
  "demo_two = snd (put_body demo_str demo_outside [2] ''work''
     (snd (put_body demo_str (demo_outside\<lparr>ou_message := \<lambda>_. (''m8'', 4)\<rparr>) [1] ''work''
       (new_context ''x'', demo_work\<lparr>br_net := [(''x'', \<lparr>cn_id = ''x'', cn_closed = False, cn_limit = 100, cn_outbound = []\<rparr>)]\<rparr>))))"

text \<open>An example: a purge of Kombu does not empty the queue. \<open>GET\<close> registers the client as a consumer of the queue for good, so
  the \<open>ACK\<close> of the first message makes the broker push the next ones to the client, which does not expect
  them. Of two messages the purge counts one; the other is in flight, in a delivery no one will settle, and
  the queue looks empty.\<close>

lemma purge_leaves_messages:
  "case kombu_purge 5 demo_str demo_outside ''work'' 0 demo_two of (r, s) \<Rightarrow>
     r = Some (Inr 1) \<and> fst (kombu_size demo_str demo_outside ''work'' s) = Inr 0 \<and>
     map_option (\<lambda>q. map fst (inflight q)) (get_queue ''work'' (br_engine (snd s))) = Some [''m9''] \<and>
     map_option (\<lambda>c. length (cn_outbound c)) (map_of (br_net (snd s)) ''x'') = Some 1"
  by code_simp

text \<open>C40. Kombu settles the message it got: a message that \<open>_get\<close> returns is the decoded payload of a message the
  broker has reserved, unchanged but for the header with the id of the broker, and as long as Kombu holds
  its headers under a delivery tag, an acknowledgement or rejection of the tag is one of exactly this
  message.\<close>

theorem kombu_settles_got:
  assumes "kombu_get loads other ou queue s = (Inr (Some d'), s')" "map_of table tag = Some (jget ''headers'' d')"
  shows "\<exists>got d. fst (sync_get other ou queue s) = Inr (Some got) \<and> loads (rm_payload got) = Some (JObj d) \<and>
    (\<forall>k. k \<noteq> ''headers'' \<longrightarrow> map_of d' k = map_of d k) \<and>
    (\<forall>hs k. headers_of d = JObj hs \<longrightarrow> k \<noteq> ''x-oneopen-id'' \<longrightarrow> (\<exists>hs'. headers_of d' = JObj hs' \<and> map_of hs' k = map_of hs k)) \<and>
    (rm_id got \<noteq> [] \<longrightarrow>
       kombu_ack other ou table tag t = snd (sync_do other ou (ack_call (rm_id got)) t) \<and>
       kombu_reject other ou table tag requeue t = snd (sync_do other ou (nack_call (rm_id got) requeue) t))"
proof -
  obtain got s1 where g: "sync_get other ou queue s = (Inr (Some got), s1)"
    using assms(1) by (auto simp: kombu_get_def split: prod.splits sum.splits option.splits)
  obtain j where j: "loads (rm_payload got) = Some j" "tag_message (rm_id got) j = Inr d'"
    using assms(1) g by (auto simp: kombu_get_def split: sum.splits option.splits)
  obtain d hs where d: "j = JObj d" "headers_of d = JObj hs"
    "d' = dset ''headers'' (JObj (dset ''x-oneopen-id'' (JStr (rm_id got)) hs)) d"
    using j(2) by (auto simp: tag_message_def split: json.splits)
  have "oneopen_id table tag = JStr (rm_id got)"
    using assms(2) by (simp add: oneopen_id_def d(3) jget_def)
  then show ?thesis
    using g j(1) d by (intro exI [of _ got] exI [of _ d]) (simp add: kombu_ack_def kombu_reject_def headers_of_def)
qed

definition demo_body :: "bytes \<Rightarrow> json option" where
  "demo_body bs = Some (JObj [(''body'', JStr ''b'')])"

theorem kombu_settles_got_witness:
  "\<exists>d'. fst (kombu_get demo_body demo_str demo_outside ''work'' demo_two) = Inr (Some d') \<and> map_of d' ''body'' = Some (JStr ''b'') \<and>
     kombu_ack demo_str demo_outside [(1, jget ''headers'' d')] 1 demo_two =
       snd (sync_do demo_str demo_outside (ack_call ''m8'') demo_two)"
proof -
  have "case fst (kombu_get demo_body demo_str demo_outside ''work'' demo_two) of Inr (Some d) \<Rightarrow> True | _ \<Rightarrow> False" by code_simp
  then obtain d' s' where d: "kombu_get demo_body demo_str demo_outside ''work'' demo_two = (Inr (Some d'), s')"
    by (cases "kombu_get demo_body demo_str demo_outside ''work'' demo_two") (auto split: sum.splits option.splits)
  have got: "map_option rm_id (case fst (sync_get demo_str demo_outside ''work'' demo_two) of Inr r \<Rightarrow> r | Inl _ \<Rightarrow> None) = Some ''m8''"
    by code_simp
  obtain got d0 where g: "fst (sync_get demo_str demo_outside ''work'' demo_two) = Inr (Some got)" "demo_body (rm_payload got) = Some (JObj d0)"
    "\<forall>k. k \<noteq> ''headers'' \<longrightarrow> map_of d' k = map_of d0 k"
    "rm_id got \<noteq> [] \<longrightarrow> kombu_ack demo_str demo_outside [(1, jget ''headers'' d')] 1 demo_two =
       snd (sync_do demo_str demo_outside (ack_call (rm_id got)) demo_two)"
    using kombu_settles_got [OF d, where table = "[(1, jget ''headers'' d')]" and tag = 1 and t = demo_two and requeue = True, simplified]
    by (elim exE conjE) blast
  have "rm_id got = ''m8''" using got g(1) by simp
  moreover have "map_of d' ''body'' = Some (JStr ''b'')" using g(2,3) by (auto simp: demo_body_def)
  ultimately show ?thesis using d g(4) by simp
qed

end
