(* ===== verification/Config.thy ===== *)
theory Config
  imports Access
begin

text \<open>
  \<open>broker/config.py\<close> and the start command of \<open>cli/main.py\<close>: the configuration from the defaults, the
  YAML file, the environment and the command line.

  The dataclasses do not check the types of their fields, so an instance is the dictionary of its
  fields, with values as YAML has them (its mappings with string keys), and a class is its fields with
  their defaults, the fields without one, and its \<open>__post_init__\<close>. What \<open>yaml.safe_load\<close> has made of the
  file is an argument, and the environment is a function. \<open>float\<close> reads decimal numerals here
  (not \<open>inf\<close> and \<open>nan\<close>).
\<close>

section \<open>Errors and instances\<close>

datatype config_error = Config_value string | Config_type string | Config_attribute string

fun and_then :: "'e + 'a \<Rightarrow> ('a \<Rightarrow> 'e + 'b) \<Rightarrow> 'e + 'b" where
  "and_then (Inl err) f = Inl err"
| "and_then (Inr x) f = f x"

lemma and_then_Inr: "and_then m f = Inr y \<longleftrightarrow> (\<exists>x. m = Inr x \<and> f x = Inr y)"
  by (cases m) auto

fun each :: "('a \<Rightarrow> 'e + 'b) \<Rightarrow> 'a list \<Rightarrow> 'e + 'b list" where
  "each f [] = Inr []"
| "each f (x # xs) = and_then (f x) (\<lambda>y. and_then (each f xs) (\<lambda>ys. Inr (y # ys)))"

record conf_class =
  cc_fields :: dict
  cc_required :: "string list"
  cc_check :: "dict \<Rightarrow> config_error option"

text \<open>\<open>cls(**kwargs)\<close> for keywords that are fields of the class, and \<open>dataclasses.replace\<close>.\<close>

definition construct :: "conf_class \<Rightarrow> dict \<Rightarrow> config_error + dict" where
  "construct cls kwargs =
     (if \<not> set (cc_required cls) \<subseteq> dkeys kwargs then Inl (Config_type ''missing required argument'')
      else
        (let obj = map (\<lambda>(f, d). (f, case map_of kwargs f of None \<Rightarrow> d | Some v \<Rightarrow> v)) (cc_fields cls)
         in case cc_check cls obj of None \<Rightarrow> Inr obj | Some err \<Rightarrow> Inl err))"

definition replace_field :: "conf_class \<Rightarrow> string \<Rightarrow> json \<Rightarrow> dict \<Rightarrow> config_error + dict" where
  "replace_field cls f v obj =
     (if f \<notin> dkeys (cc_fields cls) then Inl (Config_type ''unexpected keyword argument'')
      else construct cls (dset f v obj))"

text \<open>\<open>v not in {...}\<close> for a set of strings; a list or mapping is not hashable.\<close>

definition one_of :: "string list \<Rightarrow> string \<Rightarrow> json \<Rightarrow> config_error option" where
  "one_of allowed msg v =
     (case v of
        JStr s \<Rightarrow> if s \<in> set allowed then None else Some (Config_value msg)
      | JList _ \<Rightarrow> Some (Config_type ''unhashable type'')
      | JObj _ \<Rightarrow> Some (Config_type ''unhashable type'')
      | _ \<Rightarrow> Some (Config_value msg))"

section \<open>The classes\<close>

definition DEFAULT_PORT :: int where "DEFAULT_PORT = 6380"
definition DEFAULT_MAX_FRAME_SIZE :: int where "DEFAULT_MAX_FRAME_SIZE = 16777216"

definition plain_class :: "dict \<Rightarrow> conf_class" where
  "plain_class fs = \<lparr>cc_fields = fs, cc_required = [], cc_check = \<lambda>_. None\<rparr>"

definition server_class :: conf_class where
  "server_class = plain_class [(''host'', JStr ''127.0.0.1''), (''port'', JInt DEFAULT_PORT)]"

definition persistence_class :: conf_class where
  "persistence_class =
     \<lparr>cc_fields = [(''directory'', JStr ''./data''), (''fsync'', JStr ''everysec''), (''snapshot_interval'', JInt 300),
                   (''snapshot_on_shutdown'', JBool True)],
      cc_required = [],
      cc_check = \<lambda>obj. one_of [''always'', ''everysec'', ''none'']
                         ''persistence.fsync must be always, everysec, or none'' (jget ''fsync'' obj)\<rparr>"

definition queues_class :: conf_class where
  "queues_class =
     \<lparr>cc_fields = [(''default_visibility_timeout'', JFloat 300), (''default_max_attempts'', JInt 3),
                   (''default_max_length'', JNull), (''retry_backoff'', JStr ''exponential''),
                   (''retry_base_delay'', JFloat 1), (''recent_ack_limit'', JInt 100000)],
      cc_required = [],
      cc_check = \<lambda>obj. one_of [''fixed'', ''exponential''] ''queues.retry_backoff must be fixed or exponential''
                         (jget ''retry_backoff'' obj)\<rparr>"

definition network_class :: conf_class where
  "network_class =
     plain_class [(''max_connections'', JInt 10000), (''max_frame_size'', JInt DEFAULT_MAX_FRAME_SIZE),
                  (''heartbeat_interval'', JFloat 30), (''outbound_buffer'', JInt 1000), (''idle_timeout'', JFloat 120)]"

definition pubsub_class :: conf_class where
  "pubsub_class = plain_class [(''subscriber_buffer'', JInt 1000)]"

definition logging_class :: conf_class where
  "logging_class = plain_class [(''level'', JStr ''INFO'')]"

definition tls_class :: conf_class where
  "tls_class =
     plain_class [(''enabled'', JBool False), (''certfile'', JStr []), (''keyfile'', JStr []), (''cafile'', JStr []),
                  (''require_client_cert'', JBool False)]"

definition user_class :: conf_class where
  "user_class =
     \<lparr>cc_fields = [(''name'', JNull), (''token'', JStr []), (''password'', JStr []), (''role'', JStr ''admin'')],
      cc_required = [''name''],
      cc_check = \<lambda>obj.
        case one_of ROLES ''unknown role'' (jget ''role'' obj) of
          Some err \<Rightarrow> Some err
        | None \<Rightarrow> if \<not> truthy (jget ''token'' obj) \<and> \<not> truthy (jget ''password'' obj)
                  then Some (Config_value ''user needs a token or password'') else None\<rparr>"

definition section_classes :: "(string \<times> conf_class) list" where
  "section_classes =
     [(''server'', server_class), (''persistence'', persistence_class), (''queues'', queues_class),
      (''network'', network_class), (''pubsub'', pubsub_class), (''logging'', logging_class)]"

text \<open>\<open>BrokerConfig\<close>, with \<open>SecurityConfig\<close> and \<open>AuthConfig\<close> in place: the six plain sections by name, the TLS
  section, and the two fields of the section on authentication.\<close>

record broker_config =
  bc_sections :: "(string \<times> dict) list"
  bc_tls :: dict
  bc_auth_enabled :: json
  bc_users :: "json list"

section \<open>The file\<close>

definition section_of :: "dict \<Rightarrow> string \<Rightarrow> config_error + dict" where
  "section_of data n =
     (if \<not> truthy (jget n data) then Inr []
      else (case jget n data of JObj d \<Rightarrow> Inr d | _ \<Rightarrow> Inl (Config_value ''config section must be a mapping'')))"

definition apply_mapping :: "conf_class \<Rightarrow> dict \<Rightarrow> config_error + dict" where
  "apply_mapping cls raw = construct cls (filter (\<lambda>(k, v). k \<in> dkeys (cc_fields cls)) raw)"

text \<open>\<open>(v or {}).items()\<close> and the loop \<open>for x in v or []\<close>.\<close>

definition mapping_or :: "json \<Rightarrow> config_error + dict" where
  "mapping_or v =
     (if \<not> truthy v then Inr [] else (case v of JObj d \<Rightarrow> Inr d | _ \<Rightarrow> Inl (Config_attribute ''no such attribute'')))"

fun items_of :: "json \<Rightarrow> config_error + json list" where
  "items_of (JList xs) = Inr xs"
| "items_of (JStr s) = Inr (map (\<lambda>ch. JStr [ch]) s)"
| "items_of (JObj d) = Inr (map (\<lambda>(k, v). JStr k) d)"
| "items_of _ = Inl (Config_type ''object is not iterable'')"

definition load_user :: "json \<Rightarrow> config_error + json" where
  "load_user item =
     (case item of
        JObj d \<Rightarrow> and_then (apply_mapping user_class d) (\<lambda>u. Inr (JObj u))
      | _ \<Rightarrow> Inl (Config_value ''security.auth.users entries must be mappings''))"

definition load_security :: "dict \<Rightarrow> config_error + dict \<times> json \<times> json list" where
  "load_security raw =
     and_then (mapping_or (jget ''tls'' raw)) (\<lambda>tls_raw.
     and_then (apply_mapping tls_class tls_raw) (\<lambda>tls.
     and_then (mapping_or (jget ''auth'' raw)) (\<lambda>auth_raw.
     and_then (if truthy (jget ''users'' auth_raw) then items_of (jget ''users'' auth_raw) else Inr []) (\<lambda>items.
     and_then (each load_user items) (\<lambda>users.
       Inr (tls, JBool (truthy (jget ''enabled'' auth_raw)), users))))))"

definition load_section :: "dict \<Rightarrow> string \<times> conf_class \<Rightarrow> config_error + string \<times> dict" where
  "load_section data nc =
     (case nc of (n, cls) \<Rightarrow>
        and_then (section_of data n) (\<lambda>raw. and_then (apply_mapping cls raw) (\<lambda>obj. Inr (n, obj))))"

text \<open>\<open>loaded\<close> is what \<open>yaml.safe_load\<close> gives; \<open>None\<close> when there is no file.\<close>

definition load_file :: "json option \<Rightarrow> config_error + broker_config" where
  "load_file loaded =
     and_then
       (case loaded of
          None \<Rightarrow> Inr []
        | Some v \<Rightarrow> if \<not> truthy v then Inr []
                    else (case v of JObj d \<Rightarrow> Inr d | _ \<Rightarrow> Inl (Config_value ''config file must contain a YAML mapping'')))
       (\<lambda>data.
     and_then (each (load_section data) section_classes) (\<lambda>secs.
     and_then (section_of data ''security'') (\<lambda>raw.
     and_then (load_security raw) (\<lambda>(tls, enabled, users).
       Inr \<lparr>bc_sections = secs, bc_tls = tls, bc_auth_enabled = enabled, bc_users = users\<rparr>))))"

section \<open>The environment\<close>

definition is_space :: "char \<Rightarrow> bool" where
  "is_space c \<longleftrightarrow> (of_char c :: nat) \<in> {9, 10, 11, 12, 13, 28, 29, 30, 31, 32}"

definition strip :: "string \<Rightarrow> string" where
  "strip s = rev (dropWhile is_space (rev (dropWhile is_space s)))"

definition truthy_env :: "string \<Rightarrow> bool" where
  "truthy_env v \<longleftrightarrow> lower (strip v) \<in> {''1'', ''true'', ''yes'', ''on''}"

text \<open>\<open>int\<close> and \<open>float\<close> of a string: white space around, a sign, digits with single underscores between them.\<close>

fun double_underscore :: "string \<Rightarrow> bool" where
  "double_underscore (a # b # s) = (a = CHR ''_'' \<and> b = CHR ''_'' \<or> double_underscore (b # s))"
| "double_underscore _ = False"

definition numeral_of :: "string \<Rightarrow> int option" where
  "numeral_of s =
     (if s = [] \<or> hd s = CHR ''_'' \<or> last s = CHR ''_'' \<or> double_underscore s then None
      else digits (filter (\<lambda>c. c \<noteq> CHR ''_'') s))"

definition split_sign :: "string \<Rightarrow> bool \<times> string" where
  "split_sign s =
     (case s of
        [] \<Rightarrow> (False, [])
      | c # cs \<Rightarrow> if c = CHR ''-'' then (True, cs) else if c = CHR ''+'' then (False, cs) else (False, s))"

definition signed_of :: "string \<Rightarrow> int option" where
  "signed_of s = (case split_sign s of (neg, t) \<Rightarrow> map_option (\<lambda>i. if neg then - i else i) (numeral_of t))"

definition int_of_string :: "string \<Rightarrow> int option" where
  "int_of_string s = signed_of (strip s)"

definition float_of_string :: "string \<Rightarrow> real option" where
  "float_of_string s =
     (case split_sign (strip s) of (neg, t) \<Rightarrow>
        let mant = takeWhile (\<lambda>c. c \<noteq> CHR ''e'' \<and> c \<noteq> CHR ''E'') t;
            ex = (case drop (length mant) t of [] \<Rightarrow> Some 0 | _ # es \<Rightarrow> signed_of es);
            ip = takeWhile (\<lambda>c. c \<noteq> CHR ''.'') mant;
            fp = drop (length ip + 1) mant;
            part = (\<lambda>p. if p = [] then Some 0 else numeral_of p)
        in if ip = [] \<and> fp = [] then None
           else
             (case (part ip, part fp, ex) of
                (Some i, Some f, Some e) \<Rightarrow>
                  let m = of_int i + of_int f / 10 ^ length (filter (\<lambda>c. c \<noteq> CHR ''_'') fp);
                      r = (if 0 \<le> e then m * 10 ^ nat e else m / 10 ^ nat (- e))
                  in Some (if neg then - r else r)
              | _ \<Rightarrow> None))"

datatype env_conv = As_str | As_int | As_float

fun convert :: "env_conv \<Rightarrow> string \<Rightarrow> config_error + json" where
  "convert As_str s = Inr (JStr s)"
| "convert As_int s = (case int_of_string s of None \<Rightarrow> Inl (Config_value ''invalid literal for int()'') | Some i \<Rightarrow> Inr (JInt i))"
| "convert As_float s = (case float_of_string s of None \<Rightarrow> Inl (Config_value ''could not convert string to float'') | Some r \<Rightarrow> Inr (JFloat r))"

type_synonym env_row = "string \<times> string \<times> string \<times> env_conv"

definition ENV_MAP :: "env_row list" where
  "ENV_MAP =
     [(''ONEOPEN_SERVER_HOST'', ''server'', ''host'', As_str),
      (''ONEOPEN_SERVER_PORT'', ''server'', ''port'', As_int),
      (''ONEOPEN_PERSISTENCE_DIRECTORY'', ''persistence'', ''directory'', As_str),
      (''ONEOPEN_PERSISTENCE_FSYNC'', ''persistence'', ''fsync'', As_str),
      (''ONEOPEN_PERSISTENCE_SNAPSHOT_INTERVAL'', ''persistence'', ''snapshot_interval'', As_int),
      (''ONEOPEN_QUEUES_VISIBILITY_TIMEOUT'', ''queues'', ''default_visibility_timeout'', As_float),
      (''ONEOPEN_QUEUES_MAX_ATTEMPTS'', ''queues'', ''default_max_attempts'', As_int),
      (''ONEOPEN_NETWORK_MAX_FRAME_SIZE'', ''network'', ''max_frame_size'', As_int),
      (''ONEOPEN_NETWORK_MAX_CONNECTIONS'', ''network'', ''max_connections'', As_int),
      (''ONEOPEN_PUBSUB_SUBSCRIBER_BUFFER'', ''pubsub'', ''subscriber_buffer'', As_int),
      (''ONEOPEN_LOG_LEVEL'', ''logging'', ''level'', As_str)]"

type_synonym env = "string \<Rightarrow> string option"
type_synonym sections = "(string \<times> dict) list"

text \<open>\<open>sections[s] = replace(sections[s], **{f: v})\<close>.\<close>

definition set_field :: "string \<Rightarrow> string \<Rightarrow> json \<Rightarrow> sections \<Rightarrow> config_error + sections" where
  "set_field s f v secs =
     (case (map_of section_classes s, map_of secs s) of
        (Some cls, Some obj) \<Rightarrow> and_then (replace_field cls f v obj) (\<lambda>obj'. Inr (dset s obj' secs))
      | _ \<Rightarrow> Inr secs)"

fun env_rows :: "env \<Rightarrow> env_row list \<Rightarrow> sections \<Rightarrow> config_error + sections" where
  "env_rows env [] secs = Inr secs"
| "env_rows env ((n, s, f, conv) # rows) secs =
     (if given (env n)
      then and_then (convert conv (the (env n))) (\<lambda>v. and_then (set_field s f v secs) (\<lambda>secs'. env_rows env rows secs'))
      else env_rows env rows secs)"

definition env_tls :: "env \<Rightarrow> dict \<Rightarrow> dict" where
  "env_tls env tls =
     (let t1 = (if given (env ''ONEOPEN_TLS_ENABLED'')
                then dset ''enabled'' (JBool (truthy_env (the (env ''ONEOPEN_TLS_ENABLED'')))) tls else tls);
          t2 = (if given (env ''ONEOPEN_TLS_CERT'')
                then dset ''enabled'' (JBool True) (dset ''certfile'' (JStr (the (env ''ONEOPEN_TLS_CERT''))) t1) else t1);
          t3 = (if given (env ''ONEOPEN_TLS_KEY'') then dset ''keyfile'' (JStr (the (env ''ONEOPEN_TLS_KEY''))) t2 else t2)
      in if given (env ''ONEOPEN_TLS_CA'') then dset ''cafile'' (JStr (the (env ''ONEOPEN_TLS_CA''))) t3 else t3)"

definition token_user :: "string \<Rightarrow> string \<Rightarrow> json" where
  "token_user n tok =
     JObj [(''name'', JStr n), (''token'', JStr tok), (''password'', JStr []), (''role'', JStr ''admin'')]"

definition env_auth :: "env \<Rightarrow> json \<times> json list \<Rightarrow> json \<times> json list" where
  "env_auth env a =
     (let (enabled, users) = a;
          enabled1 = (if given (env ''ONEOPEN_AUTH_ENABLED'')
                      then JBool (truthy_env (the (env ''ONEOPEN_AUTH_ENABLED''))) else enabled)
      in if given (env ''ONEOPEN_AUTH_TOKEN'')
         then (JBool True, users @ [token_user ''env'' (the (env ''ONEOPEN_AUTH_TOKEN''))])
         else (enabled1, users))"

definition apply_env :: "env \<Rightarrow> broker_config \<Rightarrow> config_error + broker_config" where
  "apply_env env cfg =
     and_then (env_rows env ENV_MAP (bc_sections cfg)) (\<lambda>secs.
       case env_auth env (bc_auth_enabled cfg, bc_users cfg) of
         (enabled, users) \<Rightarrow>
           Inr \<lparr>bc_sections = secs, bc_tls = env_tls env (bc_tls cfg), bc_auth_enabled = enabled, bc_users = users\<rparr>)"

section \<open>The overrides\<close>

text \<open>\<open>s.split(".", n)\<close>.\<close>

fun split_dots :: "nat \<Rightarrow> string \<Rightarrow> string list" where
  "split_dots 0 s = [s]"
| "split_dots (Suc n) s =
     (if CHR ''.'' \<in> set s
      then takeWhile (\<lambda>c. c \<noteq> CHR ''.'') s # split_dots n (tl (dropWhile (\<lambda>c. c \<noteq> CHR ''.'') s))
      else [s])"

definition override_security :: "string list \<Rightarrow> json \<Rightarrow> broker_config \<Rightarrow> config_error + broker_config" where
  "override_security parts v cfg =
     (let field = (if length parts = 3 then parts ! 2 else []) in
      if parts ! 1 = ''tls''
      then (if field \<noteq> [] then and_then (replace_field tls_class field v (bc_tls cfg)) (\<lambda>tls. Inr (cfg\<lparr>bc_tls := tls\<rparr>))
            else Inr cfg)
      else if parts ! 1 = ''auth''
      then (if field = ''enabled'' then Inr (cfg\<lparr>bc_auth_enabled := JBool (truthy v)\<rparr>)
            else if field = ''users''
            then and_then (items_of v) (\<lambda>us. Inr (cfg\<lparr>bc_users := us, bc_auth_enabled := JBool True\<rparr>))
            else Inr cfg)
      else Inr cfg)"

definition override_one :: "string \<Rightarrow> json \<Rightarrow> broker_config \<Rightarrow> config_error + broker_config" where
  "override_one key v cfg =
     (if v = JNull \<or> CHR ''.'' \<notin> set key then Inr cfg
      else
        (let parts = split_dots 2 key; s = parts ! 0 in
         if s = ''security'' then override_security parts v cfg
         else if s \<notin> dkeys (bc_sections cfg) then Inr cfg
         else and_then (set_field s (parts ! 1) v (bc_sections cfg)) (\<lambda>secs. Inr (cfg\<lparr>bc_sections := secs\<rparr>))))"

fun apply_overrides :: "dict \<Rightarrow> broker_config \<Rightarrow> config_error + broker_config" where
  "apply_overrides [] cfg = Inr cfg"
| "apply_overrides ((k, v) # kvs) cfg = and_then (override_one k v cfg) (apply_overrides kvs)"

definition load_config :: "json option \<Rightarrow> env \<Rightarrow> dict \<Rightarrow> config_error + broker_config" where
  "load_config loaded env overrides =
     and_then (load_file loaded) (\<lambda>cfg. and_then (apply_env env cfg) (apply_overrides overrides))"

section \<open>The start command\<close>

text \<open>The arguments of \<open>start\<close> that set the configuration; \<open>None\<close> and the empty string are both false.\<close>

record start_args =
  sa_host :: "string option"
  sa_port :: "int option"
  sa_data_dir :: "string option"
  sa_fsync :: "string option"
  sa_auth_token :: "string option"
  sa_tls_cert :: "string option"
  sa_tls_key :: "string option"
  sa_tls_ca :: "string option"

definition start_overrides :: "start_args \<Rightarrow> dict" where
  "start_overrides a =
     (if given (sa_host a) then [(''server.host'', JStr (the (sa_host a)))] else []) @
     (case sa_port a of None \<Rightarrow> [] | Some p \<Rightarrow> if p = 0 then [] else [(''server.port'', JInt p)]) @
     (if given (sa_data_dir a) then [(''persistence.directory'', JStr (the (sa_data_dir a)))] else []) @
     (if given (sa_fsync a) then [(''persistence.fsync'', JStr (the (sa_fsync a)))] else [])"

definition start_config :: "start_args \<Rightarrow> json option \<Rightarrow> env \<Rightarrow> config_error + broker_config" where
  "start_config a loaded env =
     and_then (load_config loaded env (start_overrides a)) (\<lambda>cfg.
       let cfg1 = (if given (sa_auth_token a)
                   then cfg\<lparr>bc_auth_enabled := JBool True, bc_users := bc_users cfg @ [token_user ''cli'' (the (sa_auth_token a))]\<rparr>
                   else cfg);
           cfg2 = (if given (sa_tls_cert a) \<and> given (sa_tls_key a)
                   then cfg1\<lparr>bc_tls := dset ''keyfile'' (JStr (the (sa_tls_key a)))
                               (dset ''certfile'' (JStr (the (sa_tls_cert a))) (dset ''enabled'' (JBool True) (bc_tls cfg1)))\<rparr>
                   else cfg1)
       in Inr (if given (sa_tls_ca a) then cfg2\<lparr>bc_tls := dset ''cafile'' (JStr (the (sa_tls_ca a))) (bc_tls cfg2)\<rparr> else cfg2))"

section \<open>What a field holds\<close>

definition obj_ok :: "conf_class \<Rightarrow> dict \<Rightarrow> bool" where
  "obj_ok cls obj \<longleftrightarrow> map fst obj = map fst (cc_fields cls) \<and> cc_check cls obj = None"

definition secs_ok :: "sections \<Rightarrow> bool" where
  "secs_ok secs \<longleftrightarrow>
     map fst secs = map fst section_classes \<and>
     (\<forall>s cls. map_of section_classes s = Some cls \<longrightarrow> (\<exists>obj. map_of secs s = Some obj \<and> obj_ok cls obj))"

definition field_of :: "sections \<Rightarrow> string \<Rightarrow> string \<Rightarrow> json" where
  "field_of secs s f = (case map_of secs s of None \<Rightarrow> JNull | Some obj \<Rightarrow> jget f obj)"

lemma map_of_defaults:
  "map_of (map (\<lambda>(f, d). (f, g f d)) fs) f = map_option (g f) (map_of fs f)"
  by (induction fs) auto

lemma construct_field:
  assumes "construct cls kw = Inr obj"
  shows "obj_ok cls obj"
    "map_of (cc_fields cls) f = Some d \<Longrightarrow> jget f obj = (case map_of kw f of None \<Rightarrow> d | Some v \<Rightarrow> v)"
proof -
  have o: "obj = map (\<lambda>(f, d). (f, case map_of kw f of None \<Rightarrow> d | Some v \<Rightarrow> v)) (cc_fields cls)" "cc_check cls obj = None"
    using assms by (auto simp: construct_def Let_def split: if_splits option.splits)
  then show "obj_ok cls obj" by (simp add: obj_ok_def split_def comp_def)
  show "jget f obj = (case map_of kw f of None \<Rightarrow> d | Some v \<Rightarrow> v)" if "map_of (cc_fields cls) f = Some d"
    using that unfolding o(1) jget_def map_of_defaults by simp
qed

lemma replace_field_field:
  assumes "replace_field cls f v obj = Inr obj'" "obj_ok cls obj"
  shows "obj_ok cls obj'" "f \<in> dkeys (cc_fields cls)"
    "g \<in> dkeys (cc_fields cls) \<Longrightarrow> jget g obj' = (if g = f then v else jget g obj)"
proof -
  have c: "construct cls (dset f v obj) = Inr obj'" and f: "f \<in> dkeys (cc_fields cls)"
    using assms(1) by (auto simp: replace_field_def split: if_splits)
  show "obj_ok cls obj'" "f \<in> dkeys (cc_fields cls)" using construct_field(1) [OF c] f by blast+
  assume g: "g \<in> dkeys (cc_fields cls)"
  then obtain d where d: "map_of (cc_fields cls) g = Some d" unfolding dkeys_iff by blast
  have "dkeys obj = dkeys (cc_fields cls)" using assms(2) unfolding obj_ok_def by (metis set_map)
  then obtain w where "map_of obj g = Some w" using g unfolding dkeys_iff [of g obj, symmetric] by (metis dkeys_iff not_None_eq)
  then show "jget g obj' = (if g = f then v else jget g obj)"
    using construct_field(2) [OF c d] by (simp add: jget_def)
qed

text \<open>Two places of the configuration are the same.\<close>

lemma set_field_field:
  assumes "set_field s f v secs = Inr secs'" "secs_ok secs" "map_of section_classes s = Some cls"
  shows "secs_ok secs'" "f \<in> dkeys (cc_fields cls)"
    "map_of section_classes s' = Some cls' \<Longrightarrow> g \<in> dkeys (cc_fields cls') \<Longrightarrow>
     field_of secs' s' g = (if s' = s \<and> g = f then v else field_of secs s' g)"
proof -
  obtain obj where o: "map_of secs s = Some obj" "obj_ok cls obj" using assms(2,3) unfolding secs_ok_def by blast
  then obtain obj' where r: "replace_field cls f v obj = Inr obj'" "secs' = dset s obj' secs"
    using assms(1,3) by (auto simp: set_field_def and_then_Inr)
  note r' = replace_field_field [OF r(1) o(2)]
  have "map fst secs' = map fst secs" unfolding r(2) map_fst_dset using o(1) by (simp add: dkeys_iff)
  then show "secs_ok secs'"
    using assms(2,3) r'(1) unfolding secs_ok_def r(2) by auto
  show "f \<in> dkeys (cc_fields cls)" by (rule r'(2))
  show "field_of secs' s' g = (if s' = s \<and> g = f then v else field_of secs s' g)"
    if "map_of section_classes s' = Some cls'" "g \<in> dkeys (cc_fields cls')"
    using that r'(3) [of g] assms(3) o(1) by (cases "s' = s") (simp_all add: field_of_def r(2))
qed

text \<open>The last entry that sets a field, in the environment and in the overrides, and the entry of the file.\<close>

fun env_value :: "env \<Rightarrow> env_row list \<Rightarrow> string \<Rightarrow> string \<Rightarrow> json option" where
  "env_value env [] s f = None"
| "env_value env ((n, s', f', conv) # rows) s f =
     (case env_value env rows s f of
        Some v \<Rightarrow> Some v
      | None \<Rightarrow> if s' = s \<and> f' = f \<and> given (env n)
                then (case convert conv (the (env n)) of Inl err \<Rightarrow> None | Inr v \<Rightarrow> Some v) else None)"

fun override_value :: "dict \<Rightarrow> string \<Rightarrow> string \<Rightarrow> json option" where
  "override_value [] s f = None"
| "override_value ((k, v) # kvs) s f =
     (case override_value kvs s f of
        Some w \<Rightarrow> Some w
      | None \<Rightarrow> if v \<noteq> JNull \<and> CHR ''.'' \<in> set k \<and> split_dots 2 k ! 0 = s \<and> split_dots 2 k ! 1 = f
                then Some v else None)"

definition file_value :: "json option \<Rightarrow> string \<Rightarrow> string \<Rightarrow> json option" where
  "file_value loaded s f =
     (case loaded of
        Some (JObj data) \<Rightarrow> (case jget s data of JObj d \<Rightarrow> map_of d f | _ \<Rightarrow> None)
      | _ \<Rightarrow> None)"

lemma section_class_cases: "map_of section_classes s = Some cls \<Longrightarrow> s \<noteq> ''security''"
  by (auto simp: section_classes_def)

lemma env_rows_field:
  assumes "env_rows env rows secs = Inr secs'" "secs_ok secs" "\<forall>(n, s, f, conv) \<in> set rows. s \<in> dkeys section_classes"
    "map_of section_classes s = Some cls" "f \<in> dkeys (cc_fields cls)"
  shows "secs_ok secs' \<and> field_of secs' s f = (case env_value env rows s f of None \<Rightarrow> field_of secs s f | Some v \<Rightarrow> v)"
  using assms(1-3)
proof (induction rows arbitrary: secs)
  case (Cons row rows)
  obtain n s1 f1 conv where row: "row = (n, s1, f1, conv)" by (cases row) blast
  show ?case
  proof (cases "given (env n)")
    case False
    then show ?thesis using Cons by (simp add: row split: option.split)
  next
    case True
    then obtain v secs1 where v: "convert conv (the (env n)) = Inr v" "set_field s1 f1 v secs = Inr secs1" "env_rows env rows secs1 = Inr secs'"
      using Cons.prems(1) by (auto simp: row and_then_Inr)
    obtain cls1 where c: "map_of section_classes s1 = Some cls1" using Cons.prems(3) dkeys_iff [of s1 section_classes] by (auto simp: row)
    note st = set_field_field [OF v(2) Cons.prems(2) c]
    show ?thesis
      using Cons.IH [OF v(3) st(1)] Cons.prems(3) st(3) [OF assms(4,5)] True v(1)
      by (auto simp: row split: option.split)
  qed
qed simp

lemma override_one_field:
  assumes "override_one k v cfg = Inr cfg'" "secs_ok (bc_sections cfg)"
    "map_of section_classes s = Some cls" "f \<in> dkeys (cc_fields cls)"
  shows "secs_ok (bc_sections cfg')"
    "field_of (bc_sections cfg') s f = (case override_value [(k, v)] s f of None \<Rightarrow> field_of (bc_sections cfg) s f | Some w \<Rightarrow> w)"
proof -
  let ?sk = "split_dots 2 k ! 0" and ?fk = "split_dots 2 k ! 1"
  have keys: "s \<in> dkeys (bc_sections cfg)"
    using assms(2,3) unfolding secs_ok_def dkeys_iff [of s] by (metis not_None_eq)
  have same: "bc_sections c' = bc_sections cfg" if "override_security ps v cfg = Inr c'" for c' ps
    using that by (auto simp: override_security_def Let_def and_then_Inr split: if_splits)
  consider (skip) "v = JNull \<or> CHR ''.'' \<notin> set k" | (security) "v \<noteq> JNull" "CHR ''.'' \<in> set k" "?sk = ''security''"
    | (unknown) "v \<noteq> JNull" "CHR ''.'' \<in> set k" "?sk \<noteq> ''security''" "?sk \<notin> dkeys (bc_sections cfg)"
    | (known) "v \<noteq> JNull" "CHR ''.'' \<in> set k" "?sk \<noteq> ''security''" "?sk \<in> dkeys (bc_sections cfg)" by blast
  then have "secs_ok (bc_sections cfg') \<and>
    field_of (bc_sections cfg') s f = (case override_value [(k, v)] s f of None \<Rightarrow> field_of (bc_sections cfg) s f | Some w \<Rightarrow> w)"
  proof cases
    case skip
    then show ?thesis using assms(1,2) by (auto simp: override_one_def)
  next
    case security
    then have "bc_sections cfg' = bc_sections cfg" using assms(1) same by (simp add: override_one_def Let_def)
    then show ?thesis using security(3) section_class_cases [OF assms(3)] assms(2) by auto
  next
    case unknown
    then have "cfg' = cfg" using assms(1) by (simp add: override_one_def Let_def)
    then show ?thesis using unknown(4) keys assms(2) by auto
  next
    case known
    then obtain secs where st: "set_field ?sk ?fk v (bc_sections cfg) = Inr secs" "cfg' = cfg\<lparr>bc_sections := secs\<rparr>"
      using assms(1) by (auto simp: override_one_def Let_def and_then_Inr simp del: split_dots.simps)
    have "dkeys (bc_sections cfg) = dkeys section_classes" using assms(2) unfolding secs_ok_def by (metis set_map)
    then obtain cls1 where "map_of section_classes ?sk = Some cls1" using known(4) dkeys_iff [of ?sk section_classes] by blast
    from set_field_field [OF st(1) assms(2) this] show ?thesis
      using assms(3,4) known(1,2) st(2) by simp
  qed
  then show "secs_ok (bc_sections cfg')"
    "field_of (bc_sections cfg') s f = (case override_value [(k, v)] s f of None \<Rightarrow> field_of (bc_sections cfg) s f | Some w \<Rightarrow> w)"
    by blast+
qed

lemma apply_overrides_field:
  assumes "apply_overrides kvs cfg = Inr cfg'" "secs_ok (bc_sections cfg)"
    "map_of section_classes s = Some cls" "f \<in> dkeys (cc_fields cls)"
  shows "secs_ok (bc_sections cfg') \<and>
    field_of (bc_sections cfg') s f = (case override_value kvs s f of None \<Rightarrow> field_of (bc_sections cfg) s f | Some w \<Rightarrow> w)"
  using assms(1,2)
proof (induction kvs arbitrary: cfg)
  case (Cons kv kvs)
  obtain k v where kv: "kv = (k, v)" by (cases kv) blast
  obtain cfg1 where c: "override_one k v cfg = Inr cfg1" "apply_overrides kvs cfg1 = Inr cfg'"
    using Cons.prems(1) by (auto simp: kv and_then_Inr)
  note one = override_one_field [OF c(1) Cons.prems(2) assms(3,4)]
  show ?case using Cons.IH [OF c(2) one(1)] one(2) by (auto simp: kv split: option.split)
qed simp

definition data_of :: "json option \<Rightarrow> dict" where
  "data_of loaded = (case loaded of Some (JObj d) \<Rightarrow> d | _ \<Rightarrow> [])"

lemma section_of_data:
  assumes "section_of data s = Inr raw"
  shows "map_of raw f = (case jget s data of JObj d \<Rightarrow> map_of d f | _ \<Rightarrow> None)"
  using assms by (cases "jget s data") (auto simp: section_of_def split: if_splits)

lemma map_of_filter_key: "P k \<Longrightarrow> map_of (filter (\<lambda>(k, v). P k) d) k = map_of d k"
  by (induction d) auto

lemma apply_mapping_field:
  assumes "apply_mapping cls raw = Inr obj"
  shows "obj_ok cls obj"
    "map_of (cc_fields cls) f = Some d \<Longrightarrow> jget f obj = (case map_of raw f of None \<Rightarrow> d | Some v \<Rightarrow> v)"
proof -
  have c: "construct cls (filter (\<lambda>(k, v). k \<in> dkeys (cc_fields cls)) raw) = Inr obj"
    using assms by (simp add: apply_mapping_def)
  show "obj_ok cls obj" by (rule construct_field(1) [OF c])
  assume d: "map_of (cc_fields cls) f = Some d"
  then have "f \<in> dkeys (cc_fields cls)" unfolding dkeys_iff by simp
  then have "map_of (filter (\<lambda>(k, v). k \<in> dkeys (cc_fields cls)) raw) f = map_of raw f" by (rule map_of_filter_key)
  then show "jget f obj = (case map_of raw f of None \<Rightarrow> d | Some v \<Rightarrow> v)" using construct_field(2) [OF c d] by simp
qed

lemma each_sections:
  assumes "each (load_section data) ncs = Inr secs" "distinct (map fst ncs)"
  shows "map fst secs = map fst ncs \<and>
    (\<forall>s cls. map_of ncs s = Some cls \<longrightarrow>
       (\<exists>raw obj. section_of data s = Inr raw \<and> apply_mapping cls raw = Inr obj \<and> map_of secs s = Some obj))"
  using assms
proof (induction ncs arbitrary: secs)
  case (Cons nc ncs)
  obtain n cls where nc: "nc = (n, cls)" by (cases nc) blast
  obtain raw obj rest where l: "section_of data n = Inr raw" "apply_mapping cls raw = Inr obj"
    "each (load_section data) ncs = Inr rest" "secs = (n, obj) # rest"
    using Cons.prems(1) unfolding nc each.simps and_then_Inr by (auto simp: load_section_def [of data "(n, cls)"] and_then_Inr)
  have "n \<notin> dkeys ncs" using Cons.prems(2) by (simp add: nc)
  then show ?case using Cons.IH [OF l(3)] Cons.prems(2) l by (auto simp: nc dkeys_iff)
qed simp

lemma load_file_sections:
  assumes "load_file loaded = Inr cfg"
  shows "each (load_section (data_of loaded)) section_classes = Inr (bc_sections cfg)"
    "\<exists>raw. section_of (data_of loaded) ''security'' = Inr raw \<and>
       load_security raw = Inr (bc_tls cfg, bc_auth_enabled cfg, bc_users cfg)"
proof -
  have data: "data = data_of loaded"
    if "(case loaded of None \<Rightarrow> Inr [] | Some v \<Rightarrow> if \<not> truthy v then Inr []
         else (case v of JObj d \<Rightarrow> Inr d | _ \<Rightarrow> Inl (Config_value m))) = (Inr data :: config_error + dict)" for m data
    using that by (cases loaded) (auto simp: data_of_def split: json.splits if_splits)
  show "each (load_section (data_of loaded)) section_classes = Inr (bc_sections cfg)"
    "\<exists>raw. section_of (data_of loaded) ''security'' = Inr raw \<and>
       load_security raw = Inr (bc_tls cfg, bc_auth_enabled cfg, bc_users cfg)"
    using assms by (auto simp: load_file_def and_then_Inr dest!: data)
qed

lemma load_file_field:
  assumes "load_file loaded = Inr cfg" "map_of section_classes s = Some cls" "map_of (cc_fields cls) f = Some d"
  shows "field_of (bc_sections cfg) s f = (case file_value loaded s f of None \<Rightarrow> d | Some v \<Rightarrow> v)"
    and "secs_ok (bc_sections cfg)"
proof -
  have "distinct (map fst section_classes)" by (simp add: section_classes_def)
  note secs = each_sections [OF load_file_sections(1) [OF assms(1)] this]
  then obtain raw obj where o: "section_of (data_of loaded) s = Inr raw" "apply_mapping cls raw = Inr obj" "map_of (bc_sections cfg) s = Some obj"
    using assms(2) by blast
  have "map_of raw f = file_value loaded s f"
    unfolding section_of_data [OF o(1)]
    by (cases loaded) (auto simp: file_value_def data_of_def jget_def split: json.split)
  then show "field_of (bc_sections cfg) s f = (case file_value loaded s f of None \<Rightarrow> d | Some v \<Rightarrow> v)"
    using apply_mapping_field(2) [OF o(2) assms(3)] o(3) by (simp add: field_of_def)
  show "secs_ok (bc_sections cfg)" using secs apply_mapping_field(1) unfolding secs_ok_def by metis
qed

lemma env_map_sections: "\<forall>(n, s, f, conv) \<in> set ENV_MAP. s \<in> dkeys section_classes"
  by (simp add: ENV_MAP_def section_classes_def)

lemma load_configE:
  assumes "load_config loaded env overrides = Inr cfg"
  obtains cfg0 cfg1 where "load_file loaded = Inr cfg0" "apply_env env cfg0 = Inr cfg1" "apply_overrides overrides cfg1 = Inr cfg"
    "env_rows env ENV_MAP (bc_sections cfg0) = Inr (bc_sections cfg1)"
    "(bc_auth_enabled cfg1, bc_users cfg1) = env_auth env (bc_auth_enabled cfg0, bc_users cfg0)"
    "bc_tls cfg1 = env_tls env (bc_tls cfg0)"
proof -
  obtain cfg0 cfg1 where c: "load_file loaded = Inr cfg0" "apply_env env cfg0 = Inr cfg1" "apply_overrides overrides cfg1 = Inr cfg"
    using assms by (auto simp: load_config_def and_then_Inr)
  moreover have "env_rows env ENV_MAP (bc_sections cfg0) = Inr (bc_sections cfg1)"
    "(bc_auth_enabled cfg1, bc_users cfg1) = env_auth env (bc_auth_enabled cfg0, bc_users cfg0)"
    "bc_tls cfg1 = env_tls env (bc_tls cfg0)"
    using c(2) by (cases "env_auth env (bc_auth_enabled cfg0, bc_users cfg0)"; auto simp: apply_env_def and_then_Inr)+
  ultimately show ?thesis by (rule that)
qed

text \<open>C37. Where a setting comes from: when the configuration is loaded, each field of its six plain sections is
  the value of the last override for it, else the converted value of its environment variable when
  that is set and not empty, else its value in the file, else its default.\<close>

theorem load_config_precedence:
  assumes "load_config loaded env overrides = Inr cfg" "map_of section_classes s = Some cls" "map_of (cc_fields cls) f = Some d"
  shows "field_of (bc_sections cfg) s f =
    (case override_value overrides s f of Some v \<Rightarrow> v
     | None \<Rightarrow> (case env_value env ENV_MAP s f of Some v \<Rightarrow> v
     | None \<Rightarrow> (case file_value loaded s f of Some v \<Rightarrow> v | None \<Rightarrow> d)))"
proof -
  obtain cfg0 cfg1 where c: "load_file loaded = Inr cfg0" "apply_overrides overrides cfg1 = Inr cfg"
    "env_rows env ENV_MAP (bc_sections cfg0) = Inr (bc_sections cfg1)"
    by (rule load_configE [OF assms(1)])
  have f: "f \<in> dkeys (cc_fields cls)" using assms(3) unfolding dkeys_iff by simp
  note from_file = load_file_field [OF c(1) assms(2,3)]
  note env = env_rows_field [OF c(3) from_file(2) env_map_sections assms(2) f]
  then have "field_of (bc_sections cfg) s f =
      (case override_value overrides s f of None \<Rightarrow> field_of (bc_sections cfg1) s f | Some v \<Rightarrow> v)"
    using apply_overrides_field [OF c(2) _ assms(2) f] by blast
  then show ?thesis using env from_file(1) by (simp split: option.split)
qed

theorem load_config_precedence_witness:
  "\<exists>cfg. load_config (Some (JObj [(''server'', JObj [(''host'', JStr ''h''), (''port'', JInt 1)])]))
       (\<lambda>n. if n = ''ONEOPEN_SERVER_PORT'' then Some '' 70_00 '' else None) [(''server.host'', JStr ''0.0.0.0'')] = Inr cfg \<and>
     field_of (bc_sections cfg) ''server'' ''port'' = JInt 7000"
proof -
  let ?env = "\<lambda>n. if n = ''ONEOPEN_SERVER_PORT'' then Some '' 70_00 '' else None :: string option"
    and ?file = "Some (JObj [(''server'', JObj [(''host'', JStr ''h''), (''port'', JInt 1)])])"
  have "\<not> isl (load_config ?file ?env [(''server.host'', JStr ''0.0.0.0'')])" by code_simp
  then obtain cfg where cfg: "load_config ?file ?env [(''server.host'', JStr ''0.0.0.0'')] = Inr cfg"
    by (metis isl_def sum.exhaust_sel sum.collapse(2))
  have v: "env_value ?env ENV_MAP ''server'' ''port'' = Some (JInt 7000)" "override_value [(''server.host'', JStr ''0.0.0.0'')] ''server'' ''port'' = None"
    by code_simp+
  have "map_of section_classes ''server'' = Some server_class" "map_of (cc_fields server_class) ''port'' = Some (JInt DEFAULT_PORT)"
    by (simp_all add: section_classes_def server_class_def plain_class_def)
  from load_config_precedence [OF cfg this] show ?thesis using cfg v by simp
qed

section \<open>What a loaded configuration satisfies\<close>

definition valid_user :: "json \<Rightarrow> bool" where
  "valid_user u \<longleftrightarrow>
     (\<exists>d. u = JObj d \<and> map fst d = [''name'', ''token'', ''password'', ''role''] \<and>
          (\<exists>r \<in> set ROLES. jget ''role'' d = JStr r) \<and> (truthy (jget ''token'' d) \<or> truthy (jget ''password'' d)))"

text \<open>An override of the users; they are taken as they are.\<close>

definition sets_users :: "string \<times> json \<Rightarrow> bool" where
  "sets_users kv \<longleftrightarrow> snd kv \<noteq> JNull \<and> split_dots 2 (fst kv) = [''security'', ''auth'', ''users'']"

definition security_ok :: "broker_config \<Rightarrow> bool" where
  "security_ok cfg \<longleftrightarrow> obj_ok tls_class (bc_tls cfg) \<and> list_all valid_user (bc_users cfg)"

lemma one_of_None: "one_of allowed msg v = None \<longleftrightarrow> (\<exists>s \<in> set allowed. v = JStr s)"
  by (cases v) (auto simp: one_of_def)

lemma user_class_ok: "obj_ok user_class d \<Longrightarrow> valid_user (JObj d)"
  by (auto simp: obj_ok_def user_class_def valid_user_def one_of_None split: option.splits if_splits)

lemma load_user_valid: "load_user item = Inr u \<Longrightarrow> valid_user u"
  using apply_mapping_field(1) user_class_ok by (auto simp: load_user_def and_then_Inr split: json.splits)

lemma each_valid: "each f xs = Inr ys \<Longrightarrow> (\<And>x y. f x = Inr y \<Longrightarrow> P y) \<Longrightarrow> list_all P ys"
  by (induction xs arbitrary: ys) (auto simp: and_then_Inr)

lemma load_security_ok:
  assumes "load_security raw = Inr (tls, enabled, users)"
  shows "obj_ok tls_class tls" "list_all valid_user users"
proof -
  obtain tls_raw items where l: "apply_mapping tls_class tls_raw = Inr tls" "each load_user items = Inr users"
    using assms unfolding load_security_def and_then_Inr by auto
  show "obj_ok tls_class tls" by (rule apply_mapping_field(1) [OF l(1)])
  show "list_all valid_user users" using each_valid [OF l(2)] load_user_valid by blast
qed

lemma token_user_valid: "tok \<noteq> [] \<Longrightarrow> valid_user (token_user n tok)"
  by (simp add: valid_user_def token_user_def jget_def ROLES_def)

lemma tls_dset: "obj_ok tls_class tls \<Longrightarrow> f \<in> dkeys (cc_fields tls_class) \<Longrightarrow> obj_ok tls_class (dset f v tls)"
  unfolding obj_ok_def map_fst_dset by (simp add: tls_class_def plain_class_def flip: set_map)

lemma tls_fields: "dkeys (cc_fields tls_class) = {''enabled'', ''certfile'', ''keyfile'', ''cafile'', ''require_client_cert''}"
  by (simp add: tls_class_def plain_class_def)

lemma env_tls_ok: "obj_ok tls_class tls \<Longrightarrow> obj_ok tls_class (env_tls env tls)"
  by (simp add: env_tls_def Let_def tls_dset tls_fields)

lemma given_the: "given x \<Longrightarrow> the x \<noteq> []"
  by (simp add: given_def split: option.splits)

lemma env_auth_valid:
  assumes "env_auth env (enabled, users) = (enabled', users')" "list_all valid_user users"
  shows "list_all valid_user users'"
  using assms token_user_valid given_the by (auto simp: env_auth_def Let_def split: if_splits)

lemma override_one_security:
  assumes "override_one k v cfg = Inr cfg'" "security_ok cfg" "\<not> sets_users (k, v)"
  shows "security_ok cfg'"
proof (cases "v = JNull \<or> CHR ''.'' \<notin> set k")
  case True
  then show ?thesis using assms(1,2) by (auto simp: override_one_def)
next
  case False
  define ps where "ps = split_dots 2 k"
  have len: "2 \<le> length ps" using False by (simp add: ps_def numeral_2_eq_2)
  show ?thesis
  proof (cases "ps ! 0 = ''security''")
    case True
    have o: "override_security ps v cfg = Inr cfg'" using assms(1) False True by (simp add: override_one_def ps_def Let_def)
    have "\<not> (ps ! 1 = ''auth'' \<and> length ps = 3 \<and> ps ! 2 = ''users'')"
    proof
      assume a: "ps ! 1 = ''auth'' \<and> length ps = 3 \<and> ps ! 2 = ''users''"
      then have "ps = [''security'', ''auth'', ''users'']" using True by (auto simp: list_eq_iff_nth_eq less_Suc_eq numeral_eq_Suc)
      then show False using assms(3) False by (simp add: sets_users_def ps_def)
    qed
    then have "bc_users cfg' = bc_users cfg \<and> (bc_tls cfg' = bc_tls cfg \<or> (\<exists>f. replace_field tls_class f v (bc_tls cfg) = Inr (bc_tls cfg')))"
      using o by (auto simp: override_security_def Let_def and_then_Inr split: if_splits)
    then show ?thesis using assms(2) replace_field_field(1) unfolding security_ok_def by metis
  next
    case False
    then have "bc_users cfg' = bc_users cfg \<and> bc_tls cfg' = bc_tls cfg"
      using assms(1) by (auto simp: override_one_def ps_def Let_def and_then_Inr split: if_splits)
    then show ?thesis using assms(2) by (simp add: security_ok_def)
  qed
qed

lemma apply_overrides_security:
  "apply_overrides kvs cfg = Inr cfg' \<Longrightarrow> security_ok cfg \<Longrightarrow> \<not> list_ex sets_users kvs \<Longrightarrow> security_ok cfg'"
proof (induction kvs arbitrary: cfg)
  case (Cons kv kvs)
  obtain k v where kv: "kv = (k, v)" by (cases kv) blast
  then obtain cfg1 where "override_one k v cfg = Inr cfg1" "apply_overrides kvs cfg1 = Inr cfg'"
    using Cons.prems(1) by (auto simp: and_then_Inr)
  then show ?case using Cons.IH override_one_security Cons.prems(2,3) kv by auto
qed simp

lemma load_config_security:
  assumes "load_config loaded env overrides = Inr cfg" "\<not> list_ex sets_users overrides"
  shows "security_ok cfg"
proof -
  obtain cfg0 cfg1 where c: "load_file loaded = Inr cfg0" "apply_overrides overrides cfg1 = Inr cfg"
    "(bc_auth_enabled cfg1, bc_users cfg1) = env_auth env (bc_auth_enabled cfg0, bc_users cfg0)"
    "bc_tls cfg1 = env_tls env (bc_tls cfg0)"
    by (rule load_configE [OF assms(1)])
  have "security_ok cfg1"
    using load_file_sections(2) [OF c(1)] load_security_ok env_auth_valid [OF c(3) [symmetric]] env_tls_ok c(4)
    unfolding security_ok_def by metis
  then show ?thesis by (rule apply_overrides_security [OF c(2) _ assms(2)])
qed

text \<open>C38. A configuration that loads is valid, whatever the file, the environment and the overrides hold: every
  section has exactly the fields of its class, \<open>fsync\<close> and \<open>retry_backoff\<close> are among the values they may
  have, and every user has a known role and a secret (unless the users come from an override, which
  takes them as they are).\<close>

theorem load_config_valid:
  assumes "load_config loaded env overrides = Inr cfg" "\<not> list_ex sets_users overrides"
  shows "(\<forall>s cls. map_of section_classes s = Some cls \<longrightarrow> (\<exists>obj. map_of (bc_sections cfg) s = Some obj \<and> map fst obj = map fst (cc_fields cls))) \<and>
    (\<exists>m \<in> {''always'', ''everysec'', ''none''}. field_of (bc_sections cfg) ''persistence'' ''fsync'' = JStr m) \<and>
    (\<exists>m \<in> {''fixed'', ''exponential''}. field_of (bc_sections cfg) ''queues'' ''retry_backoff'' = JStr m) \<and>
    map fst (bc_tls cfg) = map fst (cc_fields tls_class) \<and> list_all valid_user (bc_users cfg)"
proof -
  obtain cfg0 cfg1 where c: "load_file loaded = Inr cfg0" "apply_overrides overrides cfg1 = Inr cfg"
    "env_rows env ENV_MAP (bc_sections cfg0) = Inr (bc_sections cfg1)"
    by (rule load_configE [OF assms(1)])
  have sv: "map_of section_classes ''server'' = Some server_class" "map_of (cc_fields server_class) ''port'' = Some (JInt DEFAULT_PORT)"
    "''port'' \<in> dkeys (cc_fields server_class)"
    by (simp_all add: section_classes_def server_class_def plain_class_def)
  have "secs_ok (bc_sections cfg1)"
    using env_rows_field [OF c(3) load_file_field(2) [OF c(1) sv(1,2)] env_map_sections sv(1,3)] by blast
  then have secs: "secs_ok (bc_sections cfg)" using apply_overrides_field [OF c(2) _ sv(1,3)] by blast
  have sec: "security_ok cfg" by (rule load_config_security [OF assms])
  have chosen: "\<exists>obj. map_of (bc_sections cfg) s = Some obj \<and> obj_ok cls obj" if "map_of section_classes s = Some cls" for s cls
    using secs that unfolding secs_ok_def by blast
  have "map_of section_classes ''persistence'' = Some persistence_class" "map_of section_classes ''queues'' = Some queues_class"
    by (simp_all add: section_classes_def)
  then have "\<exists>m \<in> {''always'', ''everysec'', ''none''}. field_of (bc_sections cfg) ''persistence'' ''fsync'' = JStr m"
    "\<exists>m \<in> {''fixed'', ''exponential''}. field_of (bc_sections cfg) ''queues'' ''retry_backoff'' = JStr m"
    using chosen [of "''persistence''"] chosen [of "''queues''"]
    by (auto simp: field_of_def obj_ok_def persistence_class_def queues_class_def one_of_None)
  then show ?thesis using chosen sec unfolding security_ok_def obj_ok_def by blast
qed

theorem load_config_valid_witness:
  "\<exists>cfg. load_config None (\<lambda>n. if n = ''ONEOPEN_AUTH_TOKEN'' then Some ''t'' else None) [(''persistence.fsync'', JStr ''none'')] = Inr cfg \<and>
     list_all valid_user (bc_users cfg)"
proof -
  let ?env = "\<lambda>n. if n = ''ONEOPEN_AUTH_TOKEN'' then Some ''t'' else None :: string option"
  have "\<not> isl (load_config None ?env [(''persistence.fsync'', JStr ''none'')])" by code_simp
  then obtain cfg where cfg: "load_config None ?env [(''persistence.fsync'', JStr ''none'')] = Inr cfg" by (metis sum.collapse(2))
  have "\<not> list_ex sets_users [(''persistence.fsync'', JStr ''none'')]" by code_simp
  from load_config_valid [OF cfg this] show ?thesis using cfg by blast
qed

section \<open>The token of the start command\<close>

text \<open>The users as \<open>security/auth.py\<close> sees them, when their fields are strings.\<close>

definition user_of :: "json \<Rightarrow> auth_user option" where
  "user_of u =
     (case u of
        JObj d \<Rightarrow>
          (case (jget ''name'' d, jget ''token'' d, jget ''password'' d, jget ''role'' d) of
             (JStr n, JStr tok, JStr pw, JStr r) \<Rightarrow> Some \<lparr>us_name = n, us_token = tok, us_password = pw, us_role = r\<rparr>
           | _ \<Rightarrow> None)
      | _ \<Rightarrow> None)"

definition users_of :: "broker_config \<Rightarrow> auth_user list" where
  "users_of cfg = List.map_filter user_of (bc_users cfg)"

lemma user_of_role: "user_of u = Some w \<Longrightarrow> valid_user u \<Longrightarrow> us_role w \<in> set ROLES"
  by (auto simp: user_of_def valid_user_def split: json.splits)

lemma user_of_token_user: "user_of (token_user n tok) = Some \<lparr>us_name = n, us_token = tok, us_password = [], us_role = ''admin''\<rparr>"
  by (simp add: user_of_def token_user_def jget_def)

lemma split_dots_set: "x \<in> set (split_dots n s) \<Longrightarrow> CHR ''.'' \<notin> set s \<Longrightarrow> x = s"
  by (cases n) auto

lemma start_overrides_no_users: "\<not> list_ex sets_users (start_overrides a)"
proof -
  have keys: "split_dots 2 k \<noteq> [''security'', ''auth'', ''users'']"
    if "k \<in> {''server.host'', ''server.port'', ''persistence.directory'', ''persistence.fsync''}" for k
    using that by (auto simp: numeral_2_eq_2)
  show ?thesis
    unfolding list_ex_iff sets_users_def
  proof (intro notI, elim bexE conjE)
    fix kv assume kv: "kv \<in> set (start_overrides a)" "split_dots 2 (fst kv) = [''security'', ''auth'', ''users'']"
    have "fst kv \<in> {''server.host'', ''server.port'', ''persistence.directory'', ''persistence.fsync''}"
      using kv(1) by (auto simp: start_overrides_def split: option.splits if_splits)
    then show False using keys kv(2) by blast
  qed
qed

lemma start_config_users:
  assumes "start_config a loaded env = Inr cfg" "given (sa_auth_token a)"
  obtains cfg0 where "load_config loaded env (start_overrides a) = Inr cfg0"
    "bc_users cfg = bc_users cfg0 @ [token_user ''cli'' (the (sa_auth_token a))]" "bc_auth_enabled cfg = JBool True"
  using assms by (auto simp: start_config_def and_then_Inr Let_def split: if_splits)

text \<open>A broker that is started with a token asks for it and accepts it: whatever the file and the environment
  hold, authentication is on, the token authenticates, and unless an earlier user has the same token it
  gives the rights of an administrator. (The users of the file must have strings in their fields.)\<close>

theorem start_token_accepted:
  assumes "start_config a loaded env = Inr cfg" "given (sa_auth_token a)" "list_all (\<lambda>u. user_of u \<noteq> None) (bc_users cfg)"
  shows "truthy (bc_auth_enabled cfg) \<and>
    (\<exists>p. authenticate (sa_auth_token a) username password (users_of cfg) = Inr (Some p) \<and>
       ((\<forall>u \<in> set (butlast (users_of cfg)). us_token u \<noteq> the (sa_auth_token a)) \<longrightarrow>
          p = \<lparr>pr_name = ''cli'', pr_role = ''admin''\<rparr>))"
proof -
  let ?tok = "the (sa_auth_token a)"
  obtain cfg0 where c: "load_config loaded env (start_overrides a) = Inr cfg0"
    "bc_users cfg = bc_users cfg0 @ [token_user ''cli'' ?tok]" "bc_auth_enabled cfg = JBool True"
    by (rule start_config_users [OF assms(1,2)])
  define us where "us = List.map_filter user_of (bc_users cfg0)"
  define me where "me = \<lparr>us_name = ''cli'', us_token = ?tok, us_password = [], us_role = ''admin''\<rparr>"
  have users: "users_of cfg = us @ [me]"
    by (simp add: users_of_def c(2) us_def me_def map_filter_def user_of_token_user)
  have "list_all valid_user (bc_users cfg0)"
    using load_config_security [OF c(1) start_overrides_no_users] by (simp add: security_ok_def)
  then have "\<forall>u \<in> set us. us_role u \<in> set ROLES"
    using user_of_role by (fastforce simp: us_def map_filter_def list_all_iff)
  then have roles: "\<forall>u \<in> set (us @ [me]). us_role u \<in> set ROLES" by (simp add: me_def ROLES_def)
  have tok: "?tok \<noteq> []" by (rule given_the [OF assms(2)])
  have auth: "authenticate (sa_auth_token a) username password (users_of cfg) =
      Inr (map_option (\<lambda>u. \<lparr>pr_name = us_name u, pr_role = us_role u\<rparr>) (find (\<lambda>u. us_token u = ?tok) (us @ [me])))"
    unfolding users using token_loop_find [OF tok roles] assms(2) by (simp add: authenticate_def)
  obtain w where w: "find (\<lambda>u. us_token u = ?tok) (us @ [me]) = Some w"
    by (cases "find (\<lambda>u. us_token u = ?tok) (us @ [me])") (auto simp: find_None_iff me_def)
  have "w = me" if "\<forall>u \<in> set us. us_token u \<noteq> ?tok"
  proof -
    have "find (\<lambda>u. us_token u = ?tok) (us @ [me]) = Some me" using that by (induction us) (auto simp: me_def)
    then show ?thesis using w by simp
  qed
  then show ?thesis using auth w c(3) by (simp add: users me_def)
qed

definition demo_args :: start_args where
  "demo_args = \<lparr>sa_host = None, sa_port = None, sa_data_dir = None, sa_fsync = Some ''always'', sa_auth_token = Some ''s3'',
     sa_tls_cert = None, sa_tls_key = None, sa_tls_ca = None\<rparr>"

theorem start_token_accepted_witness:
  "\<exists>cfg. start_config demo_args None (\<lambda>_. None) = Inr cfg \<and>
     authenticate (Some ''s3'') None None (users_of cfg) = Inr (Some \<lparr>pr_name = ''cli'', pr_role = ''admin''\<rparr>)"
proof -
  have "\<not> isl (start_config demo_args None (\<lambda>_. None))" by code_simp
  then obtain cfg where cfg: "start_config demo_args None (\<lambda>_. None) = Inr cfg" by (metis sum.collapse(2))
  have tok: "given (sa_auth_token demo_args)" "sa_auth_token demo_args = Some ''s3''" by (simp_all add: demo_args_def given_def)
  have "map_option bc_users (case start_config demo_args None (\<lambda>_. None) of Inl _ \<Rightarrow> None | Inr c \<Rightarrow> Some c) = Some [token_user ''cli'' ''s3'']"
    by code_simp
  then have users: "bc_users cfg = [token_user ''cli'' ''s3'']" by (simp add: cfg)
  then have "list_all (\<lambda>u. user_of u \<noteq> None) (bc_users cfg)" "butlast (users_of cfg) = []"
    by (simp_all add: user_of_token_user users_of_def map_filter_def)
  then show ?thesis using start_token_accepted [OF cfg tok(1), of None None] cfg tok(2) by auto
qed

end
