(* ===== verification/Cli.thy ===== *)
theory Cli
  imports SyncClient Config
begin

text \<open>
  \<open>cli/\<close>: the commands that report on a running broker, from the arguments \<open>argparse\<close> has read to the lines they
  print. \<open>str\<close> of a value that is neither a string nor written by a format of its own is the parameter
  \<open>other\<close>; the horizontal rule of \<open>top\<close>, a character beyond \<open>char\<close>, is the parameter \<open>bar\<close>.
  Strings are lists of \<open>char\<close>, so that \<open>print\<close> never fails to encode one.
\<close>

section \<open>Formats\<close>

datatype cli_error = Client_error client_error | Python_error py_error | Attribute_error | Zero_division | Usage_error

definition ljust :: "nat \<Rightarrow> string \<Rightarrow> string" where
  "ljust n s = s @ replicate (n - length s) CHR '' ''"

definition rjust :: "nat \<Rightarrow> string \<Rightarrow> string" where
  "rjust n s = replicate (n - length s) CHR '' '' @ s"

fun nat_text :: "nat \<Rightarrow> string" where
  "nat_text n = (if n < 10 then [char_of (48 + n)] else nat_text (n div 10) @ [char_of (48 + n mod 10)])"

declare nat_text.simps [simp del]

definition int_text :: "int \<Rightarrow> string" where
  "int_text i = (if i < 0 then CHR ''-'' # nat_text (nat (- i)) else nat_text (nat i))"

definition zeros :: "nat \<Rightarrow> string \<Rightarrow> string" where
  "zeros n s = replicate (n - length s) CHR ''0'' @ s"

text \<open>\<open>02d\<close>, and the comma between the thousands.\<close>

definition two_digits :: "int \<Rightarrow> string" where
  "two_digits i = (if i < 0 then CHR ''-'' # nat_text (nat (- i)) else zeros 2 (nat_text (nat i)))"

fun thousands :: "string \<Rightarrow> string" where
  "thousands (a # b # c # d # ds) = a # b # c # CHR '','' # thousands (d # ds)"
| "thousands ds = ds"

definition grouped :: "nat \<Rightarrow> string" where
  "grouped n = rev (thousands (rev (nat_text n)))"

definition int_grouped :: "int \<Rightarrow> string" where
  "int_grouped i = (if i < 0 then CHR ''-'' # grouped (nat (- i)) else grouped (nat i))"

text \<open>A float with \<open>p\<close> decimals, rounded half to even.\<close>

definition half_even :: "real \<Rightarrow> int" where
  "half_even x =
     (let n = \<lfloor>x\<rfloor>; d = x - real_of_int n
      in if d < 1 / 2 then n else if 1 / 2 < d then n + 1 else if even n then n else n + 1)"

definition float_grouped :: "nat \<Rightarrow> real \<Rightarrow> string" where
  "float_grouped p r =
     (let k = nat (half_even (10 ^ p * \<bar>r\<bar>))
      in (if r < 0 then ''-'' else '''') @ grouped (k div 10 ^ p) @
         (if p = 0 then '''' else CHR ''.'' # zeros p (nat_text (k mod 10 ^ p))))"

text \<open>A value in a column; \<open>None\<close>, lists and dictionaries have no such format.\<close>

fun cell :: "(json \<Rightarrow> string) \<Rightarrow> (string \<Rightarrow> string) \<Rightarrow> json \<Rightarrow> cli_error + string" where
  "cell other pad (JStr s) = Inr (pad s)"
| "cell other pad (JInt i) = Inr (pad (int_text i))"
| "cell other pad (JBool x) = Inr (pad (if x then ''1'' else ''0''))"
| "cell other pad (JFloat r) = Inr (pad (other (JFloat r)))"
| "cell other pad _ = Inl (Python_error (TypeError ''unsupported format string''))"

text \<open>\<open>row[k]\<close> and \<open>row.get(k, d)\<close>.\<close>

fun item :: "string \<Rightarrow> json \<Rightarrow> cli_error + json" where
  "item k (JObj d) = (case map_of d k of None \<Rightarrow> Inl (Python_error (KeyError k)) | Some v \<Rightarrow> Inr v)"
| "item k _ = Inl (Python_error (TypeError ''indices''))"

fun item_or :: "json \<Rightarrow> string \<Rightarrow> json \<Rightarrow> cli_error + json" where
  "item_or v k (JObj d) = Inr (case map_of d k of None \<Rightarrow> v | Some x \<Rightarrow> x)"
| "item_or v k _ = Inl Attribute_error"

fun join :: "string \<Rightarrow> string list \<Rightarrow> string" where
  "join sep [] = []"
| "join sep [x] = x"
| "join sep (x # y # xs) = x @ sep @ join sep (y # xs)"

section \<open>Tables\<close>

text \<open>A column: its title, the key of its values, and its width.\<close>

type_synonym column = "string \<times> string \<times> (string \<Rightarrow> string)"

definition table_header :: "column list \<Rightarrow> string" where
  "table_header cols = join '' '' (map (\<lambda>(title, k, pad). pad title) cols)"

definition table_row :: "(json \<Rightarrow> string) \<Rightarrow> column list \<Rightarrow> json \<Rightarrow> cli_error + string" where
  "table_row other cols row =
     and_then (each (\<lambda>(title, k, pad). and_then (item k row) (cell other pad)) cols) (\<lambda>cs. Inr (join '' '' cs))"

text \<open>What a command has printed, and the exception it ends with.\<close>

type_synonym printout = "string list \<times> cli_error option"

fun print_rows :: "(json \<Rightarrow> cli_error + string) \<Rightarrow> json list \<Rightarrow> printout" where
  "print_rows f [] = ([], None)"
| "print_rows f (row # rows) =
     (case f row of Inl err \<Rightarrow> ([], Some err) | Inr l \<Rightarrow> (case print_rows f rows of (ls, err) \<Rightarrow> (l # ls, err)))"

definition print_table :: "(json \<Rightarrow> cli_error + string) \<Rightarrow> string \<Rightarrow> json list \<Rightarrow> printout" where
  "print_table f header rows = (case print_rows f rows of (ls, err) \<Rightarrow> (header # ls, err))"

definition reported :: "(client_error + 'a) \<times> peer \<Rightarrow> ('a \<Rightarrow> printout) \<Rightarrow> printout \<times> peer" where
  "reported r f = (case r of (Inl err, s) \<Rightarrow> (([], Some (Client_error err)), s) | (Inr x, s) \<Rightarrow> (f x, s))"

section \<open>The reports\<close>

definition QUEUE_COLUMNS :: "column list" where
  "QUEUE_COLUMNS =
     [(''QUEUE'', ''name'', ljust 24), (''READY'', ''ready'', rjust 8), (''INFLIGHT'', ''inflight'', rjust 8),
      (''DELAYED'', ''delayed'', rjust 8), (''DLQ'', ''dlq'', rjust 8)]"

definition print_queues :: "(json \<Rightarrow> string) \<Rightarrow> outside \<Rightarrow> peer \<Rightarrow> printout \<times> peer" where
  "print_queues other ou s =
     reported (sync_list_queues other ou s) (print_table (table_row other QUEUE_COLUMNS) (table_header QUEUE_COLUMNS))"

definition print_queue :: "(json \<Rightarrow> string) \<Rightarrow> outside \<Rightarrow> string \<Rightarrow> peer \<Rightarrow> printout \<times> peer" where
  "print_queue other ou n s =
     reported (sync_queue_info other ou n s) (\<lambda>info. (map (\<lambda>(k, v). k @ '': '' @ py_str other v) info, None))"

definition CONSUMER_COLUMNS :: "column list" where
  "CONSUMER_COLUMNS =
     [(''CONSUMER'', ''consumer_id'', ljust 36), (''QUEUE'', ''queues'', ljust 20), (''PREFETCH'', ''prefetch'', rjust 8),
      (''UNACKED'', ''unacked'', rjust 8)]"

fun joined :: "json list \<Rightarrow> cli_error + string list" where
  "joined [] = Inr []"
| "joined (JStr s # vs) = and_then (joined vs) (\<lambda>ss. Inr (s # ss))"
| "joined (v # vs) = Inl (Python_error (TypeError ''sequence item: expected str instance''))"

definition or_empty :: "json \<Rightarrow> cli_error + json list" where
  "or_empty v = (if truthy v then (case py_list v of Inl err \<Rightarrow> Inl (Python_error err) | Inr xs \<Rightarrow> Inr xs) else Inr [])"

definition consumer_line :: "(json \<Rightarrow> string) \<Rightarrow> json \<Rightarrow> cli_error + string" where
  "consumer_line other row =
     and_then (item_or JNull ''queues'' row) (\<lambda>v.
     and_then (or_empty v) (\<lambda>vs.
     and_then (joined vs) (\<lambda>ss.
       table_row other CONSUMER_COLUMNS
         (case row of JObj d \<Rightarrow> JObj (dset ''queues'' (JStr (join '','' ss)) d) | _ \<Rightarrow> row))))"

definition print_consumers :: "(json \<Rightarrow> string) \<Rightarrow> outside \<Rightarrow> peer \<Rightarrow> printout \<times> peer" where
  "print_consumers other ou s =
     reported (sync_list_consumers other ou s) (print_table (consumer_line other) (table_header CONSUMER_COLUMNS))"

definition CHANNEL_COLUMNS :: "column list" where
  "CHANNEL_COLUMNS =
     [(''CHANNEL'', ''channel'', ljust 24), (''SUBS'', ''subscribers'', rjust 8), (''PUBLISHED'', ''published'', rjust 10),
      (''FANOUT'', ''fanout'', rjust 10)]"

definition print_channels :: "(json \<Rightarrow> string) \<Rightarrow> outside \<Rightarrow> peer \<Rightarrow> printout \<times> peer" where
  "print_channels other ou s =
     reported (sync_list_channels other ou s) (print_table (table_row other CHANNEL_COLUMNS) (table_header CHANNEL_COLUMNS))"

definition dlq_line :: "(json \<Rightarrow> string) \<Rightarrow> json \<Rightarrow> cli_error + string" where
  "dlq_line other m =
     and_then (item ''id'' m) (\<lambda>k. and_then (item ''attempts'' m) (\<lambda>n.
       Inr (''  '' @ py_str other k @ '' attempts='' @ py_str other n)))"

definition dlq_head :: "(json \<Rightarrow> string) \<Rightarrow> dict \<Rightarrow> string" where
  "dlq_head other info = ''DLQ '' @ py_str other (jget ''dlq'' info) @ '' count='' @ py_str other (jget ''count'' info)"

definition print_dlq :: "(json \<Rightarrow> string) \<Rightarrow> outside \<Rightarrow> string \<Rightarrow> string option \<Rightarrow> peer \<Rightarrow> printout \<times> peer" where
  "print_dlq other ou queue requeue s =
     (if given requeue
      then reported (sync_dlq_requeue other ou queue (the requeue) s)
             (\<lambda>_. ([''requeued '' @ the requeue @ '' onto '' @ queue], None))
      else reported (sync_dlq_info other ou queue s)
             (\<lambda>info. case or_empty (jget ''messages'' info) of
                 Inl err \<Rightarrow> ([dlq_head other info], Some err)
               | Inr ms \<Rightarrow> print_table (dlq_line other) (dlq_head other info) ms))"

text \<open>\<open>_fmt\<close>; a \<open>bool\<close> is an \<open>int\<close>.\<close>

fun fmt :: "(json \<Rightarrow> string) \<Rightarrow> json \<Rightarrow> string" where
  "fmt other (JFloat r) = float_grouped 1 r"
| "fmt other (JInt i) = int_grouped i"
| "fmt other (JBool x) = (if x then ''1'' else ''0'')"
| "fmt other v = py_str other v"

definition print_stats :: "(json \<Rightarrow> string) \<Rightarrow> outside \<Rightarrow> peer \<Rightarrow> printout \<times> peer" where
  "print_stats other ou s =
     reported (sync_stats other ou s)
       (\<lambda>report. let width = (if report = [] then 8 else Max (length ` set (map fst report)))
                 in (map (\<lambda>(k, v). ljust width k @ ''  '' @ fmt other v) report, None))"

section \<open>The live monitor\<close>

fun py_float :: "json \<Rightarrow> cli_error + real" where
  "py_float (JInt i) = Inr (real_of_int i)"
| "py_float (JFloat r) = Inr r"
| "py_float (JBool x) = Inr (of_bool x)"
| "py_float (JStr s) =
     (case float_of_string s of
        None \<Rightarrow> Inl (Python_error (ValueError ''could not convert string to float''))
      | Some r \<Rightarrow> Inr r)"
| "py_float _ = Inl (Python_error (TypeError ''float() argument''))"

definition uptime_text :: "real \<Rightarrow> string" where
  "uptime_text x =
     (let seconds = (if x < 0 then \<lceil>x\<rceil> else \<lfloor>x\<rfloor>);
          h = seconds div 3600; rest = seconds mod 3600; m = rest div 60; s = rest mod 60
      in two_digits h @ '':'' @ two_digits m @ '':'' @ two_digits s)"

text \<open>\<open>a - b\<close> of two numbers, as a float.\<close>

fun difference :: "json \<Rightarrow> json \<Rightarrow> cli_error + real" where
  "difference (JStr s) v = Inl (Python_error (TypeError ''unsupported operand''))"
| "difference v (JStr s) = Inl (Python_error (TypeError ''unsupported operand''))"
| "difference v w =
     (case (py_float v, py_float w) of
        (Inr a, Inr c) \<Rightarrow> Inr (a - c)
      | _ \<Rightarrow> Inl (Python_error (TypeError ''unsupported operand'')))"

definition value_or :: "json \<Rightarrow> string \<Rightarrow> dict \<Rightarrow> json" where
  "value_or v k d = (case map_of d k of None \<Rightarrow> v | Some x \<Rightarrow> x)"

definition rate :: "dict \<Rightarrow> dict option \<Rightarrow> real \<Rightarrow> string \<Rightarrow> cli_error + string" where
  "rate report prev interval k =
     (case prev of
        None \<Rightarrow> Inr ''0''
      | Some old \<Rightarrow>
          if old = [] then Inr ''0''
          else and_then (difference (value_or (JInt 0) k report) (value_or (JInt 0) k old)) (\<lambda>delta.
                 if interval = 0 then Inl Zero_division else Inr (float_grouped 0 (delta / interval))))"

definition TOP_COLUMNS :: "column list" where
  "TOP_COLUMNS =
     [(''QUEUE'', ''name'', ljust 18), (''READY'', ''ready'', rjust 8), (''INFLIGHT'', ''inflight'', rjust 10),
      (''DELAYED'', ''delayed'', rjust 9), (''DLQ'', ''dlq'', rjust 6)]"

definition TOP_COUNTS :: "(string \<times> string) list" where
  "TOP_COUNTS =
     [(''Connections:  '', ''connections''), (''Consumers:    '', ''consumers''), (''Queues:       '', ''queues''),
      (''Channels:     '', ''channels'')]"

definition TOP_RATES :: "(string \<times> string) list" where
  "TOP_RATES =
     [(''Published/s      '', ''published''), (''Delivered/s      '', ''delivered''), (''ACK/s            '', ''acked''),
      (''NACK/s           '', ''nacked'')]"

text \<open>\<open>str(row.get("name", "")).endswith(".DLQ")\<close>.\<close>

definition dlq_row :: "(json \<Rightarrow> string) \<Rightarrow> json \<Rightarrow> cli_error + bool" where
  "dlq_row other row = and_then (item_or (JStr '''') ''name'' row) (\<lambda>v. Inr (ends_with (py_str other v) ''.DLQ''))"

fun queue_lines :: "(json \<Rightarrow> string) \<Rightarrow> json list \<Rightarrow> cli_error + string list" where
  "queue_lines other [] = Inr []"
| "queue_lines other (row # rows) =
     and_then (dlq_row other row) (\<lambda>hidden.
       if hidden then queue_lines other rows
       else and_then (table_row other TOP_COLUMNS row) (\<lambda>l.
              and_then (queue_lines other rows) (\<lambda>ls. Inr (l # ls))))"

definition screen ::
  "(json \<Rightarrow> string) \<Rightarrow> char \<Rightarrow> string \<Rightarrow> dict \<Rightarrow> json list \<Rightarrow> dict option \<Rightarrow> real \<Rightarrow> cli_error + string list" where
  "screen other bar version report listed prev interval =
     and_then (if truthy (jget ''uptime'' report) then py_float (jget ''uptime'' report) else Inr 0) (\<lambda>up.
     and_then (each (\<lambda>(title, k). and_then (cell other (rjust 6) (value_or (JInt 0) k report)) (\<lambda>c. Inr (title @ c))) TOP_COUNTS) (\<lambda>counts.
     and_then (each (\<lambda>(title, k). and_then (rate report prev interval k) (\<lambda>r. Inr (title @ rjust 10 r))) TOP_RATES) (\<lambda>rates.
     and_then (queue_lines other listed) (\<lambda>rows.
       Inr ([''OneOpen Broker '' @ version, ''Uptime: '' @ uptime_text up, ''''] @ counts @
            ['''', ''Rate'', replicate 28 bar] @ rates @
            ['''', ''Queues'', replicate 64 bar, table_header TOP_COLUMNS] @ rows)))))"

definition newline :: char where "newline = char_of (10 :: nat)"
definition escape :: char where "escape = char_of (27 :: nat)"

text \<open>The rounds of \<open>run_top\<close> until the interrupt, each with the outside of its two calls; \<open>time.sleep\<close> refuses a
  negative time.\<close>

fun run_top ::
  "(json \<Rightarrow> string) \<Rightarrow> char \<Rightarrow> string \<Rightarrow> real \<Rightarrow> dict option \<Rightarrow> (outside \<times> outside) list \<Rightarrow> peer \<Rightarrow> printout \<times> peer" where
  "run_top other bar version interval prev [] s = (([''''], None), s)"
| "run_top other bar version interval prev ((o1, o2) # rounds) s =
     (case sync_stats other o1 s of
        (Inl err, s1) \<Rightarrow> (([], Some (Client_error err)), s1)
      | (Inr report, s1) \<Rightarrow>
          (case sync_list_queues other o2 s1 of
             (Inl err, s2) \<Rightarrow> (([], Some (Client_error err)), s2)
           | (Inr listed, s2) \<Rightarrow>
               (case screen other bar version report listed prev interval of
                  Inl err \<Rightarrow> (([], Some err), s2)
                | Inr ls \<Rightarrow>
                    let text = escape # ''[2J'' @ escape # ''[H'' @ join [newline] ls in
                    if interval < 0
                    then (([text], Some (Python_error (ValueError ''sleep length must be non-negative''))), s2)
                    else (case run_top other bar version interval (Some report) rounds s2 of
                            ((ts, err), s3) \<Rightarrow> ((text # ts, err), s3)))))"

section \<open>The command line\<close>

record cli_args =
  ca_command :: string
  ca_host :: string
  ca_port :: int
  ca_token :: "string option"
  ca_tls :: bool
  ca_tls_ca :: "string option"
  ca_tls_insecure :: bool
  ca_name :: string
  ca_queue :: string
  ca_requeue :: "string option"
  ca_interval :: real

definition cli_connect :: "(string \<Rightarrow> string option) \<Rightarrow> cli_args \<Rightarrow> broker_args" where
  "cli_connect env args =
     \<lparr>ba_host = ca_host args, ba_port = ca_port args,
      ba_token = (if given (ca_token args) then ca_token args else env ''ONEOPEN_AUTH_TOKEN''),
      ba_username = None, ba_password = None, ba_ssl = ca_tls args,
      ba_cafile = JStr (or_else (ca_tls_ca args) ''''), ba_certfile = JStr '''', ba_keyfile = JStr '''',
      ba_insecure = ca_tls_insecure args, ba_server_hostname = None\<rparr>"

text \<open>\<open>main\<close> after the connection, for every command but \<open>start\<close>.\<close>

definition cli_main ::
  "(json \<Rightarrow> string) \<Rightarrow> char \<Rightarrow> string \<Rightarrow> outside \<Rightarrow> (outside \<times> outside) list \<Rightarrow> cli_args \<Rightarrow> peer \<Rightarrow> printout \<times> peer" where
  "cli_main other bar version ou rounds args s =
     (let cmd = ca_command args in
      if cmd = ''stats'' then print_stats other ou s
      else if cmd = ''queues'' then print_queues other ou s
      else if cmd = ''queue'' then print_queue other ou (ca_name args) s
      else if cmd = ''consumers'' then print_consumers other ou s
      else if cmd = ''channels'' then print_channels other ou s
      else if cmd = ''dlq'' then print_dlq other ou (ca_queue args) (ca_requeue args) s
      else if cmd = ''top'' then run_top other bar version (ca_interval args) None rounds s
      else (([], Some Usage_error), s))"

section \<open>Replies the commands can print\<close>

lemma error_not_ok: "\<not> truthy (jget ''ok'' (of_meta (err_reply rid code msg)))"
  by (simp add: err_reply_def response_meta_def dict_merge_def jget_def Let_def)

lemma ask_okE:
  assumes "ask other ou k s = (Inr (meta, pl), s')"
  obtains op reply where "map_of commands (lower (str_arg ''cmd'' (call_meta k))) = Some op"
    "op ou 1 (call_meta k) (call_payload k) s = (Inr reply, s')" "meta = of_meta reply" "truthy (jget ''ok'' meta)"
proof -
  obtain cx b where s: "s = (cx, b)" by (cases s)
  obtain reply where h: "handle ou 1 (call_meta k) (call_payload k) s = (reply, s')" "truthy (jget ''ok'' (of_meta reply))"
    "meta = of_meta reply"
    using assms by (cases "handle ou 1 (call_meta k) (call_payload k) s") (auto simp: ask_def split: if_splits)
  show ?thesis
    using h error_not_ok that unfolding s handle_def prod.case Let_def
    by (auto split: if_splits prod.splits option.splits sum.splits)
qed

lemma call_ofE:
  assumes "call_of other ou k decode s = (Inr x, s')" "map_of commands (lower (str_arg ''cmd'' (call_meta k))) = Some op"
  obtains reply pl where "op ou 1 (call_meta k) (call_payload k) s = (Inr reply, s')" "decode (of_meta reply) pl = Inr x"
    "truthy (jget ''ok'' (of_meta reply))"
  using assms by (auto simp: call_of_def split: prod.splits sum.splits elim!: ask_okE)

lemma lower_names:
  "lower ''STATS'' = ''stats''" "lower ''LIST_QUEUES'' = ''list_queues''" "lower ''LIST_CONSUMERS'' = ''list_consumers''"
  "lower ''LIST_CHANNELS'' = ''list_channels''" "lower ''DLQ_INFO'' = ''dlq_info''"
  by code_simp+

lemma report_commands:
  "map_of commands (lower (str_arg ''cmd'' (call_meta stats_call))) = Some cmd_stats"
  "map_of commands (lower (str_arg ''cmd'' (call_meta list_queues_call))) = Some cmd_list_queues"
  "map_of commands (lower (str_arg ''cmd'' (call_meta list_consumers_call))) = Some cmd_list_consumers"
  "map_of commands (lower (str_arg ''cmd'' (call_meta list_channels_call))) = Some cmd_list_channels"
  "map_of commands (lower (str_arg ''cmd'' (call_meta (dlq_info_call n)))) = Some cmd_dlq_info"
  by (simp_all add: stats_call_def list_queues_call_def list_consumers_call_def list_channels_call_def dlq_info_call_def
      call_meta_def dict_merge_def str_arg_def jget_def commands_def lower_names)

lemma listed_rows: "rows_result k (of_meta (ok_reply rid [(k, JList xs)] pl)) = Inr xs" if "k \<noteq> ''ok''"
  using that by (simp add: rows_result_def ok_reply_def response_meta_def dict_merge_def jget_def)

lemma queues_reply: "sync_list_queues other ou s = (Inr rows, s') \<Longrightarrow> rows = list_queues_report (snd s)"
  unfolding sync_list_queues_def
  by (erule call_ofE [OF _ report_commands(2)])
    (auto simp: cmd_list_queues_def listed_rows raised_def split: prod.splits)

lemma consumers_reply: "sync_list_consumers other ou s = (Inr rows, s') \<Longrightarrow> rows = fst (list_consumers_report (snd s))"
  unfolding sync_list_consumers_def
  by (erule call_ofE [OF _ report_commands(3)])
    (auto simp: cmd_list_consumers_def listed_rows raised_def split: prod.splits)

lemma channels_reply: "sync_list_channels other ou s = (Inr rows, s') \<Longrightarrow> \<exists>rs. rows = map channel_row rs"
  unfolding sync_list_channels_def
  by (erule call_ofE [OF _ report_commands(4)])
    (auto simp: cmd_list_channels_def listed_rows raised_def split: prod.splits)

lemma dlq_reply:
  assumes "sync_dlq_info other ou n s = (Inr info, s')"
  shows "\<exists>ms. jget ''messages'' info = JList (map dlq_message_json ms)"
proof -
  obtain reply where reply: "cmd_dlq_info ou 1 (call_meta (dlq_info_call n)) (call_payload (dlq_info_call n)) s = (Inr reply, s')"
    "report_result (of_meta reply) = info" "truthy (jget ''ok'' (of_meta reply))"
    using assms unfolding sync_dlq_info_def by (elim call_ofE [OF _ report_commands(5)]) auto
  then obtain r where "reply = ok_reply 1 (dlq_report_json r) []"
    using error_not_ok [of 1 "''NOT_FOUND''" "''queue not found''"]
    by (auto simp: cmd_dlq_info_def split: prod.splits option.splits)
  then show ?thesis unfolding reply(2) [symmetric]
    by (auto simp: report_result_def ok_reply_def response_meta_def dict_merge_def dlq_report_json_def jget_def)
qed

definition countable :: "dict \<Rightarrow> bool" where
  "countable d \<longleftrightarrow>
     (\<exists>r. map_of d ''uptime'' = Some (JFloat r)) \<and>
     list_all (\<lambda>k. \<exists>n. map_of d k = Some (jnat n))
       [''connections'', ''consumers'', ''queues'', ''channels'', ''published'', ''delivered'', ''acked'', ''nacked'']"

lemma map_of_merge: "map_of (dict_merge base extra) k = map_of (rev extra @ base) k"
  by (induction extra arbitrary: base) (auto simp: dict_merge_def map_add_def split: option.splits)

lemma map_of_report: "k \<noteq> ''ok'' \<Longrightarrow> map_of (report_result d) k = map_of d k"
  by (induction d) (auto simp: report_result_def)

lemma stats_countable: "countable (fst (broker_stats now n m b))"
  by (simp add: countable_def broker_stats_def Let_def split: prod.splits)

lemma map_of_broker_stats: "map_of (rev (fst (broker_stats now n m b))) k = map_of (fst (broker_stats now n m b)) k"
  by (simp add: broker_stats_def Let_def split: prod.splits)

lemma stats_reply:
  assumes "sync_stats other ou s = (Inr report, s')"
  shows "countable report"
proof -
  obtain reply where "cmd_stats ou 1 (call_meta stats_call) (call_payload stats_call) s = (Inr reply, s')"
    "report_result (of_meta reply) = report"
    using assms unfolding sync_stats_def by (elim call_ofE [OF _ report_commands(1)]) auto
  then have "report = report_result (response_meta True
      (fst (broker_stats (ou_now ou) (ou_aof_size ou) (ou_snap_size ou) (snd s))) None None)"
    by (auto simp: cmd_stats_def ok_reply_def split: prod.splits)
  then show ?thesis using stats_countable [of "ou_now ou" "ou_aof_size ou" "ou_snap_size ou" "snd s"]
    by (auto simp: countable_def map_of_report response_meta_def map_of_merge map_of_broker_stats map_add_def)
qed

section \<open>Every report is printed\<close>

definition queue_row_line :: "queue_report \<Rightarrow> string" where
  "queue_row_line r =
     join '' '' [ljust 24 (qr_name r), rjust 8 (int_text (int (qr_ready r))), rjust 8 (int_text (int (qr_inflight r))),
                 rjust 8 (int_text (int (qr_delayed r))), rjust 8 (int_text (int (qr_dlq r)))]"

lemma queue_row_printed: "table_row other QUEUE_COLUMNS (JObj (queue_report_json r)) = Inr (queue_row_line r)"
  by (simp add: table_row_def QUEUE_COLUMNS_def queue_report_json_def queue_row_line_def)

lemma top_row_printed: "\<exists>l. table_row other TOP_COLUMNS (JObj (queue_report_json r)) = Inr l"
  by (simp add: table_row_def TOP_COLUMNS_def queue_report_json_def)

lemma joined_strings: "joined (map JStr ss) = Inr ss"
  by (induction ss) simp_all

lemma consumer_row_printed: "\<exists>l. consumer_line other (consumer_row now c) = Inr l"
  by (simp add: consumer_line_def consumer_row_def or_empty_def joined_strings table_row_def CONSUMER_COLUMNS_def)

lemma channel_row_printed: "\<exists>l. table_row other CHANNEL_COLUMNS (channel_row r) = Inr l"
  by (simp add: table_row_def CHANNEL_COLUMNS_def channel_row_def)

lemma dlq_line_printed: "\<exists>l. dlq_line other (dlq_message_json m) = Inr l"
  by (simp add: dlq_line_def dlq_message_json_def)

lemma rows_printed: "(\<And>x. x \<in> set rows \<Longrightarrow> \<exists>l. f x = Inr l) \<Longrightarrow> snd (print_rows f rows) = None"
  by (induction rows) (fastforce split: sum.splits prod.splits)+

lemma rows_printed_map: "(\<And>x. f (g x) = Inr (h x)) \<Longrightarrow> print_rows f (map g xs) = (map h xs, None)"
  by (induction xs) simp_all

lemma table_printed: "snd (print_table f header rows) = snd (print_rows f rows)"
  by (simp add: print_table_def split: prod.splits)

definition queue_reports :: "broker \<Rightarrow> queue_report list" where
  "queue_reports b = List.map_filter (\<lambda>n. queue_info n (br_engine b)) (list_queues (br_engine b))"

lemma list_queues_rows: "list_queues_report b = map (\<lambda>r. JObj (queue_report_json r)) (queue_reports b)"
  by (auto simp: list_queues_report_def queue_reports_def List.map_filter_def comp_def)

text \<open>A command that has printed all or has failed with the error of its request.\<close>

definition whole :: "printout \<times> peer \<Rightarrow> bool" where
  "whole r = (case snd (fst r) of None \<Rightarrow> True | Some (Client_error err) \<Rightarrow> True | _ \<Rightarrow> False)"

lemma reported_whole:
  "(\<And>x s'. r = (Inr x, s') \<Longrightarrow> snd (f x) = None) \<Longrightarrow> whole (reported r f)"
  by (auto simp: reported_def whole_def split: prod.splits sum.splits)

lemma reports_whole:
  "whole (print_stats other ou s)" "whole (print_queues other ou s)" "whole (print_queue other ou n s)"
  "whole (print_consumers other ou s)" "whole (print_channels other ou s)" "whole (print_dlq other ou n k s)"
proof -
  show "whole (print_stats other ou s)" unfolding print_stats_def by (rule reported_whole) (simp add: Let_def)
  show "whole (print_queues other ou s)" unfolding print_queues_def
  proof (rule reported_whole)
    fix x s' assume "sync_list_queues other ou s = (Inr x, s')"
    then show "snd (print_table (table_row other QUEUE_COLUMNS) (table_header QUEUE_COLUMNS) x) = None"
      by (auto simp: list_queues_rows table_printed rows_printed_map queue_row_printed dest!: queues_reply)
  qed
  show "whole (print_queue other ou n s)" unfolding print_queue_def by (rule reported_whole) simp
  show "whole (print_consumers other ou s)" unfolding print_consumers_def
  proof (rule reported_whole)
    fix x s' assume "sync_list_consumers other ou s = (Inr x, s')"
    then show "snd (print_table (consumer_line other) (table_header CONSUMER_COLUMNS) x) = None"
      unfolding table_printed
      by (intro rows_printed) (auto simp: list_consumers_report_def consumer_row_printed dest!: consumers_reply split: prod.splits)
  qed
  show "whole (print_channels other ou s)" unfolding print_channels_def
  proof (rule reported_whole)
    fix x s' assume "sync_list_channels other ou s = (Inr x, s')"
    then show "snd (print_table (table_row other CHANNEL_COLUMNS) (table_header CHANNEL_COLUMNS) x) = None"
      unfolding table_printed by (intro rows_printed) (auto simp: channel_row_printed dest!: channels_reply)
  qed
  show "whole (print_dlq other ou n k s)"
  proof (cases "given k")
    case True
    then show ?thesis by (simp add: print_dlq_def reported_whole)
  next
    case False
    have "snd (case or_empty (jget ''messages'' info) of Inl err \<Rightarrow> ([dlq_head other info], Some err)
        | Inr ms \<Rightarrow> print_table (dlq_line other) (dlq_head other info) ms) = None"
      if reply: "sync_dlq_info other ou n s = (Inr info, s')" for info s'
    proof -
      obtain ms where ms: "jget ''messages'' info = JList (map dlq_message_json ms)" using dlq_reply [OF reply] by blast
      have "snd (print_rows (dlq_line other) (map dlq_message_json ms)) = None"
        by (rule rows_printed) (auto simp: dlq_line_printed)
      then show ?thesis by (simp add: ms or_empty_def table_printed)
    qed
    then have "whole (reported (sync_dlq_info other ou n s)
        (\<lambda>info. case or_empty (jget ''messages'' info) of
            Inl err \<Rightarrow> ([dlq_head other info], Some err)
          | Inr ms \<Rightarrow> print_table (dlq_line other) (dlq_head other info) ms))"
      by (rule reported_whole)
    then show ?thesis using False by (simp only: print_dlq_def if_False)
  qed
qed

lemma rate_printed:
  assumes "countable report" "\<forall>old. prev = Some old \<longrightarrow> countable old" "interval \<noteq> 0"
    and "k \<in> {''published'', ''delivered'', ''acked'', ''nacked''}"
  shows "\<exists>r. rate report prev interval k = Inr r"
proof (cases prev)
  case (Some old)
  have "\<exists>n. value_or (JInt 0) k report = jnat n" "\<exists>n. value_or (JInt 0) k old = jnat n"
    using assms Some by (auto simp: countable_def value_or_def)
  then show ?thesis using Some assms(3) by (auto simp: rate_def)
qed (simp add: rate_def)

lemma queue_lines_printed: "\<exists>ls. queue_lines other (map (\<lambda>r. JObj (queue_report_json r)) rs) = Inr ls"
proof (induction rs)
  case (Cons r rs)
  have "dlq_row other (JObj (queue_report_json r)) = Inr (ends_with (qr_name r) ''.DLQ'')"
    by (simp add: dlq_row_def queue_report_json_def py_str_def)
  then show ?case using Cons top_row_printed [of other r] by auto
qed simp

lemma each_printed: "(\<And>x. x \<in> set xs \<Longrightarrow> \<exists>y. f x = Inr y) \<Longrightarrow> \<exists>ys. each f xs = Inr ys"
proof (induction xs)
  case (Cons x xs)
  then obtain y ys where "f x = Inr y" "each f xs = Inr ys" by (meson list.set_intros)
  then show ?case by simp
qed simp

lemma counts_printed:
  assumes "countable report"
  shows "\<exists>cs. each (\<lambda>(title, k). and_then (cell other (rjust 6) (value_or (JInt 0) k report)) (\<lambda>c. Inr (title @ c))) TOP_COUNTS = Inr cs"
proof (rule each_printed)
  fix x assume "x \<in> set TOP_COUNTS"
  then obtain title k where x: "x = (title, k)" "k \<in> {''connections'', ''consumers'', ''queues'', ''channels''}"
    by (cases x) (auto simp: TOP_COUNTS_def)
  then have "\<exists>n. value_or (JInt 0) k report = jnat n" using assms by (auto simp: countable_def value_or_def)
  then show "\<exists>y. (\<lambda>(title, k). and_then (cell other (rjust 6) (value_or (JInt 0) k report)) (\<lambda>c. Inr (title @ c))) x = Inr y"
    by (auto simp: x(1))
qed

lemma rates_printed:
  assumes "countable report" "\<forall>old. prev = Some old \<longrightarrow> countable old" "interval \<noteq> 0"
  shows "\<exists>rt. each (\<lambda>(title, k). and_then (rate report prev interval k) (\<lambda>r. Inr (title @ rjust 10 r))) TOP_RATES = Inr rt"
proof (rule each_printed)
  fix x assume "x \<in> set TOP_RATES"
  then obtain title k where x: "x = (title, k)" "k \<in> {''published'', ''delivered'', ''acked'', ''nacked''}"
    by (cases x) (auto simp: TOP_RATES_def)
  then obtain r where "rate report prev interval k = Inr r" using rate_printed [OF assms] by blast
  then show "\<exists>y. (\<lambda>(title, k). and_then (rate report prev interval k) (\<lambda>r. Inr (title @ rjust 10 r))) x = Inr y"
    by (simp add: x(1))
qed

lemma screen_printed:
  assumes "countable report" "\<forall>old. prev = Some old \<longrightarrow> countable old" "interval \<noteq> 0"
  shows "\<exists>ls. screen other bar version report (map (\<lambda>r. JObj (queue_report_json r)) rs) prev interval = Inr ls"
proof -
  obtain r where "jget ''uptime'' report = JFloat r" using assms(1) by (auto simp: countable_def jget_def)
  then have up: "(if truthy (jget ''uptime'' report) then py_float (jget ''uptime'' report) else Inr 0) = Inr r"
    by (cases "r = 0") simp_all
  obtain cs where cs: "each (\<lambda>(title, k). and_then (cell other (rjust 6) (value_or (JInt 0) k report)) (\<lambda>c. Inr (title @ c)))
      TOP_COUNTS = Inr cs" using counts_printed [OF assms(1)] by blast
  obtain rt where rt: "each (\<lambda>(title, k). and_then (rate report prev interval k) (\<lambda>r. Inr (title @ rjust 10 r))) TOP_RATES = Inr rt"
    using rates_printed [OF assms] by blast
  obtain ls where "queue_lines other (map (\<lambda>r. JObj (queue_report_json r)) rs) = Inr ls" using queue_lines_printed by blast
  then show ?thesis by (simp only: screen_def up cs rt and_then.simps) blast
qed

lemma top_whole:
  "0 < interval \<Longrightarrow> \<forall>old. prev = Some old \<longrightarrow> countable old \<Longrightarrow>
   whole (run_top other bar version interval prev rounds s)"
proof (induction rounds arbitrary: prev s)
  case Nil
  then show ?case by (simp add: whole_def)
next
  case (Cons o1o2 rounds)
  obtain o1 o2 where o: "o1o2 = (o1, o2)" by (cases o1o2)
  obtain r1 s1 where r1: "sync_stats other o1 s = (r1, s1)" by (cases "sync_stats other o1 s")
  show ?case
  proof (cases r1)
    case (Inl err)
    then show ?thesis by (simp add: o r1 whole_def)
  next
    case (Inr report)
    obtain r2 s2 where r2: "sync_list_queues other o2 s1 = (r2, s2)" by (cases "sync_list_queues other o2 s1")
    show ?thesis
    proof (cases r2)
      case (Inl err)
      then show ?thesis using Inr by (simp add: o r1 r2 whole_def)
    next
      case rows: (Inr listed)
      have good: "countable report" using stats_reply r1 Inr by simp
      obtain ls where ls: "screen other bar version report listed prev interval = Inr ls"
        using screen_printed [OF good Cons.prems(2), of interval other bar version "queue_reports (snd s1)"] Cons.prems(1)
          queues_reply [of other o2 s1 listed s2] r2 rows by (auto simp: list_queues_rows)
      have "whole (run_top other bar version interval (Some report) rounds s2)"
        using Cons.IH [of "Some report" s2] Cons.prems(1) good by simp
      then show ?thesis using Cons.prems(1) Inr rows ls
        by (cases "run_top other bar version interval (Some report) rounds s2")
          (auto simp: o r1 r2 Let_def whole_def)
    qed
  qed
qed

text \<open>\<open>int\<close> reads back what a column shows of a number.\<close>

lemma digit_char:
  assumes "n < 10"
  shows "(of_char (char_of (48 + n :: nat)) :: nat) = 48 + n" "(of_char (char_of (48 + n :: nat)) :: int) = 48 + int n"
proof -
  show n: "(of_char (char_of (48 + n :: nat)) :: nat) = 48 + n" using assms by (simp add: of_char_of)
  have "(of_char (char_of (48 + n :: nat)) :: int) = int (of_char (char_of (48 + n :: nat)))" by (rule of_nat_of_char [symmetric])
  then show "(of_char (char_of (48 + n :: nat)) :: int) = 48 + int n" unfolding n by simp
qed

lemma digits_snoc: "digits s = Some i \<Longrightarrow> n < 10 \<Longrightarrow> digits (s @ [char_of (48 + n :: nat)]) = Some (10 * i + int n)"
  using digit_char [of n] by (simp add: digits_def split: if_splits)

lemma digits_nat_text: "digits (nat_text n) = Some (int n)"
proof (induction n rule: nat_text.induct)
  case (1 n)
  show ?case
  proof (cases "n < 10")
    case True
    then show ?thesis using digit_char [OF True] by (simp add: digits_def nat_text.simps)
  next
    case False
    then have "digits (nat_text (n div 10) @ [char_of (48 + n mod 10)]) = Some (10 * int (n div 10) + int (n mod 10))"
      using 1 by (intro digits_snoc) simp_all
    moreover have "10 * int (n div 10) + int (n mod 10) = int n" by presburger
    ultimately show ?thesis using False by (subst nat_text.simps) simp
  qed
qed

lemma nat_text_first: "\<exists>c cs. nat_text n = c # cs \<and> c \<noteq> CHR ''-'' \<and> c \<noteq> CHR ''+''"
proof -
  have s: "nat_text n \<noteq> []" "list_all (\<lambda>c. 48 \<le> (of_char c :: nat) \<and> (of_char c :: nat) \<le> 57) (nat_text n)"
    using digits_nat_text [of n] by (auto simp: digits_def split: if_splits)
  then obtain c cs where c: "nat_text n = c # cs" by (cases "nat_text n") auto
  then have "48 \<le> (of_char c :: nat)" using s(2) by simp
  moreover have "(of_char CHR ''-'' :: nat) < 48" "(of_char CHR ''+'' :: nat) < 48" by code_simp+
  ultimately have "c \<noteq> CHR ''-''" "c \<noteq> CHR ''+''" by auto
  then show ?thesis using c by blast
qed

lemma int_text_roundtrip: "decimal (int_text i) = Some i"
proof (cases "i < 0")
  case True
  then show ?thesis by (simp add: int_text_def decimal_def digits_nat_text)
next
  case False
  obtain c cs where c: "nat_text (nat i) = c # cs" "c \<noteq> CHR ''-''" "c \<noteq> CHR ''+''" using nat_text_first by blast
  then have "decimal (nat_text (nat i)) = digits (nat_text (nat i))" by (simp add: decimal_def)
  then show ?thesis using False by (simp add: int_text_def digits_nat_text)
qed

text \<open>With \<open>--interval 0\<close> the second round of \<open>top\<close> divides by zero.\<close>

lemma zero_interval_fails:
  assumes "countable report" "countable old"
  shows "rate report (Some old) 0 ''published'' = Inl Zero_division"
  using assms by (auto simp: rate_def countable_def value_or_def)

text \<open>C39. A report of the command line is whole: whatever the broker holds, each command - \<open>top\<close> with a positive
  interval - ends with everything printed or with the error of one of its requests, and never because a
  reply lacks a field or has one that its column cannot show. \<open>queues\<close> then has printed its header and, for every queue of the broker, a line with
  its name and its counts.\<close>

theorem cli_reports_complete:
  assumes "ca_command args \<in> {''stats'', ''queues'', ''queue'', ''consumers'', ''channels'', ''dlq'', ''top''}"
    and "ca_command args = ''top'' \<longrightarrow> 0 < ca_interval args" "cli_main other bar version ou rounds args s = ((ls, err), s')"
  shows "(err = None \<or> (\<exists>e. err = Some (Client_error e))) \<and>
    (ca_command args = ''queues'' \<and> err = None \<longrightarrow>
       ls = table_header QUEUE_COLUMNS # map queue_row_line (queue_reports (snd s)))"
proof
  have "whole (cli_main other bar version ou rounds args s)"
    using assms(1,2) by (auto simp: cli_main_def Let_def reports_whole top_whole)
  then show "err = None \<or> (\<exists>e. err = Some (Client_error e))"
    unfolding assms(3) whole_def by (auto split: option.splits cli_error.splits)
  show "ca_command args = ''queues'' \<and> err = None \<longrightarrow>
      ls = table_header QUEUE_COLUMNS # map queue_row_line (queue_reports (snd s))"
  proof
    assume q: "ca_command args = ''queues'' \<and> err = None"
    then have "reported (sync_list_queues other ou s) (print_table (table_row other QUEUE_COLUMNS) (table_header QUEUE_COLUMNS)) =
        ((ls, None), s')"
      using assms(3) by (simp add: cli_main_def print_queues_def)
    then obtain rows where rows: "sync_list_queues other ou s = (Inr rows, s')"
      "print_table (table_row other QUEUE_COLUMNS) (table_header QUEUE_COLUMNS) rows = (ls, None)"
      by (auto simp: reported_def split: prod.splits sum.splits)
    then show "ls = table_header QUEUE_COLUMNS # map queue_row_line (queue_reports (snd s))"
      using queues_reply [OF rows(1)]
      by (auto simp: print_table_def list_queues_rows rows_printed_map queue_row_printed)
  qed
qed

definition demo_queues_args :: cli_args where
  "demo_queues_args =
     \<lparr>ca_command = ''queues'', ca_host = ''127.0.0.1'', ca_port = 6380, ca_token = None, ca_tls = False, ca_tls_ca = None,
      ca_tls_insecure = False, ca_name = '''', ca_queue = '''', ca_requeue = None, ca_interval = 1\<rparr>"

theorem cli_reports_complete_witness:
  "fst (cli_main demo_str CHR ''-'' ''1'' demo_outside [] demo_queues_args (new_context ''x'', demo_work)) =
     (table_header QUEUE_COLUMNS # map queue_row_line (queue_reports demo_work), None) \<and>
   map queue_row_line (queue_reports demo_work) \<noteq> []"
proof -
  obtain ls err s' where r: "cli_main demo_str CHR ''-'' ''1'' demo_outside [] demo_queues_args (new_context ''x'', demo_work) = ((ls, err), s')"
    by (metis prod.exhaust)
  have "map_option (\<lambda>_. ()) (snd (fst (cli_main demo_str CHR ''-'' ''1'' demo_outside [] demo_queues_args (new_context ''x'', demo_work)))) = None"
    by code_simp
  then have e: "err = None" by (simp add: r)
  have c: "ca_command demo_queues_args = ''queues''" by (simp add: demo_queues_args_def)
  have "map qr_name (queue_reports demo_work) \<noteq> []" by code_simp
  then show ?thesis
    using cli_reports_complete [of demo_queues_args demo_str "CHR ''-''" "''1''" demo_outside "[]" "(new_context ''x'', demo_work)" ls err s']
      c r e by simp
qed

end
