(* ===== verification/Spec2Isabelle.thy ===== *)
theory Spec2Isabelle
  imports Consumers Routing Frames Records Server Aof Lifetimes Replies Kombu Config Cli
begin

text \<open>
  OneOpen Broker: a message broker in one Python process, with durable queues, direct and fanout exchanges, consumers
  with prefetch, publish/subscribe channels, an append-only log with snapshots, and a client library. This
  development models the program under \<open>src/oneopen_broker/\<close> as HOL functions and step relations and proves what
  its parts promise each other.

  \<^bold>\<open>How the program works.\<close> A client writes frames (\<open>protocol/\<close>); a session of the server (\<open>broker/server.py\<close>) reads
  them, checks the access rights and runs the command (\<open>broker/handler.py\<close>) against the runtime
  (\<open>broker/runtime.py\<close>): the queue engine (\<open>core/queue.py\<close>), the routing tables (\<open>core/routing.py\<close>), the consumers
  (\<open>core/consumers.py\<close>) and the channels (\<open>pubsub/channels.py\<close>). Engine and routing append what they do to a
  journal, which \<open>persistence/aof.py\<close> writes to the log. Deliveries go out as events through the bounded queue of
  a connection. A starting broker reads the last snapshot and replays the log (\<open>persistence/recovery.py\<close>).

  \<^bold>\<open>The theories\<close>, in the order in which they build on each other:
  \<^item> \<open>Prelude\<close>: Python values (exceptions, JSON, dictionaries as association lists that keep their order) and the
    lemmas about them. \<open>Machine\<close>: reachability and the locale \<open>step_invariant\<close>, which every component with a step
    relation interprets.
  \<^item> \<open>Message\<close> (\<open>core/message.py\<close>, \<open>inflight.py\<close>, \<open>results.py\<close>, \<open>dlq.py\<close>, \<open>retry.py\<close>), \<open>Heapq\<close> (the standard
    \<open>heapq\<close>, with the locale \<open>min_heap\<close>), \<open>Delayed\<close> (\<open>core/delayed.py\<close>).
  \<^item> The queue engine, \<open>core/queue.py\<close>: \<open>Engine\<close> has its state (\<open>dqueue\<close> for a queue, \<open>engine\<close> for the tables and
    heaps they share) and one definition per method; \<open>EngineInv\<close> its invariant \<open>engine_inv\<close>; \<open>EngineOps\<close> and
    \<open>EngineSweeps\<close> its preservation; \<open>EngineReach\<close> the step relation. \<open>Queues\<close>, \<open>Delivery\<close>, \<open>Failure\<close> and \<open>Timing\<close> say
    what the operations do: where a message is put, which one \<open>reserve\<close> delivers, what becomes of a failed one,
    what the sweeps by time take. \<open>Snapshot\<close>: its state saved and restored.
  \<^item> \<open>Consumers\<close> (\<open>core/consumers.py\<close>, \<open>core/qos.py\<close>): registration, prefetch, round robin.
    \<open>Routing\<close> (\<open>core/exchange.py\<close>, \<open>bindings.py\<close>, \<open>routing.py\<close>). \<open>PubSub\<close> (\<open>pubsub/channels.py\<close>), with the set of
    subscriptions it implements. \<open>Security\<close> (\<open>security/auth.py\<close>, \<open>acl.py\<close>).
  \<^item> \<open>Bytes\<close> (Python's \<open>struct\<close> and \<open>zlib.crc32\<close>, and the locales \<open>record_codec\<close> and \<open>canonical_codec\<close> of a
    stream of records), \<open>Frames\<close> (\<open>protocol/frames.py\<close>, \<open>codec.py\<close>), \<open>Records\<close> (\<open>persistence/records.py\<close> and the scan
    of the log); both interpret the locales.
  \<^item> \<open>Broker\<close> (\<open>broker/runtime.py\<close>, \<open>monitoring/\<close>), \<open>Handler\<close> (\<open>broker/handler.py\<close>), \<open>BrokerInv\<close> (the invariant of
    the whole broker under every command), \<open>Access\<close> (sessions and access rights), \<open>Replies\<close> (the shape of
    replies), \<open>Server\<close> (\<open>broker/server.py\<close>: connections, sessions, writer, ticker, stop).
  \<^item> \<open>Aof\<close> (\<open>persistence/aof.py\<close>: the writer with its queue, batches and syncs), \<open>Recovery\<close>
    (\<open>persistence/recovery.py\<close> and the start of \<open>broker/lifecycle.py\<close>), \<open>Replay\<close> (the log as a protocol between the
    running and the recovering broker), \<open>SnapshotFile\<close> (\<open>persistence/snapshot.py\<close> and the restart from it).
  \<^item> \<open>Evolution\<close> (each step of the server is a series of operations of the two engines, and each request of a client
    those its command asks for, followed by deliveries), \<open>Lifecycle\<close>
    (\<open>broker/lifecycle.py\<close>: server, log and snapshot file as one process that serves, stops, crashes and starts
    again, with its invariant), \<open>Lifetimes\<close> (what holds over all its lifetimes).
  \<^item> \<open>Client\<close> (\<open>client/connection.py\<close>), \<open>AsyncClient\<close> (\<open>client/async_client.py\<close>),
    \<open>SyncClient\<close> (\<open>client/sync_client.py\<close>: its calls, and the event loop on which they wait), \<open>Kombu\<close>
    (\<open>kombu_transport/transport.py\<close>), \<open>Config\<close> (\<open>broker/config.py\<close> and the start command of \<open>cli/main.py\<close>),
    \<open>Cli\<close> (the other commands of \<open>cli/\<close>, to the lines they print).

  \<^bold>\<open>Conventions.\<close> A class is a record, a method a definition with its name from the state to the state (and the
  result). Exceptions and \<open>None\<close> are values of a sum or an option type. Python's integers are \<open>int\<close> or, where
  they cannot be negative, \<open>nat\<close>; the fields of frames and records have the widths \<open>struct\<close> gives them, and a
  value that does not fit raises. Strings are lists of 8-bit characters. Floats are reals. The wall clock is a stream of readings in the engine
  (\<open>read_clock\<close>) or an argument (\<open>outside\<close>); ids from \<open>uuid\<close> are arguments. Where the code iterates over a Python
  \<open>set\<close>, the order is a parameter about which only the elements are assumed. \<open>json.dumps\<close>, \<open>json.loads\<close> and
  \<open>yaml.safe_load\<close> are parameters; a theorem that needs them to read back what was written says so of the objects
  concerned. A coroutine is cut at its awaits: what runs between two of them is one step, and the steps of different
  coroutines may come in any order.

  \<^bold>\<open>What the lemmas show.\<close> In every reachable engine no stored message is lost from sight: it is ready, delayed or in
  flight. Delivery is in order of priority and age, takes each message once, respects prefetch and ends. A failed
  message is retried after its delay or moved to its dead-letter queue with its content. Publications reach the
  bound queues. Frames and records survive any chunking, corrupted ones are refused, and of a log cut off anywhere
  exactly the complete records are read. Records that were acknowledged are in the file after a crash, and after any number of further crashes and
  restarts; a broker can always be started again on what it has left; a clean stop keeps every message. Every
  reachable server keeps its limits and the invariants of its parts; requests a role does not permit have no effect, and after five failures in a row the session ends;
  each request of a client has the effect of its command and ends once, with the reply of the handler, over any
  chunking in both directions; a call of the synchronous client that has timed out still takes the delivery it
  waited for. Every configuration that loads is valid (users set by an override aside), and each setting outside the
  security section has the value of the source with the highest precedence.
  The reports of the command line are printed whole.
  Where the proofs have found the code to do something else than it says, the theorem states what it does.

  \<^bold>\<open>Termination.\<close> The loops of the code are recursive functions with termination proofs (the pump and the drain by the
  ready messages, the readers by the bytes left); there is no fuel but in the purge of \<open>Kombu\<close>, whose loop other
  clients can keep going: it bounds the rounds.

  \<^bold>\<open>Not modelled.\<close> Sockets, TLS (\<open>security/tls.py\<close>) and the opening of connections; logging; the signal handlers, whose
  only effect is the step that asks a process to stop; the thread of the synchronous client and its generator around
  \<open>subscribe\<close>, which forwards to that of \<open>AsyncClient\<close>; the
  virtual channel of Kombu, which is not in the repository; the argument parser of the command line.
  They are input and output around the modelled core, or code of other packages. Ill-typed JSON arguments of a request
  (\<open>Broker\<close>), journal entries that cannot be encoded (\<open>Lifecycle\<close>), the cancellation of a waiting request by its caller
  (\<open>Client\<close>) and errors of the file system are left out as well.
\<close>

end
